(* ===== verification/Prelude.thy ===== *)
theory Prelude
  imports Complex_Main "HOL-Library.AList" "HOL-Library.Sublist" "HOL-Library.List_Lexorder"
    "HOL-Library.Char_ord"
begin

text \<open>
  What every component theory shares: the names of the model's basic types, the parts of
  the JavaScript standard library that the program uses on strings and lists (split,
  join, startsWith, padStart, decimal printing), the character classes of its regular
  expressions, and the lemma collections that carry the component proofs.

  A JavaScript string is a list of code units; the model's \<open>string\<close> has units below 256.
  A JavaScript object used as a dictionary, and a \<open>Map\<close>, keep insertion order: both are
  association lists, written with \<open>AList.update\<close> (which overwrites in place or appends)
  and read with \<open>map_of\<close>. A timestamp or a duration in milliseconds is an \<open>int\<close>. A call that
  throws returns \<open>Inl\<close> of the error.
\<close>

named_theorems path_simps \<open>facts about building and splitting backend paths\<close>
named_theorems frame_simps \<open>fields an operation does not write\<close>
named_theorems inv_intros \<open>operations that keep a component's invariant\<close>

type_synonym ms = int
type_synonym 'v dict = "(string \<times> 'v) list"

section \<open>Results\<close>

definition is_ok :: "'e + 'a \<Rightarrow> bool" where
  "is_ok r = (case r of Inl _ \<Rightarrow> False | Inr _ \<Rightarrow> True)"

lemma is_ok_simps [simp]: "is_ok (Inr x)" "\<not> is_ok (Inl e)"
  by (simp_all add: is_ok_def)

lemma is_ok_iff: "is_ok r \<longleftrightarrow> (\<exists>x. r = Inr x)"
  by (cases r) simp_all

definition default_to :: "'a \<Rightarrow> 'a option \<Rightarrow> 'a" where
  "default_to d x = (case x of None \<Rightarrow> d | Some v \<Rightarrow> v)"

lemma default_to_simps [simp]: "default_to d None = d" "default_to d (Some v) = v"
  by (simp_all add: default_to_def)

section \<open>Durable files\<close>

text \<open>
  The outcome of the calls of one atomic write (write a temporary file, sync it, rename it
  over the target, sync the directory): all succeed; one fails before the rename, so the
  old content stays; or the directory sync after the rename fails, so the new content is in
  place and the call still throws. \<open>atomic_write\<close> gives whether the write returned and the
  content afterwards (\<open>None\<close>: there is no file).
\<close>

datatype io = IoOk | IoFailBefore | IoFailAfter

definition atomic_write :: "io \<Rightarrow> 'c \<Rightarrow> 'c option \<Rightarrow> bool \<times> 'c option" where
  "atomic_write io new old =
     (case io of IoOk \<Rightarrow> (True, Some new) | IoFailBefore \<Rightarrow> (False, old) | IoFailAfter \<Rightarrow> (False, Some new))"

lemma atomic_write_cases:
  assumes "atomic_write io new old = (ok, c)"
  shows "c = old \<or> c = Some new" "ok \<Longrightarrow> c = Some new"
  using assms by (cases io; simp add: atomic_write_def)+

section \<open>Characters\<close>

abbreviation code :: "char \<Rightarrow> nat" where "code c \<equiv> of_char c"

definition is_digit :: "char \<Rightarrow> bool" where
  "is_digit c = (48 \<le> code c \<and> code c \<le> 57)"

definition is_lower :: "char \<Rightarrow> bool" where
  "is_lower c = (97 \<le> code c \<and> code c \<le> 122)"

definition is_upper :: "char \<Rightarrow> bool" where
  "is_upper c = (65 \<le> code c \<and> code c \<le> 90)"

definition is_hex :: "char \<Rightarrow> bool" where
  "is_hex c = (is_digit c \<or> (97 \<le> code c \<and> code c \<le> 102))"

text \<open>The code units of \<open>\s\<close> and of \<open>String.prototype.trim\<close> below 256.\<close>

definition is_space :: "char \<Rightarrow> bool" where
  "is_space c = (code c \<in> {9, 10, 11, 12, 13, 32, 160})"

definition trim :: "string \<Rightarrow> string" where
  "trim s = rev (dropWhile is_space (rev (dropWhile is_space s)))"

text \<open>The character classes on the bits of a character, for evaluation.\<close>

lemma class_codes [code]:
  "is_lower (Char b0 b1 b2 b3 b4 b5 b6 b7) =
     (\<not> b7 \<and> b6 \<and> b5 \<and> (b0 \<or> b1 \<or> b2 \<or> b3 \<or> b4) \<and> \<not> (b4 \<and> b3 \<and> (b2 \<or> (b1 \<and> b0))))"
  "is_upper (Char b0 b1 b2 b3 b4 b5 b6 b7) =
     (\<not> b7 \<and> b6 \<and> \<not> b5 \<and> (b0 \<or> b1 \<or> b2 \<or> b3 \<or> b4) \<and> \<not> (b4 \<and> b3 \<and> (b2 \<or> (b1 \<and> b0))))"
  "is_digit (Char b0 b1 b2 b3 b4 b5 b6 b7) = (\<not> b7 \<and> \<not> b6 \<and> b5 \<and> b4 \<and> \<not> (b3 \<and> (b2 \<or> b1)))"
  "is_space (Char b0 b1 b2 b3 b4 b5 b6 b7) =
     (\<not> b6 \<and> \<not> b4 \<and> ((b5 \<and> \<not> (b0 \<or> b1 \<or> b2 \<or> b3)) \<or> (\<not> b7 \<and> \<not> b5 \<and> b3 \<and> (b0 \<or> b1 \<or> b2) \<and> \<not> (b2 \<and> b1))))"
  by (cases b0; cases b1; cases b2; cases b3; cases b4; cases b5; cases b6; cases b7;
      simp add: is_lower_def is_upper_def is_digit_def is_space_def)+

lemma is_hex_digit: "is_digit c \<Longrightarrow> is_hex c"
  by (simp add: is_hex_def)

section \<open>Splitting and joining strings\<close>

abbreviation slash :: char where "slash \<equiv> CHR ''/''"
abbreviation nl :: char where "nl \<equiv> CHR 0x0A"

text \<open>\<open>s.split(c)\<close> for a one-character separator: never the empty list.\<close>

fun split_on :: "char \<Rightarrow> string \<Rightarrow> string list" where
  "split_on c [] = [[]]"
| "split_on c (x # xs) =
     (if x = c then [] # split_on c xs
      else (case split_on c xs of [] \<Rightarrow> [[x]] | p # ps \<Rightarrow> (x # p) # ps))"

fun join_with :: "string \<Rightarrow> string list \<Rightarrow> string" where
  "join_with sep [] = []"
| "join_with sep [p] = p"
| "join_with sep (p # q # ps) = p @ sep @ join_with sep (q # ps)"

lemma split_on_not_Nil [simp]: "split_on c s \<noteq> []"
  by (induction s) (auto split: list.splits)

lemma split_on_no_sep: "c \<notin> set s \<Longrightarrow> split_on c s = [s]"
  by (induction s) auto

lemma split_on_append:
  "c \<notin> set p \<Longrightarrow> split_on c (p @ c # s) = p # split_on c s"
  by (induction p) auto

lemma join_split_on: "join_with [c] (split_on c s) = s"
proof (induction s)
  case (Cons x xs)
  then show ?case
    by (cases "split_on c xs" rule: list.exhaust; cases "tl (split_on c xs)")
      (auto split: list.splits)
qed simp

lemma split_on_pieces: "p \<in> set (split_on c s) \<Longrightarrow> c \<notin> set p"
  by (induction s arbitrary: p) (auto split: list.splits if_splits)

lemma join_with_Cons:
  "ps \<noteq> [] \<Longrightarrow> join_with sep (p # ps) = p @ sep @ join_with sep ps"
  by (cases ps) auto

lemma split_join:
  "ps \<noteq> [] \<Longrightarrow> (\<forall>p \<in> set ps. c \<notin> set p) \<Longrightarrow> split_on c (join_with [c] ps) = ps"
proof (induction ps)
  case (Cons p ps)
  then show ?case
    by (cases "ps = []") (auto simp: split_on_no_sep join_with_Cons split_on_append)
qed simp

lemma split_on_app:
  "split_on c (p @ s) = butlast (split_on c p) @ (last (split_on c p) @ hd (split_on c s)) # tl (split_on c s)"
proof (induction p)
  case (Cons x p)
  then show ?case
    by (cases "split_on c p") (auto split: list.splits)
qed (simp add: neq_Nil_conv)

lemma set_join_with:
  "set (join_with sep ps) \<subseteq> \<Union> (set ` set ps) \<union> set sep"
  by (induction sep ps rule: join_with.induct) auto

section \<open>Decimal numbers\<close>

definition digit_char :: "nat \<Rightarrow> char" where
  "digit_char d = char_of (48 + d)"

fun show_nat :: "nat \<Rightarrow> string" where
  "show_nat n = (if n < 10 then [digit_char n] else show_nat (n div 10) @ [digit_char (n mod 10)])"

declare show_nat.simps [simp del]

definition show_int :: "int \<Rightarrow> string" where
  "show_int i = (if i < 0 then CHR ''-'' # show_nat (nat (- i)) else show_nat (nat i))"

text \<open>Evaluation of the printed digits, for closed instances.\<close>

lemma digit_char_eval [simp]:
  "digit_char 0 = CHR ''0''" "digit_char (Suc 0) = CHR ''1''" "digit_char 1 = CHR ''1''"
  "digit_char 2 = CHR ''2''" "digit_char 3 = CHR ''3''" "digit_char 4 = CHR ''4''"
  "digit_char 5 = CHR ''5''" "digit_char 6 = CHR ''6''" "digit_char 7 = CHR ''7''"
  "digit_char 8 = CHR ''8''" "digit_char 9 = CHR ''9''"
  by (simp_all add: digit_char_def char_of_def bit_0 bit_Suc)

definition pad_start :: "nat \<Rightarrow> char \<Rightarrow> string \<Rightarrow> string" where
  "pad_start n c s = replicate (n - length s) c @ s"

lemma code_digit_char: "d < 10 \<Longrightarrow> code (digit_char d) = 48 + d"
  by (simp add: digit_char_def of_char_of)

lemma is_digit_digit_char: "d < 10 \<Longrightarrow> is_digit (digit_char d)"
  by (simp add: is_digit_def code_digit_char)

lemma show_nat_digits: "c \<in> set (show_nat n) \<Longrightarrow> is_digit c"
proof (induction n arbitrary: c rule: show_nat.induct)
  case (1 n)
  then show ?case
    by (auto simp: show_nat.simps [of n] is_digit_digit_char split: if_splits)
qed

lemma show_nat_not_Nil [simp]: "show_nat n \<noteq> []"
  by (simp add: show_nat.simps [of n])

text \<open>Reading digits back: the accumulator form a left-to-right scan computes.\<close>

fun read_digits :: "nat \<Rightarrow> string \<Rightarrow> nat" where
  "read_digits acc [] = acc"
| "read_digits acc (c # cs) = read_digits (10 * acc + (code c - 48)) cs"

lemma read_digits_append: "read_digits a (s @ t) = read_digits (read_digits a s) t"
  by (induction s arbitrary: a) auto

lemma read_show_nat: "read_digits 0 (show_nat n) = n"
proof (induction n rule: show_nat.induct)
  case (1 n)
  then show ?case
    by (auto simp: show_nat.simps [of n] read_digits_append code_digit_char)
qed

lemma show_nat_inj: "show_nat m = show_nat n \<longleftrightarrow> m = n"
  by (metis read_show_nat)

lemma read_digits_zeros: "read_digits 0 (replicate k (CHR ''0'') @ s) = read_digits 0 s"
  by (induction k) auto

lemma pad_start_inj:
  "pad_start k (CHR ''0'') (show_nat m) = pad_start k (CHR ''0'') (show_nat n) \<longleftrightarrow> m = n"
proof
  assume "pad_start k (CHR ''0'') (show_nat m) = pad_start k (CHR ''0'') (show_nat n)"
  then have "read_digits 0 (pad_start k (CHR ''0'') (show_nat m))
      = read_digits 0 (pad_start k (CHR ''0'') (show_nat n))"
    by simp
  then show "m = n"
    by (simp add: pad_start_def read_digits_zeros read_show_nat)
qed simp

lemma pad_start_digits: "c \<in> set (pad_start k (CHR ''0'') (show_nat n)) \<Longrightarrow> is_digit c"
  by (auto simp: pad_start_def dest: show_nat_digits) (simp_all add: is_digit_def)

section \<open>Lists and dictionaries\<close>

lemma filter_map_upd_frame:
  "(\<And>x. x \<in> set xs \<Longrightarrow> f (g x) = f x) \<Longrightarrow> map f (map g xs) = map f xs"
  by simp

lemma find_Some_in: "find P xs = Some x \<Longrightarrow> x \<in> set xs \<and> P x"
  by (auto simp: find_Some_iff)

lemma map_of_update [simp]: "map_of (AList.update k v al) = (map_of al)(k \<mapsto> v)"
  by (rule update_conv')

lemma map_of_delete [simp]: "map_of (AList.delete k al) = (map_of al)(k := None)"
  by (rule delete_conv')

end
