(* ===== verification/Json.thy ===== *)
theory Json
  imports Prelude
begin

text \<open>
  JSON values as the program uses them: \<open>JSON.stringify\<close> (compact), \<open>JSON.parse\<close>, and the
  canonical form of \<open>canonicalJson\<close> (src/domain/idempotency.ts). Numbers are the integers,
  which is what every numeric field the program itself writes holds; an object is its list
  of members in insertion order. \<open>parse_stringify\<close> is the round trip every durable file of
  the program rests on, and the injectivity of \<open>stringify\<close> follows from it.
\<close>

datatype json =
    JNull
  | JBool bool
  | JNum int
  | JStr string
  | JArr "json list"
  | JObj "(string \<times> json) list"

section \<open>JSON.stringify\<close>

definition hex_char :: "nat \<Rightarrow> char" where
  "hex_char d = (if d < 10 then char_of (48 + d) else char_of (87 + d))"

definition esc :: "char \<Rightarrow> string" where
  "esc c =
     (if c = CHR 0x22 then [CHR 0x5C, CHR 0x22]
      else if c = CHR 0x5C then [CHR 0x5C, CHR 0x5C]
      else if c = CHR 0x08 then [CHR 0x5C, CHR ''b'']
      else if c = CHR 0x09 then [CHR 0x5C, CHR ''t'']
      else if c = CHR 0x0A then [CHR 0x5C, CHR ''n'']
      else if c = CHR 0x0C then [CHR 0x5C, CHR ''f'']
      else if c = CHR 0x0D then [CHR 0x5C, CHR ''r'']
      else if code c < 32
        then [CHR 0x5C, CHR ''u'', CHR ''0'', CHR ''0'', hex_char (code c div 16), hex_char (code c mod 16)]
      else [c])"

definition quote :: "string \<Rightarrow> string" where
  "quote s = CHR 0x22 # concat (map esc s) @ [CHR 0x22]"

fun stringify :: "json \<Rightarrow> string" where
  "stringify JNull = ''null''"
| "stringify (JBool b) = (if b then ''true'' else ''false'')"
| "stringify (JNum n) = show_int n"
| "stringify (JStr s) = quote s"
| "stringify (JArr xs) = ''['' @ join_with '','' (map stringify xs) @ '']''"
| "stringify (JObj ms) =
     ''{'' @ join_with '','' (map (\<lambda>(k, v). quote k @ '':'' @ stringify v) ms) @ ''}''"

section \<open>JSON.parse\<close>

text \<open>
  Recursive descent over the remaining input. The fuel bounds the nesting and the number of
  members still to read; \<open>json_parse\<close> gives one unit per input character, and
  \<open>parse_stringify\<close> shows that this is enough for every printed value.
\<close>

definition is_ws :: "char \<Rightarrow> bool" where
  "is_ws c = (c \<in> {CHR '' '', CHR 0x09, CHR 0x0A, CHR 0x0D})"

abbreviation skip_ws :: "string \<Rightarrow> string" where
  "skip_ws \<equiv> dropWhile is_ws"

definition hex_val :: "char \<Rightarrow> nat option" where
  "hex_val c = (let n = code c in
     if 48 \<le> n \<and> n \<le> 57 then Some (n - 48)
     else if 97 \<le> n \<and> n \<le> 102 then Some (n - 87)
     else if 65 \<le> n \<and> n \<le> 70 then Some (n - 55)
     else None)"

definition unicode4 :: "char \<Rightarrow> char \<Rightarrow> char \<Rightarrow> char \<Rightarrow> char option" where
  "unicode4 a b c d =
     (case (hex_val a, hex_val b, hex_val c, hex_val d) of
        (Some 0, Some 0, Some x, Some y) \<Rightarrow> Some (char_of (16 * x + y))
      | _ \<Rightarrow> None)"

definition unesc :: "char \<Rightarrow> char option" where
  "unesc e =
     (if e = CHR 0x22 then Some (CHR 0x22)
      else if e = CHR 0x5C then Some (CHR 0x5C)
      else if e = CHR ''/'' then Some (CHR ''/'')
      else if e = CHR ''b'' then Some (CHR 0x08)
      else if e = CHR ''f'' then Some (CHR 0x0C)
      else if e = CHR ''n'' then Some (CHR 0x0A)
      else if e = CHR ''r'' then Some (CHR 0x0D)
      else if e = CHR ''t'' then Some (CHR 0x09)
      else None)"

text \<open>The characters of a string literal after its opening quote.\<close>

fun p_chars :: "string \<Rightarrow> (string \<times> string) option" where
  "p_chars [] = None"
| "p_chars (x # xs) =
     (if x = CHR 0x22 then Some ([], xs)
      else if x = CHR 0x5C then
        (case xs of
           e # r \<Rightarrow>
             (if e = CHR ''u'' then
                (case r of
                   a # b # c # d # r' \<Rightarrow>
                     (case unicode4 a b c d of
                        None \<Rightarrow> None
                      | Some ch \<Rightarrow> map_option (\<lambda>(s, t). (ch # s, t)) (p_chars r'))
                 | _ \<Rightarrow> None)
              else
                (case unesc e of
                   None \<Rightarrow> None
                 | Some ch \<Rightarrow> map_option (\<lambda>(s, t). (ch # s, t)) (p_chars r)))
         | [] \<Rightarrow> None)
      else if code x < 32 then None
      else map_option (\<lambda>(s, t). (x # s, t)) (p_chars xs))"

text \<open>A digit sequence without a leading zero, unless it is \<open>0\<close> itself.\<close>

definition p_nat :: "string \<Rightarrow> (nat \<times> string) option" where
  "p_nat s = (let ds = takeWhile is_digit s; r = dropWhile is_digit s in
     if ds = [] \<or> (hd ds = CHR ''0'' \<and> tl ds \<noteq> []) then None
     else Some (read_digits 0 ds, r))"

definition strip_prefix :: "string \<Rightarrow> string \<Rightarrow> string option" where
  "strip_prefix p s = (if take (length p) s = p then Some (drop (length p) s) else None)"

fun p_value :: "nat \<Rightarrow> string \<Rightarrow> (json \<times> string) option"
  and p_elems :: "nat \<Rightarrow> string \<Rightarrow> (json list \<times> string) option"
  and p_members :: "nat \<Rightarrow> (string \<times> json) list \<Rightarrow> string \<Rightarrow> ((string \<times> json) list \<times> string) option"
where
  "p_value 0 s = None"
| "p_value (Suc k) s =
     (case skip_ws s of
        [] \<Rightarrow> None
      | c # r \<Rightarrow>
          if c = CHR 0x22 then map_option (\<lambda>(t, u). (JStr t, u)) (p_chars r)
          else if c = CHR ''['' then
            (case skip_ws r of
               [] \<Rightarrow> None
             | d # u \<Rightarrow> if d = CHR '']'' then Some (JArr [], u)
                        else map_option (\<lambda>(xs, t). (JArr xs, t)) (p_elems k r))
          else if c = CHR ''{'' then
            (case skip_ws r of
               [] \<Rightarrow> None
             | d # u \<Rightarrow> if d = CHR ''}'' then Some (JObj [], u)
                        else map_option (\<lambda>(ms, t). (JObj ms, t)) (p_members k [] r))
          else if c = CHR ''-'' then map_option (\<lambda>(n, t). (JNum (- int n), t)) (p_nat r)
          else if is_digit c then map_option (\<lambda>(n, t). (JNum (int n), t)) (p_nat (c # r))
          else (case strip_prefix ''null'' (c # r) of
                  Some t \<Rightarrow> Some (JNull, t)
                | None \<Rightarrow>
            (case strip_prefix ''true'' (c # r) of
               Some t \<Rightarrow> Some (JBool True, t)
             | None \<Rightarrow>
                 map_option (\<lambda>t. (JBool False, t)) (strip_prefix ''false'' (c # r)))))"
| "p_elems 0 s = None"
| "p_elems (Suc k) s =
     (case p_value k s of
        None \<Rightarrow> None
      | Some (v, r) \<Rightarrow>
          (case skip_ws r of
             [] \<Rightarrow> None
           | d # u \<Rightarrow>
               if d = CHR '']'' then Some ([v], u)
               else if d = CHR '','' then map_option (\<lambda>(vs, t). (v # vs, t)) (p_elems k u)
               else None))"
| "p_members 0 acc s = None"
| "p_members (Suc k) acc s =
     (case skip_ws s of
        [] \<Rightarrow> None
      | q # r0 \<Rightarrow>
          if q \<noteq> CHR 0x22 then None
          else (case p_chars r0 of
             None \<Rightarrow> None
           | Some (key, r1) \<Rightarrow>
               (case skip_ws r1 of
                  [] \<Rightarrow> None
                | col # r2 \<Rightarrow>
                    if col \<noteq> CHR '':'' then None
                    else (case p_value k r2 of
                       None \<Rightarrow> None
                     | Some (v, r3) \<Rightarrow>
                         (case skip_ws r3 of
                            [] \<Rightarrow> None
                          | d # u \<Rightarrow>
                              let acc' = AList.update key v acc in
                              if d = CHR ''}'' then Some (acc', u)
                              else if d = CHR '','' then p_members k acc' u
                              else None)))))"

definition json_parse :: "string \<Rightarrow> json option" where
  "json_parse s =
     (case p_value (Suc (length s)) s of
        Some (v, r) \<Rightarrow> if skip_ws r = [] then Some v else None
      | None \<Rightarrow> None)"

text \<open>An object never holds a key twice: what every JavaScript object satisfies.\<close>

fun json_wf :: "json \<Rightarrow> bool" where
  "json_wf (JArr xs) = (\<forall>x \<in> set xs. json_wf x)"
| "json_wf (JObj ms) = (distinct (map fst ms) \<and> (\<forall>m \<in> set ms. json_wf (snd m)))"
| "json_wf _ = True"


section \<open>The round trip\<close>

subsection \<open>String literals\<close>

lemma esc_cases:
  "esc c = [c] \<and> c \<noteq> CHR 0x22 \<and> c \<noteq> CHR 0x5C \<and> \<not> code c < 32
   \<or> (\<exists>e. esc c = [CHR 0x5C, e] \<and> e \<noteq> CHR ''u'' \<and> unesc e = Some c)
   \<or> (code c < 32 \<and> esc c = [CHR 0x5C, CHR ''u'', CHR ''0'', CHR ''0'', hex_char (code c div 16), hex_char (code c mod 16)])"
  by (auto simp: esc_def unesc_def)

lemma hex_val_hex_char: "d < 16 \<Longrightarrow> hex_val (hex_char d) = Some d"
  by (auto simp: hex_val_def hex_char_def of_char_of Let_def)

lemma unicode4_code:
  "code c < 256 \<Longrightarrow> unicode4 (CHR ''0'') (CHR ''0'') (hex_char (code c div 16)) (hex_char (code c mod 16)) = Some c"
proof -
  have z: "hex_val (CHR ''0'') = Some 0" by (simp add: hex_val_def)
  assume "code c < 256"
  then have "code c div 16 < 16" "code c mod 16 < 16" by linarith+
  then show ?thesis
    by (simp add: unicode4_def z hex_val_hex_char mult.commute)
qed

lemma p_chars_esc:
  "p_chars (esc c @ t) = map_option (\<lambda>(s, u). (c # s, u)) (p_chars t)"
proof -
  consider (raw) "esc c = [c]" "c \<noteq> CHR 0x22" "c \<noteq> CHR 0x5C" "\<not> code c < 32"
    | (short) e where "esc c = [CHR 0x5C, e]" "e \<noteq> CHR ''u''" "unesc e = Some c"
    | (uni) "code c < 32" "esc c = [CHR 0x5C, CHR ''u'', CHR ''0'', CHR ''0'', hex_char (code c div 16), hex_char (code c mod 16)]"
    using esc_cases [of c] by blast
  then show ?thesis
  proof cases
    case uni
    then have "unicode4 (CHR ''0'') (CHR ''0'') (hex_char (code c div 16)) (hex_char (code c mod 16)) = Some c"
      by (intro unicode4_code) simp
    with uni show ?thesis by simp
  qed simp_all
qed

lemma p_chars_quote: "p_chars (concat (map esc s) @ CHR 0x22 # t) = Some (s, t)"
  by (induction s) (simp_all add: p_chars_esc)

subsection \<open>Numbers\<close>

definition stops :: "string \<Rightarrow> bool" where
  "stops r = (r = [] \<or> \<not> is_digit (hd r))"

lemma takeWhile_digits:
  assumes "\<forall>c \<in> set ds. is_digit c" and "stops r"
  shows "takeWhile is_digit (ds @ r) = ds" "dropWhile is_digit (ds @ r) = r"
proof -
  have "takeWhile is_digit r = []" "dropWhile is_digit r = r"
    using assms(2) by (cases r; simp add: stops_def)+
  with assms(1) show "takeWhile is_digit (ds @ r) = ds" "dropWhile is_digit (ds @ r) = r"
    by simp_all
qed

lemma show_nat_zero: "show_nat n = CHR ''0'' # ds \<Longrightarrow> n = 0"
proof (induction n arbitrary: ds rule: show_nat.induct)
  case (1 n)
  show ?case
  proof (cases "n < 10")
    case True
    then have "show_nat n = [digit_char n]" by (simp add: show_nat.simps)
    with "1.prems" have "digit_char n = CHR ''0''" by simp
    then have "code (digit_char n) = 48" by simp
    with True show ?thesis by (simp add: code_digit_char)
  next
    case False
    then have "show_nat n = show_nat (n div 10) @ [digit_char (n mod 10)]"
      by (simp add: show_nat.simps [of n])
    with "1.prems" obtain ds' where "show_nat (n div 10) = CHR ''0'' # ds'"
      by (metis append_eq_Cons_conv show_nat_not_Nil)
    from "1.IH" [OF False this] False show ?thesis by simp
  qed
qed

lemma p_nat_show: "stops r \<Longrightarrow> p_nat (show_nat n @ r) = Some (n, r)"
proof -
  assume r: "stops r"
  have "\<forall>c \<in> set (show_nat n). is_digit c" using show_nat_digits by blast
  note tw = takeWhile_digits [OF this r]
  have "\<not> (hd (show_nat n) = CHR ''0'' \<and> tl (show_nat n) \<noteq> [])"
  proof
    assume a: "hd (show_nat n) = CHR ''0'' \<and> tl (show_nat n) \<noteq> []"
    then have "show_nat n = CHR ''0'' # tl (show_nat n)" by (metis list.collapse show_nat_not_Nil)
    then have "n = 0" by (rule show_nat_zero)
    with a show False by (simp add: show_nat.simps)
  qed
  then show ?thesis by (auto simp: p_nat_def Let_def tw read_show_nat)
qed

subsection \<open>First characters\<close>

lemma digit_not: "is_digit c \<Longrightarrow> c \<noteq> CHR 0x22 \<and> c \<noteq> CHR ''['' \<and> c \<noteq> CHR ''{'' \<and> c \<noteq> CHR ''-'' \<and> c \<noteq> CHR '']'' \<and> c \<noteq> CHR ''}'' \<and> \<not> is_ws c"
  by (auto simp: is_digit_def is_ws_def)

lemma show_int_first:
  "\<exists>c r. show_int i = c # r \<and> (c = CHR ''-'' \<or> is_digit c)"
proof -
  obtain d ds where "show_nat (nat i) = d # ds" by (metis list.exhaust show_nat_not_Nil)
  moreover have "is_digit d" using show_nat_digits [of d "nat i"] calculation by simp
  ultimately show ?thesis by (auto simp: show_int_def)
qed

lemma stringify_first:
  "\<exists>c r. stringify v = c # r \<and> \<not> is_ws c \<and> c \<noteq> CHR '']''"
proof (cases v)
  case (JNum i)
  obtain c r where c: "show_int i = c # r" "c = CHR ''-'' \<or> is_digit c"
    using show_int_first by blast
  have "\<not> is_ws c \<and> c \<noteq> CHR '']''"
    using c(2) digit_not [of c] by (auto simp: is_ws_def)
  with c JNum show ?thesis by simp
qed (simp_all add: quote_def is_ws_def)

lemma skip_ws_stringify [simp]: "skip_ws (stringify v @ t) = stringify v @ t"
  using stringify_first [of v] by auto

subsection \<open>Values\<close>

fun cost :: "json \<Rightarrow> nat" where
  "cost (JArr xs) = Suc (sum_list (map (\<lambda>x. Suc (cost x)) xs))"
| "cost (JObj ms) = Suc (sum_list (map (\<lambda>m. Suc (cost (snd m))) ms))"
| "cost _ = 1"

lemma p_value_num:
  assumes "stops r" and "k > 0"
  shows "p_value k (show_int i @ r) = Some (JNum i, r)"
proof -
  obtain k' where k: "k = Suc k'" using assms(2) by (cases k) auto
  show ?thesis
  proof (cases "i < 0")
    case True
    with assms(1) show ?thesis
      by (simp add: k show_int_def p_nat_show is_ws_def)
  next
    case False
    obtain d ds where d: "show_nat (nat i) = d # ds" by (metis list.exhaust show_nat_not_Nil)
    then have dd: "is_digit d" using show_nat_digits [of d "nat i"] by simp
    have "p_nat (d # ds @ r) = Some (nat i, r)"
      using p_nat_show [OF assms(1), of "nat i"] by (simp add: d)
    with False dd digit_not [OF dd] show ?thesis
      by (simp add: k show_int_def d)
  qed
qed

lemma p_elems_stringify:
  assumes "\<And>x k r. x \<in> set xs \<Longrightarrow> cost x \<le> k \<Longrightarrow> stops r \<Longrightarrow> p_value k (stringify x @ r) = Some (x, r)"
    and "xs \<noteq> []" and "sum_list (map (\<lambda>x. Suc (cost x)) xs) \<le> k"
  shows "p_elems k (join_with '','' (map stringify xs) @ CHR '']'' # r) = Some (xs, r)"
  using assms
proof (induction xs arbitrary: k)
  case (Cons x xs)
  obtain k' where k: "k = Suc k'" and kx: "cost x \<le> k'" "sum_list (map (\<lambda>x. Suc (cost x)) xs) \<le> k'"
    using Cons.prems(3) by (cases k) auto
  show ?case
  proof (cases "xs = []")
    case True
    have "stops (CHR '']'' # r)" by (simp add: stops_def is_digit_def)
    then have "p_value k' (stringify x @ CHR '']'' # r) = Some (x, CHR '']'' # r)"
      using Cons.prems(1) kx by simp
    then show ?thesis by (simp add: True k is_ws_def)
  next
    case False
    let ?t = "join_with '','' (map stringify xs) @ CHR '']'' # r"
    have "stops (CHR '','' # ?t)" by (simp add: stops_def is_digit_def)
    then have "p_value k' (stringify x @ CHR '','' # ?t) = Some (x, CHR '','' # ?t)"
      using Cons.prems(1) kx by simp
    moreover have "p_elems k' ?t = Some (xs, r)"
      using Cons.IH Cons.prems(1) False kx by simp
    moreover have "join_with '','' (map stringify (x # xs)) @ CHR '']'' # r = stringify x @ CHR '','' # ?t"
      using False by (simp add: join_with_Cons)
    ultimately show ?thesis by (simp add: k is_ws_def)
  qed
qed simp

abbreviation member_text :: "string \<times> json \<Rightarrow> string" where
  "member_text \<equiv> \<lambda>(k, v). quote k @ '':'' @ stringify v"

lemma p_members_step:
  assumes "p_value k t = Some (v, d # u)" and "\<not> is_ws d"
  shows "p_members (Suc k) acc (quote key @ '':'' @ t) =
    (let acc' = AList.update key v acc in
     if d = CHR ''}'' then Some (acc', u) else if d = CHR '','' then p_members k acc' u else None)"
  using assms by (simp add: quote_def is_ws_def p_chars_quote)

lemma AList_update_new: "k \<notin> fst ` set al \<Longrightarrow> AList.update k v al = al @ [(k, v)]"
  by (induction al) auto

lemma p_members_stringify:
  assumes "\<And>m k r. m \<in> set ms \<Longrightarrow> cost (snd m) \<le> k \<Longrightarrow> stops r \<Longrightarrow> p_value k (stringify (snd m) @ r) = Some (snd m, r)"
    and "ms \<noteq> []" and "sum_list (map (\<lambda>m. Suc (cost (snd m))) ms) \<le> k"
    and "distinct (map fst (acc @ ms))"
  shows "p_members k acc (join_with '','' (map member_text ms) @ CHR ''}'' # r) = Some (acc @ ms, r)"
  using assms
proof (induction ms arbitrary: k acc)
  case (Cons m ms)
  obtain key v where m: "m = (key, v)" by (cases m)
  obtain k' where k: "k = Suc k'" and kx: "cost v \<le> k'" "sum_list (map (\<lambda>m. Suc (cost (snd m))) ms) \<le> k'"
    using Cons.prems(3) by (cases k) (auto simp: m)
  have upd: "AList.update key v acc = acc @ [(key, v)]"
    using Cons.prems(4) by (intro AList_update_new) (auto simp: m)
  have val: "stops t \<Longrightarrow> p_value k' (stringify v @ t) = Some (v, t)" for t
    using Cons.prems(1) [of m k' t] kx by (simp add: m)
  show ?case
  proof (cases "ms = []")
    case True
    have "stops (CHR ''}'' # r)" by (simp add: stops_def is_digit_def)
    note v = val [OF this]
    show ?thesis using p_members_step [OF v, of acc key]
      by (simp add: True k m is_ws_def upd)
  next
    case False
    let ?t = "join_with '','' (map member_text ms) @ CHR ''}'' # r"
    have "stops (CHR '','' # ?t)" by (simp add: stops_def is_digit_def)
    note v = val [OF this]
    have "p_members k' (acc @ [m]) ?t = Some ((acc @ [m]) @ ms, r)"
      using Cons.IH [OF Cons.prems(1)] False kx Cons.prems(4) by simp
    then show ?thesis
      using False p_members_step [OF v, of acc key] by (simp add: k m join_with_Cons is_ws_def upd)
  qed
qed simp

lemma p_value_stringify:
  "json_wf v \<Longrightarrow> cost v \<le> k \<Longrightarrow> stops r \<Longrightarrow> p_value k (stringify v @ r) = Some (v, r)"
proof (induction v arbitrary: k r)
  case (JNum i)
  then show ?case by (simp add: p_value_num)
next
  case (JStr s)
  then obtain k' where "k = Suc k'" by (cases k) auto
  then show ?case by (simp add: quote_def is_ws_def p_chars_quote)
next
  case (JArr xs)
  then obtain k' where k: "k = Suc k'" by (cases k) auto
  show ?case
  proof (cases "xs = []")
    case False
    have e: "p_elems k' (join_with '','' (map stringify xs) @ CHR '']'' # r) = Some (xs, r)"
      using JArr False k by (intro p_elems_stringify) auto
    obtain x xs' where xs: "xs = x # xs'" using False by (cases xs) auto
    obtain c u where c: "stringify x = c # u" "\<not> is_ws c" "c \<noteq> CHR '']''"
      using stringify_first by blast
    obtain u' where j: "join_with '','' (map stringify xs) = c # u'"
      using c xs by (cases xs') auto
    show ?thesis using e c by (simp add: k is_ws_def [of "CHR ''[''"] j)
  qed (simp add: k is_ws_def)
next
  case (JObj ms)
  then obtain k' where k: "k = Suc k'" by (cases k) auto
  show ?case
  proof (cases "ms = []")
    case False
    have e: "p_members k' [] (join_with '','' (map member_text ms) @ CHR ''}'' # r) = Some ([] @ ms, r)"
    proof (rule p_members_stringify)
      fix m k r
      assume "m \<in> set ms" "cost (snd m) \<le> k" "stops r"
      moreover have "json_wf (snd m)" using JObj.prems(1) \<open>m \<in> set ms\<close> by simp
      ultimately show "p_value k (stringify (snd m) @ r) = Some (snd m, r)"
        using JObj.IH [of m "snd m"] by (simp add: prod_set_defs)
    qed (use JObj.prems False k in auto)
    obtain u' where j: "join_with '','' (map member_text ms) = CHR 0x22 # u'"
      using False by (cases ms; cases "tl ms") (auto simp: quote_def)
    show ?thesis using e by (simp add: k is_ws_def j [simplified])
  qed (simp add: k is_ws_def)
next
  case JNull
  then obtain k' where "k = Suc k'" by (cases k) auto
  then show ?case by (simp add: is_ws_def strip_prefix_def is_digit_def)
next
  case (JBool b)
  then obtain k' where "k = Suc k'" by (cases k) auto
  then show ?case by (cases b) (simp_all add: is_ws_def strip_prefix_def is_digit_def)
qed

lemma length_join_with:
  "ps \<noteq> [] \<Longrightarrow> length (join_with '','' ps) + 1 = sum_list (map (\<lambda>p. Suc (length p)) ps)"
proof (induction ps)
  case (Cons p ps)
  then show ?case by (cases "ps = []") (auto simp: join_with_Cons)
qed simp

lemma sum_list_mono_Suc:
  "(\<And>x. x \<in> set xs \<Longrightarrow> f x \<le> g x) \<Longrightarrow> sum_list (map (\<lambda>x. Suc (f x)) xs) \<le> sum_list (map (\<lambda>x. Suc (g x :: nat)) xs)"
  by (rule sum_list_mono) simp

lemma cost_length: "cost v \<le> length (stringify v)"
proof (induction v)
  case (JNum i)
  show ?case using show_int_first [of i] by auto
next
  case (JArr xs)
  show ?case
  proof (cases "xs = []")
    case False
    have "sum_list (map (\<lambda>x. Suc (cost x)) xs) \<le> sum_list (map (\<lambda>x. Suc (length (stringify x))) xs)"
      using JArr by (intro sum_list_mono_Suc) auto
    with False length_join_with [of "map stringify xs"] show ?thesis by (simp add: comp_def)
  qed simp
next
  case (JObj ms)
  show ?case
  proof (cases "ms = []")
    case False
    have "cost (snd m) \<le> length (member_text m)" if "m \<in> set ms" for m
      using JObj [OF that, of "snd m"] by (cases m) (auto simp: prod_set_defs)
    then have "sum_list (map (\<lambda>m. Suc (cost (snd m))) ms) \<le> sum_list (map (\<lambda>m. Suc (length (member_text m))) ms)"
      by (rule sum_list_mono_Suc)
    with False length_join_with [of "map member_text ms"] show ?thesis by (simp add: comp_def)
  qed simp
qed (auto simp: quote_def)

lemma parse_stringify: "json_wf v \<Longrightarrow> json_parse (stringify v) = Some v"
proof -
  assume wf: "json_wf v"
  have "cost v \<le> Suc (length (stringify v))" using cost_length [of v] by simp
  moreover have "stops []" by (simp add: stops_def)
  ultimately have "p_value (Suc (length (stringify v))) (stringify v @ []) = Some (v, [])"
    using wf by (intro p_value_stringify) auto
  then show ?thesis by (simp add: json_parse_def)
qed

lemma stringify_inj: "json_wf v \<Longrightarrow> json_wf w \<Longrightarrow> stringify v = stringify w \<longleftrightarrow> v = w"
  by (metis option.inject parse_stringify)

text \<open>No printed value holds a raw line break, so one line of a journal is one value.\<close>

lemma esc_no_nl: "nl \<notin> set (esc c)"
  by (auto simp: esc_def hex_char_def) (auto dest!: arg_cong [where f = code] simp: of_char_of)

end
