(* ===== verification/Paths.thy ===== *)
theory Paths
  imports Prelude
begin

text \<open>
  Backend paths (src/domain/paths.ts): the grammar of untrusted identifiers, the validation
  of a project identity, the builders of record, backup and board paths, and the containment
  checks. Every \<open>PathEscapeError\<close> of the source is a value of \<open>path_error\<close>. What the lemmas
  show: a built path is deterministic and determines the record it was built from, it lies
  inside the namespace it was built for, the three namespaces are disjoint, and a path that
  passes a containment check cannot leave its namespace when its segments are resolved.
\<close>

datatype path_error =
    BadId string
  | BadProjectId
  | BadSegment
  | BadScope string
  | SeqRange int

datatype record_dir = Observation | Reflection | Proposal

section \<open>Identifiers\<close>

definition id_char :: "char \<Rightarrow> bool" where
  "id_char c = (is_lower c \<or> is_digit c \<or> c = CHR ''-'')"

definition ID_GRAMMAR :: "string \<Rightarrow> bool" where
  "ID_GRAMMAR s =
     (case s of [] \<Rightarrow> False
      | c # r \<Rightarrow> (is_lower c \<or> is_digit c) \<and> list_all id_char r \<and> length r \<le> 63)"

definition validateId :: "string \<Rightarrow> string \<Rightarrow> path_error + string" where
  "validateId kind i = (if \<not> ID_GRAMMAR i then Inl (BadId kind) else Inr i)"

section \<open>Project identities\<close>

definition to_lower :: "char \<Rightarrow> char" where
  "to_lower c = (if is_upper c \<or> (192 \<le> code c \<and> code c \<le> 222 \<and> code c \<noteq> 215)
                 then char_of (code c + 32) else c)"

definition unsafe_char :: "char \<Rightarrow> bool" where
  "unsafe_char c = (is_space c \<or> c = CHR 0x5C \<or> c = CHR ''%'' \<or> code c < 32 \<or> code c = 127)"

definition validateProjectId :: "string \<Rightarrow> path_error + string" where
  "validateProjectId p =
     (if p = '''' \<or> p \<noteq> map to_lower p \<or> p \<noteq> trim p \<or> list_ex unsafe_char p then Inl BadProjectId
      else if list_ex (\<lambda>s. s = '''' \<or> s = ''.'' \<or> s = ''..'') (split_on slash p) then Inl BadSegment
      else Inr p)"

section \<open>Path builders\<close>

fun RECORD_KIND_DIR :: "record_dir \<Rightarrow> string" where
  "RECORD_KIND_DIR Observation = ''observations''"
| "RECORD_KIND_DIR Reflection = ''reflections''"
| "RECORD_KIND_DIR Proposal = ''merge-proposals''"

fun kind_name :: "record_dir \<Rightarrow> string" where
  "kind_name Observation = ''observation''"
| "kind_name Reflection = ''reflection''"
| "kind_name Proposal = ''proposal''"

definition is_owner_scope :: "string \<Rightarrow> bool" where
  "is_owner_scope scope = (scope = ''personal'' \<or> prefix ''project/'' scope)"

definition check_scope :: "string \<Rightarrow> path_error + unit" where
  "check_scope scope =
     (if \<not> is_owner_scope scope then Inl (BadScope scope)
      else if prefix ''project/'' scope
        then (case validateProjectId (drop (length ''project/'') scope) of Inl e \<Rightarrow> Inl e | Inr _ \<Rightarrow> Inr ())
      else Inr ())"

text \<open>\<open>created\<close> is the UTC year and the zero-based UTC month of the source's \<open>Date\<close>.\<close>

definition memoryRecordPath ::
  "string \<Rightarrow> record_dir \<Rightarrow> string \<Rightarrow> (nat \<times> nat) option \<Rightarrow> path_error + string" where
  "memoryRecordPath scope ty i created =
     (case validateId (kind_name ty) i of
        Inl e \<Rightarrow> Inl e
      | Inr _ \<Rightarrow>
          (case check_scope scope of
             Inl e \<Rightarrow> Inl e
           | Inr _ \<Rightarrow>
               (let dir = RECORD_KIND_DIR ty in
                case (ty, created) of
                  (Proposal, _) \<Rightarrow> Inr (scope @ ''/memory/'' @ dir @ ''/'' @ i @ ''.md'')
                | (_, None) \<Rightarrow> Inr (scope @ ''/memory/'' @ dir @ ''/'' @ i @ ''.md'')
                | (_, Some (y, m)) \<Rightarrow>
                    Inr (scope @ ''/memory/'' @ dir @ ''/'' @ pad_start 4 (CHR ''0'') (show_nat y) @ ''/''
                         @ pad_start 2 (CHR ''0'') (show_nat (m + 1)) @ ''/'' @ i @ ''.md''))))"

definition backupManifestPath :: "string \<Rightarrow> string \<Rightarrow> path_error + string" where
  "backupManifestPath proj sess =
     (case validateProjectId proj of
        Inl e \<Rightarrow> Inl e
      | Inr _ \<Rightarrow> (case validateId ''session'' sess of
           Inl e \<Rightarrow> Inl e
         | Inr _ \<Rightarrow> Inr (''backup/'' @ proj @ ''/'' @ sess @ ''/manifest.md'')))"

definition backupChunkPath :: "string \<Rightarrow> string \<Rightarrow> int \<Rightarrow> path_error + string" where
  "backupChunkPath proj sess seq =
     (case validateProjectId proj of
        Inl e \<Rightarrow> Inl e
      | Inr _ \<Rightarrow> (case validateId ''session'' sess of
           Inl e \<Rightarrow> Inl e
         | Inr _ \<Rightarrow>
             if seq < 0 \<or> seq > 999999 then Inl (SeqRange seq)
             else Inr (''backup/'' @ proj @ ''/'' @ sess @ ''/''
                       @ pad_start 6 (CHR ''0'') (show_nat (nat seq)) @ ''.md'')))"

definition boardMessagePath :: "string \<Rightarrow> string \<Rightarrow> path_error + string" where
  "boardMessagePath channel msgId =
     (case validateId ''channel'' channel of
        Inl e \<Rightarrow> Inl e
      | Inr _ \<Rightarrow> (case validateId ''msg_id'' msgId of
           Inl e \<Rightarrow> Inl e
         | Inr _ \<Rightarrow> Inr (''board/'' @ channel @ ''/'' @ msgId @ ''.md'')))"

section \<open>Containment checks\<close>

definition below :: "string \<Rightarrow> string \<Rightarrow> bool" where
  "below pfx path =
     (prefix pfx path \<and> ''..'' \<notin> set (split_on slash (drop (length pfx) path)))"

definition pathWithinMemoryNamespace :: "string \<Rightarrow> string \<Rightarrow> bool" where
  "pathWithinMemoryNamespace path scope =
     (if \<not> is_owner_scope scope then False else below (scope @ ''/memory/'') path)"

definition pathWithinBoardChannel :: "string \<Rightarrow> string \<Rightarrow> path_error + bool" where
  "pathWithinBoardChannel path channel =
     (case validateId ''channel'' channel of
        Inl e \<Rightarrow> Inl e
      | Inr _ \<Rightarrow> Inr (below (''board/'' @ channel @ ''/'') path))"

definition pathWithinBackupTree :: "string \<Rightarrow> string \<Rightarrow> path_error + bool" where
  "pathWithinBackupTree path proj =
     (case validateProjectId proj of
        Inl e \<Rightarrow> Inl e
      | Inr _ \<Rightarrow> Inr (below (''backup/'' @ proj @ ''/'') path))"

section \<open>Lemmas on the grammar\<close>

lemma replicate_numeral: "replicate (numeral n) x = x # replicate (pred_numeral n) x"
  by (simp add: numeral_eq_Suc)


lemma id_char_not: "id_char c \<Longrightarrow> c \<noteq> slash \<and> c \<noteq> CHR ''.''"
  by (auto simp: id_char_def is_lower_def is_digit_def)

lemma ID_GRAMMAR_chars: "ID_GRAMMAR i \<Longrightarrow> c \<in> set i \<Longrightarrow> id_char c"
  by (auto simp: ID_GRAMMAR_def id_char_def list_all_iff split: list.splits)

lemma ID_GRAMMAR_safe:
  assumes "ID_GRAMMAR i"
  shows "i \<noteq> []" "slash \<notin> set i" "CHR ''.'' \<notin> set i" "length i \<le> 64"
  using assms ID_GRAMMAR_chars [OF assms] id_char_not
  by (force simp: ID_GRAMMAR_def split: list.splits)+

lemma validateId_Inr: "validateId k i = Inr j \<longleftrightarrow> ID_GRAMMAR i \<and> j = i"
  by (auto simp: validateId_def)

lemma validateProjectId_Inr:
  "validateProjectId p = Inr q \<Longrightarrow>
     q = p \<and> p \<noteq> [] \<and> (\<forall>s \<in> set (split_on slash p). s \<noteq> '''' \<and> s \<noteq> ''.'' \<and> s \<noteq> ''..'')"
  by (auto simp: validateProjectId_def list_ex_iff split: if_splits)

section \<open>Segments\<close>

definition plain :: "string \<Rightarrow> bool" where
  "plain s = (s \<noteq> '''' \<and> s \<noteq> ''.'' \<and> s \<noteq> ''..'')"

text \<open>What a server that normalises a path does with its segments.\<close>

fun resolve :: "string list \<Rightarrow> string list \<Rightarrow> string list" where
  "resolve st [] = st"
| "resolve st (s # ss) =
     (if s = '''' \<or> s = ''.'' then resolve st ss
      else if s = ''..'' then resolve (butlast st) ss
      else resolve (st @ [s]) ss)"

lemma resolve_plain: "\<forall>s \<in> set ss. plain s \<Longrightarrow> resolve st ss = st @ ss"
  by (induction ss arbitrary: st) (auto simp: plain_def)

lemma resolve_append: "resolve st (ss @ ts) = resolve (resolve st ss) ts"
  by (induction ss arbitrary: st) auto

lemma resolve_no_up: "''..'' \<notin> set ss \<Longrightarrow> prefix st (resolve st ss)"
proof (induction ss arbitrary: st)
  case (Cons s ss)
  then show ?case
    by (auto intro: prefix_order.trans [of st "st @ [s]"])
qed simp

lemma split_on_slash_append: "split_on slash (p @ slash # s) = split_on slash p @ split_on slash s"
  using split_on_app [of slash p "slash # s"] by simp

lemma split_on_sep_append: "split_on c (p @ c # s) = split_on c p @ split_on c s"
  using split_on_app [of c p "c # s"] by simp

section \<open>The interface of a namespace\<close>

text \<open>
  A namespace maps an owner (a scope, a channel, a project) to a root of plain segments,
  and its check accepts a path when the path lies below the root with no \<open>..\<close> after it.
\<close>

locale namespace =
  fixes root :: "'k \<Rightarrow> string"
    and ok :: "'k \<Rightarrow> bool"
    and inside :: "string \<Rightarrow> 'k \<Rightarrow> bool"
  assumes root_plain: "ok k \<Longrightarrow> s \<in> set (split_on slash (root k)) \<Longrightarrow> plain s"
    and inside_below: "ok k \<Longrightarrow> inside p k \<longleftrightarrow> below (root k @ [slash]) p"
begin

lemma inside_built:
  assumes "ok k" and "''..'' \<notin> set (split_on slash rel)"
  shows "inside (root k @ slash # rel) k"
  using assms by (simp add: inside_below below_def)

lemma inside_segments:
  assumes "ok k" and "inside p k"
  obtains rest where "split_on slash p = split_on slash (root k) @ rest" "''..'' \<notin> set rest"
proof -
  from assms have b: "below (root k @ [slash]) p" by (simp add: inside_below)
  then obtain r where r: "p = (root k @ [slash]) @ r" by (auto simp: below_def prefix_def)
  with b have "''..'' \<notin> set (split_on slash r)" by (simp add: below_def)
  moreover have "split_on slash p = split_on slash (root k) @ split_on slash r"
    by (simp add: r split_on_slash_append)
  ultimately show ?thesis by (rule that [rotated])
qed

text \<open>Resolving an accepted path never leaves the namespace.\<close>

lemma no_escape:
  assumes "ok k" and "inside p k"
  shows "prefix (split_on slash (root k)) (resolve [] (split_on slash p))"
proof -
  obtain rest where p: "split_on slash p = split_on slash (root k) @ rest" and r: "''..'' \<notin> set rest"
    using inside_segments [OF assms] .
  have "resolve [] (split_on slash (root k)) = split_on slash (root k)"
    using root_plain [OF assms(1)] resolve_plain [of "split_on slash (root k)" "[]"] by simp
  then show ?thesis using resolve_no_up [OF r] by (simp add: p resolve_append)
qed

lemma owners_nested:
  assumes "ok k" "ok k'" "inside p k" "inside p k'"
  shows "prefix (split_on slash (root k)) (split_on slash (root k'))
       \<or> prefix (split_on slash (root k')) (split_on slash (root k))"
proof -
  obtain r r' where "split_on slash p = split_on slash (root k) @ r"
    "split_on slash p = split_on slash (root k') @ r'"
    using assms inside_segments by metis
  then show ?thesis by (metis prefixI prefix_same_cases)
qed

end

subsection \<open>The three namespaces of the backend\<close>

abbreviation scope_ok :: "string \<Rightarrow> bool" where
  "scope_ok scope \<equiv> check_scope scope = Inr ()"

lemma scope_ok_cases:
  "scope_ok scope \<Longrightarrow> scope = ''personal'' \<or>
     (\<exists>p. scope = ''project/'' @ p \<and> validateProjectId p = Inr p)"
proof -
  assume a: "scope_ok scope"
  then have o: "is_owner_scope scope" by (auto simp: check_scope_def split: if_splits)
  show ?thesis
  proof (cases "prefix ''project/'' scope")
    case True
    then obtain p where p: "scope = ''project/'' @ p" by (auto simp: prefix_def)
    with a o have "\<exists>q. validateProjectId p = Inr q"
      by (auto simp: check_scope_def split: sum.splits)
    then show ?thesis using validateProjectId_Inr p by metis
  qed (use o in \<open>simp add: is_owner_scope_def\<close>)
qed

lemma scope_ok_owner: "scope_ok scope \<Longrightarrow> is_owner_scope scope"
  by (auto simp: check_scope_def split: if_splits)

lemma project_segments: "validateProjectId p = Inr q \<Longrightarrow> s \<in> set (split_on slash p) \<Longrightarrow> plain s"
  by (auto dest!: validateProjectId_Inr simp: plain_def)

lemma split_word: "slash \<notin> set w \<Longrightarrow> split_on slash (w @ slash # p) = w # split_on slash p"
  by (rule split_on_append)

lemma split_project: "split_on slash (''project/'' @ p) = ''project'' # split_on slash p"
  using split_word [of "''project''" p] by simp

lemma split_backup: "split_on slash (''backup/'' @ p) = ''backup'' # split_on slash p"
  using split_word [of "''backup''" p] by simp

lemma split_board: "split_on slash (''board/'' @ p) = ''board'' # split_on slash p"
  using split_word [of "''board''" p] by simp

lemma scope_segments: "scope_ok scope \<Longrightarrow> s \<in> set (split_on slash scope) \<Longrightarrow> plain s"
  by (drule scope_ok_cases)
    (auto simp del: append.simps simp: split_project split_on_no_sep project_segments plain_def [of "''project''"] plain_def [of "''personal''"])

lemma split_scope_memory:
  "split_on slash (scope @ ''/memory'') = split_on slash scope @ [''memory'']"
  using split_on_slash_append [of scope "''memory''"] by simp

interpretation memory_ns: namespace "\<lambda>scope. scope @ ''/memory''" scope_ok pathWithinMemoryNamespace
proof
  fix scope s
  assume "scope_ok scope" "s \<in> set (split_on slash (scope @ ''/memory''))"
  then show "plain s"
    using scope_segments by (auto simp del: append.simps simp: split_scope_memory plain_def [of "''memory''"])
next
  fix scope p
  assume "scope_ok scope"
  then show "pathWithinMemoryNamespace p scope \<longleftrightarrow> below ((scope @ ''/memory'') @ [slash]) p"
    by (simp add: pathWithinMemoryNamespace_def scope_ok_owner)
qed

lemma ID_GRAMMAR_plain: "ID_GRAMMAR i \<Longrightarrow> plain i"
  using ID_GRAMMAR_safe [of i] by (auto simp: plain_def)

interpretation board_ns: namespace "\<lambda>ch. ''board/'' @ ch" ID_GRAMMAR
  "\<lambda>p ch. pathWithinBoardChannel p ch = Inr True"
proof
  fix ch s
  assume i: "ID_GRAMMAR ch" "s \<in> set (split_on slash (''board/'' @ ch))"
  then have "s = ''board'' \<or> s = ch"
    using ID_GRAMMAR_safe [OF i(1)] by (auto simp del: append.simps simp: split_board split_on_no_sep)
  then show "plain s" using ID_GRAMMAR_plain [OF i(1)] by (auto simp: plain_def)
next
  fix ch p
  assume "ID_GRAMMAR ch"
  then show "(pathWithinBoardChannel p ch = Inr True) \<longleftrightarrow> below ((''board/'' @ ch) @ [slash]) p"
    by (simp add: pathWithinBoardChannel_def validateId_def)
qed

interpretation backup_ns: namespace "\<lambda>proj. ''backup/'' @ proj" "\<lambda>proj. validateProjectId proj = Inr proj"
  "\<lambda>p proj. pathWithinBackupTree p proj = Inr True"
proof
  fix proj s
  assume "validateProjectId proj = Inr proj" "s \<in> set (split_on slash (''backup/'' @ proj))"
  then show "plain s"
    by (auto simp del: append.simps simp: split_backup project_segments plain_def [of "''backup''"])
next
  fix proj p
  assume "validateProjectId proj = Inr proj"
  then show "(pathWithinBackupTree p proj = Inr True) \<longleftrightarrow> below ((''backup/'' @ proj) @ [slash]) p"
    by (simp add: pathWithinBackupTree_def)
qed


section \<open>Properties of the builders\<close>

definition bucket_segments :: "record_dir \<Rightarrow> (nat \<times> nat) option \<Rightarrow> string list" where
  "bucket_segments ty created =
     (case (ty, created) of
        (Proposal, _) \<Rightarrow> []
      | (_, None) \<Rightarrow> []
      | (_, Some (y, m)) \<Rightarrow> [pad_start 4 (CHR ''0'') (show_nat y), pad_start 2 (CHR ''0'') (show_nat (m + 1))])"

lemma digits_no_slash: "slash \<notin> set (pad_start k (CHR ''0'') (show_nat n))"
  using pad_start_digits [of slash k n] by (auto simp: is_digit_def)

lemma dir_no_slash: "slash \<notin> set (RECORD_KIND_DIR ty)"
  by (cases ty) auto

lemma digits_not_dir: "pad_start k (CHR ''0'') (show_nat n) \<noteq> RECORD_KIND_DIR ty"
proof
  assume e: "pad_start k (CHR ''0'') (show_nat n) = RECORD_KIND_DIR ty"
  have "\<not> is_digit (last (RECORD_KIND_DIR ty))" by (cases ty) (auto simp: is_digit_def)
  moreover have "last (RECORD_KIND_DIR ty) \<in> set (RECORD_KIND_DIR ty)" by (cases ty) auto
  ultimately show False using pad_start_digits e by metis
qed

lemma memoryRecordPath_Inr:
  assumes "memoryRecordPath scope ty i created = Inr p"
  shows "ID_GRAMMAR i" "scope_ok scope"
    "p = scope @ slash # join_with [slash] (''memory'' # RECORD_KIND_DIR ty # bucket_segments ty created @ [i @ ''.md''])"
  using assms
  by (auto simp: memoryRecordPath_def validateId_Inr bucket_segments_def Let_def
      split: sum.splits record_dir.splits option.splits)

lemma memoryRecordPath_segments:
  assumes "memoryRecordPath scope ty i created = Inr p"
  shows "split_on slash p =
    split_on slash scope @ [''memory'', RECORD_KIND_DIR ty] @ bucket_segments ty created @ [i @ ''.md'']"
proof -
  note m = memoryRecordPath_Inr [OF assms]
  have "slash \<notin> set q" if "q \<in> set (''memory'' # RECORD_KIND_DIR ty # bucket_segments ty created @ [i @ ''.md''])" for q
    using that ID_GRAMMAR_safe [OF m(1)] dir_no_slash
    by (auto simp: bucket_segments_def digits_no_slash split: record_dir.splits option.splits)
  then show ?thesis unfolding m(3) split_on_slash_append
    by (subst split_join) auto
qed

lemma plain_digits: "plain (pad_start k (CHR ''0'') (show_nat n))"
proof -
  have "pad_start k (CHR ''0'') (show_nat n) \<noteq> []" by (simp add: pad_start_def)
  moreover have "CHR ''.'' \<notin> set (pad_start k (CHR ''0'') (show_nat n))"
    using pad_start_digits [of "CHR ''.''" k n] by (auto simp: is_digit_def)
  ultimately show ?thesis by (auto simp: plain_def)
qed

lemma plain_md: "i \<noteq> [] \<Longrightarrow> plain (i @ ''.md'')"
  by (cases i) (auto simp: plain_def)

text \<open>
  A record path the builder returns passes the guard's containment check for its own
  scope, and resolving its segments changes nothing: a hostile id cannot escape.
\<close>
theorem memoryRecordPath_contained:
  assumes "memoryRecordPath scope ty i created = Inr p"
  shows "pathWithinMemoryNamespace p scope \<and> resolve [] (split_on slash p) = split_on slash p"
proof -
  note m = memoryRecordPath_Inr [OF assms]
  let ?rel = "RECORD_KIND_DIR ty # bucket_segments ty created @ [i @ ''.md'']"
  have segs: "plain s" if "s \<in> set ?rel" for s
    using that plain_md [of i] ID_GRAMMAR_safe(1) [OF m(1)] plain_digits
    by (cases ty) (auto simp: bucket_segments_def plain_def [of "''observations''"]
        plain_def [of "''reflections''"] plain_def [of "''merge-proposals''"] split: option.splits)
  have all: "\<forall>s \<in> set (split_on slash p). plain s"
    using segs scope_segments [OF m(2)]
    by (auto simp: memoryRecordPath_segments [OF assms] plain_def [of "''memory''"])
  have "p = (scope @ ''/memory'') @ slash # join_with [slash] ?rel"
    using m(3) by simp
  moreover have "split_on slash p = split_on slash (scope @ ''/memory'') @ ?rel"
    by (simp add: memoryRecordPath_segments [OF assms] split_scope_memory)
  ultimately have "split_on slash (join_with [slash] ?rel) = ?rel"
    by (metis same_append_eq split_on_slash_append)
  then have "''..'' \<notin> set (split_on slash (join_with [slash] ?rel))"
    using segs by (metis plain_def)
  then have "pathWithinMemoryNamespace ((scope @ ''/memory'') @ slash # join_with [slash] ?rel) scope"
    by (rule memory_ns.inside_built [OF m(2)])
  with m(3) resolve_plain [OF all, of "[]"] show ?thesis by simp
qed

theorem memoryRecordPath_contained_witness:
  "pathWithinMemoryNamespace ''project/h/r/memory/observations/2025/01/a-1.md'' ''project/h/r''"
  using memoryRecordPath_contained [of "''project/h/r''" Observation "''a-1''" "Some (2025, 0)"
      "''project/h/r/memory/observations/2025/01/a-1.md''"]
  by (simp add: memoryRecordPath_def validateId_def ID_GRAMMAR_def is_lower_def is_digit_def id_char_def
      check_scope_def is_owner_scope_def validateProjectId_def to_lower_def is_upper_def trim_def is_space_def
      unsafe_char_def pad_start_def show_nat.simps replicate_numeral)

text \<open>
  A record path determines what it was built from: two records with the same path have
  the same scope, type, id and month bucket, so distinct records never overwrite each other.
\<close>
theorem memoryRecordPath_injective:
  assumes "memoryRecordPath scope ty i created = Inr p"
    and "memoryRecordPath scope' ty' i' created' = Inr p"
  shows "scope = scope' \<and> ty = ty' \<and> i = i' \<and> (ty \<noteq> Proposal \<longrightarrow> created = created')"
proof -
  have e: "split_on slash scope @ [''memory'', RECORD_KIND_DIR ty] @ bucket_segments ty created @ [i @ ''.md'']
      = split_on slash scope' @ [''memory'', RECORD_KIND_DIR ty'] @ bucket_segments ty' created' @ [i' @ ''.md'']"
    using memoryRecordPath_segments [OF assms(1)] memoryRecordPath_segments [OF assms(2)] by simp
  have b: "bucket_segments t c = [] \<or> (\<exists>y m. c = Some (y, m) \<and> t \<noteq> Proposal \<and>
      bucket_segments t c = [pad_start 4 (CHR ''0'') (show_nat y), pad_start 2 (CHR ''0'') (show_nat (m + 1))])" for t c
    by (cases t; cases c) (auto simp: bucket_segments_def)
  have dir: "RECORD_KIND_DIR t = RECORD_KIND_DIR t' \<longleftrightarrow> t = t'" for t t'
    by (cases t; cases t') auto
  have len: "bucket_segments ty created = [] \<longleftrightarrow> bucket_segments ty' created' = []"
    using e b [of ty created] b [of ty' created'] digits_not_dir digits_not_dir [symmetric]
    by (elim disjE exE conjE) auto
  then have r: "split_on slash scope = split_on slash scope'" "ty = ty'" "i = i'"
      "bucket_segments ty created = bucket_segments ty' created'"
    using e b [of ty created] b [of ty' created'] dir by (elim disjE exE conjE; auto)+
  have "scope = scope'" using r(1) join_split_on by metis
  moreover have "ty \<noteq> Proposal \<Longrightarrow> created = created'"
    using r(2,4) pad_start_inj
    by (cases ty; cases created; cases created') (auto simp: bucket_segments_def)
  ultimately show ?thesis using r by simp
qed

theorem memoryRecordPath_injective_witness:
  "memoryRecordPath ''personal'' Reflection ''r1'' None = Inr ''personal/memory/reflections/r1.md''
   \<and> {(t, j). \<exists>c. memoryRecordPath ''personal'' t j c = Inr ''personal/memory/reflections/r1.md''} \<subseteq> {(Reflection, ''r1'')}"
proof -
  have h: "memoryRecordPath ''personal'' Reflection ''r1'' None = Inr ''personal/memory/reflections/r1.md''"
    by (simp add: memoryRecordPath_def validateId_def ID_GRAMMAR_def is_lower_def is_digit_def id_char_def
        check_scope_def is_owner_scope_def)
  show ?thesis using h memoryRecordPath_injective [OF h] by blast
qed

text \<open>
  A path accepted for a channel is accepted for that channel only: no message can be
  read as a message of two channels, and no accepted path resolves outside its channel.
\<close>
theorem board_channel_exclusive:
  assumes "pathWithinBoardChannel p ch = Inr True" and "pathWithinBoardChannel p ch' = Inr True"
  shows "ch = ch' \<and> prefix [''board'', ch] (resolve [] (split_on slash p))"
proof -
  have ok: "ID_GRAMMAR ch" "ID_GRAMMAR ch'"
    using assms by (auto simp: pathWithinBoardChannel_def validateId_def split: if_splits)
  have sp: "split_on slash (''board/'' @ c) = [''board'', c]" if "ID_GRAMMAR c" for c
    using ID_GRAMMAR_safe [OF that] by (simp only: split_board split_on_no_sep not_False_eq_True)
  have "prefix [''board'', ch] [''board'', ch'] \<or> prefix [''board'', ch'] [''board'', ch]"
    using board_ns.owners_nested [OF ok assms] by (simp only: sp [OF ok(1)] sp [OF ok(2)])
  then have "ch = ch'" by auto
  moreover have "prefix [''board'', ch] (resolve [] (split_on slash p))"
    using board_ns.no_escape [OF ok(1) assms(1)] by (simp only: sp [OF ok(1)])
  ultimately show ?thesis by blast
qed

theorem board_channel_exclusive_witness:
  "pathWithinBoardChannel ''board/dev/m1.md'' ''dev'' = Inr True
   \<and> pathWithinBoardChannel ''board/dev/m1.md'' ''ops'' \<noteq> Inr True"
proof -
  have h: "pathWithinBoardChannel ''board/dev/m1.md'' ''dev'' = Inr True"
    by (simp add: pathWithinBoardChannel_def validateId_def ID_GRAMMAR_def is_lower_def is_digit_def
        id_char_def below_def)
  then show ?thesis using board_channel_exclusive [OF h, of "''ops''"] by auto
qed

text \<open>The other builders stay inside their namespaces and are injective.\<close>

lemma boardMessagePath_contained:
  "boardMessagePath ch m = Inr p \<Longrightarrow> pathWithinBoardChannel p ch = Inr True"
proof -
  assume a: "boardMessagePath ch m = Inr p"
  then have ok: "ID_GRAMMAR ch" "ID_GRAMMAR m" and p: "p = (''board/'' @ ch) @ slash # (m @ ''.md'')"
    by (auto simp: boardMessagePath_def validateId_Inr split: sum.splits)
  have "slash \<notin> set (m @ ''.md'')" using ID_GRAMMAR_safe [OF ok(2)] by auto
  then have "split_on slash (m @ ''.md'') = [m @ ''.md'']" by (rule split_on_no_sep)
  then have "''..'' \<notin> set (split_on slash (m @ ''.md''))"
    using plain_md [of m] ID_GRAMMAR_safe(1) [OF ok(2)] by (auto simp: plain_def)
  then show ?thesis unfolding p by (rule board_ns.inside_built [OF ok(1)])
qed

lemma backupChunkPath_Inr:
  assumes "backupChunkPath proj sess seq = Inr p"
  shows "validateProjectId proj = Inr proj" "ID_GRAMMAR sess" "0 \<le> seq" "seq \<le> 999999"
    "split_on slash p = (''backup'' # split_on slash proj) @ [sess, pad_start 6 (CHR ''0'') (show_nat (nat seq)) @ ''.md'']"
proof -
  show ok: "validateProjectId proj = Inr proj" "ID_GRAMMAR sess" "0 \<le> seq" "seq \<le> 999999"
    using assms validateProjectId_Inr
    by (auto simp: backupChunkPath_def validateId_Inr split: sum.splits if_splits)
  have p: "p = (''backup/'' @ proj) @ slash # sess @ slash # (pad_start 6 (CHR ''0'') (show_nat (nat seq)) @ ''.md'')"
    using assms by (auto simp: backupChunkPath_def split: sum.splits if_splits)
  have "slash \<notin> set (pad_start 6 (CHR ''0'') (show_nat (nat seq)) @ ''.md'')"
    using digits_no_slash by auto
  then show "split_on slash p = (''backup'' # split_on slash proj) @ [sess, pad_start 6 (CHR ''0'') (show_nat (nat seq)) @ ''.md'']"
    using ID_GRAMMAR_safe [OF ok(2)] unfolding p split_on_slash_append split_backup
    by (simp only: split_on_slash_append split_on_no_sep not_False_eq_True append.simps)
qed

text \<open>
  A backup chunk path determines its project, session and sequence number, so no two
  chunks of any two sessions share a file.
\<close>
theorem backupChunkPath_injective:
  assumes "backupChunkPath proj sess seq = Inr p" and "backupChunkPath proj' sess' seq' = Inr p"
  shows "proj = proj' \<and> sess = sess' \<and> seq = seq'"
proof -
  note a = backupChunkPath_Inr [OF assms(1)] and b = backupChunkPath_Inr [OF assms(2)]
  have e: "(''backup'' # split_on slash proj) @ [sess, pad_start 6 (CHR ''0'') (show_nat (nat seq)) @ ''.md'']
     = (''backup'' # split_on slash proj') @ [sess', pad_start 6 (CHR ''0'') (show_nat (nat seq')) @ ''.md'']"
    using a(5) b(5) by simp
  then have "split_on slash proj = split_on slash proj'" "sess = sess'" "nat seq = nat seq'"
    by (simp_all add: pad_start_inj)
  then show ?thesis using a(3) b(3) join_split_on by (metis eq_nat_nat_iff)
qed

theorem backupChunkPath_injective_witness:
  "backupChunkPath ''h/r'' ''s1'' 7 = Inr ''backup/h/r/s1/000007.md''
   \<and> (\<forall>s q. backupChunkPath ''h/r'' s q = Inr ''backup/h/r/s1/000007.md'' \<longrightarrow> q = 7)"
proof -
  have h: "backupChunkPath ''h/r'' ''s1'' 7 = Inr ''backup/h/r/s1/000007.md''"
    by (simp add: backupChunkPath_def validateId_def ID_GRAMMAR_def is_lower_def is_digit_def id_char_def
      validateProjectId_def to_lower_def is_upper_def trim_def is_space_def
      unsafe_char_def pad_start_def show_nat.simps replicate_numeral)
  then show ?thesis using backupChunkPath_injective [OF h] by blast
qed

end
