(* ===== verification/Errors.thy ===== *)
theory Errors
  imports Prelude
begin

text \<open>
  The error taxonomy (src/backend/errors.ts) and the values a \<open>catch\<close> of the program tells
  apart: a backend error with its class and code, the refusal of private mode, any other
  \<open>Error\<close> with its name and optional \<open>code\<close>, and a thrown value that is no \<open>Error\<close>.
\<close>

datatype ErrorCode =
    Auth | Validation | Conflict | Timeout | Cancelled | Availability | ResponseFormat
  | Capability | NotPersisted

fun code_text :: "ErrorCode \<Rightarrow> string" where
  "code_text Auth = ''auth''"
| "code_text Validation = ''validation''"
| "code_text Conflict = ''conflict''"
| "code_text Timeout = ''timeout''"
| "code_text Cancelled = ''cancelled''"
| "code_text Availability = ''availability''"
| "code_text ResponseFormat = ''response-format''"
| "code_text Capability = ''capability''"
| "code_text NotPersisted = ''not-persisted''"

datatype backend_class =
    BackendError ErrorCode | AuthError | ValidationError | ConflictError | TimeoutError
  | CancelledError | AvailabilityError | ResponseFormatError | CapabilityError
  | OpIdNotPersistedError | PrivacyGateError | PathEscapeError

fun class_code :: "backend_class \<Rightarrow> ErrorCode" where
  "class_code (BackendError c) = c"
| "class_code AuthError = Auth"
| "class_code ValidationError = Validation"
| "class_code ConflictError = Conflict"
| "class_code TimeoutError = Timeout"
| "class_code CancelledError = Cancelled"
| "class_code AvailabilityError = Availability"
| "class_code ResponseFormatError = ResponseFormat"
| "class_code CapabilityError = Capability"
| "class_code OpIdNotPersistedError = NotPersisted"
| "class_code PrivacyGateError = Validation"
| "class_code PathEscapeError = Validation"

fun class_name :: "backend_class \<Rightarrow> string" where
  "class_name (BackendError c) = ''BackendError''"
| "class_name AuthError = ''AuthError''"
| "class_name ValidationError = ''ValidationError''"
| "class_name ConflictError = ''ConflictError''"
| "class_name TimeoutError = ''TimeoutError''"
| "class_name CancelledError = ''CancelledError''"
| "class_name AvailabilityError = ''AvailabilityError''"
| "class_name ResponseFormatError = ''ResponseFormatError''"
| "class_name CapabilityError = ''CapabilityError''"
| "class_name OpIdNotPersistedError = ''OpIdNotPersistedError''"
| "class_name PrivacyGateError = ''PrivacyGateError''"
| "class_name PathEscapeError = ''PathEscapeError''"

datatype exn =
    Backend backend_class
  | PrivateModeActive
  | OtherError string "string option"
  | NotAnError

fun isRetryable :: "exn \<Rightarrow> bool" where
  "isRetryable (Backend c) = (class_code c = Availability)"
| "isRetryable _ = False"

text \<open>\<open>name:code\<close>, never a message: what may be stored on a job.\<close>

fun errorFingerprint :: "exn \<Rightarrow> string" where
  "errorFingerprint (Backend c) = class_name c @ '':'' @ code_text (class_code c)"
| "errorFingerprint PrivateModeActive = ''PrivateModeActiveError''"
| "errorFingerprint (OtherError name cd) =
     (case cd of None \<Rightarrow> name | Some c \<Rightarrow> if c = '''' then name else name @ '':'' @ c)"
| "errorFingerprint NotAnError = ''unknown''"

lemma isRetryable_iff: "isRetryable e \<longleftrightarrow> (\<exists>c. e = Backend c \<and> class_code c = Availability)"
  by (cases e) auto

end
