(* ===== verification/OutboxStore.thy ===== *)
theory OutboxStore
  imports Json Errors
begin

text \<open>
  The durable outbox (src/outbox/store.ts): the job record, the in-memory store, the journal
  file and the lock file it shares with other processes, and every operation of
  \<open>DurableOutbox\<close>. The journal is its text, one printed job per line. The outcome of the
  file-system calls of one persist is an argument (\<open>io\<close>), as are the clock, the minted UUID
  and the two functions the store is given (\<open>looksSecretBearing\<close> and \<open>targetFor\<close>).
\<close>

section \<open>Jobs\<close>

datatype IdempotentKind = KObservation | KReflection | KProposal | KBackupChunk | KBoardMessage | KForget

fun kind_text :: "IdempotentKind \<Rightarrow> string" where
  "kind_text KObservation = ''observation''"
| "kind_text KReflection = ''reflection''"
| "kind_text KProposal = ''proposal''"
| "kind_text KBackupChunk = ''backup-chunk''"
| "kind_text KBoardMessage = ''board-message''"
| "kind_text KForget = ''forget''"

definition all_kinds :: "IdempotentKind list" where
  "all_kinds = [KObservation, KReflection, KProposal, KBackupChunk, KBoardMessage, KForget]"

datatype JobStatus = Pending | Quarantined | Acked

fun status_text :: "JobStatus \<Rightarrow> string" where
  "status_text Pending = ''pending''"
| "status_text Quarantined = ''quarantined''"
| "status_text Acked = ''acked''"

definition OUTBOX_SCHEMA_VERSION :: int where "OUTBOX_SCHEMA_VERSION = 1"

record OutboxJob =
  seq :: int
  schemaVersion :: int
  kind :: IdempotentKind
  scope :: string
  opId :: string
  idempotencyKey :: string
  payload :: "json option"
  target :: "string option"
  attempts :: int
  nextAttemptAt :: ms
  createdAt :: ms
  status :: JobStatus
  lastError :: "string option"
  ackedAt :: "ms option"

subsection \<open>A job as a line of the journal\<close>

definition opt_member :: "string \<Rightarrow> json option \<Rightarrow> (string \<times> json) list" where
  "opt_member k v = (case v of None \<Rightarrow> [] | Some x \<Rightarrow> [(k, x)])"

definition job_json :: "OutboxJob \<Rightarrow> json" where
  "job_json j = JObj (
     [(''seq'', JNum (seq j)), (''schemaVersion'', JNum (schemaVersion j)),
      (''kind'', JStr (kind_text (kind j))), (''scope'', JStr (scope j)), (''opId'', JStr (opId j)),
      (''idempotencyKey'', JStr (idempotencyKey j))]
     @ opt_member ''payload'' (payload j)
     @ opt_member ''target'' (map_option JStr (target j))
     @ [(''attempts'', JNum (attempts j)), (''nextAttemptAt'', JNum (nextAttemptAt j)),
        (''createdAt'', JNum (createdAt j)), (''status'', JStr (status_text (status j)))]
     @ opt_member ''lastError'' (map_option JStr (lastError j))
     @ opt_member ''ackedAt'' (map_option JNum (ackedAt j)))"

fun as_num :: "json option \<Rightarrow> int option" where
  "as_num (Some (JNum n)) = Some n" | "as_num _ = None"

fun as_str :: "json option \<Rightarrow> string option" where
  "as_str (Some (JStr s)) = Some s" | "as_str _ = None"

definition kind_of :: "string \<Rightarrow> IdempotentKind option" where
  "kind_of s = find (\<lambda>k. kind_text k = s) all_kinds"

definition status_of :: "string \<Rightarrow> JobStatus option" where
  "status_of s = find (\<lambda>k. status_text k = s) [Pending, Quarantined, Acked]"

text \<open>
  One line of the journal. \<open>Malformed\<close> is the code's own check (a numeric \<open>seq\<close>, a string
  \<open>opId\<close>); \<open>Foreign\<close> is a line that passes it but whose other fields do not have the
  interface's types, which the record cannot carry.
\<close>

datatype line = Blank | Corrupt | Malformed | Foreign | JobLine OutboxJob

definition job_of_members :: "(string \<rightharpoonup> json) \<Rightarrow> line" where
  "job_of_members m =
     (case (as_num (m ''seq''), as_str (m ''opId'')) of
        (Some sq, Some op) \<Rightarrow>
          (case (as_num (m ''schemaVersion''), Option.bind (as_str (m ''kind'')) kind_of, as_str (m ''scope''),
                 as_str (m ''idempotencyKey''), as_num (m ''attempts''), as_num (m ''nextAttemptAt''),
                 as_num (m ''createdAt''), Option.bind (as_str (m ''status'')) status_of) of
             (Some sv, Some kd, Some sc, Some ik, Some att, Some nx, Some cr, Some stt) \<Rightarrow>
               JobLine \<lparr>seq = sq, schemaVersion = sv, kind = kd, scope = sc, opId = op, idempotencyKey = ik,
                 payload = m ''payload'', target = as_str (m ''target''), attempts = att,
                 nextAttemptAt = nx, createdAt = cr, status = stt,
                 lastError = as_str (m ''lastError''), ackedAt = as_num (m ''ackedAt'')\<rparr>
           | _ \<Rightarrow> Foreign)
      | _ \<Rightarrow> Malformed)"

definition read_line :: "string \<Rightarrow> line" where
  "read_line s =
     (if trim s = '''' then Blank
      else (case json_parse s of
              None \<Rightarrow> Corrupt
            | Some (JObj ms) \<Rightarrow> job_of_members (map_of ms)
            | Some _ \<Rightarrow> Malformed))"

definition job_line :: "OutboxJob \<Rightarrow> string" where
  "job_line j = stringify (job_json j)"

section \<open>The store, the files and the errors\<close>

record OutboxLimits =
  maxJobs :: nat
  maxBytes :: nat
  retentionMs :: ms

definition DEFAULT_LIMITS :: OutboxLimits where
  "DEFAULT_LIMITS = \<lparr>maxJobs = 5000, maxBytes = 50 * 1024 * 1024, retentionMs = 14 * 24 * 60 * 60 * 1000\<rparr>"

record DurableOutbox =
  jobs :: "OutboxJob list"
  nextSeq :: int
  limits :: OutboxLimits
  persistFault :: bool
  readOnlyVersion :: "int option"
  closed :: bool

text \<open>The directory: the journal text with its permission bits, and the lock file's mtime.\<close>

record outbox_fs =
  journal :: "string option"
  fmode :: nat
  lockMtime :: "ms option"

datatype outbox_error =
    OutboxClosed | OutboxReadOnly int | OutboxOverflow | SecretBearing | BadIdempotencyKey
  | OutboxPersist | IoError | JobNotFound string int | NoQuarantinedJob int
  | LockHeld | Permission nat | CorruptLine nat | MalformedLine nat | ForeignLine nat

section \<open>Opening: lock, permissions, load\<close>

definition LOCK_STALE_MS :: ms where "LOCK_STALE_MS = 30000"

definition acquireLock :: "ms \<Rightarrow> outbox_fs \<Rightarrow> outbox_error + outbox_fs" where
  "acquireLock now fs =
     (case lockMtime fs of
        None \<Rightarrow> Inr (fs\<lparr>lockMtime := Some now\<rparr>)
      | Some m \<Rightarrow>
          if now - m > LOCK_STALE_MS then Inr (fs\<lparr>lockMtime := Some now\<rparr>)
          else Inl LockHeld)"

definition releaseLock :: "outbox_fs \<Rightarrow> outbox_fs" where
  "releaseLock fs = fs\<lparr>lockMtime := None\<rparr>"

definition push_loaded :: "OutboxJob \<Rightarrow> DurableOutbox \<Rightarrow> DurableOutbox" where
  "push_loaded j st = st\<lparr>jobs := jobs st @ [j], nextSeq := max (nextSeq st) (seq j + 1),
     readOnlyVersion := (if schemaVersion j > OUTBOX_SCHEMA_VERSION then Some (schemaVersion j)
                         else readOnlyVersion st)\<rparr>"

fun load_lines :: "nat \<Rightarrow> string list \<Rightarrow> DurableOutbox \<Rightarrow> outbox_error + DurableOutbox" where
  "load_lines i [] st = Inr st"
| "load_lines i (l # ls) st =
     (case read_line l of
        Blank \<Rightarrow> load_lines (Suc i) ls st
      | Corrupt \<Rightarrow> Inl (CorruptLine (Suc i))
      | Malformed \<Rightarrow> Inl (MalformedLine (Suc i))
      | Foreign \<Rightarrow> Inl (ForeignLine (Suc i))
      | JobLine j \<Rightarrow> load_lines (Suc i) ls (push_loaded j st))"

definition load :: "string \<Rightarrow> DurableOutbox \<Rightarrow> outbox_error + DurableOutbox" where
  "load text st = load_lines 0 (split_on nl text) st"

definition new_store :: "OutboxLimits \<Rightarrow> DurableOutbox" where
  "new_store lims = \<lparr>jobs = [], nextSeq = 1, limits = lims, persistFault = False,
     readOnlyVersion = None, closed = False\<rparr>"

definition open_outbox :: "ms \<Rightarrow> OutboxLimits \<Rightarrow> outbox_fs \<Rightarrow> (outbox_error + DurableOutbox) \<times> outbox_fs" where
  "open_outbox now lims fs =
     (case acquireLock now fs of
        Inl e \<Rightarrow> (Inl e, fs)
      | Inr fs1 \<Rightarrow>
          (case journal fs1 of
             None \<Rightarrow> (Inr (new_store lims), fs1)
           | Some text \<Rightarrow>
               if fmode fs1 mod 64 \<noteq> 0 then (Inl (Permission (fmode fs1)), releaseLock fs1)
               else (case load text (new_store lims) of
                       Inl e \<Rightarrow> (Inl e, releaseLock fs1)
                     | Inr st \<Rightarrow> (Inr st, fs1))))"

section \<open>Persisting\<close>

definition journal_text :: "OutboxJob list \<Rightarrow> string" where
  "journal_text js =
     join_with [nl] (map job_line (filter (\<lambda>j. schemaVersion j \<le> OUTBOX_SCHEMA_VERSION) js))"

definition persist :: "io \<Rightarrow> DurableOutbox \<Rightarrow> outbox_fs \<Rightarrow> (outbox_error + unit) \<times> DurableOutbox \<times> outbox_fs" where
  "persist io st fs =
     (if persistFault st then (Inl OutboxPersist, st\<lparr>persistFault := False\<rparr>, fs)
      else (case io of
              IoFailBefore \<Rightarrow> (Inl IoError, st, fs)
            | IoFailAfter \<Rightarrow> (Inl IoError, st, fs\<lparr>journal := Some (journal_text (jobs st)), fmode := 384\<rparr>)
            | IoOk \<Rightarrow> (Inr (), st, fs\<lparr>journal := Some (journal_text (jobs st)), fmode := 384\<rparr>)))"

definition retainedBytes :: "DurableOutbox \<Rightarrow> nat" where
  "retainedBytes st = foldl (\<lambda>n j. n + length (job_line j) + 1) 0 (jobs st)"

definition capturePaused :: "DurableOutbox \<Rightarrow> bool" where
  "capturePaused st =
     (length (jobs st) \<ge> maxJobs (limits st) \<or> retainedBytes st \<ge> maxBytes (limits st))"

section \<open>Operations\<close>

record EnqueueInput =
  in_kind :: IdempotentKind
  in_scope :: string
  in_key :: string
  in_payload :: "json option"
  in_opId :: "string option"
  in_target :: "string option"

definition key_ok :: "string \<Rightarrow> bool" where
  "key_ok k = (16 \<le> length k \<and> length k \<le> 64 \<and> list_all is_hex k)"

definition new_job :: "(string \<Rightarrow> string option) \<Rightarrow> ms \<Rightarrow> string \<Rightarrow> EnqueueInput \<Rightarrow> int \<Rightarrow> OutboxJob" where
  "new_job targetFor now uuid inp sq =
     \<lparr>seq = sq, schemaVersion = OUTBOX_SCHEMA_VERSION, kind = in_kind inp, scope = in_scope inp,
      opId = default_to uuid (in_opId inp), idempotencyKey = in_key inp, payload = in_payload inp,
      target = (case in_target inp of Some t \<Rightarrow> Some t | None \<Rightarrow> targetFor (in_scope inp)),
      attempts = 0, nextAttemptAt = now, createdAt = now, status = Pending,
      lastError = None, ackedAt = None\<rparr>"

definition enqueue ::
  "(string \<Rightarrow> bool) \<Rightarrow> (string \<Rightarrow> string option) \<Rightarrow> ms \<Rightarrow> string \<Rightarrow> EnqueueInput \<Rightarrow> io
   \<Rightarrow> DurableOutbox \<Rightarrow> outbox_fs \<Rightarrow> (outbox_error + OutboxJob) \<times> DurableOutbox \<times> outbox_fs" where
  "enqueue looksSecretBearing targetFor now uuid inp io st fs =
     (if closed st then (Inl OutboxClosed, st, fs)
      else case readOnlyVersion st of Some v \<Rightarrow> (Inl (OutboxReadOnly v), st, fs)
      | None \<Rightarrow>
      if capturePaused st then (Inl OutboxOverflow, st, fs)
      else if looksSecretBearing (case in_payload inp of None \<Rightarrow> '''' | Some p \<Rightarrow> stringify p)
        then (Inl SecretBearing, st, fs)
      else if \<not> key_ok (in_key inp) then (Inl BadIdempotencyKey, st, fs)
      else
        (let job = new_job targetFor now uuid inp (nextSeq st);
             st1 = st\<lparr>nextSeq := nextSeq st + 1, jobs := jobs st @ [job]\<rparr>
         in case persist io st1 fs of
              (Inl e, st2, fs2) \<Rightarrow> (Inl e, st2\<lparr>jobs := jobs st, nextSeq := seq job\<rparr>, fs2)
            | (Inr _, st2, fs2) \<Rightarrow> (Inr job, st2, fs2)))"

text \<open>\<open>jobs.find\<close> followed by a mutation of the job it found: the first match is updated.\<close>

fun upd_first :: "(OutboxJob \<Rightarrow> bool) \<Rightarrow> (OutboxJob \<Rightarrow> OutboxJob) \<Rightarrow> OutboxJob list \<Rightarrow> OutboxJob list" where
  "upd_first P f [] = []"
| "upd_first P f (j # js) = (if P j then f j # js else j # upd_first P f js)"

definition mutate ::
  "string \<Rightarrow> int \<Rightarrow> (OutboxJob \<Rightarrow> OutboxJob) \<Rightarrow> io \<Rightarrow> DurableOutbox \<Rightarrow> outbox_fs
   \<Rightarrow> (outbox_error + unit) \<times> DurableOutbox \<times> outbox_fs" where
  "mutate what sq fn io st fs =
     (case readOnlyVersion st of Some v \<Rightarrow> (Inl (OutboxReadOnly v), st, fs)
      | None \<Rightarrow>
          (case find (\<lambda>j. seq j = sq) (jobs st) of
             None \<Rightarrow> (Inl (JobNotFound what sq), st, fs)
           | Some job \<Rightarrow>
               if schemaVersion job > OUTBOX_SCHEMA_VERSION then (Inl (JobNotFound what sq), st, fs)
               else
                 (let st1 = st\<lparr>jobs := upd_first (\<lambda>j. seq j = sq) fn (jobs st)\<rparr>
                  in case persist io st1 fs of
                       (Inl e, st2, fs2) \<Rightarrow> (Inl e, st2\<lparr>jobs := jobs st\<rparr>, fs2)
                     | (Inr _, st2, fs2) \<Rightarrow> (Inr (), st2, fs2))))"

definition ack where
  "ack now sq = mutate ''ack'' sq (\<lambda>j. j\<lparr>status := Acked, ackedAt := Some now\<rparr>)"

definition retry where
  "retry sq att nxt = mutate ''retry'' sq (\<lambda>j. j\<lparr>attempts := att, nextAttemptAt := nxt\<rparr>)"

definition quarantine where
  "quarantine sq reason = mutate ''quarantine'' sq (\<lambda>j. j\<lparr>status := Quarantined, lastError := Some reason\<rparr>)"

definition discardQuarantined ::
  "int \<Rightarrow> io \<Rightarrow> DurableOutbox \<Rightarrow> outbox_fs \<Rightarrow> (outbox_error + unit) \<times> DurableOutbox \<times> outbox_fs" where
  "discardQuarantined sq io st fs =
     (case find (\<lambda>j. seq j = sq \<and> status j = Quarantined) (jobs st) of
        None \<Rightarrow> (Inl (NoQuarantinedJob sq), st, fs)
      | Some _ \<Rightarrow>
          (let st1 = st\<lparr>jobs := filter (\<lambda>j. seq j \<noteq> sq) (jobs st)\<rparr>
           in case persist io st1 fs of
                (Inl e, st2, fs2) \<Rightarrow> (Inl e, st2\<lparr>jobs := jobs st\<rparr>, fs2)
              | (Inr _, st2, fs2) \<Rightarrow> (Inr (), st2, fs2)))"

definition kept_by_retention :: "ms \<Rightarrow> OutboxJob \<Rightarrow> bool" where
  "kept_by_retention cutoff j = (status j \<noteq> Acked \<or> default_to 0 (ackedAt j) > cutoff)"

definition runRetention ::
  "ms \<Rightarrow> io \<Rightarrow> DurableOutbox \<Rightarrow> outbox_fs \<Rightarrow> (outbox_error + nat) \<times> DurableOutbox \<times> outbox_fs" where
  "runRetention now io st fs =
     (case readOnlyVersion st of Some v \<Rightarrow> (Inr 0, st, fs)
      | None \<Rightarrow>
          (let cutoff = now - retentionMs (limits st);
               keep = filter (kept_by_retention cutoff) (jobs st);
               removed = length (jobs st) - length keep
           in if removed > 0 then
                (case persist io (st\<lparr>jobs := keep\<rparr>) fs of
                   (Inl e, st2, fs2) \<Rightarrow> (Inl e, st2\<lparr>jobs := jobs st\<rparr>, fs2)
                 | (Inr _, st2, fs2) \<Rightarrow> (Inr removed, st2, fs2))
              else (Inr 0, st, fs)))"

section \<open>Queries\<close>

definition pending :: "DurableOutbox \<Rightarrow> OutboxJob list" where
  "pending st = filter (\<lambda>j. status j = Pending \<and> schemaVersion j \<le> OUTBOX_SCHEMA_VERSION) (jobs st)"

definition quarantined :: "DurableOutbox \<Rightarrow> OutboxJob list" where
  "quarantined st = filter (\<lambda>j. status j = Quarantined) (jobs st)"

definition hasOpId :: "DurableOutbox \<Rightarrow> string \<Rightarrow> bool" where
  "hasOpId st op = list_ex (\<lambda>j. opId j = op) (jobs st)"

definition maxSeq :: "DurableOutbox \<Rightarrow> int" where
  "maxSeq st = foldl (\<lambda>m j. max m (seq j)) 0 (jobs st)"

definition assertPersisted :: "DurableOutbox \<Rightarrow> string \<Rightarrow> exn option" where
  "assertPersisted st op = (if \<not> hasOpId st op then Some (Backend OpIdNotPersistedError) else None)"

record OutboxStats =
  s_pending :: nat
  s_quarantined :: nat
  s_acked :: nat
  s_bytes :: nat
  s_paused :: bool

definition stats :: "DurableOutbox \<Rightarrow> OutboxStats" where
  "stats st = (let count = (\<lambda>s. length (filter (\<lambda>j. status j = s) (jobs st))) in
     \<lparr>s_pending = count Pending, s_quarantined = count Quarantined, s_acked = count Acked,
      s_bytes = retainedBytes st, s_paused = capturePaused st\<rparr>)"

definition close_outbox :: "DurableOutbox \<Rightarrow> outbox_fs \<Rightarrow> DurableOutbox \<times> outbox_fs" where
  "close_outbox st fs = (st\<lparr>closed := True\<rparr>, releaseLock fs)"


section \<open>A job survives its line of text\<close>

definition job_wf :: "OutboxJob \<Rightarrow> bool" where
  "job_wf j = (case payload j of None \<Rightarrow> True | Some p \<Rightarrow> json_wf p)"

lemma kind_of_text: "kind_of (kind_text k) = Some k"
  by (cases k) (simp_all add: kind_of_def all_kinds_def)

lemma status_of_text: "status_of (status_text s) = Some s"
  by (cases s) (simp_all add: status_of_def)

lemma job_json_wf: "job_wf j \<Longrightarrow> json_wf (job_json j)"
  by (auto simp: job_json_def job_wf_def opt_member_def split: option.splits)

lemma trim_brace: "trim (CHR ''{'' # s) \<noteq> []"
proof -
  have "CHR ''{'' \<in> set (dropWhile is_space (rev (CHR ''{'' # s)))"
    by (simp add: dropWhile_append is_space_def)
  then show ?thesis by (auto simp: trim_def is_space_def)
qed

lemma as_num_opt [simp]: "as_num (map_option JNum x) = x"
  by (cases x) auto

lemma as_str_opt [simp]: "as_str (map_option JStr x) = x"
  by (cases x) auto

lemma read_job_line: "job_wf j \<Longrightarrow> read_line (job_line j) = JobLine j"
proof -
  assume wf: "job_wf j"
  obtain ms where ms: "job_json j = JObj ms" by (simp add: job_json_def)
  have "trim (job_line j) \<noteq> []" by (simp add: job_line_def ms trim_brace)
  moreover have "json_parse (job_line j) = Some (JObj ms)"
    using parse_stringify [OF job_json_wf [OF wf]] by (simp add: job_line_def ms)
  moreover have "job_of_members (map_of ms) = JobLine j"
  proof -
    have m: "map_of ms k = map_of (case job_json j of JObj x \<Rightarrow> x | _ \<Rightarrow> []) k" for k
      by (simp add: ms)
    show ?thesis
      by (cases "payload j"; cases "target j"; cases "lastError j"; cases "ackedAt j")
        (simp_all add: job_of_members_def m job_json_def opt_member_def kind_of_text status_of_text)
  qed
  ultimately show ?thesis by (simp add: read_line_def)
qed

lemma quote_no_nl: "nl \<notin> set (quote s)"
  using esc_no_nl by (auto simp: quote_def)

lemma show_int_no_nl: "nl \<notin> set (show_int i)"
  using show_nat_digits [of nl] by (auto simp: show_int_def is_digit_def)

lemma join_no: "c \<notin> set sep \<Longrightarrow> (\<And>p. p \<in> set ps \<Longrightarrow> c \<notin> set p) \<Longrightarrow> c \<notin> set (join_with sep ps)"
  using set_join_with [of sep ps] by auto

lemma stringify_no_nl: "nl \<notin> set (stringify v)"
proof (induction v)
  case (JArr xs)
  have "nl \<notin> set (join_with '','' (map stringify xs))" using JArr by (intro join_no) auto
  then show ?case by simp
next
  case (JObj ms)
  have "nl \<notin> set (member_text m)" if "m \<in> set ms" for m
    using JObj [OF that, of "snd m"] quote_no_nl by (cases m) (auto simp: prod_set_defs)
  then have "nl \<notin> set (join_with '','' (map member_text ms))" by (intro join_no) auto
  then show ?case by simp
qed (auto simp: quote_no_nl show_int_no_nl)

lemma job_line_no_nl: "nl \<notin> set (job_line j)"
  by (simp add: job_line_def stringify_no_nl)

section \<open>Loading what was persisted\<close>

lemma load_lines_jobs:
  "(\<forall>j \<in> set js. job_wf j) \<Longrightarrow>
     load_lines i (map job_line js) st = Inr (foldl (\<lambda>s j. push_loaded j s) st js)"
  by (induction js arbitrary: i st) (auto simp: read_job_line)

lemma foldl_push_loaded:
  "jobs (foldl (\<lambda>s j. push_loaded j s) st js) = jobs st @ js"
  "limits (foldl (\<lambda>s j. push_loaded j s) st js) = limits st"
  "persistFault (foldl (\<lambda>s j. push_loaded j s) st js) = persistFault st"
  "closed (foldl (\<lambda>s j. push_loaded j s) st js) = closed st"
  "nextSeq (foldl (\<lambda>s j. push_loaded j s) st js) = foldl (\<lambda>m j. max m (seq j + 1)) (nextSeq st) js"
  by (induction js arbitrary: st) (auto simp: push_loaded_def)

lemma foldl_push_readonly:
  "(\<forall>j \<in> set js. schemaVersion j \<le> OUTBOX_SCHEMA_VERSION) \<Longrightarrow>
     readOnlyVersion (foldl (\<lambda>s j. push_loaded j s) st js) = readOnlyVersion st"
  by (induction js arbitrary: st) (auto simp: push_loaded_def)

lemma foldl_max_ge: "(m :: int) \<le> foldl (\<lambda>m j. max m (f j)) m js \<and> (\<forall>j \<in> set js. f j \<le> foldl (\<lambda>m j. max m (f j)) m js)"
proof (induction js arbitrary: m)
  case (Cons j js)
  show ?case using Cons [of "max m (f j)"] by auto
qed simp

lemma load_journal:
  assumes "\<forall>j \<in> set js. job_wf j \<and> schemaVersion j \<le> OUTBOX_SCHEMA_VERSION"
  shows "load (journal_text js) st = Inr (foldl (\<lambda>s j. push_loaded j s) st js)"
proof -
  have f: "filter (\<lambda>j. schemaVersion j \<le> OUTBOX_SCHEMA_VERSION) js = js"
    using assms by (simp add: filter_id_conv)
  show ?thesis
  proof (cases "js = []")
    case True
    then show ?thesis by (simp add: load_def journal_text_def read_line_def trim_def)
  next
    case False
    then have "split_on nl (journal_text js) = map job_line js"
      unfolding journal_text_def f by (intro split_join) (auto simp: job_line_no_nl)
    then show ?thesis using assms by (simp add: load_def load_lines_jobs)
  qed
qed

section \<open>The invariant of the store\<close>

definition store_inv :: "DurableOutbox \<Rightarrow> bool" where
  "store_inv st =
     (distinct (map seq (jobs st)) \<and> 1 \<le> nextSeq st
      \<and> (\<forall>j \<in> set (jobs st). seq j < nextSeq st \<and> job_wf j)
      \<and> (readOnlyVersion st = None \<longrightarrow> (\<forall>j \<in> set (jobs st). schemaVersion j \<le> OUTBOX_SCHEMA_VERSION)))"

text \<open>The journal holds exactly what is in memory.\<close>

definition synced :: "DurableOutbox \<Rightarrow> outbox_fs \<Rightarrow> bool" where
  "synced st fs = (journal fs = Some (journal_text (jobs st)))"

lemma store_inv_new: "store_inv (new_store lims)"
  by (simp add: store_inv_def new_store_def)

lemma persist_cases:
  assumes "persist io st fs = (r, st', fs')"
  shows "st' = st\<lparr>persistFault := persistFault st'\<rparr>"
    and "r = Inr () \<Longrightarrow> synced st fs' \<and> lockMtime fs' = lockMtime fs"
    and "r = Inl e \<Longrightarrow> io \<noteq> IoFailAfter \<Longrightarrow> fs' = fs"
    and "io = IoOk \<Longrightarrow> \<not> persistFault st \<Longrightarrow> r = Inr ()"
  using assms by (auto simp: persist_def synced_def split: if_splits io.splits)

lemma synced_fault [simp]: "synced (st\<lparr>persistFault := b\<rparr>) fs = synced st fs"
  by (simp add: synced_def)

lemma store_inv_fault [simp]: "store_inv (st\<lparr>persistFault := b\<rparr>) = store_inv st"
  by (simp add: store_inv_def)

text \<open>
  Persist with rollback, the pattern of every mutation: the jobs are replaced, persisted,
  and restored when persisting throws.
\<close>

definition replace_jobs :: "OutboxJob list \<Rightarrow> io \<Rightarrow> DurableOutbox \<Rightarrow> outbox_fs \<Rightarrow> (outbox_error + unit) \<times> DurableOutbox \<times> outbox_fs" where
  "replace_jobs js io st fs =
     (case persist io (st\<lparr>jobs := js\<rparr>) fs of
        (Inl e, st2, fs2) \<Rightarrow> (Inl e, st2\<lparr>jobs := jobs st\<rparr>, fs2)
      | (Inr _, st2, fs2) \<Rightarrow> (Inr (), st2, fs2))"

lemma replace_jobs_cases:
  assumes "replace_jobs js io st fs = (r, st', fs')"
  shows "r = Inr () \<Longrightarrow> st' = st\<lparr>jobs := js, persistFault := persistFault st'\<rparr> \<and> synced st' fs'"
    and "r = Inl e \<Longrightarrow> st' = st\<lparr>persistFault := persistFault st'\<rparr> \<and> (io \<noteq> IoFailAfter \<longrightarrow> fs' = fs)"
  using assms
  by (auto simp: replace_jobs_def persist_def synced_def split: if_splits io.splits)

lemma mutate_replace:
  "mutate what sq fn io st fs =
     (case readOnlyVersion st of Some v \<Rightarrow> (Inl (OutboxReadOnly v), st, fs)
      | None \<Rightarrow>
          (case find (\<lambda>j. seq j = sq) (jobs st) of
             None \<Rightarrow> (Inl (JobNotFound what sq), st, fs)
           | Some job \<Rightarrow>
               if schemaVersion job > OUTBOX_SCHEMA_VERSION then (Inl (JobNotFound what sq), st, fs)
               else replace_jobs (upd_first (\<lambda>j. seq j = sq) fn (jobs st)) io st fs))"
  by (simp add: mutate_def replace_jobs_def Let_def split: option.splits)

lemma discard_replace:
  "discardQuarantined sq io st fs =
     (case find (\<lambda>j. seq j = sq \<and> status j = Quarantined) (jobs st) of
        None \<Rightarrow> (Inl (NoQuarantinedJob sq), st, fs)
      | Some _ \<Rightarrow> replace_jobs (filter (\<lambda>j. seq j \<noteq> sq) (jobs st)) io st fs)"
  by (simp add: discardQuarantined_def replace_jobs_def Let_def split: option.splits)

lemma map_upd_first: "(\<And>j. g (f j) = g j) \<Longrightarrow> map g (upd_first P f js) = map g js"
  by (induction js) auto

lemma set_upd_first: "x \<in> set (upd_first P f js) \<Longrightarrow> x \<in> set js \<or> (\<exists>j \<in> set js. P j \<and> x = f j)"
  by (induction js) (auto split: if_splits)

lemma upd_first_keeps: "j \<in> set js \<Longrightarrow> \<not> P j \<Longrightarrow> j \<in> set (upd_first P f js)"
  by (induction js) auto

lemma store_inv_upd_first:
  assumes "store_inv st"
    and "\<And>j. seq (fn j) = seq j" "\<And>j. schemaVersion (fn j) = schemaVersion j" "\<And>j. payload (fn j) = payload j"
  shows "store_inv (st\<lparr>jobs := upd_first P fn (jobs st)\<rparr>)"
  using assms by (auto simp: store_inv_def map_upd_first job_wf_def dest!: set_upd_first)

lemma store_inv_filter: "store_inv st \<Longrightarrow> store_inv (st\<lparr>jobs := filter P (jobs st)\<rparr>)"
  by (auto simp: store_inv_def distinct_map_filter)

section \<open>The contract every mutation keeps\<close>

text \<open>
  \<open>tgt\<close> is the job a command addresses, \<open>pre\<close> what the type of its input guarantees. The
  laws: the invariant is kept, an error rolls everything back (the journal too, unless the
  directory sync failed after the rename), success leaves the journal in step with memory,
  and a pending job that is not addressed stays as it is.
\<close>

locale durable_op =
  fixes cmd_op :: "'c \<Rightarrow> io \<Rightarrow> DurableOutbox \<Rightarrow> outbox_fs \<Rightarrow> (outbox_error + 'a) \<times> DurableOutbox \<times> outbox_fs"
    and tgt :: "'c \<Rightarrow> int option"
    and pre :: "'c \<Rightarrow> bool"
  assumes keeps_inv: "pre c \<Longrightarrow> store_inv st \<Longrightarrow> cmd_op c io st fs = (r, st', fs') \<Longrightarrow> store_inv st'"
    and rolls_back: "cmd_op c io st fs = (Inl e, st', fs') \<Longrightarrow>
      jobs st' = jobs st \<and> nextSeq st' = nextSeq st \<and> (io \<noteq> IoFailAfter \<longrightarrow> fs' = fs)"
    and stays_synced: "cmd_op c io st fs = (Inr x, st', fs') \<Longrightarrow> synced st fs \<Longrightarrow> synced st' fs'"
    and keeps_pending: "cmd_op c io st fs = (r, st', fs') \<Longrightarrow> j \<in> set (jobs st) \<Longrightarrow> status j = Pending
      \<Longrightarrow> tgt c \<noteq> Some (seq j) \<Longrightarrow> j \<in> set (jobs st')"
    and keeps_limits: "cmd_op c io st fs = (r, st', fs') \<Longrightarrow>
      limits st' = limits st \<and> readOnlyVersion st' = readOnlyVersion st"

definition run_cmds ::
  "('c \<Rightarrow> io \<Rightarrow> DurableOutbox \<Rightarrow> outbox_fs \<Rightarrow> (outbox_error + 'a) \<times> DurableOutbox \<times> outbox_fs)
   \<Rightarrow> ('c \<times> io) list \<Rightarrow> DurableOutbox \<times> outbox_fs \<Rightarrow> DurableOutbox \<times> outbox_fs" where
  "run_cmds f cs s = foldl (\<lambda>(st, fs) (c, io). snd (f c io st fs)) s cs"

lemma run_cmds_simps [simp]:
  "run_cmds f [] s = s"
  "run_cmds f ((c, io) # cs) (st, fs) = run_cmds f cs (snd (f c io st fs))"
  by (simp_all add: run_cmds_def)

context durable_op
begin

lemma run_inv:
  "\<forall>(c, io) \<in> set cs. pre c \<Longrightarrow> store_inv st \<Longrightarrow> run_cmds cmd_op cs (st, fs) = (st', fs') \<Longrightarrow> store_inv st'"
proof (induction cs arbitrary: st fs)
  case (Cons a cs)
  obtain c io where a: "a = (c, io)" by (cases a)
  obtain r s1 f1 where s: "cmd_op c io st fs = (r, s1, f1)" by (cases "cmd_op c io st fs") auto
  have "store_inv s1" using keeps_inv [OF _ Cons.prems(2) s] Cons.prems(1) by (simp add: a)
  then show ?case using Cons by (auto simp: a s)
qed simp

lemma run_keeps_pending:
  "run_cmds cmd_op cs (st, fs) = (st', fs') \<Longrightarrow> j \<in> set (jobs st) \<Longrightarrow> status j = Pending
     \<Longrightarrow> \<forall>(c, io) \<in> set cs. tgt c \<noteq> Some (seq j) \<Longrightarrow> j \<in> set (jobs st')"
proof (induction cs arbitrary: st fs)
  case (Cons a cs)
  obtain c io where a: "a = (c, io)" by (cases a)
  obtain r s1 f1 where s: "cmd_op c io st fs = (r, s1, f1)" by (cases "cmd_op c io st fs") auto
  have "j \<in> set (jobs s1)" using keeps_pending [OF s Cons.prems(2,3)] Cons.prems(4) by (simp add: a)
  then show ?case using Cons by (auto simp: a s)
qed simp

text \<open>Reopening after a successful operation recovers the very same jobs.\<close>

lemma crash_after_success:
  assumes "pre c" "store_inv st" "readOnlyVersion st = None" "synced st fs"
    and op: "cmd_op c io st fs = (Inr x, st', fs')"
  shows "\<exists>text s'. journal fs' = Some text \<and> load text (new_store lims) = Inr s' \<and> jobs s' = jobs st'"
proof -
  have i: "store_inv st'" by (rule keeps_inv [OF assms(1,2) op])
  have ro: "readOnlyVersion st' = None" using keeps_limits [OF op] assms(3) by simp
  have "journal fs' = Some (journal_text (jobs st'))"
    using stays_synced [OF op assms(4)] by (simp add: synced_def)
  moreover have "load (journal_text (jobs st')) (new_store lims)
      = Inr (foldl (\<lambda>s j. push_loaded j s) (new_store lims) (jobs st'))"
    using i ro by (intro load_journal) (auto simp: store_inv_def)
  ultimately show ?thesis by (auto simp: foldl_push_loaded new_store_def)
qed

end

section \<open>The commands of the store keep the contract\<close>

lemma enqueue_cases:
  assumes "enqueue sec tf now uuid inp io st fs = (r, st', fs')"
  shows "r = Inl e \<Longrightarrow> st' = st\<lparr>persistFault := persistFault st'\<rparr> \<and> (io \<noteq> IoFailAfter \<longrightarrow> fs' = fs)"
    and "r = Inr job \<Longrightarrow> job = new_job tf now uuid inp (nextSeq st)
      \<and> st' = st\<lparr>jobs := jobs st @ [job], nextSeq := nextSeq st + 1, persistFault := persistFault st'\<rparr>
      \<and> synced st' fs' \<and> readOnlyVersion st = None \<and> \<not> closed st \<and> \<not> capturePaused st \<and> key_ok (in_key inp)
      \<and> \<not> sec (case in_payload inp of None \<Rightarrow> [] | Some p \<Rightarrow> stringify p)"
  using assms
  by (auto simp: enqueue_def Let_def persist_def synced_def new_job_def
      split: if_splits option.splits io.splits)

datatype store_cmd =
    CEnqueue ms string EnqueueInput
  | CAck ms int
  | CRetry int int ms
  | CQuarantine int string
  | CDiscard int
  | CRetention ms

definition erase :: "('e + 'a) \<times> 'b \<Rightarrow> ('e + unit) \<times> 'b" where
  "erase x = (case fst x of Inl e \<Rightarrow> Inl e | Inr _ \<Rightarrow> Inr (), snd x)"

fun store_step ::
  "(string \<Rightarrow> bool) \<Rightarrow> (string \<Rightarrow> string option) \<Rightarrow> store_cmd \<Rightarrow> io \<Rightarrow> DurableOutbox \<Rightarrow> outbox_fs
   \<Rightarrow> (outbox_error + unit) \<times> DurableOutbox \<times> outbox_fs" where
  "store_step sec tf (CEnqueue now uuid inp) io st fs = erase (enqueue sec tf now uuid inp io st fs)"
| "store_step sec tf (CAck now sq) io st fs = ack now sq io st fs"
| "store_step sec tf (CRetry sq att nxt) io st fs = retry sq att nxt io st fs"
| "store_step sec tf (CQuarantine sq reason) io st fs = quarantine sq reason io st fs"
| "store_step sec tf (CDiscard sq) io st fs = discardQuarantined sq io st fs"
| "store_step sec tf (CRetention now) io st fs = erase (runRetention now io st fs)"

fun cmd_target :: "store_cmd \<Rightarrow> int option" where
  "cmd_target (CAck now sq) = Some sq"
| "cmd_target (CRetry sq att nxt) = Some sq"
| "cmd_target (CQuarantine sq reason) = Some sq"
| "cmd_target (CDiscard sq) = Some sq"
| "cmd_target _ = None"

fun cmd_wf :: "store_cmd \<Rightarrow> bool" where
  "cmd_wf (CEnqueue now uuid inp) = (case in_payload inp of None \<Rightarrow> True | Some p \<Rightarrow> json_wf p)"
| "cmd_wf _ = True"

text \<open>
  What a change of the jobs may be: an append of a fresh job, an update of the target, or a
  filter that only drops settled jobs or the target.
\<close>

definition appends :: "store_cmd \<Rightarrow> DurableOutbox \<Rightarrow> DurableOutbox \<Rightarrow> bool" where
  "appends c st s = (\<exists>job. s = st\<lparr>jobs := jobs st @ [job], nextSeq := nextSeq st + 1\<rparr>
     \<and> seq job = nextSeq st \<and> schemaVersion job = OUTBOX_SCHEMA_VERSION \<and> (cmd_wf c \<longrightarrow> job_wf job)
     \<and> length (jobs st) < maxJobs (limits st))"

definition updates :: "store_cmd \<Rightarrow> DurableOutbox \<Rightarrow> DurableOutbox \<Rightarrow> bool" where
  "updates c st s = (\<exists>fn sq. cmd_target c = Some sq
     \<and> (\<forall>j. seq (fn j) = seq j \<and> schemaVersion (fn j) = schemaVersion j \<and> payload (fn j) = payload j)
     \<and> s = st\<lparr>jobs := upd_first (\<lambda>j. seq j = sq) fn (jobs st)\<rparr>)"

definition filters :: "store_cmd \<Rightarrow> DurableOutbox \<Rightarrow> DurableOutbox \<Rightarrow> bool" where
  "filters c st s = (\<exists>P. s = st\<lparr>jobs := filter P (jobs st)\<rparr>
     \<and> (\<forall>j. status j = Pending \<longrightarrow> cmd_target c \<noteq> Some (seq j) \<longrightarrow> P j))"

definition step_shape :: "store_cmd \<Rightarrow> io \<Rightarrow> DurableOutbox \<Rightarrow> outbox_fs \<Rightarrow> (outbox_error + unit) \<Rightarrow> DurableOutbox \<Rightarrow> outbox_fs \<Rightarrow> bool" where
  "step_shape c io st fs r st' fs' =
     (\<exists>s. st' = s\<lparr>persistFault := persistFault st'\<rparr> \<and>
       (case r of
          Inl e \<Rightarrow> s = st \<and> (io \<noteq> IoFailAfter \<longrightarrow> fs' = fs)
        | Inr _ \<Rightarrow> (s = st \<and> fs' = fs)
            \<or> (synced s fs' \<and> (appends c st s \<or> updates c st s \<or> filters c st s))))"

lemma no_change_shape: "step_shape c io st fs r st fs"
  by (cases r) (auto simp: step_shape_def intro!: exI [of _ st])

lemma replace_shape:
  assumes r: "replace_jobs js io st fs = (r, st', fs')"
    and c: "updates c st (st\<lparr>jobs := js\<rparr>) \<or> filters c st (st\<lparr>jobs := js\<rparr>)"
  shows "step_shape c io st fs r st' fs'"
proof (cases r)
  case (Inl e)
  then show ?thesis using replace_jobs_cases(2) [OF r Inl] by (auto simp: step_shape_def)
next
  case (Inr u)
  then have "st' = st\<lparr>jobs := js, persistFault := persistFault st'\<rparr>" and y: "synced st' fs'"
    using replace_jobs_cases(1) [OF r] by simp_all
  then have e: "st' = (st\<lparr>jobs := js\<rparr>)\<lparr>persistFault := persistFault st'\<rparr>" by simp
  have "synced (st\<lparr>jobs := js\<rparr>) fs'" using y by (subst (asm) e) (simp only: synced_fault)
  with e c Inr show ?thesis unfolding step_shape_def
    by (intro exI [of _ "st\<lparr>jobs := js\<rparr>"]) simp
qed

lemma mutate_shape:
  assumes "mutate what sq fn io st fs = (r, st', fs')" and "cmd_target c = Some sq"
    and "\<And>j. seq (fn j) = seq j \<and> schemaVersion (fn j) = schemaVersion j \<and> payload (fn j) = payload j"
  shows "step_shape c io st fs r st' fs'"
proof -
  consider "st' = st" "fs' = fs" | "replace_jobs (upd_first (\<lambda>j. seq j = sq) fn (jobs st)) io st fs = (r, st', fs')"
    using assms(1) by (auto simp: mutate_replace split: option.splits if_splits)
  then show ?thesis
  proof cases
    case 2
    show ?thesis by (rule replace_shape [OF 2]) (use assms(2,3) in \<open>auto simp: updates_def\<close>)
  qed (simp add: no_change_shape)
qed

lemma retention_replace:
  "erase (runRetention now io st fs) =
     (case readOnlyVersion st of Some v \<Rightarrow> (Inr (), st, fs)
      | None \<Rightarrow>
          if length (jobs st) - length (filter (kept_by_retention (now - retentionMs (limits st))) (jobs st)) > 0
          then replace_jobs (filter (kept_by_retention (now - retentionMs (limits st))) (jobs st)) io st fs
          else (Inr (), st, fs))"
  by (auto simp: runRetention_def replace_jobs_def erase_def Let_def split: option.splits sum.splits prod.splits)

lemma enqueue_shape:
  assumes "erase (enqueue sec tf now uuid inp io st fs) = (r, st', fs')"
  shows "step_shape (CEnqueue now uuid inp) io st fs r st' fs'"
proof -
  obtain r0 where e: "enqueue sec tf now uuid inp io st fs = (r0, st', fs')"
    and r: "r = (case r0 of Inl e \<Rightarrow> Inl e | Inr _ \<Rightarrow> Inr ())"
    using assms by (cases "enqueue sec tf now uuid inp io st fs") (auto simp: erase_def)
  show ?thesis
  proof (cases r0)
    case (Inl x)
    with r enqueue_cases(1) [OF e Inl] show ?thesis by (auto simp: step_shape_def)
  next
    case (Inr job)
    let ?s = "st\<lparr>jobs := jobs st @ [job], nextSeq := nextSeq st + 1\<rparr>"
    note c = enqueue_cases(2) [OF e Inr]
    then have st': "st' = ?s\<lparr>persistFault := persistFault st'\<rparr>" and y: "synced st' fs'" by blast+
    have "synced ?s fs'" using y by (subst (asm) st') (simp only: synced_fault)
    moreover have "appends (CEnqueue now uuid inp) st ?s"
      using c by (auto simp: appends_def new_job_def job_wf_def capturePaused_def)
    ultimately show ?thesis using st' r Inr unfolding step_shape_def
      by (intro exI [of _ ?s]) simp
  qed
qed

lemma store_step_shape:
  assumes "store_step sec tf c io st fs = (r, st', fs')"
  shows "step_shape c io st fs r st' fs'"
proof (cases c)
  case (CDiscard sq)
  consider "st' = st" "fs' = fs" | "replace_jobs (filter (\<lambda>j. seq j \<noteq> sq) (jobs st)) io st fs = (r, st', fs')"
    using assms CDiscard by (auto simp: discard_replace split: option.splits)
  then show ?thesis
  proof cases
    case 2
    show ?thesis by (rule replace_shape [OF 2]) (auto simp: CDiscard filters_def)
  qed (simp add: no_change_shape)
next
  case (CRetention now)
  let ?P = "kept_by_retention (now - retentionMs (limits st))"
  consider "st' = st" "fs' = fs" | "replace_jobs (filter ?P (jobs st)) io st fs = (r, st', fs')"
    using assms CRetention by (auto simp: retention_replace split: option.splits if_splits)
  then show ?thesis
  proof cases
    case 2
    have "filters c st (st\<lparr>jobs := filter ?P (jobs st)\<rparr>)"
      unfolding filters_def by (intro exI [of _ ?P]) (simp add: kept_by_retention_def)
    then show ?thesis by (intro replace_shape [OF 2]) simp
  qed (simp add: no_change_shape)
qed (use assms in \<open>auto simp: ack_def retry_def quarantine_def enqueue_shape elim!: mutate_shape\<close>)

lemma shape_inv:
  assumes "step_shape c io st fs r st' fs'" "cmd_wf c" "store_inv st"
  shows "store_inv st'"
proof -
  obtain s where s: "st' = s\<lparr>persistFault := persistFault st'\<rparr>"
    "s = st \<or> appends c st s \<or> updates c st s \<or> filters c st s"
    using assms(1) by (cases r) (auto simp: step_shape_def)
  have "store_inv s"
    using s(2)
  proof (elim disjE)
    assume "appends c st s"
    then show ?thesis using assms(2,3) by (force simp: appends_def store_inv_def)
  next
    assume "updates c st s"
    then show ?thesis using store_inv_upd_first [OF assms(3)] by (auto simp: updates_def)
  next
    assume "filters c st s"
    then show ?thesis using store_inv_filter [OF assms(3)] by (auto simp: filters_def)
  qed (use assms(3) in simp)
  then show ?thesis by (subst s(1)) (simp only: store_inv_fault)
qed

lemma shape_fields:
  assumes "step_shape c io st fs r st' fs'"
  shows "limits st' = limits st" "readOnlyVersion st' = readOnlyVersion st"
    and "r = Inl e \<Longrightarrow> jobs st' = jobs st \<and> nextSeq st' = nextSeq st"
    and "synced st fs \<Longrightarrow> r = Inr u \<Longrightarrow> synced st' fs'"
    and "j \<in> set (jobs st) \<Longrightarrow> status j = Pending \<Longrightarrow> cmd_target c \<noteq> Some (seq j) \<Longrightarrow> j \<in> set (jobs st')"
proof -
  obtain s where s: "st' = s\<lparr>persistFault := persistFault st'\<rparr>"
    and c: "s = st \<or> appends c st s \<or> updates c st s \<or> filters c st s"
    and e: "r = Inl e \<Longrightarrow> s = st" and y: "r = Inr u \<Longrightarrow> (s = st \<and> fs' = fs) \<or> synced s fs'"
    using assms by (cases r) (auto simp: step_shape_def)
  have f: "limits st' = limits s" "readOnlyVersion st' = readOnlyVersion s" "jobs st' = jobs s" "nextSeq st' = nextSeq s"
    by (subst s, simp)+
  show "limits st' = limits st" "readOnlyVersion st' = readOnlyVersion st"
    using c f by (auto simp: appends_def updates_def filters_def)
  show "r = Inl e \<Longrightarrow> jobs st' = jobs st \<and> nextSeq st' = nextSeq st"
    using e f by simp
  show "synced st fs \<Longrightarrow> r = Inr u \<Longrightarrow> synced st' fs'"
    using y f by (auto simp: synced_def)
  show "j \<in> set (jobs st) \<Longrightarrow> status j = Pending \<Longrightarrow> cmd_target c \<noteq> Some (seq j) \<Longrightarrow> j \<in> set (jobs st')"
    using c f by (auto simp: appends_def updates_def filters_def intro!: upd_first_keeps)
qed

interpretation outbox: durable_op "store_step sec tf" cmd_target cmd_wf for sec tf
proof
  fix c io st fs r st' fs'
  assume "cmd_wf c" "store_inv st" "store_step sec tf c io st fs = (r, st', fs')"
  then show "store_inv st'" using store_step_shape shape_inv by blast
next
  fix c io st fs e st' fs'
  assume a: "store_step sec tf c io st fs = (Inl e, st', fs')"
  have "io \<noteq> IoFailAfter \<longrightarrow> fs' = fs"
    using store_step_shape [OF a] by (auto simp: step_shape_def)
  with shape_fields(3) [OF store_step_shape [OF a] refl]
  show "jobs st' = jobs st \<and> nextSeq st' = nextSeq st \<and> (io \<noteq> IoFailAfter \<longrightarrow> fs' = fs)" by blast
next
  fix c io st fs x st' fs'
  assume a: "store_step sec tf c io st fs = (Inr x, st', fs')" "synced st fs"
  show "synced st' fs'" by (rule shape_fields(4) [OF store_step_shape [OF a(1)] a(2) refl])
next
  fix c io st fs r st' fs' j
  assume a: "store_step sec tf c io st fs = (r, st', fs')" "j \<in> set (jobs st)" "status j = Pending"
    "cmd_target c \<noteq> Some (seq j)"
  show "j \<in> set (jobs st')" by (rule shape_fields(5) [OF store_step_shape [OF a(1)] a(2-4)])
next
  fix c io st fs r st' fs'
  assume a: "store_step sec tf c io st fs = (r, st', fs')"
  show "limits st' = limits st \<and> readOnlyVersion st' = readOnlyVersion st"
    using shape_fields(1,2) [OF store_step_shape [OF a]] by blast
qed

section \<open>Properties of the outbox\<close>

text \<open>
  C1. Durable acceptance: when an enqueue returns a job, loading the journal on disk gives
  back every earlier job and the new one, pending, with the operation id the caller or the
  mint supplied and a sequence number above every earlier one.
\<close>
theorem enqueue_durable:
  assumes "store_inv st"
    and "case in_payload inp of None \<Rightarrow> True | Some p \<Rightarrow> json_wf p"
    and "enqueue sec tf now uuid inp io st fs = (Inr job, st', fs')"
  shows "\<exists>text s'. journal fs' = Some text \<and> load text (new_store lims) = Inr s'
      \<and> jobs s' = jobs st @ [job] \<and> status job = Pending \<and> opId job = default_to uuid (in_opId inp)
      \<and> (\<forall>j \<in> set (jobs st). seq j < seq job)"
proof -
  note c = enqueue_cases(2) [OF assms(3) refl]
  have st': "st' = (st\<lparr>jobs := jobs st @ [job], nextSeq := nextSeq st + 1\<rparr>)\<lparr>persistFault := persistFault st'\<rparr>"
    using c by blast
  have j: "jobs st' = jobs st @ [job]" by (subst st') simp
  have job: "job = new_job tf now uuid inp (nextSeq st)" using c by blast
  have "\<forall>j \<in> set (jobs st @ [job]). job_wf j \<and> schemaVersion j \<le> OUTBOX_SCHEMA_VERSION"
    using assms(1,2) c by (auto simp: store_inv_def new_job_def job_wf_def)
  note ld = load_journal [OF this, of "new_store lims"]
  have "journal fs' = Some (journal_text (jobs st @ [job]))" using c j by (simp add: synced_def)
  moreover have "status job = Pending \<and> opId job = default_to uuid (in_opId inp) \<and> (\<forall>j \<in> set (jobs st). seq j < seq job)"
    using assms(1) by (simp add: job new_job_def store_inv_def)
  moreover have "jobs (foldl (\<lambda>s j. push_loaded j s) (new_store lims) (jobs st @ [job])) = jobs st @ [job]"
    by (simp only: foldl_push_loaded) (simp add: new_store_def)
  ultimately show ?thesis using ld by blast
qed

definition example_input :: EnqueueInput where
  "example_input = \<lparr>in_kind = KObservation, in_scope = ''personal'', in_key = ''0123456789abcdef'',
     in_payload = Some (JStr ''hello''), in_opId = None, in_target = None\<rparr>"

definition empty_fs :: outbox_fs where
  "empty_fs = \<lparr>journal = None, fmode = 384, lockMtime = None\<rparr>"

definition example_job :: "int \<Rightarrow> OutboxJob" where
  "example_job sq = new_job (\<lambda>_. None) 7 ''op'' example_input sq"

lemma example_input_ok: "key_ok (in_key example_input)" "in_payload example_input = Some (JStr ''hello'')"
  by (simp_all add: example_input_def key_ok_def is_hex_def is_digit_def)

lemma example_enqueue:
  "enqueue (\<lambda>_. False) (\<lambda>_. None) 7 ''op'' example_input IoOk (new_store DEFAULT_LIMITS) empty_fs
   = (Inr (example_job 1), (new_store DEFAULT_LIMITS)\<lparr>jobs := [example_job 1], nextSeq := 2\<rparr>,
      empty_fs\<lparr>journal := Some (journal_text [example_job 1])\<rparr>)"
  using example_input_ok
  by (simp add: enqueue_def new_store_def capturePaused_def retainedBytes_def DEFAULT_LIMITS_def
      example_job_def persist_def empty_fs_def new_job_def Let_def)

theorem enqueue_durable_witness:
  "\<exists>s'. load (journal_text [example_job 1]) (new_store DEFAULT_LIMITS) = Inr s' \<and> jobs s' = [example_job 1]"
proof -
  have w: "case in_payload example_input of None \<Rightarrow> True | Some p \<Rightarrow> json_wf p" by (simp add: example_input_ok)
  have e: "jobs (new_store DEFAULT_LIMITS) @ [example_job 1] = [example_job 1]" by (simp add: new_store_def)
  show ?thesis
    using enqueue_durable [OF store_inv_new w example_enqueue, of DEFAULT_LIMITS] unfolding e by auto
qed

text \<open>
  C3. No drop-oldest: over any sequence of store commands, with any file-system failures in
  between, a pending job that none of them addresses is still there at the end, unchanged,
  and the store's invariant (unique sequence numbers below the next one) holds.
\<close>
theorem pending_never_dropped:
  assumes "store_inv st" and "\<forall>(c, io) \<in> set cs. cmd_wf c"
    and "run_cmds (store_step sec tf) cs (st, fs) = (st', fs')"
    and "j \<in> set (jobs st)" and "status j = Pending"
    and "\<forall>(c, io) \<in> set cs. cmd_target c \<noteq> Some (seq j)"
  shows "j \<in> set (jobs st') \<and> store_inv st'"
  using outbox.run_keeps_pending [OF assms(3-6)] outbox.run_inv [OF assms(2,1,3)] by blast

definition example_store :: DurableOutbox where
  "example_store = (new_store DEFAULT_LIMITS)\<lparr>jobs := [example_job 1, example_job 2], nextSeq := 3\<rparr>"

lemma example_store_inv: "store_inv example_store"
  by (simp add: example_store_def store_inv_def new_store_def example_job_def new_job_def example_input_ok job_wf_def)

theorem pending_never_dropped_witness:
  "example_job 1 \<in> set (jobs (fst (run_cmds (store_step (\<lambda>_. False) (\<lambda>_. None))
     [(CAck 9 2, IoOk), (CRetention 99999999999, IoFailBefore), (CRetention 99999999999, IoOk)] (example_store, empty_fs))))"
proof -
  obtain st' fs' where r: "run_cmds (store_step (\<lambda>_. False) (\<lambda>_. None))
     [(CAck 9 2, IoOk), (CRetention 99999999999, IoFailBefore), (CRetention 99999999999, IoOk)] (example_store, empty_fs) = (st', fs')"
    by fastforce
  have "example_job 1 \<in> set (jobs st') \<and> store_inv st'"
    by (rule pending_never_dropped [OF example_store_inv _ r])
      (simp_all add: example_store_def example_job_def new_job_def)
  then show ?thesis by (simp only: r fst_conv)
qed

text \<open>
  C20. Errors roll back: a store command that throws leaves the jobs and the sequence counter
  as they were, and the journal file too unless the directory sync after the rename failed.
\<close>
theorem failed_command_rolls_back:
  assumes "store_step sec tf c io st fs = (Inl e, st', fs')"
  shows "jobs st' = jobs st \<and> nextSeq st' = nextSeq st \<and> (io \<noteq> IoFailAfter \<longrightarrow> fs' = fs)"
  using assms by (rule outbox.rolls_back)

theorem failed_command_rolls_back_witness:
  "\<exists>st'. store_step (\<lambda>_. False) (\<lambda>_. None) (CAck 9 2) IoFailBefore example_store empty_fs = (Inl IoError, st', empty_fs)
     \<and> jobs st' = jobs example_store"
proof -
  obtain st' where r: "store_step (\<lambda>_. False) (\<lambda>_. None) (CAck 9 2) IoFailBefore example_store empty_fs = (Inl IoError, st', empty_fs)"
    by (simp add: ack_def mutate_def example_store_def new_store_def example_job_def new_job_def OUTBOX_SCHEMA_VERSION_def persist_def)
  from failed_command_rolls_back [OF this] r show ?thesis by blast
qed

text \<open>
  High water: the number of retained jobs never passes the limit, and at the limit an
  enqueue is refused with the overflow error and changes nothing.
\<close>
theorem outbox_high_water:
  assumes "length (jobs st) \<le> maxJobs (limits st)" and "store_step sec tf c io st fs = (r, st', fs')"
  shows "length (jobs st') \<le> maxJobs (limits st')
    \<and> (length (jobs st) = maxJobs (limits st) \<and> \<not> closed st \<and> readOnlyVersion st = None \<longrightarrow>
      enqueue sec tf now uuid inp iof st fs = (Inl OutboxOverflow, st, fs))"
proof -
  have up: "length (upd_first P f js) = length js" for P and f :: "OutboxJob \<Rightarrow> OutboxJob" and js
    by (induction js) auto
  have lim: "limits st' = limits st" using outbox.keeps_limits [OF assms(2)] by blast
  obtain s where s: "st' = s\<lparr>persistFault := persistFault st'\<rparr>"
    and sh: "s = st \<or> appends c st s \<or> updates c st s \<or> filters c st s"
    using store_step_shape [OF assms(2)] by (cases r) (auto simp: step_shape_def)
  have "length (jobs s) \<le> maxJobs (limits st)"
    using sh assms(1) by (auto simp: appends_def updates_def filters_def up intro: order.trans [OF length_filter_le])
  moreover have "jobs st' = jobs s" by (subst s) simp
  ultimately show ?thesis using lim by (simp add: enqueue_def capturePaused_def)
qed

theorem outbox_high_water_witness:
  "enqueue (\<lambda>_. False) (\<lambda>_. None) 8 ''u'' example_input IoOk (example_store\<lparr>limits := \<lparr>maxJobs = 2, maxBytes = 9, retentionMs = 1\<rparr>\<rparr>) empty_fs
    = (Inl OutboxOverflow, example_store\<lparr>limits := \<lparr>maxJobs = 2, maxBytes = 9, retentionMs = 1\<rparr>\<rparr>, empty_fs)"
proof -
  let ?st = "example_store\<lparr>limits := \<lparr>maxJobs = 2, maxBytes = 9, retentionMs = 1\<rparr>\<rparr>"
  have h: "length (jobs ?st) \<le> maxJobs (limits ?st)" "length (jobs ?st) = maxJobs (limits ?st)"
    "\<not> closed ?st" "readOnlyVersion ?st = None"
    by (simp_all add: example_store_def new_store_def)
  obtain r st' fs' where s: "store_step (\<lambda>_. False) (\<lambda>_. None) (CDiscard 1) IoOk ?st empty_fs = (r, st', fs')"
    using prod_cases3 by blast
  show ?thesis
    using outbox_high_water [OF h(1) s, where iof = IoOk and now = 8 and uuid = "''u''" and inp = example_input] h(2-4)
    by blast
qed



text \<open>
  Retention is the only automatic removal: when it succeeds, exactly the acknowledged jobs
  whose acknowledgement is older than the retention window are gone.
\<close>
theorem retention_removes_only_old_acks:
  assumes "runRetention now io st fs = (Inr n, st', fs')" and "readOnlyVersion st = None"
  shows "jobs st' = filter (\<lambda>j. \<not> (status j = Acked \<and> default_to 0 (ackedAt j) \<le> now - retentionMs (limits st))) (jobs st)
     \<and> n = length (jobs st) - length (jobs st')"
proof -
  let ?P = "kept_by_retention (now - retentionMs (limits st))"
  have e: "(\<lambda>j. \<not> (status j = Acked \<and> default_to 0 (ackedAt j) \<le> now - retentionMs (limits st))) = ?P"
    by (auto simp: kept_by_retention_def fun_eq_iff)
  have z: "jobs st = filter ?P (jobs st)" if "\<not> length (filter ?P (jobs st)) < length (jobs st)"
    using that by (metis filter_id_conv length_filter_less)
  show ?thesis unfolding e
    using assms z
    by (auto simp: runRetention_def Let_def persist_def split: if_splits io.splits)
qed

theorem retention_removes_only_old_acks_witness:
  "jobs (fst (snd (runRetention 1000 IoOk (example_store\<lparr>jobs := [example_job 1, (example_job 2)\<lparr>status := Acked, ackedAt := Some 3\<rparr>],
      limits := \<lparr>maxJobs = 9, maxBytes = 9, retentionMs = 10\<rparr>\<rparr>) empty_fs))) = [example_job 1]"
proof -
  let ?st = "example_store\<lparr>jobs := [example_job 1, (example_job 2)\<lparr>status := Acked, ackedAt := Some 3\<rparr>],
      limits := \<lparr>maxJobs = 9, maxBytes = 9, retentionMs = 10\<rparr>\<rparr>"
  obtain st' fs' where r: "runRetention 1000 IoOk ?st empty_fs = (Inr 1, st', fs')"
    by (simp add: runRetention_def kept_by_retention_def example_store_def new_store_def example_job_def new_job_def persist_def Let_def)
  have "readOnlyVersion ?st = None" by (simp add: example_store_def new_store_def)
  from retention_removes_only_old_acks [OF r this] have "jobs st' = [example_job 1]"
    by (simp add: example_job_def new_job_def)
  then show ?thesis by (simp only: r snd_conv fst_conv)
qed

text \<open>
  A journal of a newer schema is read-only: enqueue, ack, retry, quarantine and retention
  leave the jobs and the file untouched.
\<close>
theorem newer_schema_read_only:
  assumes "readOnlyVersion st = Some v" and "\<forall>sq. c \<noteq> CDiscard sq"
  shows "snd (store_step sec tf c io st fs) = (st, fs)"
  using assms
  by (cases c) (auto simp: erase_def enqueue_def ack_def retry_def quarantine_def mutate_def runRetention_def)

definition newer_store :: DurableOutbox where
  "newer_store = example_store\<lparr>jobs := [(example_job 1)\<lparr>status := Quarantined\<rparr>, (example_job 2)\<lparr>schemaVersion := 2\<rparr>],
     readOnlyVersion := Some 2\<rparr>"

theorem newer_schema_read_only_witness:
  "snd (store_step (\<lambda>_. False) (\<lambda>_. None) (CAck 5 1) IoOk newer_store empty_fs) = (newer_store, empty_fs)"
  by (rule newer_schema_read_only [where v = 2]) (simp_all add: newer_store_def)

text \<open>
  The one mutation without the read-only guard: discarding a quarantined job in a journal
  of a newer schema succeeds and rewrites the file without the newer job, which is lost.
\<close>
theorem discard_rewrites_newer_journal:
  assumes "readOnlyVersion st = Some v" and "\<not> persistFault st"
    and "j \<in> set (jobs st)" and "schemaVersion j > OUTBOX_SCHEMA_VERSION"
    and "q \<in> set (jobs st)" and "status q = Quarantined" and "seq q \<noteq> seq j"
  shows "\<exists>st' fs' js. discardQuarantined (seq q) IoOk st fs = (Inr (), st', fs')
     \<and> journal fs' = Some (join_with [nl] (map job_line js)) \<and> j \<notin> set js \<and> j \<in> set (jobs st')"
proof -
  have "find (\<lambda>x. seq x = seq q \<and> status x = Quarantined) (jobs st) \<noteq> None"
    using assms(5,6) by (auto simp: find_None_iff)
  then obtain x where "find (\<lambda>x. seq x = seq q \<and> status x = Quarantined) (jobs st) = Some x" by auto
  then show ?thesis
    using assms(2,3,4,7)
    by (intro exI [of _ "st\<lparr>jobs := filter (\<lambda>x. seq x \<noteq> seq q) (jobs st)\<rparr>"]
        exI [of _ "filter (\<lambda>x. schemaVersion x \<le> OUTBOX_SCHEMA_VERSION) (filter (\<lambda>x. seq x \<noteq> seq q) (jobs st))"] exI)
      (auto simp: discardQuarantined_def persist_def journal_text_def)
qed

theorem discard_rewrites_newer_journal_witness:
  "\<exists>st' fs' js. discardQuarantined 1 IoOk newer_store empty_fs = (Inr (), st', fs')
     \<and> journal fs' = Some (join_with [nl] (map job_line js)) \<and> (example_job 2)\<lparr>schemaVersion := 2\<rparr> \<notin> set js"
proof -
  have h: "readOnlyVersion newer_store = Some 2" "\<not> persistFault newer_store"
    "(example_job 2)\<lparr>schemaVersion := 2\<rparr> \<in> set (jobs newer_store)"
    "schemaVersion ((example_job 2)\<lparr>schemaVersion := 2\<rparr>) > OUTBOX_SCHEMA_VERSION"
    "(example_job 1)\<lparr>status := Quarantined\<rparr> \<in> set (jobs newer_store)"
    "status ((example_job 1)\<lparr>status := Quarantined\<rparr>) = Quarantined"
    "seq ((example_job 1)\<lparr>status := Quarantined\<rparr>) \<noteq> seq ((example_job 2)\<lparr>schemaVersion := 2\<rparr>)"
    "seq ((example_job 1)\<lparr>status := Quarantined\<rparr>) = 1"
    by (simp_all add: newer_store_def example_store_def new_store_def OUTBOX_SCHEMA_VERSION_def example_job_def new_job_def)
  show ?thesis using discard_rewrites_newer_journal [OF h(1-7), of empty_fs] unfolding h(8) by blast
qed

text \<open>
  The lock is taken over by age alone: once a holder has had it for more than thirty
  seconds, a second process opens the same directory although the first still runs, and its
  next enqueue replaces the journal by one that lacks a job the first had durably accepted.
\<close>
theorem stale_lock_takeover_loses_job:
  assumes "now2 - now1 > LOCK_STALE_MS" and "journal fs = None" and "lockMtime fs = None"
    and "open_outbox now1 lims fs = (Inr stA, fs1)"
    and "open_outbox now2 lims fs1 = (rB, fs2)"
    and "enqueue sec tf t1 u1 a io stA fs2 = (Inr jobA, stA', fs3)"
    and "enqueue sec tf t2 u2 b io (new_store lims) fs3 = (Inr jobB, stB', fs4)"
  shows "rB = Inr (new_store lims) \<and> journal fs3 = Some (journal_text [jobA])
     \<and> journal fs4 = Some (journal_text [jobB]) \<and> seq jobA = seq jobB"
proof -
  have A: "stA = new_store lims" "fs1 = fs\<lparr>lockMtime := Some now1\<rparr>"
    using assms(2-4) by (auto simp: open_outbox_def acquireLock_def)
  have B: "rB = Inr (new_store lims)" "journal fs2 = None"
    using assms(1,2,5) A by (auto simp: open_outbox_def acquireLock_def)
  note a = enqueue_cases(2) [OF assms(6) refl] and b = enqueue_cases(2) [OF assms(7) refl]
  have fresh: "jobs s = [j]" if "s = (new_store lims)\<lparr>jobs := jobs (new_store lims) @ [j], nextSeq := k, persistFault := f\<rparr>" for s j k f
    by (simp add: that) (simp add: new_store_def)
  have ja: "jobs stA' = [jobA]" using a unfolding A by (blast intro: fresh)
  have jb: "jobs stB' = [jobB]" using b by (blast intro: fresh)
  show ?thesis
    using a b ja jb B A by (auto simp: synced_def new_job_def)
qed

theorem stale_lock_takeover_loses_job_witness:
  "\<exists>fs2 stA' fs3 stB' fs4.
     enqueue (\<lambda>_. False) (\<lambda>_. None) 7 ''op'' example_input IoOk (new_store DEFAULT_LIMITS) fs2 = (Inr (example_job 1), stA', fs3)
     \<and> open_outbox 30001 DEFAULT_LIMITS (empty_fs\<lparr>lockMtime := Some 0\<rparr>) = (Inr (new_store DEFAULT_LIMITS), fs2)
     \<and> enqueue (\<lambda>_. False) (\<lambda>_. None) 8 ''other'' example_input IoOk (new_store DEFAULT_LIMITS) fs3
       = (Inr ((example_job 1)\<lparr>opId := ''other'', nextAttemptAt := 8, createdAt := 8\<rparr>), stB', fs4)
     \<and> journal fs4 = Some (journal_text [(example_job 1)\<lparr>opId := ''other'', nextAttemptAt := 8, createdAt := 8\<rparr>])"
proof -
  have o1: "open_outbox 0 DEFAULT_LIMITS empty_fs = (Inr (new_store DEFAULT_LIMITS), empty_fs\<lparr>lockMtime := Some 0\<rparr>)"
    by (simp add: open_outbox_def acquireLock_def empty_fs_def)
  have o2: "open_outbox 30001 DEFAULT_LIMITS (empty_fs\<lparr>lockMtime := Some 0\<rparr>)
      = (Inr (new_store DEFAULT_LIMITS), empty_fs\<lparr>lockMtime := Some 30001\<rparr>)"
    by (simp add: open_outbox_def acquireLock_def empty_fs_def LOCK_STALE_MS_def)
  obtain stA' fs3 where e1: "enqueue (\<lambda>_. False) (\<lambda>_. None) 7 ''op'' example_input IoOk (new_store DEFAULT_LIMITS)
      (empty_fs\<lparr>lockMtime := Some 30001\<rparr>) = (Inr (example_job 1), stA', fs3)"
    using example_input_ok
    by (simp add: enqueue_def new_store_def capturePaused_def retainedBytes_def DEFAULT_LIMITS_def
      example_job_def persist_def empty_fs_def new_job_def Let_def)
  obtain stB' fs4 where e2: "enqueue (\<lambda>_. False) (\<lambda>_. None) 8 ''other'' example_input IoOk (new_store DEFAULT_LIMITS) fs3
      = (Inr ((example_job 1)\<lparr>opId := ''other'', nextAttemptAt := 8, createdAt := 8\<rparr>), stB', fs4)"
    using example_input_ok
    by (simp add: enqueue_def new_store_def capturePaused_def retainedBytes_def DEFAULT_LIMITS_def
      example_job_def persist_def empty_fs_def new_job_def Let_def) (simp add: example_input_def)
  have "journal fs4 = Some (journal_text [(example_job 1)\<lparr>opId := ''other'', nextAttemptAt := 8, createdAt := 8\<rparr>])"
    using stale_lock_takeover_loses_job [OF _ _ _ o1 o2 e1 e2] by (simp add: empty_fs_def LOCK_STALE_MS_def)
  with o2 e1 e2 show ?thesis by blast
qed

text \<open>
  A directory sync that fails after the rename: the enqueue throws and memory is rolled
  back, but the refused job is in the journal and comes back with the next start.
\<close>
theorem failed_sync_leaves_job:
  assumes "store_inv st" and "readOnlyVersion st = None" and "\<not> persistFault st" and "\<not> closed st"
    and "\<not> capturePaused st" and "key_ok (in_key inp)"
    and "case in_payload inp of None \<Rightarrow> True | Some p \<Rightarrow> json_wf p"
    and "\<not> sec (case in_payload inp of None \<Rightarrow> [] | Some p \<Rightarrow> stringify p)"
  shows "\<exists>fs' text s'. enqueue sec tf now uuid inp IoFailAfter st fs = (Inl IoError, st, fs')
     \<and> journal fs' = Some text \<and> load text (new_store lims) = Inr s'
     \<and> jobs s' = jobs st @ [new_job tf now uuid inp (nextSeq st)]"
proof -
  let ?job = "new_job tf now uuid inp (nextSeq st)"
  have "\<forall>j \<in> set (jobs st @ [?job]). job_wf j \<and> schemaVersion j \<le> OUTBOX_SCHEMA_VERSION"
    using assms(1,2,7) by (auto simp: store_inv_def new_job_def job_wf_def)
  note ld = load_journal [OF this, of "new_store lims"]
  have "jobs (foldl (\<lambda>s j. push_loaded j s) (new_store lims) (jobs st @ [?job])) = jobs st @ [?job]"
    by (simp only: foldl_push_loaded) (simp add: new_store_def)
  moreover have "enqueue sec tf now uuid inp IoFailAfter st fs
      = (Inl IoError, st, fs\<lparr>journal := Some (journal_text (jobs st @ [?job])), fmode := 384\<rparr>)"
    using assms(2-6,8) by (simp add: enqueue_def persist_def Let_def new_job_def)
  ultimately show ?thesis using ld by auto
qed

theorem failed_sync_leaves_job_witness:
  "\<exists>fs' text s'. enqueue (\<lambda>_. False) (\<lambda>_. None) 7 ''op'' example_input IoFailAfter (new_store DEFAULT_LIMITS) empty_fs
       = (Inl IoError, new_store DEFAULT_LIMITS, fs')
     \<and> journal fs' = Some text \<and> load text (new_store DEFAULT_LIMITS) = Inr s' \<and> jobs s' = [example_job 1]"
proof -
  have h: "readOnlyVersion (new_store DEFAULT_LIMITS) = None" "\<not> persistFault (new_store DEFAULT_LIMITS)"
    "\<not> closed (new_store DEFAULT_LIMITS)" "\<not> capturePaused (new_store DEFAULT_LIMITS)"
    by (simp_all add: new_store_def capturePaused_def retainedBytes_def DEFAULT_LIMITS_def)
  have p: "case in_payload example_input of None \<Rightarrow> True | Some p \<Rightarrow> json_wf p" by (simp add: example_input_ok)
  have j: "jobs (new_store DEFAULT_LIMITS) @ [new_job (\<lambda>_. None) 7 ''op'' example_input (nextSeq (new_store DEFAULT_LIMITS))] = [example_job 1]"
    by (simp add: new_store_def example_job_def)
  show ?thesis
    using failed_sync_leaves_job [OF store_inv_new h example_input_ok(1) p, where sec = "\<lambda>_. False" and tf = "\<lambda>_. None"
        and now = 7 and uuid = "''op''" and fs = empty_fs and lims = DEFAULT_LIMITS]
    unfolding j by simp
qed

end
