(* ===== verification/PrivateMode.thy ===== *)
theory PrivateMode
  imports Errors
begin

text \<open>
  Private mode: the in-memory gate (src/privacy/private-mode.ts), the gate over the live
  configuration (src/privacy/live-gate.ts), and the interface the outbox worker consumes
  (\<open>PrivateModeGateAdapter\<close>) as a locale that both gates satisfy. The configuration read of
  the live gate is part of its state: \<open>Some b\<close> when the read returns \<open>b\<close>, \<open>None\<close> when it throws.
  Listeners are numbered; an operation that calls them returns the numbers it called.
\<close>

record PendingJobRef =
  ref_opId :: string
  ref_kind :: string

section \<open>The in-memory gate\<close>

datatype gate_action = Enabled | Resumed

datatype FeatureDomain = FObservation | FBackup | FBoard

record PrivateModeEvent =
  ev_ts :: ms
  ev_action :: gate_action
  ev_features :: "FeatureDomain list"
  ev_heldJobs :: nat

record PrivateModeGate =
  privateMode :: bool
  events :: "PrivateModeEvent list"
  held :: "PendingJobRef list"
  releaseListeners :: "nat list"

definition MAX_EVENTS :: nat where "MAX_EVENTS = 100"

definition new_gate :: "bool \<Rightarrow> PrivateModeGate" where
  "new_gate initial = \<lparr>privateMode = initial, events = [], held = [], releaseListeners = []\<rparr>"

definition pushEvent :: "PrivateModeEvent \<Rightarrow> PrivateModeGate \<Rightarrow> PrivateModeGate" where
  "pushEvent e g = (let es = events g @ [e] in
     g\<lparr>events := if length es > MAX_EVENTS then drop (length es - MAX_EVENTS) es else es\<rparr>)"

definition lastEvent :: "ms \<Rightarrow> PrivateModeGate \<Rightarrow> PrivateModeEvent" where
  "lastEvent now g = \<lparr>ev_ts = now, ev_action = (if privateMode g then Enabled else Resumed),
     ev_features = [], ev_heldJobs = 0\<rparr>"

definition enable :: "ms \<Rightarrow> PrivateModeGate \<Rightarrow> PrivateModeEvent \<times> PrivateModeGate" where
  "enable now g =
     (if privateMode g then (lastEvent now g, g)
      else (let g1 = g\<lparr>privateMode := True\<rparr>;
                e = \<lparr>ev_ts = now, ev_action = Enabled, ev_features = [FObservation, FBackup, FBoard],
                     ev_heldJobs = length (held g1)\<rparr>
            in (e, pushEvent e g1)))"

text \<open>The third component: the release listeners called, each with the released jobs.\<close>

definition resume :: "ms \<Rightarrow> PrivateModeGate \<Rightarrow> PrivateModeEvent \<times> PrivateModeGate \<times> (nat \<times> PendingJobRef list) list" where
  "resume now g =
     (if \<not> privateMode g then (lastEvent now g, g, [])
      else (let released = held g;
                g1 = g\<lparr>privateMode := False, held := []\<rparr>;
                e = \<lparr>ev_ts = now, ev_action = Resumed, ev_features = [FObservation, FBackup, FBoard],
                     ev_heldJobs = length released\<rparr>
            in (e, pushEvent e g1, map (\<lambda>l. (l, released)) (releaseListeners g))))"

definition add_held :: "PendingJobRef \<Rightarrow> PendingJobRef list \<Rightarrow> PendingJobRef list" where
  "add_held job hs = (if \<not> list_ex (\<lambda>h. ref_opId h = ref_opId job) hs then hs @ [job] else hs)"

definition holdWhilePrivate :: "PendingJobRef \<Rightarrow> PrivateModeGate \<Rightarrow> bool \<times> PrivateModeGate" where
  "holdWhilePrivate job g =
     (if privateMode g then (True, g\<lparr>held := add_held job (held g)\<rparr>) else (False, g))"

definition onRelease :: "nat \<Rightarrow> PrivateModeGate \<Rightarrow> PrivateModeGate" where
  "onRelease l g = g\<lparr>releaseListeners := releaseListeners g @ [l]\<rparr>"

definition assertNetworkAllowed :: "PrivateModeGate \<Rightarrow> exn option" where
  "assertNetworkAllowed g = (if privateMode g then Some PrivateModeActive else None)"

definition assertCaptureAllowed :: "PrivateModeGate \<Rightarrow> exn option" where
  "assertCaptureAllowed g = (if privateMode g then Some PrivateModeActive else None)"

section \<open>The live-configuration gate\<close>

record LiveGate =
  lastObserved :: "bool option"
  lg_held :: "PendingJobRef list"
  lg_listeners :: "nat list"
  cancelListeners :: "nat list"
  disposed :: bool
  config_read :: "bool option"

definition new_live_gate :: "bool option \<Rightarrow> LiveGate" where
  "new_live_gate rd = \<lparr>lastObserved = None, lg_held = [], lg_listeners = [], cancelListeners = [],
     disposed = False, config_read = rd\<rparr>"

definition read_value :: "LiveGate \<Rightarrow> bool" where
  "read_value g = (case config_read g of None \<Rightarrow> True | Some b \<Rightarrow> b)"

text \<open>The value, the cancel listeners fired, and the gate after the observation.\<close>

definition observe :: "LiveGate \<Rightarrow> bool \<times> nat list \<times> LiveGate" where
  "observe g =
     (let value = read_value g;
          wasPrivate = (lastObserved g = Some True);
          g1 = (if wasPrivate \<and> \<not> value then g\<lparr>lg_held := []\<rparr> else g);
          g2 = g1\<lparr>lastObserved := Some value\<rparr>;
          fired = (if \<not> wasPrivate \<and> value \<and> \<not> disposed g then cancelListeners g else [])
      in (value, fired, g2))"

definition live_isPrivate :: "LiveGate \<Rightarrow> bool \<times> LiveGate" where
  "live_isPrivate g = (case observe g of (v, _, g') \<Rightarrow> (v, g'))"

definition notifyTransition :: "LiveGate \<Rightarrow> nat list \<times> LiveGate" where
  "notifyTransition g = (case observe g of (_, fired, g') \<Rightarrow> (fired, g'))"

definition onCancel :: "nat \<Rightarrow> LiveGate \<Rightarrow> LiveGate" where
  "onCancel l g = g\<lparr>cancelListeners := cancelListeners g @ [l]\<rparr>"

definition assertModelCallAllowed :: "LiveGate \<Rightarrow> exn option \<times> LiveGate" where
  "assertModelCallAllowed g =
     (case observe g of (v, _, g') \<Rightarrow> (if v then Some PrivateModeActive else None, g'))"

definition live_hold :: "PendingJobRef \<Rightarrow> LiveGate \<Rightarrow> bool \<times> LiveGate" where
  "live_hold job g =
     (case live_isPrivate g of (v, g1) \<Rightarrow>
        if v then (True, g1\<lparr>lg_held := add_held job (lg_held g1)\<rparr>) else (False, g1))"

text \<open>This check calls the reader directly: a reader that throws propagates its own error.\<close>

definition live_assertNetwork :: "LiveGate \<Rightarrow> exn option" where
  "live_assertNetwork g =
     (case config_read g of
        None \<Rightarrow> Some (OtherError ''Error'' None)
      | Some b \<Rightarrow> if b then Some PrivateModeActive else None)"

definition live_onRelease :: "nat \<Rightarrow> LiveGate \<Rightarrow> LiveGate" where
  "live_onRelease l g = g\<lparr>lg_listeners := lg_listeners g @ [l]\<rparr>"

definition dispose :: "LiveGate \<Rightarrow> LiveGate" where
  "dispose g = g\<lparr>disposed := True, cancelListeners := [], lg_listeners := []\<rparr>"

section \<open>The interface of a gate\<close>

record 'g gate_ops =
  g_isPrivate :: "'g \<Rightarrow> bool \<times> 'g"
  g_hold :: "PendingJobRef \<Rightarrow> 'g \<Rightarrow> bool \<times> 'g"
  g_assertNetwork :: "'g \<Rightarrow> exn option"

text \<open>The worker's repeated calls while private mode lasts: each pending job is held again.\<close>

fun hold_all :: "'g gate_ops \<Rightarrow> PendingJobRef list \<Rightarrow> 'g \<Rightarrow> 'g" where
  "hold_all ops [] g = g"
| "hold_all ops (j # js) g = hold_all ops js (snd (g_hold ops j g))"

text \<open>
  \<open>mode\<close> is what the gate's next read says and \<open>refs\<close> the jobs it holds. Reading does not
  change the mode, the network check refuses exactly in private mode, and a job that is held
  in private mode is among the held jobs, once.
\<close>

locale private_gate =
  fixes ops :: "'g gate_ops"
    and mode :: "'g \<Rightarrow> bool"
    and refs :: "'g \<Rightarrow> PendingJobRef list"
  assumes isPrivate_value: "fst (g_isPrivate ops g) = mode g"
    and isPrivate_mode: "mode (snd (g_isPrivate ops g)) = mode g"
    and hold_value: "fst (g_hold ops j g) = mode g"
    and hold_mode: "mode (snd (g_hold ops j g)) = mode g"
    and hold_refs: "mode g \<Longrightarrow> ref_opId j \<in> ref_opId ` set (refs (snd (g_hold ops j g)))"
    and hold_distinct: "distinct (map ref_opId (refs g)) \<Longrightarrow> distinct (map ref_opId (refs (snd (g_hold ops j g))))"
    and read_keeps_refs: "mode g \<Longrightarrow> refs (snd (g_isPrivate ops g)) = refs g"
    and hold_grows: "mode g \<Longrightarrow> set (refs g) \<subseteq> set (refs (snd (g_hold ops j g)))"
    and network_closed: "g_assertNetwork ops g = None \<longleftrightarrow> \<not> mode g"
begin

lemma hold_all_mode: "mode (hold_all ops js g) = mode g"
  by (induction js arbitrary: g) (auto simp: hold_mode)

lemma hold_all_keeps: "mode g \<Longrightarrow> set (refs g) \<subseteq> set (refs (hold_all ops js g))"
proof (induction js arbitrary: g)
  case (Cons x xs)
  have "mode (snd (g_hold ops x g))" using Cons.prems by (simp add: hold_mode)
  from Cons.IH [OF this] hold_grows [OF Cons.prems, of x] show ?case by auto
qed simp

lemma hold_all_distinct:
  "distinct (map ref_opId (refs g)) \<Longrightarrow> distinct (map ref_opId (refs (hold_all ops js g)))"
  by (induction js arbitrary: g) (auto simp: hold_distinct)

text \<open>However often the same jobs are held, each is held once, and all of them are.\<close>

lemma hold_all_exact:
  assumes "mode g" and "distinct (map ref_opId (refs g))" and "j \<in> set js"
  shows "ref_opId j \<in> ref_opId ` set (refs (hold_all ops js g))
    \<and> length (filter (\<lambda>r. ref_opId r = ref_opId j) (refs (hold_all ops js g))) \<le> 1"
proof
  show "ref_opId j \<in> ref_opId ` set (refs (hold_all ops js g))"
    using assms(1,3)
  proof (induction js arbitrary: g)
    case (Cons x xs)
    show ?case
    proof (cases "j = x")
      case True
      have "ref_opId j \<in> ref_opId ` set (refs (snd (g_hold ops x g)))"
        using hold_refs [OF Cons.prems(1)] True by simp
      moreover have "set (refs (snd (g_hold ops x g))) \<subseteq> set (refs (hold_all ops xs (snd (g_hold ops x g))))"
        using Cons.prems(1) by (intro hold_all_keeps) (simp add: hold_mode)
      ultimately show ?thesis by auto
    next
      case False
      then show ?thesis using Cons by (simp add: hold_mode)
    qed
  qed simp
next
  have "distinct (map ref_opId (refs (hold_all ops js g)))" by (rule hold_all_distinct [OF assms(2)])
  then have "distinct (map ref_opId (filter (\<lambda>r. ref_opId r = ref_opId j) (refs (hold_all ops js g))))"
    by (rule distinct_map_filter)
  moreover have "set (map ref_opId (filter (\<lambda>r. ref_opId r = ref_opId j) (refs (hold_all ops js g)))) \<subseteq> {ref_opId j}"
    by auto
  ultimately show "length (filter (\<lambda>r. ref_opId r = ref_opId j) (refs (hold_all ops js g))) \<le> 1"
    by (metis card_mono distinct_card finite.emptyI finite_insert is_singletonI is_singleton_altdef length_map)
qed

end

definition memory_gate_ops :: "PrivateModeGate gate_ops" where
  "memory_gate_ops = \<lparr>g_isPrivate = (\<lambda>g. (privateMode g, g)), g_hold = holdWhilePrivate,
     g_assertNetwork = assertNetworkAllowed\<rparr>"

definition live_gate_ops :: "LiveGate gate_ops" where
  "live_gate_ops = \<lparr>g_isPrivate = live_isPrivate, g_hold = live_hold, g_assertNetwork = live_assertNetwork\<rparr>"

lemma add_held_facts:
  "ref_opId j \<in> ref_opId ` set (add_held j hs)"
  "distinct (map ref_opId hs) \<Longrightarrow> distinct (map ref_opId (add_held j hs))"
  "set hs \<subseteq> set (add_held j hs)"
  by (auto simp: add_held_def list_ex_iff image_iff) metis

interpretation memory_gate: private_gate memory_gate_ops privateMode held
  by unfold_locales
    (auto simp: memory_gate_ops_def holdWhilePrivate_def assertNetworkAllowed_def add_held_facts
      dest: subsetD [OF add_held_facts(3)])

interpretation live_gate: private_gate live_gate_ops read_value lg_held
  by unfold_locales
    (auto simp: live_gate_ops_def live_hold_def live_isPrivate_def observe_def Let_def read_value_def
      live_assertNetwork_def add_held_facts dest: subsetD [OF add_held_facts(3)] split: option.splits)

section \<open>Properties of the gates\<close>

lemma hold_all_memory_fields:
  "privateMode (hold_all memory_gate_ops js g) = privateMode g"
  "releaseListeners (hold_all memory_gate_ops js g) = releaseListeners g"
  "events (hold_all memory_gate_ops js g) = events g"
  by (induction js arbitrary: g) (auto simp: memory_gate_ops_def holdWhilePrivate_def)

lemma hold_all_memory_set:
  "ref_opId ` set (held (hold_all memory_gate_ops js g)) \<subseteq> ref_opId ` set (held g) \<union> ref_opId ` set js"
proof (induction js arbitrary: g)
  case (Cons j js)
  have step: "X \<subseteq> A \<union> B \<Longrightarrow> A \<subseteq> C \<union> {d} \<Longrightarrow> X \<subseteq> C \<union> insert d B" for X A B C :: "string set" and d
    by blast
  have "ref_opId ` set (held (snd (g_hold memory_gate_ops j g))) \<subseteq> ref_opId ` set (held g) \<union> {ref_opId j}"
    by (auto simp: memory_gate_ops_def holdWhilePrivate_def add_held_def)
  then show ?case
    using step [OF Cons [of "snd (g_hold memory_gate_ops j g)"]] by simp
qed simp

text \<open>
  Held work is released, not lost: after private mode is enabled on a gate that holds
  nothing and any sequence of holds (the worker repeats them every tick), resume leaves
  private mode, empties the held list, and hands every listener a list with exactly the
  operation ids that were held, each once.
\<close>
theorem resume_releases_what_was_held:
  assumes "held g = []" and "enable t1 g = (e1, g1)" and "\<not> privateMode g"
    and "resume t2 (hold_all memory_gate_ops js g1) = (e2, g2, calls)"
  shows "\<not> privateMode g2 \<and> held g2 = [] \<and> map fst calls = releaseListeners g
    \<and> (\<forall>(l, rs) \<in> set calls. distinct (map ref_opId rs) \<and> ref_opId ` set rs = ref_opId ` set js
          \<and> ev_heldJobs e2 = length rs)"
proof -
  have g1: "privateMode g1" "held g1 = []" "releaseListeners g1 = releaseListeners g"
    using assms(1-3) by (auto simp: enable_def pushEvent_def Let_def)
  let ?h = "hold_all memory_gate_ops js g1"
  have d: "distinct (map ref_opId (held ?h))"
    by (rule memory_gate.hold_all_distinct) (simp add: g1)
  have "ref_opId ` set (held ?h) \<subseteq> ref_opId ` set js"
    using hold_all_memory_set [of js g1] by (simp add: g1)
  moreover have "ref_opId ` set js \<subseteq> ref_opId ` set (held ?h)"
    using memory_gate.hold_all_exact [OF g1(1), of _ js] by (auto simp: g1)
  ultimately have "ref_opId ` set (held ?h) = ref_opId ` set js" by blast
  moreover have "\<not> privateMode g2" "held g2 = []" "ev_heldJobs e2 = length (held ?h)"
    "calls = map (\<lambda>l. (l, held ?h)) (releaseListeners g)"
    using assms(4) by (auto simp: resume_def Let_def pushEvent_def hold_all_memory_fields g1)
  ultimately show ?thesis using d by (simp add: comp_def)
qed

theorem resume_releases_what_was_held_witness:
  "\<exists>e2 g2 rs. resume 9 (hold_all memory_gate_ops [\<lparr>ref_opId = ''a'', ref_kind = ''k''\<rparr>, \<lparr>ref_opId = ''a'', ref_kind = ''k''\<rparr>]
       (snd (enable 5 (onRelease 1 (new_gate False))))) = (e2, g2, [(1, rs)])
     \<and> ref_opId ` set rs = {''a''} \<and> distinct (map ref_opId rs)"
proof -
  let ?js = "[\<lparr>ref_opId = ''a'', ref_kind = ''k''\<rparr>, \<lparr>ref_opId = ''a'', ref_kind = ''k''\<rparr>]"
  let ?g = "onRelease 1 (new_gate False)"
  obtain e1 g1 where en: "enable 5 ?g = (e1, g1)" by (metis surj_pair)
  obtain e2 g2 calls where re: "resume 9 (hold_all memory_gate_ops ?js g1) = (e2, g2, calls)"
    by (metis surj_pair)
  have h: "held ?g = []" "\<not> privateMode ?g" "releaseListeners ?g = [1]"
    by (simp_all add: onRelease_def new_gate_def)
  have e: "ref_opId ` set ?js = {''a''}" by simp
  note q = resume_releases_what_was_held [OF h(1) en h(2) re, unfolded h(3) e]
  have "map fst calls = [1]" using q by (elim conjE)
  then obtain rs where c: "calls = [(1, rs)]" by (cases calls) auto
  have p: "distinct (map ref_opId rs) \<and> ref_opId ` set rs = {''a''}" using q by (simp add: c)
  have "resume 9 (hold_all memory_gate_ops ?js (snd (enable 5 ?g))) = (e2, g2, [(1, rs)])"
    by (simp only: en snd_conv re c)
  from this p [THEN conjunct2] p [THEN conjunct1] show ?thesis
    by - (rule exI, rule exI, rule exI, rule conjI, assumption, rule conjI, assumption, assumption)
qed

text \<open>
  C14. Fail closed: when the configuration cannot be read the live gate reports private mode,
  refuses the network and model calls, and holds a job; it permits them exactly when the
  read succeeded and says normal.
\<close>
theorem live_gate_fails_closed:
  "(config_read g \<noteq> Some False \<longrightarrow>
      fst (live_isPrivate g) \<and> live_assertNetwork g \<noteq> None \<and> fst (assertModelCallAllowed g) \<noteq> None
      \<and> fst (live_hold j g) \<and> ref_opId j \<in> ref_opId ` set (lg_held (snd (live_hold j g))))
   \<and> (config_read g = Some False \<longrightarrow>
      \<not> fst (live_isPrivate g) \<and> live_assertNetwork g = None \<and> fst (assertModelCallAllowed g) = None
      \<and> live_hold j g = (False, snd (live_isPrivate g)))"
proof -
  have v: "read_value g \<longleftrightarrow> config_read g \<noteq> Some False" by (auto simp: read_value_def split: option.splits)
  have m: "fst (live_isPrivate g) = read_value g" "fst (live_hold j g) = read_value g"
    "live_assertNetwork g = None \<longleftrightarrow> \<not> read_value g"
    "read_value g \<Longrightarrow> ref_opId j \<in> ref_opId ` set (lg_held (snd (live_hold j g)))"
    using live_gate.isPrivate_value live_gate.hold_value live_gate.network_closed live_gate.hold_refs
    by (simp_all add: live_gate_ops_def)
  show ?thesis
    using m by (auto simp: v [symmetric] assertModelCallAllowed_def live_hold_def live_isPrivate_def observe_def Let_def
      split: if_splits)
qed

theorem live_gate_fails_closed_witness:
  "fst (live_isPrivate (new_live_gate None)) \<and> \<not> fst (live_isPrivate (new_live_gate (Some False)))"
  using live_gate_fails_closed [of "new_live_gate None"] live_gate_fails_closed [of "new_live_gate (Some False)"]
  by (simp add: new_live_gate_def)

text \<open>A run of reads with the values the configuration has at each of them.\<close>

fun observe_run :: "bool option list \<Rightarrow> LiveGate \<Rightarrow> nat list" where
  "observe_run [] g = []"
| "observe_run (rd # rds) g =
     (case observe (g\<lparr>config_read := rd\<rparr>) of (_, fired, g') \<Rightarrow> fired @ observe_run rds g')"

fun entries :: "bool \<Rightarrow> bool list \<Rightarrow> nat" where
  "entries was [] = 0"
| "entries was (v # vs) = (if \<not> was \<and> v then 1 else 0) + entries v vs"

lemma observe_run_fired:
  "\<not> disposed g \<Longrightarrow> cancelListeners g = [l] \<Longrightarrow>
   observe_run rds g = replicate (entries (lastObserved g = Some True) (map (\<lambda>r. r \<noteq> Some False) rds)) l"
proof (induction rds arbitrary: g)
  case (Cons rd rds)
  obtain v f g' where o: "observe (g\<lparr>config_read := rd\<rparr>) = (v, f, g')" using prod_cases3 by blast
  have v: "v \<longleftrightarrow> rd \<noteq> Some False" "\<not> disposed g'" "cancelListeners g' = [l]" "lastObserved g' = Some v"
    "f = (if \<not> (lastObserved g = Some True) \<and> v then [l] else [])"
    using o Cons.prems by (auto simp: observe_def read_value_def Let_def split: option.splits if_splits)
  show ?case
    using Cons.IH [OF v(2,3)] v(1,4,5) by (auto simp: o)
qed simp

text \<open>
  Over any run of reads, a cancel listener is called exactly once per entry into private
  mode (a failing read counts as private), and a first read in private mode counts as an
  entry: a listener registered before it is called at startup.
\<close>
theorem cancel_fires_once_per_entry:
  "observe_run rds (onCancel l (new_live_gate rd)) = replicate (entries False (map (\<lambda>r. r \<noteq> Some False) rds)) l
   \<and> observe_run (Some True # rds) (onCancel l (new_live_gate rd)) \<noteq> []"
proof -
  have g: "\<not> disposed (onCancel l (new_live_gate rd))" "cancelListeners (onCancel l (new_live_gate rd)) = [l]"
    "lastObserved (onCancel l (new_live_gate rd)) = None"
    by (simp_all add: onCancel_def new_live_gate_def)
  show ?thesis
    using observe_run_fired [OF g(1,2), of rds] observe_run_fired [OF g(1,2), of "Some True # rds"] g(3)
    by (simp del: observe_run.simps)
qed

end
