(* ===== verification/OutboxWorker.thy ===== *)
theory OutboxWorker
  imports OutboxStore PrivateMode "HOL-Library.Multiset"
begin

text \<open>
  The outbox worker (src/outbox/worker.ts): backoff, one tick over the per-scope heads, the
  delivery of one job with its error paths, and the single-flight coalescing of \<open>tick()\<close>.
  The tick threads the world it shares with the rest of the process: the store, its files
  and the gate. The sender is an argument that returns its outcome and the world as it is
  when the send settles, so whatever happens during the await is covered; the clock, the
  random number and the outcome of the one persist that follows are arguments too. The
  audit sink, which only receives metadata, is left out.
\<close>

section \<open>Backoff\<close>

record 'g OutboxWorker =
  maxAttempts :: int
  baseDelayMs :: int
  capDelayMs :: int
  jitterRatio :: rat
  w_gate :: "'g gate_ops option"
  expectedTarget :: "(OutboxJob \<Rightarrow> string option) option"

text \<open>\<open>Math.round\<close>.\<close>

definition js_round :: "rat \<Rightarrow> int" where
  "js_round x = \<lfloor>x + 1 / 2\<rfloor>"

definition raw_backoff :: "'g OutboxWorker \<Rightarrow> int \<Rightarrow> int" where
  "raw_backoff w att = min (capDelayMs w) (baseDelayMs w * 2 ^ nat (max 0 (att - 1)))"

definition backoffMs :: "'g OutboxWorker \<Rightarrow> rat \<Rightarrow> int \<Rightarrow> int" where
  "backoffMs w random att = js_round (of_int (raw_backoff w att) * (1 + jitterRatio w * random))"

section \<open>One tick\<close>

record TickSummary =
  sent :: "string list"
  pendingAck :: "string list"
  retried :: "(string \<times> int \<times> ms) list"
  quarantinedJobs :: "(string \<times> string) list"
  heldOps :: "string list"

definition empty_summary :: TickSummary where
  "empty_summary = \<lparr>sent = [], pendingAck = [], retried = [], quarantinedJobs = [], heldOps = []\<rparr>"

record 'g world =
  w_store :: DurableOutbox
  w_fs :: outbox_fs
  w_g :: 'g

text \<open>What a tick is given from outside: the sender, and per job the clock, io and random values.\<close>

record 'g tick_env =
  te_send :: "OutboxJob \<Rightarrow> 'g world \<Rightarrow> exn option \<times> 'g world"
  te_now :: "OutboxJob \<Rightarrow> ms"
  te_io :: "OutboxJob \<Rightarrow> io"
  te_random :: "OutboxJob \<Rightarrow> rat"

definition job_ref :: "OutboxJob \<Rightarrow> PendingJobRef" where
  "job_ref j = \<lparr>ref_opId = opId j, ref_kind = kind_text (kind j)\<rparr>"

definition hold_job :: "'g gate_ops option \<Rightarrow> OutboxJob \<Rightarrow> 'g world \<Rightarrow> 'g world" where
  "hold_job go job wd =
     (case go of None \<Rightarrow> wd | Some ops \<Rightarrow> wd\<lparr>w_g := snd (g_hold ops (job_ref job) (w_g wd))\<rparr>)"

definition gate_isPrivate :: "'g gate_ops option \<Rightarrow> 'g world \<Rightarrow> bool \<times> 'g world" where
  "gate_isPrivate go wd =
     (case go of None \<Rightarrow> (False, wd)
      | Some ops \<Rightarrow> (case g_isPrivate ops (w_g wd) of (p, g') \<Rightarrow> (p, wd\<lparr>w_g := g'\<rparr>)))"

definition add_held_op :: "OutboxJob \<Rightarrow> TickSummary \<Rightarrow> TickSummary" where
  "add_held_op job s = s\<lparr>heldOps := heldOps s @ [opId job]\<rparr>"

definition quarantine_reason :: "OutboxJob \<Rightarrow> exn \<Rightarrow> string" where
  "quarantine_reason job e =
     ''quarantined after '' @ show_int (attempts job + 1) @ '' attempt(s): '' @ errorFingerprint e"

text \<open>The \<open>catch\<close> of \<open>deliver\<close>.\<close>

definition record_failure ::
  "'g OutboxWorker \<Rightarrow> 'g tick_env \<Rightarrow> OutboxJob \<Rightarrow> exn \<Rightarrow> 'g world \<times> TickSummary \<Rightarrow> 'g world \<times> TickSummary" where
  "record_failure w env job e ws =
     (case ws of (wd, s) \<Rightarrow>
      if isRetryable e \<and> attempts job + 1 < maxAttempts w then
        (let att = attempts job + 1;
             nxt = te_now env job + backoffMs w (te_random env job) att
         in case retry (seq job) att nxt (te_io env job) (w_store wd) (w_fs wd) of
              (Inl _, st, fs) \<Rightarrow> (wd\<lparr>w_store := st, w_fs := fs\<rparr>, s)
            | (Inr _, st, fs) \<Rightarrow> (wd\<lparr>w_store := st, w_fs := fs\<rparr>, s\<lparr>retried := retried s @ [(opId job, att, nxt)]\<rparr>))
      else
        (let reason = quarantine_reason job e
         in case quarantine (seq job) reason (te_io env job) (w_store wd) (w_fs wd) of
              (Inl _, st, fs) \<Rightarrow> (wd\<lparr>w_store := st, w_fs := fs\<rparr>, s)
            | (Inr _, st, fs) \<Rightarrow> (wd\<lparr>w_store := st, w_fs := fs\<rparr>,
                s\<lparr>quarantinedJobs := quarantinedJobs s @ [(opId job, reason)]\<rparr>)))"

definition on_error ::
  "'g OutboxWorker \<Rightarrow> 'g tick_env \<Rightarrow> OutboxJob \<Rightarrow> exn \<Rightarrow> 'g world \<times> TickSummary \<Rightarrow> 'g world \<times> TickSummary" where
  "on_error w env job e ws =
     (case ws of (wd, s) \<Rightarrow>
      (case gate_isPrivate (w_gate w) wd of
         (True, wd1) \<Rightarrow> (hold_job (w_gate w) job wd1, add_held_op job s)
       | (False, wd1) \<Rightarrow>
           if e = PrivateModeActive then (hold_job (w_gate w) job wd1, add_held_op job s)
           else record_failure w env job e (wd1, s)))"

definition deliver ::
  "'g OutboxWorker \<Rightarrow> 'g tick_env \<Rightarrow> OutboxJob \<Rightarrow> 'g world \<times> TickSummary \<Rightarrow> 'g world \<times> TickSummary" where
  "deliver w env job ws =
     (case ws of (wd, s) \<Rightarrow>
      (case (case w_gate w of None \<Rightarrow> None | Some ops \<Rightarrow> g_assertNetwork ops (w_g wd)) of
         Some e \<Rightarrow> on_error w env job e (wd, s)
       | None \<Rightarrow>
      (case assertPersisted (w_store wd) (opId job) of
         Some e \<Rightarrow> on_error w env job e (wd, s)
       | None \<Rightarrow>
      (case te_send env job wd of
         (Some e, wd1) \<Rightarrow> on_error w env job e (wd1, s)
       | (None, wd1) \<Rightarrow>
           (let s1 = s\<lparr>sent := sent s @ [opId job]\<rparr>
            in case ack (te_now env job) (seq job) (te_io env job) (w_store wd1) (w_fs wd1) of
                 (Inl _, st, fs) \<Rightarrow> (wd1\<lparr>w_store := st, w_fs := fs\<rparr>, s1\<lparr>pendingAck := pendingAck s1 @ [opId job]\<rparr>)
               | (Inr _, st, fs) \<Rightarrow> (wd1\<lparr>w_store := st, w_fs := fs\<rparr>, s1))))))"

text \<open>Per-scope heads: the lowest-seq pending job of each scope, in order of first appearance.\<close>

definition add_head :: "OutboxJob \<Rightarrow> OutboxJob dict \<Rightarrow> OutboxJob dict" where
  "add_head job m =
     (case map_of m (scope job) of
        None \<Rightarrow> AList.update (scope job) job m
      | Some head \<Rightarrow> if seq job < seq head then AList.update (scope job) job m else m)"

definition scope_heads :: "OutboxJob list \<Rightarrow> OutboxJob list" where
  "scope_heads js = map snd (foldl (\<lambda>m j. add_head j m) [] js)"

definition target_mismatch :: "'g OutboxWorker \<Rightarrow> OutboxJob \<Rightarrow> bool" where
  "target_mismatch w job =
     (case (target job, Option.bind (expectedTarget w) (\<lambda>f. f job)) of
        (Some t, Some e) \<Rightarrow> t \<noteq> e
      | _ \<Rightarrow> False)"

definition tick_job ::
  "'g OutboxWorker \<Rightarrow> 'g tick_env \<Rightarrow> ms \<Rightarrow> 'g world \<times> TickSummary \<Rightarrow> OutboxJob \<Rightarrow> 'g world \<times> TickSummary" where
  "tick_job w env now ws job =
     (if nextAttemptAt job > now then ws
      else (case gate_isPrivate (w_gate w) (fst ws) of
              (True, wd1) \<Rightarrow> (hold_job (w_gate w) job wd1, add_held_op job (snd ws))
            | (False, wd1) \<Rightarrow>
                if target_mismatch w job then (wd1, add_held_op job (snd ws))
                else deliver w env job (wd1, snd ws)))"

definition runTick :: "'g OutboxWorker \<Rightarrow> 'g tick_env \<Rightarrow> ms \<Rightarrow> 'g world \<Rightarrow> 'g world \<times> TickSummary" where
  "runTick w env now wd =
     foldl (tick_job w env now) (wd, empty_summary) (scope_heads (pending (w_store wd)))"

section \<open>Single flight\<close>

text \<open>
  \<open>tick()\<close> as a state machine. Callers are numbered. \<open>queued\<close> covers a tick that waits on
  the chain or runs; \<open>owner\<close> is the caller whose promise that tick settles (none for the
  follow-up). \<open>arrived\<close> remembers, for a coalesced caller, how many executions had started
  when it came; \<open>settled\<close> is the log of settled callers with the execution that settled them
  (\<open>None\<close> for a rejection).
\<close>

record flight =
  queued :: bool
  wakeup :: bool
  waiters :: "(nat \<times> nat) list"
  executions :: nat
  owner :: "nat option"
  settled :: "(nat \<times> nat \<times> nat option) list"

definition idle_flight :: flight where
  "idle_flight = \<lparr>queued = False, wakeup = False, waiters = [], executions = 0, owner = None, settled = []\<rparr>"

definition settle_owner :: "nat option \<Rightarrow> flight \<Rightarrow> flight" where
  "settle_owner res f =
     (case owner f of None \<Rightarrow> f
      | Some c \<Rightarrow> f\<lparr>settled := settled f @ [(c, executions f - 1, res)], owner := None\<rparr>)"

definition tick_call :: "nat option \<Rightarrow> flight \<Rightarrow> flight" where
  "tick_call caller f =
     (if queued f then
        (case caller of None \<Rightarrow> f\<lparr>wakeup := True\<rparr>
         | Some c \<Rightarrow> f\<lparr>wakeup := True, waiters := waiters f @ [(c, executions f)]\<rparr>)
      else f\<lparr>queued := True, executions := executions f + 1, owner := caller\<rparr>)"

definition settle_waiters :: "nat option \<Rightarrow> flight \<Rightarrow> flight" where
  "settle_waiters res f =
     f\<lparr>settled := settled f @ map (\<lambda>(c, a). (c, a, res)) (waiters f), waiters := []\<rparr>"

definition finishTick :: "flight \<Rightarrow> flight" where
  "finishTick f =
     (let f1 = (settle_owner (Some (executions f)) f)\<lparr>queued := False\<rparr>
      in if wakeup f1 then tick_call None (f1\<lparr>wakeup := False\<rparr>)
         else settle_waiters (Some (executions f)) f1)"

definition failTick :: "flight \<Rightarrow> flight" where
  "failTick f =
     settle_waiters None ((settle_owner None f)\<lparr>queued := False, wakeup := False\<rparr>)"

datatype flight_event = Call nat | Finish | Fail

inductive flight_step :: "flight \<Rightarrow> flight_event \<Rightarrow> flight \<Rightarrow> bool" where
  call: "flight_step f (Call c) (tick_call (Some c) f)"
| finish: "queued f \<Longrightarrow> flight_step f Finish (finishTick f)"
| fail: "queued f \<Longrightarrow> flight_step f Fail (failTick f)"

inductive_cases flight_stepE: "flight_step f e f'"

inductive flight_run :: "flight_event list \<Rightarrow> flight \<Rightarrow> bool" where
  start: "flight_run [] idle_flight"
| step: "flight_run es f \<Longrightarrow> flight_step f e f' \<Longrightarrow> flight_run (es @ [e]) f'"

fun callers :: "flight_event list \<Rightarrow> nat list" where
  "callers [] = []"
| "callers (Call c # es) = c # callers es"
| "callers (_ # es) = callers es"

lemma callers_append: "callers (es @ fs) = callers es @ callers fs"
  by (induction es rule: callers.induct) auto

definition flight_inv :: "flight \<Rightarrow> bool" where
  "flight_inv f =
     ((\<not> queued f \<longrightarrow> waiters f = [] \<and> \<not> wakeup f \<and> owner f = None)
      \<and> (queued f \<longrightarrow> 0 < executions f)
      \<and> (\<forall>(c, a) \<in> set (waiters f). a \<le> executions f \<and> (\<not> wakeup f \<longrightarrow> a < executions f))
      \<and> (\<forall>(c, a, r) \<in> set (settled f). \<forall>m. r = Some m \<longrightarrow> a < m \<and> m \<le> executions f))"

definition outstanding :: "flight \<Rightarrow> nat multiset" where
  "outstanding f = mset (map fst (settled f)) + mset (map fst (waiters f))
     + (case owner f of None \<Rightarrow> {#} | Some c \<Rightarrow> {#c#})"

lemmas flight_defs = tick_call_def finishTick_def failTick_def settle_owner_def settle_waiters_def Let_def

lemma flight_step_inv: "flight_step f e f' \<Longrightarrow> flight_inv f \<Longrightarrow> flight_inv f'"
  by (erule flight_stepE)
    (force simp: flight_inv_def flight_defs split: option.splits if_splits)+

lemma image_fst_settle:
  "image_mset fst (image_mset (\<lambda>(c, a). (c, a, r)) W) = image_mset fst W"
  "image_mset (fst \<circ> (\<lambda>(c, a). (c, a, r))) W = image_mset fst W"
  by (induction W) auto

lemma flight_step_outstanding:
  "flight_step f e f' \<Longrightarrow> flight_inv f \<Longrightarrow> outstanding f' = outstanding f + mset (callers [e])"
  by (erule flight_stepE)
    (auto simp: outstanding_def flight_inv_def flight_defs image_fst_settle split: option.splits)

lemma flight_run_facts: "flight_run es f \<Longrightarrow> flight_inv f \<and> outstanding f = mset (callers es)"
proof (induction rule: flight_run.induct)
  case start
  show ?case by (simp add: flight_inv_def idle_flight_def outstanding_def)
next
  case (step es f e f')
  then show ?case
    using flight_step_inv flight_step_outstanding by (simp add: callers_append)
qed

text \<open>
  C11. No lost wakeup: in every run of concurrent callers, finishing and failing ticks, each
  caller is the owner, waiting, or settled exactly once; when no tick is queued everyone is
  settled; and a caller settled with a summary was settled by an execution that started
  after it called, so the summary covers the work it came for.
\<close>
theorem single_flight_no_lost_wakeup:
  assumes "flight_run es f"
  shows "mset (callers es) = outstanding f
    \<and> (\<not> queued f \<longrightarrow> mset (map fst (settled f)) = mset (callers es))
    \<and> (\<forall>(c, a, r) \<in> set (settled f). \<forall>m. r = Some m \<longrightarrow> a < m \<and> m \<le> executions f)"
  using flight_run_facts [OF assms] by (auto simp: flight_inv_def outstanding_def)

lemma example_flight:
  "flight_run [Call 1, Call 2, Finish, Finish]
     (finishTick (finishTick (tick_call (Some 2) (tick_call (Some 1) idle_flight))))"
proof -
  let ?f = "tick_call (Some 2) (tick_call (Some 1) idle_flight)"
  have q: "queued ?f" "queued (finishTick ?f)" by (simp_all add: flight_defs idle_flight_def)
  have "flight_run ([] @ [Call 1]) (tick_call (Some 1) idle_flight)"
    by (rule flight_run.step [OF flight_run.start flight_step.call])
  then have "flight_run (([] @ [Call 1]) @ [Call 2]) ?f"
    by (rule flight_run.step [OF _ flight_step.call])
  then have "flight_run ((([] @ [Call 1]) @ [Call 2]) @ [Finish]) (finishTick ?f)"
    by (rule flight_run.step [OF _ flight_step.finish [OF q(1)]])
  then have "flight_run (((([] @ [Call 1]) @ [Call 2]) @ [Finish]) @ [Finish]) (finishTick (finishTick ?f))"
    by (rule flight_run.step [OF _ flight_step.finish [OF q(2)]])
  then show ?thesis by simp
qed

theorem single_flight_no_lost_wakeup_witness:
  "mset (map fst (settled (finishTick (finishTick (tick_call (Some 2) (tick_call (Some 1) idle_flight)))))) = {#1, 2#}"
  using single_flight_no_lost_wakeup [OF example_flight] by (simp add: flight_defs idle_flight_def)

section \<open>Facts about the heads\<close>

definition heads_of :: "OutboxJob list \<Rightarrow> OutboxJob dict \<Rightarrow> bool" where
  "heads_of js m =
     (distinct (map fst m) \<and> (\<forall>j \<in> set js. map_of m (scope j) \<noteq> None)
      \<and> (\<forall>sc h. map_of m sc = Some h \<longrightarrow> h \<in> set js \<and> scope h = sc \<and> (\<forall>j \<in> set js. scope j = sc \<longrightarrow> seq h \<le> seq j)))"

lemma heads_ofD:
  assumes "heads_of js m"
  shows "distinct (map fst m)" "j \<in> set js \<Longrightarrow> \<exists>h. map_of m (scope j) = Some h"
    "map_of m sc = Some h \<Longrightarrow> h \<in> set js" "map_of m sc = Some h \<Longrightarrow> scope h = sc"
    "map_of m sc = Some h \<Longrightarrow> j \<in> set js \<Longrightarrow> scope j = sc \<Longrightarrow> seq h \<le> seq j"
  using assms by (auto simp: heads_of_def)

lemma heads_ofI:
  assumes "distinct (map fst m)" "\<And>j. j \<in> set js \<Longrightarrow> map_of m (scope j) \<noteq> None"
    "\<And>sc h. map_of m sc = Some h \<Longrightarrow> h \<in> set js \<and> scope h = sc"
    "\<And>sc h j. map_of m sc = Some h \<Longrightarrow> j \<in> set js \<Longrightarrow> scope j = sc \<Longrightarrow> seq h \<le> seq j"
  shows "heads_of js m"
  using assms by (simp add: heads_of_def)

lemma heads_of_update:
  assumes h: "heads_of js m" and new: "\<And>x. map_of m (scope j) = Some x \<Longrightarrow> seq j < seq x"
  shows "heads_of (js @ [j]) (AList.update (scope j) j m)"
proof (rule heads_ofI)
  show "distinct (map fst (AList.update (scope j) j m))"
    using heads_ofD(1) [OF h] by (rule distinct_update)
next
  fix x assume "x \<in> set (js @ [j])"
  then show "map_of (AList.update (scope j) j m) (scope x) \<noteq> None"
    using heads_ofD(2) [OF h] by auto
next
  fix sc x assume a: "map_of (AList.update (scope j) j m) sc = Some x"
  show "x \<in> set (js @ [j]) \<and> scope x = sc"
    using a heads_ofD(3,4) [OF h] by (auto split: if_splits)
  fix y assume y: "y \<in> set (js @ [j])" "scope y = sc"
  show "seq x \<le> seq y"
  proof (cases "sc = scope j")
    case True
    show ?thesis
    proof (cases "y = j")
      case False
      then have "y \<in> set js" using y by simp
      then obtain z where z: "map_of m (scope j) = Some z" using heads_ofD(2) [OF h] y True by metis
      have "seq z \<le> seq y" using heads_ofD(5) [OF h z \<open>y \<in> set js\<close>] y True by simp
      with new [OF z] a True show ?thesis by simp
    qed (use a True in simp)
  next
    case False
    then show ?thesis using a y heads_ofD(5) [OF h, of sc x y] by auto
  qed
qed

lemma heads_of_add: "heads_of js m \<Longrightarrow> heads_of (js @ [j]) (add_head j m)"
proof (cases "\<exists>x. map_of m (scope j) = Some x \<and> \<not> seq j < seq x")
  case True
  assume h: "heads_of js m"
  from True obtain x where x: "map_of m (scope j) = Some x" "seq x \<le> seq j" by auto
  have "heads_of (js @ [j]) m"
  proof (rule heads_ofI)
    fix sc y z assume a: "map_of m sc = Some y" "z \<in> set (js @ [j])" "scope z = sc"
    then show "seq y \<le> seq z" using x heads_ofD(5) [OF h a(1)] by auto
  next
    fix sc y assume a: "map_of m sc = Some y"
    then show "y \<in> set (js @ [j]) \<and> scope y = sc" using heads_ofD(3,4) [OF h a] by simp
  qed (use x heads_ofD(1,2) [OF h] in auto)
  then show ?thesis using x by (simp add: add_head_def)
next
  case False
  assume "heads_of js m"
  with False show ?thesis
    by (auto simp: add_head_def intro!: heads_of_update split: option.splits)
qed

lemma heads_of_foldl: "heads_of js (foldl (\<lambda>m j. add_head j m) [] js)"
proof (induction js rule: rev_induct)
  case Nil
  show ?case by (simp add: heads_of_def)
next
  case (snoc j js)
  then show ?case by (simp add: heads_of_add)
qed

lemma scope_heads_facts:
  shows scope_heads_least: "j \<in> set (scope_heads js) \<Longrightarrow> j \<in> set js \<and> (\<forall>j' \<in> set js. scope j' = scope j \<longrightarrow> seq j \<le> seq j')"
    and scope_heads_distinct: "distinct (map scope (scope_heads js))"
    and scope_heads_cover: "j \<in> set js \<Longrightarrow> \<exists>h \<in> set (scope_heads js). scope h = scope j"
proof -
  let ?m = "foldl (\<lambda>m j. add_head j m) [] js"
  have h: "heads_of js ?m" by (rule heads_of_foldl)
  have e: "x \<in> set ?m \<longleftrightarrow> map_of ?m (fst x) = Some (snd x)" for x
    using heads_ofD(1) [OF h] by (cases x) simp
  show "j \<in> set (scope_heads js) \<Longrightarrow> j \<in> set js \<and> (\<forall>j' \<in> set js. scope j' = scope j \<longrightarrow> seq j \<le> seq j')"
    using heads_ofD(3,4,5) [OF h] unfolding scope_heads_def by (auto simp: e)
  have "map scope (map snd ?m) = map fst ?m"
    using heads_ofD(4) [OF h] by (auto simp: e)
  then show "distinct (map scope (scope_heads js))"
    using heads_ofD(1) [OF h] by (simp only: scope_heads_def)
  show "\<exists>h \<in> set (scope_heads js). scope h = scope j" if "j \<in> set js"
  proof -
    obtain x where x: "map_of ?m (scope j) = Some x" using heads_ofD(2) [OF h \<open>j \<in> set js\<close>] by blast
    then have "(scope j, x) \<in> set ?m" by (rule map_of_SomeD)
    then have "x \<in> set (scope_heads js)" unfolding scope_heads_def by force
    with heads_ofD(4) [OF h x] show ?thesis by blast
  qed
qed

section \<open>What one job's turn does\<close>

lemma mutate_seqs:
  "mutate what sq fn io st fs = (r, st', fs') \<Longrightarrow> (\<And>j. seq (fn j) = seq j) \<Longrightarrow> map seq (jobs st') = map seq (jobs st)"
  by (auto simp: mutate_def persist_def Let_def map_upd_first split: option.splits if_splits io.splits)

lemma settle_facts:
  shows ack_inv: "ack now sq io st fs = (r, st', fs') \<Longrightarrow> store_inv st \<Longrightarrow> store_inv st' \<and> map seq (jobs st') = map seq (jobs st)"
    and retry_inv: "retry sq att nxt io st fs = (r, st', fs') \<Longrightarrow> store_inv st \<Longrightarrow> store_inv st' \<and> map seq (jobs st') = map seq (jobs st)"
    and quarantine_inv: "quarantine sq why io st fs = (r, st', fs') \<Longrightarrow> store_inv st \<Longrightarrow> store_inv st' \<and> map seq (jobs st') = map seq (jobs st)"
proof -
  show "store_inv st' \<and> map seq (jobs st') = map seq (jobs st)" if "ack now sq io st fs = (r, st', fs')" "store_inv st"
    using outbox.keeps_inv [of "CAck now sq" st sec tf io fs r st' fs'] that mutate_seqs by (auto simp: ack_def)
  show "store_inv st' \<and> map seq (jobs st') = map seq (jobs st)" if "retry sq att nxt io st fs = (r, st', fs')" "store_inv st"
    using outbox.keeps_inv [of "CRetry sq att nxt" st sec tf io fs r st' fs'] that mutate_seqs by (auto simp: retry_def)
  show "store_inv st' \<and> map seq (jobs st') = map seq (jobs st)" if "quarantine sq why io st fs = (r, st', fs')" "store_inv st"
    using outbox.keeps_inv [of "CQuarantine sq why" st sec tf io fs r st' fs'] that mutate_seqs by (auto simp: quarantine_def)
qed

lemma hold_job_store [frame_simps]: "w_store (hold_job go j wd) = w_store wd" "w_fs (hold_job go j wd) = w_fs wd"
  by (simp_all add: hold_job_def split: option.splits)

lemma gate_isPrivate_store: "gate_isPrivate go wd = (p, wd1) \<Longrightarrow> w_store wd1 = w_store wd \<and> w_fs wd1 = w_fs wd"
  by (auto simp: gate_isPrivate_def split: option.splits prod.splits)

lemma record_failure_facts:
  assumes "record_failure w env job e (wd, s) = (wd', s')"
  shows "sent s' = sent s" and "pendingAck s' = pendingAck s" and "heldOps s' = heldOps s"
    and "store_inv (w_store wd) \<Longrightarrow> store_inv (w_store wd') \<and> map seq (jobs (w_store wd')) = map seq (jobs (w_store wd))"
  using assms
  by (auto simp: record_failure_def Let_def split: if_splits prod.splits sum.splits dest!: retry_inv quarantine_inv)

lemma on_error_facts:
  assumes "on_error w env job e (wd, s) = (wd', s')"
  shows "sent s' = sent s" and "pendingAck s' = pendingAck s"
    and "store_inv (w_store wd) \<Longrightarrow> store_inv (w_store wd') \<and> map seq (jobs (w_store wd')) = map seq (jobs (w_store wd))"
proof -
  obtain p wd1 where g: "gate_isPrivate (w_gate w) wd = (p, wd1)" by (cases "gate_isPrivate (w_gate w) wd")
  have st: "w_store wd1 = w_store wd" using gate_isPrivate_store [OF g] by simp
  consider (held) "w_store wd' = w_store wd" "sent s' = sent s" "pendingAck s' = pendingAck s"
    | (failure) "record_failure w env job e (wd1, s) = (wd', s')"
    using assms st by (cases p) (auto simp: on_error_def g add_held_op_def frame_simps split: if_splits)
  note c = this
  show "sent s' = sent s" "pendingAck s' = pendingAck s"
    using c by (cases, auto dest: record_failure_facts)+
  show "store_inv (w_store wd') \<and> map seq (jobs (w_store wd')) = map seq (jobs (w_store wd))" if "store_inv (w_store wd)"
    using c
  proof cases
    case failure
    then show ?thesis using record_failure_facts(4) [OF failure] that st by simp
  qed (use that in simp)
qed

text \<open>A sender that, whatever else happens during its await, takes no job out of the store.\<close>

definition send_keeps :: "'g tick_env \<Rightarrow> bool" where
  "send_keeps env = (\<forall>j wd. store_inv (w_store wd) \<longrightarrow>
     store_inv (w_store (snd (te_send env j wd)))
     \<and> seq ` set (jobs (w_store wd)) \<subseteq> seq ` set (jobs (w_store (snd (te_send env j wd)))))"

lemma seqs_subset: "map seq xs = map seq ys \<Longrightarrow> seq ` set xs = seq ` set ys"
  by (metis set_map)

lemma deliver_facts:
  assumes "deliver w env job (wd, s) = (wd', s')"
  shows "sent s' = sent s \<or> sent s' = sent s @ [opId job]"
    and "send_keeps env \<Longrightarrow> store_inv (w_store wd) \<Longrightarrow>
      store_inv (w_store wd') \<and> seq ` set (jobs (w_store wd)) \<subseteq> seq ` set (jobs (w_store wd'))"
proof -
  let ?gate = "case w_gate w of None \<Rightarrow> None | Some ops \<Rightarrow> g_assertNetwork ops (w_g wd)"
  consider (refused) e where "on_error w env job e (wd, s) = (wd', s')"
    | (failed) e wd1 where "te_send env job wd = (Some e, wd1)" "on_error w env job e (wd1, s) = (wd', s')"
    | (ok) wd1 r st fs where "te_send env job wd = (None, wd1)"
      "ack (te_now env job) (seq job) (te_io env job) (w_store wd1) (w_fs wd1) = (r, st, fs)"
      "wd' = wd1\<lparr>w_store := st, w_fs := fs\<rparr>" "sent s' = sent s @ [opId job]"
    using assms
    by (auto simp: deliver_def Let_def split: option.splits prod.splits sum.splits)
  note c = this
  show "sent s' = sent s \<or> sent s' = sent s @ [opId job]"
    using c by cases (auto dest: on_error_facts(1))
  show "store_inv (w_store wd') \<and> seq ` set (jobs (w_store wd)) \<subseteq> seq ` set (jobs (w_store wd'))"
    if k: "send_keeps env" and i: "store_inv (w_store wd)"
    using c
  proof cases
    case (refused e)
    then show ?thesis using on_error_facts(3) [OF refused i] seqs_subset by blast
  next
    case (failed e wd1)
    then have "store_inv (w_store wd1)" "seq ` set (jobs (w_store wd)) \<subseteq> seq ` set (jobs (w_store wd1))"
      using k i by (auto simp: send_keeps_def) (metis snd_conv subsetD imageI)+
    then show ?thesis using on_error_facts(3) [OF failed(2)] seqs_subset by metis
  next
    case (ok wd1 r st fs)
    then have "store_inv (w_store wd1)" "seq ` set (jobs (w_store wd)) \<subseteq> seq ` set (jobs (w_store wd1))"
      using k i by (auto simp: send_keeps_def) (metis snd_conv subsetD imageI)+
    then show ?thesis using ack_inv [OF ok(2)] seqs_subset [of "jobs st" "jobs (w_store wd1)"] ok(3) by simp
  qed
qed

lemma tick_job_facts:
  assumes "tick_job w env now (wd, s) job = (wd', s')"
  shows "sent s' = sent s \<or> (sent s' = sent s @ [opId job] \<and> nextAttemptAt job \<le> now \<and> \<not> target_mismatch w job)"
    and "send_keeps env \<Longrightarrow> store_inv (w_store wd) \<Longrightarrow>
      store_inv (w_store wd') \<and> seq ` set (jobs (w_store wd)) \<subseteq> seq ` set (jobs (w_store wd'))"
proof -
  obtain p wd1 where g: "gate_isPrivate (w_gate w) wd = (p, wd1)" by (cases "gate_isPrivate (w_gate w) wd")
  have st: "w_store wd1 = w_store wd" using gate_isPrivate_store [OF g] by simp
  consider (skip) "wd' = wd" "s' = s"
    | (held) "w_store wd' = w_store wd" "sent s' = sent s"
    | (sending) "deliver w env job (wd1, s) = (wd', s')" "nextAttemptAt job \<le> now" "\<not> target_mismatch w job"
  proof (cases "nextAttemptAt job > now")
    case True
    then show ?thesis using assms that(1) by (simp add: tick_job_def)
  next
    case False
    then show ?thesis
      using assms st that(2,3)
      by (cases p; cases "target_mismatch w job") (auto simp: tick_job_def g add_held_op_def frame_simps)
  qed
  note c = this
  show "sent s' = sent s \<or> (sent s' = sent s @ [opId job] \<and> nextAttemptAt job \<le> now \<and> \<not> target_mismatch w job)"
    using c
  proof cases
    case sending
    then show ?thesis using deliver_facts(1) [OF sending(1)] by blast
  qed auto
  show "store_inv (w_store wd') \<and> seq ` set (jobs (w_store wd)) \<subseteq> seq ` set (jobs (w_store wd'))"
    if "send_keeps env" "store_inv (w_store wd)"
    using c
  proof cases
    case sending
    then show ?thesis using deliver_facts(2) [OF sending(1)] that st by simp
  qed (use that in auto)
qed

lemma ticks_sent:
  "foldl (tick_job w env now) (wd, s) js = (wd', s') \<Longrightarrow>
   \<exists>hs. subseq hs js \<and> sent s' = sent s @ map opId hs \<and> (\<forall>h \<in> set hs. nextAttemptAt h \<le> now \<and> \<not> target_mismatch w h)"
proof (induction js arbitrary: wd s)
  case Nil
  then show ?case by (intro exI [of _ "[]"]) simp
next
  case (Cons j js)
  obtain wd1 s1 where t: "tick_job w env now (wd, s) j = (wd1, s1)" by (cases "tick_job w env now (wd, s) j")
  obtain hs where hs: "subseq hs js" "sent s' = sent s1 @ map opId hs" "\<forall>h \<in> set hs. nextAttemptAt h \<le> now \<and> \<not> target_mismatch w h"
    using Cons.IH [of wd1 s1] Cons.prems t by auto
  from tick_job_facts(1) [OF t] show ?case
  proof (elim disjE conjE)
    assume "sent s1 = sent s"
    with hs show ?thesis by (intro exI [of _ hs]) auto
  next
    assume "sent s1 = sent s @ [opId j]" "nextAttemptAt j \<le> now" "\<not> target_mismatch w j"
    with hs show ?thesis by (intro exI [of _ "j # hs"]) auto
  qed
qed

lemma ticks_keep:
  "foldl (tick_job w env now) (wd, s) js = (wd', s') \<Longrightarrow> send_keeps env \<Longrightarrow> store_inv (w_store wd) \<Longrightarrow>
   store_inv (w_store wd') \<and> seq ` set (jobs (w_store wd)) \<subseteq> seq ` set (jobs (w_store wd'))"
proof (induction js arbitrary: wd s)
  case (Cons j js)
  obtain wd1 s1 where t: "tick_job w env now (wd, s) j = (wd1, s1)" by (cases "tick_job w env now (wd, s) j")
  note f = tick_job_facts(2) [OF t Cons.prems(2,3)]
  have "store_inv (w_store wd') \<and> seq ` set (jobs (w_store wd1)) \<subseteq> seq ` set (jobs (w_store wd'))"
    using Cons.IH [of wd1 s1] Cons.prems t f by simp
  with f show ?case by blast
qed simp

section \<open>Private mode holds the whole tick\<close>

context private_gate
begin

lemma ticks_private:
  assumes "w_gate w = Some ops" and "mode (w_g wd)"
    and "foldl (tick_job w env now) (wd, s) js = (wd', s')"
  shows "w_store wd' = w_store wd \<and> w_fs wd' = w_fs wd \<and> mode (w_g wd')
    \<and> s' = s\<lparr>heldOps := heldOps s @ map opId (filter (\<lambda>j. nextAttemptAt j \<le> now) js)\<rparr>
    \<and> set (refs (w_g wd)) \<subseteq> set (refs (w_g wd'))
    \<and> (\<forall>j \<in> set js. nextAttemptAt j \<le> now \<longrightarrow> opId j \<in> ref_opId ` set (refs (w_g wd')))"
  using assms(2,3)
proof (induction js arbitrary: wd s)
  case (Cons j js)
  obtain wd1 s1 where t: "tick_job w env now (wd, s) j = (wd1, s1)" by (cases "tick_job w env now (wd, s) j")
  obtain g1 where p: "g_isPrivate ops (w_g wd) = (True, g1)"
    using isPrivate_value [of "w_g wd"] Cons.prems(1) by (metis prod.collapse)
  have m: "mode g1" using Cons.prems(1) isPrivate_mode [of "w_g wd"] by (simp add: p)
  have rk: "refs g1 = refs (w_g wd)" using read_keeps_refs [OF Cons.prems(1)] by (simp add: p)
  have f: "w_store wd1 = w_store wd \<and> w_fs wd1 = w_fs wd \<and> mode (w_g wd1)
      \<and> s1 = (if nextAttemptAt j \<le> now then add_held_op j s else s)
      \<and> set (refs (w_g wd)) \<subseteq> set (refs (w_g wd1))
      \<and> (nextAttemptAt j \<le> now \<longrightarrow> opId j \<in> ref_opId ` set (refs (w_g wd1)))"
  proof (cases "nextAttemptAt j \<le> now")
    case False
    then show ?thesis using t Cons.prems(1) by (simp add: tick_job_def)
  next
    case True
    have "wd1 = wd\<lparr>w_g := snd (g_hold ops (job_ref j) g1)\<rparr>" "s1 = add_held_op j s"
      using t True assms(1) by (auto simp: tick_job_def gate_isPrivate_def hold_job_def p)
    then show ?thesis
      using True hold_mode [of "job_ref j" g1] hold_refs [OF m, of "job_ref j"] m rk hold_grows [OF m, of "job_ref j"]
      by (simp add: job_ref_def)
  qed
  have "foldl (tick_job w env now) (wd1, s1) js = (wd', s')" using Cons.prems(2) t by simp
  note IH = Cons.IH [OF _ this]
  show ?case using IH f by (auto simp: add_held_op_def)
qed simp

lemma runTick_private:
  assumes "w_gate w = Some ops" and "mode (w_g wd)" and "runTick w env now wd = (wd', s)"
  shows "w_store wd' = w_store wd \<and> w_fs wd' = w_fs wd
    \<and> s = empty_summary\<lparr>heldOps := map opId (filter (\<lambda>j. nextAttemptAt j \<le> now) (scope_heads (pending (w_store wd))))\<rparr>
    \<and> (\<forall>op \<in> set (heldOps s). op \<in> ref_opId ` set (refs (w_g wd')))"
  using ticks_private [OF assms(1,2), of env now empty_summary "scope_heads (pending (w_store wd))" wd' s] assms(3)
  by (auto simp: runTick_def empty_summary_def)

end

section \<open>Properties of the worker\<close>

text \<open>
  C6. Per-scope order: whatever the sender does, the operations a tick sends are those of a
  subsequence of the scope heads, so at most one per scope, each the lowest-numbered pending
  job of its scope, due, and minted for the current delivery target.
\<close>
theorem tick_sends_only_due_heads:
  assumes "runTick w env now wd = (wd', s)"
  shows "\<exists>hs. sent s = map opId hs \<and> distinct (map scope hs)
    \<and> (\<forall>h \<in> set hs. h \<in> set (pending (w_store wd)) \<and> nextAttemptAt h \<le> now \<and> \<not> target_mismatch w h
          \<and> (\<forall>j \<in> set (pending (w_store wd)). scope j = scope h \<longrightarrow> seq h \<le> seq j))"
proof -
  let ?heads = "scope_heads (pending (w_store wd))"
  obtain hs where hs: "subseq hs ?heads" "sent s = map opId hs"
    "\<forall>h \<in> set hs. nextAttemptAt h \<le> now \<and> \<not> target_mismatch w h"
    using ticks_sent [OF assms [unfolded runTick_def]] by (auto simp: empty_summary_def)
  have "set hs \<subseteq> set ?heads" using hs(1) by (auto elim: list_emb_set)
  moreover have "distinct (map scope hs)"
    using subseq_map [OF hs(1), of scope] scope_heads_distinct subseqs_distinctD [OF iffD2 [OF in_set_subseqs]] by blast
  ultimately show ?thesis using hs(2,3) scope_heads_least by blast
qed

definition example_worker :: "'g gate_ops option \<Rightarrow> 'g OutboxWorker" where
  "example_worker go = \<lparr>maxAttempts = 8, baseDelayMs = 500, capDelayMs = 60000, jitterRatio = 1/5,
     w_gate = go, expectedTarget = None\<rparr>"

definition example_env :: "exn option \<Rightarrow> 'g tick_env" where
  "example_env r = \<lparr>te_send = (\<lambda>j wd. (r, wd)), te_now = (\<lambda>_. 100), te_io = (\<lambda>_. IoOk), te_random = (\<lambda>_. 0)\<rparr>"

definition example_world :: "'g \<Rightarrow> 'g world" where
  "example_world g = \<lparr>w_store = example_store, w_fs = empty_fs, w_g = g\<rparr>"

lemma example_heads: "scope_heads (pending example_store) = [example_job 1]"
  by (simp add: scope_heads_def pending_def example_store_def new_store_def example_job_def new_job_def
      OUTBOX_SCHEMA_VERSION_def add_head_def example_input_def)

theorem tick_sends_only_due_heads_witness:
  "sent (snd (runTick (example_worker None) (example_env None) 50 (example_world ()))) = [''op'']
   \<and> (\<exists>hs :: OutboxJob list. [''op''] = map opId hs \<and> distinct (map scope hs))"
proof -
  obtain wd' s where r: "runTick (example_worker None) (example_env None) 50 (example_world ()) = (wd', s)"
    by (metis surj_pair)
  have e: "sent s = [''op'']"
  proof -
    have t: "nextAttemptAt (example_job 1) = 7" "target (example_job 1) = None" "opId (example_job 1) = ''op''"
      by (simp_all add: example_job_def new_job_def example_input_def)
    have "hasOpId example_store ''op''"
      by (simp add: hasOpId_def example_store_def example_job_def new_job_def example_input_def)
    then have "sent (snd (deliver (example_worker None) (example_env None) (example_job 1) (example_world (), empty_summary))) = [''op'']"
      by (simp add: deliver_def example_worker_def assertPersisted_def example_world_def t example_env_def Let_def
          empty_summary_def split: prod.splits sum.splits)
    then have "sent (snd (runTick (example_worker None) (example_env None) 50 (example_world ()))) = [''op'']"
      by (simp add: runTick_def example_heads tick_job_def t target_mismatch_def gate_isPrivate_def example_worker_def [of None]
          example_world_def)
    then show ?thesis by (simp only: r snd_conv)
  qed
  obtain hs :: "OutboxJob list" where "sent s = map opId hs \<and> distinct (map scope hs)"
    using tick_sends_only_due_heads [OF r] by blast
  with e have "\<exists>hs :: OutboxJob list. [''op''] = map opId hs \<and> distinct (map scope hs)" by metis
  with e show ?thesis by (simp only: r snd_conv simp_thms)
qed

text \<open>
  Private mode: with the gate of the shipped composition (the live configuration) in
  private mode, or with a configuration that cannot be read, a tick touches neither the store
  nor its files, sends, retries and quarantines nothing, and every due head is held.
\<close>
theorem private_tick_holds_everything:
  assumes "w_gate w = Some live_gate_ops" and "config_read (w_g wd) \<noteq> Some False"
    and "runTick w env now wd = (wd', s)"
  shows "w_store wd' = w_store wd \<and> w_fs wd' = w_fs wd
    \<and> s = empty_summary\<lparr>heldOps := map opId (filter (\<lambda>j. nextAttemptAt j \<le> now) (scope_heads (pending (w_store wd))))\<rparr>
    \<and> (\<forall>op \<in> set (heldOps s). op \<in> ref_opId ` set (lg_held (w_g wd')))"
proof -
  have "read_value (w_g wd)" using assms(2) by (auto simp: read_value_def split: option.splits)
  from live_gate.runTick_private [OF assms(1) this assms(3)] show ?thesis .
qed

theorem private_tick_holds_everything_witness:
  "heldOps (snd (runTick (example_worker (Some live_gate_ops)) (example_env None) 50 (example_world (new_live_gate None)))) = [''op'']"
proof -
  let ?w = "example_worker (Some live_gate_ops)" and ?wd = "example_world (new_live_gate None)"
  obtain wd' s where r: "runTick ?w (example_env None) 50 ?wd = (wd', s)" by (metis surj_pair)
  have h: "w_gate ?w = Some live_gate_ops" "config_read (w_g ?wd) \<noteq> Some False"
    by (simp_all add: example_worker_def example_world_def new_live_gate_def)
  have "s = empty_summary\<lparr>heldOps := map opId (filter (\<lambda>j. nextAttemptAt j \<le> 50) (scope_heads (pending (w_store ?wd))))\<rparr>"
    using private_tick_holds_everything [OF h r] by blast
  then show ?thesis
    by (simp only: r snd_conv) (simp add: example_world_def example_heads example_job_def new_job_def example_input_def)
qed

text \<open>
  C2. A tick never drops: as long as the code that runs during the sends takes no job out of
  the store, every job in the store before the tick is in it afterwards, whatever the sender's
  outcomes and whatever the file system does, and the store's invariant holds.
\<close>
theorem tick_never_drops:
  assumes "send_keeps env" and "store_inv (w_store wd)" and "runTick w env now wd = (wd', s)"
  shows "store_inv (w_store wd') \<and> (\<forall>j \<in> set (jobs (w_store wd)). \<exists>j' \<in> set (jobs (w_store wd')). seq j' = seq j)"
  using ticks_keep [OF assms(3) [unfolded runTick_def] assms(1,2)] by (auto simp: image_subset_iff image_iff) metis

theorem tick_never_drops_witness:
  "\<exists>j' \<in> set (jobs (w_store (fst (runTick (example_worker None) (example_env (Some NotAnError)) 50 (example_world ()))))). seq j' = 2"
proof -
  let ?env = "example_env (Some NotAnError) :: unit tick_env"
  obtain wd' s where r: "runTick (example_worker None) ?env 50 (example_world ()) = (wd', s)" by (metis surj_pair)
  have k: "send_keeps ?env" by (simp add: send_keeps_def example_env_def)
  have i: "store_inv (w_store (example_world ()))" by (simp add: example_world_def example_store_inv)
  have "example_job 2 \<in> set (jobs (w_store (example_world ())))" "seq (example_job 2) = 2"
    by (simp_all add: example_world_def example_store_def example_job_def new_job_def)
  with tick_never_drops [OF k i r] show ?thesis by (simp only: r fst_conv) metis
qed

text \<open>
  Target pin: a due head that was minted for another delivery target is held by the tick
  of a normal-mode worker, and neither the store nor its files change, so no attempt is used.
\<close>
theorem target_mismatch_is_held:
  assumes "w_gate w = None" and "target job = Some t" and "expectedTarget w = Some f" and "f job = Some e" and "t \<noteq> e"
    and "nextAttemptAt job \<le> now"
  shows "tick_job w env now (wd, s) job = (wd, add_held_op job s)"
  using assms by (simp add: tick_job_def gate_isPrivate_def target_mismatch_def)

theorem target_mismatch_is_held_witness:
  "tick_job ((example_worker None)\<lparr>expectedTarget := Some (\<lambda>_. Some ''new'')\<rparr>) (example_env None) 50 (example_world (), empty_summary)
     ((example_job 1)\<lparr>target := Some ''old''\<rparr>)
   = (example_world (), add_held_op ((example_job 1)\<lparr>target := Some ''old''\<rparr>) empty_summary)"
  by (rule target_mismatch_is_held [where t = "''old''" and e = "''new''" and f = "\<lambda>_. Some ''new''"])
    (simp_all add: example_worker_def example_job_def new_job_def)

subsection \<open>Backoff\<close>

lemma js_round_mono: "x \<le> y \<Longrightarrow> js_round x \<le> js_round y"
  by (simp add: js_round_def floor_mono)

lemma js_round_int [simp]: "js_round (of_int n) = n"
  by (simp add: js_round_def floor_unique)

text \<open>
  Backoff bounds: with a random number between 0 and 1 the delay is at least the capped
  exponential and at most the cap with full jitter, and without jitter it never decreases
  from one attempt to the next.
\<close>
theorem backoff_bounds:
  assumes "0 \<le> baseDelayMs w" and "0 \<le> capDelayMs w" and "0 \<le> jitterRatio w" and "0 \<le> r" and "r \<le> 1"
  shows "raw_backoff w att \<le> backoffMs w r att
    \<and> backoffMs w r att \<le> js_round (of_int (capDelayMs w) * (1 + jitterRatio w))
    \<and> backoffMs w 0 att \<le> backoffMs w 0 (att + 1)"
proof (intro conjI)
  let ?raw = "of_int (raw_backoff w att) :: rat"
  have raw: "0 \<le> raw_backoff w att" "raw_backoff w att \<le> capDelayMs w"
    using assms(1,2) by (simp_all add: raw_backoff_def)
  then have q: "0 \<le> ?raw" "?raw \<le> of_int (capDelayMs w)" by simp_all
  have j: "0 \<le> jitterRatio w * r" "jitterRatio w * r \<le> jitterRatio w"
    using assms(3-5) by (simp_all add: mult_left_le)
  have "?raw \<le> ?raw * (1 + jitterRatio w * r)" using q j by (simp add: distrib_left)
  from js_round_mono [OF this] show "raw_backoff w att \<le> backoffMs w r att" by (simp add: backoffMs_def)
  have "?raw * (1 + jitterRatio w * r) \<le> of_int (capDelayMs w) * (1 + jitterRatio w)"
    using q j assms(3) by (intro mult_mono) auto
  from js_round_mono [OF this]
  show "backoffMs w r att \<le> js_round (of_int (capDelayMs w) * (1 + jitterRatio w))" by (simp add: backoffMs_def)
  have "(2::int) ^ nat (max 0 (att - 1)) \<le> 2 ^ nat (max 0 (att + 1 - 1))"
    by (intro power_increasing) auto
  then have "baseDelayMs w * 2 ^ nat (max 0 (att - 1)) \<le> baseDelayMs w * 2 ^ nat (max 0 (att + 1 - 1))"
    using assms(1) by (rule mult_left_mono)
  then show "backoffMs w 0 att \<le> backoffMs w 0 (att + 1)"
    by (simp add: backoffMs_def raw_backoff_def)
qed

theorem backoff_bounds_witness:
  "4000 \<le> backoffMs (example_worker None :: unit OutboxWorker) (1/2) 4
   \<and> backoffMs (example_worker None :: unit OutboxWorker) (1/2) 4 \<le> 72000"
proof -
  have h: "0 \<le> baseDelayMs (example_worker None :: unit OutboxWorker)" "0 \<le> capDelayMs (example_worker None :: unit OutboxWorker)"
    "0 \<le> jitterRatio (example_worker None :: unit OutboxWorker)" "(0::rat) \<le> 1/2" "(1/2::rat) \<le> 1"
    by (simp_all add: example_worker_def)
  have "raw_backoff (example_worker None :: unit OutboxWorker) 4 = 4000"
    by (simp add: raw_backoff_def example_worker_def)
  moreover have "js_round (of_int (capDelayMs (example_worker None :: unit OutboxWorker)) * (1 + jitterRatio (example_worker None :: unit OutboxWorker))) = 72000"
    using js_round_int [of 72000] by (simp add: example_worker_def)
  ultimately show ?thesis using backoff_bounds [OF h, of 4] by simp
qed

subsection \<open>Bounded attempts\<close>

text \<open>
  The job as the store has it now, delivered again and again by a sender that always fails
  with the same error.
\<close>

fun redeliver :: "nat \<Rightarrow> 'g OutboxWorker \<Rightarrow> 'g tick_env \<Rightarrow> int \<Rightarrow> 'g world \<times> TickSummary \<Rightarrow> 'g world \<times> TickSummary" where
  "redeliver 0 w env sq ws = ws"
| "redeliver (Suc n) w env sq ws =
     (case redeliver n w env sq ws of (wd, s) \<Rightarrow>
        (case find (\<lambda>j. seq j = sq) (jobs (w_store wd)) of
           None \<Rightarrow> (wd, s)
         | Some job \<Rightarrow> deliver w env job (wd, s)))"

lemma find_upd_first:
  "find P js = Some j \<Longrightarrow> (\<And>x. P (f x) = P x) \<Longrightarrow> find P (upd_first P f js) = Some (f j)"
  by (induction js) (auto split: if_splits)

lemma find_hasOpId: "find P (jobs st) = Some j \<Longrightarrow> hasOpId st (opId j)"
  by (auto simp: hasOpId_def list_ex_iff dest: find_Some_in)

lemma mutate_ok:
  assumes "readOnlyVersion st = None" "\<not> persistFault st" "find (\<lambda>j. seq j = sq) (jobs st) = Some job"
    and "schemaVersion job \<le> OUTBOX_SCHEMA_VERSION"
  shows "mutate what sq fn IoOk st fs = (Inr (), st\<lparr>jobs := upd_first (\<lambda>j. seq j = sq) fn (jobs st)\<rparr>,
    fs\<lparr>journal := Some (journal_text (upd_first (\<lambda>j. seq j = sq) fn (jobs st))), fmode := 384\<rparr>)"
  using assms by (simp add: mutate_def persist_def Let_def)

text \<open>One failing delivery: a retry with one more attempt, or the quarantine.\<close>

lemma deliver_failing:
  assumes w: "w_gate w = None"
    and env: "te_send env = (\<lambda>j wd. (Some e, wd))" "\<And>j. te_io env j = IoOk" and e: "isRetryable e"
    and st: "readOnlyVersion (w_store wd) = None" "\<not> persistFault (w_store wd)"
    and job: "find (\<lambda>j. seq j = sq) (jobs (w_store wd)) = Some job" "seq job = sq" "schemaVersion job \<le> OUTBOX_SCHEMA_VERSION"
    and out: "deliver w env job (wd, s) = (wd', s')"
  shows "readOnlyVersion (w_store wd') = None \<and> \<not> persistFault (w_store wd')
    \<and> (\<exists>job'. find (\<lambda>j. seq j = sq) (jobs (w_store wd')) = Some job' \<and> seq job' = sq \<and> schemaVersion job' = schemaVersion job
        \<and> (if attempts job + 1 < maxAttempts w
           then status job' = status job \<and> attempts job' = attempts job + 1
             \<and> nextAttemptAt job' = te_now env job + backoffMs w (te_random env job) (attempts job + 1)
           else status job' = Quarantined \<and> lastError job' = Some (quarantine_reason job e)))"
proof -
  have np: "e \<noteq> PrivateModeActive" using e by auto
  have d: "deliver w env job (wd, s) = record_failure w env job e (wd, s)"
    using find_hasOpId [OF job(1)] np
    by (simp add: deliver_def w env(1) assertPersisted_def on_error_def gate_isPrivate_def)
  let ?P = "\<lambda>j. seq j = sq"
  show ?thesis
  proof (cases "attempts job + 1 < maxAttempts w")
    case True
    let ?f = "\<lambda>j. j\<lparr>attempts := attempts job + 1, nextAttemptAt := te_now env job + backoffMs w (te_random env job) (attempts job + 1)\<rparr>"
    have "find ?P (upd_first ?P ?f (jobs (w_store wd))) = Some (?f job)" by (rule find_upd_first [OF job(1)]) simp
    then show ?thesis
      using out True e job st mutate_ok [OF st job(1,3), of "''retry''" ?f]
      by (auto simp: d record_failure_def Let_def retry_def env(2))
  next
    case False
    let ?f = "\<lambda>j. j\<lparr>status := Quarantined, lastError := Some (quarantine_reason job e)\<rparr>"
    have "find ?P (upd_first ?P ?f (jobs (w_store wd))) = Some (?f job)" by (rule find_upd_first [OF job(1)]) simp
    then show ?thesis
      using out False e job st mutate_ok [OF st job(1,3), of "''quarantine''" ?f]
      by (auto simp: d record_failure_def Let_def quarantine_def env(2))
  qed
qed

text \<open>
  C12. Bounded attempts: a fresh job whose every delivery fails with a retryable error is
  pending with exactly k attempts after k failures as long as k is below the maximum, and is
  quarantined, still in the store, after the maximum: it is never retried forever.
\<close>
theorem failing_job_is_quarantined:
  assumes "w_gate w = None" and "te_send env = (\<lambda>j wd. (Some e, wd))" and "\<And>j. te_io env j = IoOk" and "isRetryable e"
    and "readOnlyVersion (w_store wd) = None" and "\<not> persistFault (w_store wd)"
    and "find (\<lambda>j. seq j = sq) (jobs (w_store wd)) = Some job" and "seq job = sq"
    and "schemaVersion job \<le> OUTBOX_SCHEMA_VERSION" and "attempts job = 0" and "status job = Pending"
    and "1 \<le> maxAttempts w" and "int n \<le> maxAttempts w"
  shows "\<exists>job'. find (\<lambda>j. seq j = sq) (jobs (w_store (fst (redeliver n w env sq (wd, s))))) = Some job'
    \<and> (if int n < maxAttempts w then status job' = Pending \<and> attempts job' = int n else status job' = Quarantined)"
proof -
  define good where "good k ws = (\<exists>job'. readOnlyVersion (w_store (fst ws)) = None \<and> \<not> persistFault (w_store (fst ws))
      \<and> find (\<lambda>j. seq j = sq) (jobs (w_store (fst ws))) = Some job' \<and> seq job' = sq \<and> schemaVersion job' \<le> OUTBOX_SCHEMA_VERSION
      \<and> (if int k < maxAttempts w then status job' = Pending \<and> attempts job' = int k else status job' = Quarantined))"
    for k and ws :: "'a world \<times> TickSummary"
  have "good n (redeliver n w env sq (wd, s))"
    using assms(13)
  proof (induction n)
    case 0
    then show ?case using assms by (auto simp: good_def)
  next
    case (Suc n)
    obtain wd1 s1 where r: "redeliver n w env sq (wd, s) = (wd1, s1)" by (metis surj_pair)
    have lt: "int n < maxAttempts w" using Suc.prems by simp
    then obtain job1 where j: "readOnlyVersion (w_store wd1) = None" "\<not> persistFault (w_store wd1)"
      "find (\<lambda>j. seq j = sq) (jobs (w_store wd1)) = Some job1" "seq job1 = sq" "schemaVersion job1 \<le> OUTBOX_SCHEMA_VERSION"
      "status job1 = Pending" "attempts job1 = int n"
      using Suc.IH Suc.prems by (auto simp: r good_def)
    obtain wd2 s2 where d: "deliver w env job1 (wd1, s1) = (wd2, s2)" by (metis surj_pair)
    from deliver_failing [OF assms(1-4) j(1-5) d] j(5-7) show ?case
      by (auto simp: r j(3) d good_def split: if_splits)
  qed
  then show ?thesis by (auto simp: good_def)
qed

theorem failing_job_is_quarantined_witness:
  "\<exists>job'. find (\<lambda>j. seq j = 1) (jobs (w_store (fst (redeliver 8 (example_worker None)
      (example_env (Some (Backend AvailabilityError))) 1 (example_world (), empty_summary))))) = Some job' \<and> status job' = Quarantined"
proof -
  let ?w = "example_worker None :: unit OutboxWorker" and ?env = "example_env (Some (Backend AvailabilityError)) :: unit tick_env"
  have h: "w_gate ?w = None" "te_send ?env = (\<lambda>j wd. (Some (Backend AvailabilityError), wd))" "\<And>j. te_io ?env j = IoOk"
    "isRetryable (Backend AvailabilityError)" "readOnlyVersion (w_store (example_world ())) = None"
    "\<not> persistFault (w_store (example_world ()))"
    "find (\<lambda>j. seq j = 1) (jobs (w_store (example_world ()))) = Some (example_job 1)" "seq (example_job 1) = 1"
    "schemaVersion (example_job 1) \<le> OUTBOX_SCHEMA_VERSION" "attempts (example_job 1) = 0" "status (example_job 1) = Pending"
    "1 \<le> maxAttempts ?w" "int 8 \<le> maxAttempts ?w"
    by (simp_all add: example_worker_def example_env_def example_world_def example_store_def new_store_def example_job_def new_job_def)
  have "maxAttempts ?w = 8" by (simp add: example_worker_def)
  then show ?thesis using failing_job_is_quarantined [OF h, of empty_summary] by auto
qed

end
