(* ===== verification/Cursor.thy ===== *)
theory Cursor
  imports Json Errors
begin

text \<open>
  The durable pipeline cursors and the bounded reconciliation pass (src/outbox/cursor.ts).
  The cursor state is the JavaScript object itself, its members in order, because the file
  is read back with \<open>JSON.parse\<close> and members the program does not know are kept. The file
  holds a JSON value, or bytes that \<open>JSON.parse\<close> rejects (\<open>None\<close>). A member that should be
  a number and is not compares like \<open>NaN\<close>. The backend feed is an argument: what the n-th
  call of \<open>fetchPage\<close> returns for a commit hash, or the error it throws.
\<close>

section \<open>The cursor file\<close>

type_synonym CursorState = "json dict"
type_synonym cursor_fs = "json option option"

record CursorFile =
  cf_state :: CursorState
  newerSchema :: "int option"

datatype cursor_error = CursorCorrupt | CursorReadOnly int | CursorIo

fun num_member :: "json option \<Rightarrow> int option" where
  "num_member (Some (JNum n)) = Some n"
| "num_member _ = None"

fun str_member :: "json option \<Rightarrow> string option" where
  "str_member (Some (JStr s)) = Some s"
| "str_member _ = None"

definition state_num :: "string \<Rightarrow> CursorState \<Rightarrow> int option" where
  "state_num k s = num_member (map_of s k)"

definition localSeq :: "CursorState \<Rightarrow> int" where
  "localSeq s = default_to 0 (state_num ''localSeq'' s)"

definition backendLastSeq :: "CursorState \<Rightarrow> int option" where
  "backendLastSeq s = state_num ''backendLastSeq'' s"

definition lastCommitHash :: "CursorState \<Rightarrow> string option" where
  "lastCommitHash s = str_member (map_of s ''lastCommitHash'')"

definition reconcileNeeded :: "CursorState \<Rightarrow> bool" where
  "reconcileNeeded s = (map_of s ''reconcileNeeded'' = Some (JBool True))"

definition is_safe_integer :: "int \<Rightarrow> bool" where
  "is_safe_integer n = (- (2 ^ 53) < n \<and> n < 2 ^ 53)"

definition initial_state :: CursorState where
  "initial_state = [(''schemaVersion'', JNum 1), (''localSeq'', JNum 0)]"

definition cursor_save :: "io \<Rightarrow> CursorFile \<Rightarrow> cursor_fs \<Rightarrow> (cursor_error + unit) \<times> cursor_fs" where
  "cursor_save io cf fs =
     (case atomic_write io (Some (JObj (cf_state cf))) fs of
        (True, fs') \<Rightarrow> (Inr (), fs')
      | (False, fs') \<Rightarrow> (Inl CursorIo, fs'))"

definition cursor_of_json :: "int \<Rightarrow> json \<Rightarrow> cursor_error + CursorFile" where
  "cursor_of_json supported j =
     (case j of
        JObj ms \<Rightarrow>
          (case state_num ''localSeq'' ms of
             None \<Rightarrow> Inl CursorCorrupt
           | Some n \<Rightarrow>
               if \<not> is_safe_integer n then Inl CursorCorrupt
               else (case state_num ''schemaVersion'' ms of
                       Some v \<Rightarrow>
                         if v > supported
                         then Inr \<lparr>cf_state = AList.update ''reconcileNeeded'' (JBool True) ms, newerSchema = Some v\<rparr>
                         else Inr \<lparr>cf_state = ms, newerSchema = None\<rparr>
                     | None \<Rightarrow> Inr \<lparr>cf_state = ms, newerSchema = None\<rparr>))
      | _ \<Rightarrow> Inl CursorCorrupt)"

definition open_cursor :: "io \<Rightarrow> cursor_fs \<Rightarrow> (cursor_error + CursorFile) \<times> cursor_fs" where
  "open_cursor io fs =
     (case fs of
        Some None \<Rightarrow> (Inl CursorCorrupt, fs)
      | Some (Some j) \<Rightarrow> (cursor_of_json 1 j, fs)
      | None \<Rightarrow>
          (let cf = \<lparr>cf_state = initial_state, newerSchema = None\<rparr>
           in case cursor_save io cf fs of
                (Inl e, fs') \<Rightarrow> (Inl e, fs')
              | (Inr _, fs') \<Rightarrow> (Inr cf, fs')))"

type_synonym cursor_result = "(cursor_error + unit) \<times> CursorFile \<times> cursor_fs"

text \<open>An assignment to a member, then \<open>save()\<close>: the member keeps its new value if the save throws.\<close>

definition put_and_save :: "json dict \<Rightarrow> io \<Rightarrow> CursorFile \<Rightarrow> cursor_fs \<Rightarrow> cursor_result" where
  "put_and_save kvs io cf fs =
     (let cf' = cf\<lparr>cf_state := foldl (\<lambda>s (k, v). AList.update k v s) (cf_state cf) kvs\<rparr>
      in case cursor_save io cf' fs of (r, fs') \<Rightarrow> (r, cf', fs'))"

definition advanceLocalSeq :: "int \<Rightarrow> io \<Rightarrow> CursorFile \<Rightarrow> cursor_fs \<Rightarrow> cursor_result" where
  "advanceLocalSeq sq io cf fs =
     (case newerSchema cf of
        Some v \<Rightarrow> (Inl (CursorReadOnly v), cf, fs)
      | None \<Rightarrow>
          if sq \<le> localSeq (cf_state cf) then (Inr (), cf, fs)
          else put_and_save [(''localSeq'', JNum sq)] io cf fs)"

definition setBackend :: "int \<Rightarrow> string \<Rightarrow> io \<Rightarrow> CursorFile \<Rightarrow> cursor_fs \<Rightarrow> cursor_result" where
  "setBackend sq hash io cf fs =
     (case newerSchema cf of
        Some v \<Rightarrow> (Inl (CursorReadOnly v), cf, fs)
      | None \<Rightarrow>
          put_and_save [(''backendLastSeq'', JNum sq), (''lastCommitHash'', JStr hash),
            (''reconcileNeeded'', JBool False)] io cf fs)"

definition flagReconcileNeeded :: "io \<Rightarrow> CursorFile \<Rightarrow> cursor_fs \<Rightarrow> cursor_result" where
  "flagReconcileNeeded io cf fs = put_and_save [(''reconcileNeeded'', JBool True)] io cf fs"

section \<open>Reconciliation\<close>

record ReconcilePage =
  page_changes :: "int list"
  page_hash :: string
  hasMore :: bool

record ReconcileLimits =
  maxPages :: nat
  maxChanges :: nat

definition DEFAULT_RECONCILE_LIMITS :: ReconcileLimits where
  "DEFAULT_RECONCILE_LIMITS = \<lparr>maxPages = 20, maxChanges = 10000\<rparr>"

record ReconcileResult =
  pages :: nat
  changes :: nat
  drift :: bool
  paused :: bool

datatype reconcile_error = FetchFailed exn | CursorFailed cursor_error

type_synonym feed = "nat \<Rightarrow> string option \<Rightarrow> exn + ReconcilePage"

definition page_drifts :: "int \<Rightarrow> int list \<Rightarrow> bool" where
  "page_drifts lastSeq chs =
     (case chs of [] \<Rightarrow> False
      | first # _ \<Rightarrow> first \<le> lastSeq \<or> (lastSeq > 0 \<and> first > lastSeq + 1))"

text \<open>A call on the cursor file, then \<open>return result\<close>.\<close>

definition return_after ::
  "ReconcileResult \<Rightarrow> cursor_result \<Rightarrow> (reconcile_error + ReconcileResult) \<times> CursorFile \<times> cursor_fs" where
  "return_after res c =
     (case c of (Inl e, cf, fs) \<Rightarrow> (Inl (CursorFailed e), cf, fs) | (Inr _, cf, fs) \<Rightarrow> (Inr res, cf, fs))"

function reconcile_loop ::
  "feed \<Rightarrow> ReconcileLimits \<Rightarrow> io \<Rightarrow> string option \<Rightarrow> int \<Rightarrow> ReconcileResult \<Rightarrow> CursorFile \<Rightarrow> cursor_fs
   \<Rightarrow> (reconcile_error + ReconcileResult) \<times> CursorFile \<times> cursor_fs" where
  "reconcile_loop fetch lims io since lastSeq res cf fs =
     (if pages res < maxPages lims \<and> changes res < maxChanges lims then
        (case fetch (pages res) since of
           Inl e \<Rightarrow> (Inl (FetchFailed e), cf, fs)
         | Inr page \<Rightarrow>
             let res1 = res\<lparr>pages := pages res + 1, changes := changes res + length (page_changes page)\<rparr>
             in if page_drifts lastSeq (page_changes page)
                then return_after (res1\<lparr>drift := True\<rparr>) (flagReconcileNeeded io cf fs)
                else
                  (let last1 = (if page_changes page \<noteq> [] then last (page_changes page) else lastSeq)
                   in if \<not> hasMore page then return_after res1 (setBackend last1 (page_hash page) io cf fs)
                      else reconcile_loop fetch lims io (Some (page_hash page)) last1 res1 cf fs))
      else return_after (res\<lparr>paused := True\<rparr>) (flagReconcileNeeded io cf fs))"
  by pat_completeness auto

termination
  by (relation "measure (\<lambda>(fetch, lims, io, since, lastSeq, res, cf, fs). maxPages lims - pages res)") auto

declare reconcile_loop.simps [simp del]

definition empty_result :: ReconcileResult where
  "empty_result = \<lparr>pages = 0, changes = 0, drift = False, paused = False\<rparr>"

definition reconcile ::
  "feed \<Rightarrow> ReconcileLimits \<Rightarrow> io \<Rightarrow> CursorFile \<Rightarrow> cursor_fs
   \<Rightarrow> (reconcile_error + ReconcileResult) \<times> CursorFile \<times> cursor_fs" where
  "reconcile fetch lims io cf fs =
     reconcile_loop fetch lims io (lastCommitHash (cf_state cf))
       (default_to 0 (backendLastSeq (cf_state cf))) empty_result cf fs"

section \<open>Facts about the cursor file\<close>

lemmas put_defs = put_and_save_def cursor_save_def atomic_write_def Let_def

lemma state_num_update [simp]:
  "state_num k (AList.update k (JNum n) s) = Some n"
  "k \<noteq> k' \<Longrightarrow> state_num k (AList.update k' v s) = state_num k s"
  by (simp_all add: state_num_def)

lemma localSeq_update [simp]:
  "localSeq (AList.update ''localSeq'' (JNum n) s) = n"
  "k \<noteq> ''localSeq'' \<Longrightarrow> localSeq (AList.update k v s) = localSeq s"
  by (simp_all add: localSeq_def)

fun disk_seq :: "cursor_fs \<Rightarrow> int option" where
  "disk_seq (Some (Some (JObj ms))) = state_num ''localSeq'' ms"
| "disk_seq _ = None"

datatype cursor_cmd = Advance int | SetBackend int string | Flag | Reopen

fun cursor_step :: "cursor_cmd \<Rightarrow> io \<Rightarrow> CursorFile \<Rightarrow> cursor_fs \<Rightarrow> cursor_result" where
  "cursor_step (Advance sq) io cf fs = advanceLocalSeq sq io cf fs"
| "cursor_step (SetBackend sq h) io cf fs = setBackend sq h io cf fs"
| "cursor_step Flag io cf fs = flagReconcileNeeded io cf fs"
| "cursor_step Reopen io cf fs =
     (case open_cursor io fs of (Inl e, fs') \<Rightarrow> (Inl e, cf, fs') | (Inr cf', fs') \<Rightarrow> (Inr (), cf', fs'))"

fun cursor_run :: "(cursor_cmd \<times> io) list \<Rightarrow> CursorFile \<Rightarrow> cursor_fs \<Rightarrow> CursorFile \<times> cursor_fs" where
  "cursor_run [] cf fs = (cf, fs)"
| "cursor_run ((c, io) # cs) cf fs = (case cursor_step c io cf fs of (_, cf', fs') \<Rightarrow> cursor_run cs cf' fs')"

definition cursor_inv :: "CursorFile \<Rightarrow> cursor_fs \<Rightarrow> bool" where
  "cursor_inv cf fs =
     (\<exists>d m. disk_seq fs = Some d \<and> state_num ''localSeq'' (cf_state cf) = Some m \<and> d \<le> m)"

lemma localSeq_Some: "state_num ''localSeq'' s = Some m \<Longrightarrow> localSeq s = m"
  by (simp add: localSeq_def)

lemma put_and_save_inv:
  assumes "put_and_save kvs io cf fs = (r, cf', fs')" "disk_seq fs = Some d"
    and new: "state_num ''localSeq'' (foldl (\<lambda>s (k, v). AList.update k v s) (cf_state cf) kvs) = Some m" and "d \<le> m"
  shows "\<exists>d'. disk_seq fs' = Some d' \<and> d \<le> d' \<and> d' \<le> m \<and> state_num ''localSeq'' (cf_state cf') = Some m"
  using assms by (cases io) (auto simp: put_defs)

lemma open_cursor_seq:
  assumes "open_cursor io fs = (Inr cf, fs')"
  shows "\<exists>d. disk_seq fs' = Some d \<and> state_num ''localSeq'' (cf_state cf) = Some d \<and> (fs \<noteq> None \<longrightarrow> fs' = fs)"
  using assms
  by (cases io)
    (auto simp: open_cursor_def cursor_of_json_def initial_state_def state_num_def put_defs
      split: option.splits json.splits if_splits)

lemma open_cursor_keeps: "open_cursor io (Some c) = (r, fs') \<Longrightarrow> fs' = Some c"
  by (auto simp: open_cursor_def split: option.splits)

lemma cursor_step_inv:
  assumes "cursor_step c io cf fs = (r, cf', fs')" "cursor_inv cf fs"
  shows "cursor_inv cf' fs' \<and> the (disk_seq fs) \<le> the (disk_seq fs')"
proof -
  obtain d m where i: "disk_seq fs = Some d" "state_num ''localSeq'' (cf_state cf) = Some m" "d \<le> m"
    using assms(2) by (auto simp: cursor_inv_def)
  then obtain b where fs: "fs = Some b" by (cases fs) auto
  show ?thesis
  proof (cases c)
    case (Advance sq)
    then consider "cf' = cf" "fs' = fs" | "sq > m" "put_and_save [(''localSeq'', JNum sq)] io cf fs = (r, cf', fs')"
      using assms(1) i by (auto simp: advanceLocalSeq_def localSeq_Some split: option.splits if_splits)
    then show ?thesis
      by cases (use i put_and_save_inv [of _ io cf fs r cf' fs' d sq] in \<open>force simp: cursor_inv_def\<close>)+
  next
    case (SetBackend sq h)
    then consider "cf' = cf" "fs' = fs"
      | "put_and_save [(''backendLastSeq'', JNum sq), (''lastCommitHash'', JStr h), (''reconcileNeeded'', JBool False)] io cf fs = (r, cf', fs')"
      using assms(1) by (auto simp: setBackend_def split: option.splits)
    then show ?thesis
      by cases (use i put_and_save_inv [of _ io cf fs r cf' fs' d m] in \<open>force simp: cursor_inv_def\<close>)+
  next
    case Flag
    then show ?thesis
      using assms(1) i put_and_save_inv [of _ io cf fs r cf' fs' d m]
      by (force simp: cursor_inv_def flagReconcileNeeded_def)
  next
    case Reopen
    then have "fs' = fs" "cf' = cf \<or> open_cursor io fs = (Inr cf', fs')"
      using assms(1) fs by (auto split: prod.splits sum.splits dest: open_cursor_keeps)
    then show ?thesis
      using assms(2) open_cursor_seq [of io fs cf' fs'] by (auto simp: cursor_inv_def)
  qed
qed

lemma cursor_run_inv:
  "cursor_inv cf fs \<Longrightarrow> cursor_run cs cf fs = (cf', fs')
   \<Longrightarrow> cursor_inv cf' fs' \<and> the (disk_seq fs) \<le> the (disk_seq fs')"
proof (induction cs arbitrary: cf fs)
  case (Cons ci cs)
  obtain c io where ci: "ci = (c, io)" by (cases ci)
  obtain r cf1 fs1 where s: "cursor_step c io cf fs = (r, cf1, fs1)" by (cases "cursor_step c io cf fs") auto
  have "cursor_run cs cf1 fs1 = (cf', fs')" using Cons.prems(2) ci s by simp
  with Cons.IH [of cf1 fs1] cursor_step_inv [OF s Cons.prems(1)] show ?case by auto
qed simp

text \<open>
  C10. The authoritative cursor is never reset: whatever sequence of cursor operations runs
  after a successful open, failed saves and restarts included, the \<open>localSeq\<close> in the file
  never decreases, the file keeps one, and the in-memory cursor is never behind it. Opening
  an existing file never changes it, and starts from exactly its \<open>localSeq\<close>.
\<close>
theorem cursor_never_reset:
  assumes "open_cursor io fs0 = (Inr cf, fs)"
  shows "(fs0 \<noteq> None \<longrightarrow> fs = fs0) \<and> disk_seq fs = Some (localSeq (cf_state cf))
    \<and> (case cursor_run cs cf fs of (cf', fs') \<Rightarrow>
        \<exists>d. disk_seq fs' = Some d \<and> localSeq (cf_state cf) \<le> d \<and> d \<le> localSeq (cf_state cf'))"
proof -
  obtain d where d: "disk_seq fs = Some d" "state_num ''localSeq'' (cf_state cf) = Some d" "fs0 \<noteq> None \<longrightarrow> fs = fs0"
    using open_cursor_seq [OF assms] by auto
  then have "cursor_inv cf fs" by (simp add: cursor_inv_def)
  then show ?thesis
    using d cursor_run_inv [of cf fs cs]
    by (auto simp: localSeq_Some cursor_inv_def split: prod.splits)
qed

theorem cursor_never_reset_witness:
  "disk_seq (snd (cursor_run [(Advance 5, IoOk), (Advance 3, IoOk), (Advance 9, IoFailBefore), (Reopen, IoOk)]
      \<lparr>cf_state = initial_state, newerSchema = None\<rparr> (Some (Some (JObj initial_state))))) = Some 5
   \<and> disk_seq (Some (Some (JObj initial_state))) = Some 0"
proof -
  have o: "open_cursor IoOk None = (Inr \<lparr>cf_state = initial_state, newerSchema = None\<rparr>, Some (Some (JObj initial_state)))"
    by (simp add: open_cursor_def put_defs)
  show ?thesis
    using cursor_never_reset [OF o, of "[]"]
    by (simp add: initial_state_def advanceLocalSeq_def put_defs open_cursor_def cursor_of_json_def
        localSeq_def state_num_def is_safe_integer_def)
qed

section \<open>Facts about reconciliation\<close>

definition next_seq :: "int \<Rightarrow> ReconcilePage \<Rightarrow> int" where
  "next_seq l p = (if page_changes p \<noteq> [] then last (page_changes p) else l)"

text \<open>The pages a pass reads in order: each from the hash of the one before, all but the last with more to come.\<close>

fun page_chain :: "feed \<Rightarrow> nat \<Rightarrow> string option \<Rightarrow> int \<Rightarrow> ReconcilePage list \<Rightarrow> bool" where
  "page_chain fetch n since l [] = True"
| "page_chain fetch n since l (p # ps) =
     (fetch n since = Inr p \<and> \<not> page_drifts l (page_changes p) \<and> (hasMore p \<longleftrightarrow> ps \<noteq> [])
      \<and> page_chain fetch (Suc n) (Some (page_hash p)) (next_seq l p) ps)"

lemmas flag_frame = flagReconcileNeeded_def put_defs

lemma flag_state:
  assumes "flagReconcileNeeded io cf fs = (r, cf', fs')"
  shows "localSeq (cf_state cf') = localSeq (cf_state cf)" "backendLastSeq (cf_state cf') = backendLastSeq (cf_state cf)"
    "lastCommitHash (cf_state cf') = lastCommitHash (cf_state cf)" "newerSchema cf' = newerSchema cf"
  using assms
  by (auto simp: flag_frame backendLastSeq_def lastCommitHash_def split: prod.splits io.splits)

lemma setBackend_localSeq:
  "setBackend sq h io cf fs = (r, cf', fs') \<Longrightarrow> localSeq (cf_state cf') = localSeq (cf_state cf)"
  by (auto simp: setBackend_def put_defs split: prod.splits io.splits option.splits)

lemma setBackend_adopts:
  assumes "setBackend sq h io cf fs = (Inr u, cf', fs')"
  shows "fs' = Some (Some (JObj (cf_state cf')))" "backendLastSeq (cf_state cf') = Some sq"
    "lastCommitHash (cf_state cf') = Some h" "\<not> reconcileNeeded (cf_state cf')"
  using assms
  by (auto simp: setBackend_def put_defs backendLastSeq_def lastCommitHash_def reconcileNeeded_def
      split: prod.splits io.splits option.splits)

lemma return_after_Inr:
  "return_after res c = (Inr res', cf', fs') \<longleftrightarrow> res' = res \<and> c = (Inr (), cf', fs')"
  by (auto simp: return_after_def split: prod.splits sum.splits)

lemma return_after_eq:
  "(Inr res', cf', fs') = return_after res c \<longleftrightarrow> res' = res \<and> c = (Inr (), cf', fs')"
  by (auto simp: return_after_def split: prod.splits sum.splits)

lemma return_after_state:
  "return_after res c = (r, cf', fs') \<Longrightarrow> \<exists>q. c = (q, cf', fs')"
  by (auto simp: return_after_def split: prod.splits sum.splits)

text \<open>One unfolding of the loop, by cases of what ends or continues it.\<close>

lemma reconcile_loop_cases:
  assumes "reconcile_loop fetch lims io since l res cf fs = out"
  obtains (bound) "pages res \<ge> maxPages lims \<or> changes res \<ge> maxChanges lims"
      "out = return_after (res\<lparr>paused := True\<rparr>) (flagReconcileNeeded io cf fs)"
  | (failed) e where "fetch (pages res) since = Inl e" "out = (Inl (FetchFailed e), cf, fs)"
  | (drift) p where "fetch (pages res) since = Inr p" "pages res < maxPages lims" "page_drifts l (page_changes p)"
      "out = return_after (res\<lparr>pages := pages res + 1, changes := changes res + length (page_changes p), drift := True\<rparr>)
        (flagReconcileNeeded io cf fs)"
  | (caught_up) p where "fetch (pages res) since = Inr p" "pages res < maxPages lims" "\<not> page_drifts l (page_changes p)" "\<not> hasMore p"
      "out = return_after (res\<lparr>pages := pages res + 1, changes := changes res + length (page_changes p)\<rparr>)
        (setBackend (next_seq l p) (page_hash p) io cf fs)"
  | (more) p where "fetch (pages res) since = Inr p" "pages res < maxPages lims" "\<not> page_drifts l (page_changes p)" "hasMore p"
      "out = reconcile_loop fetch lims io (Some (page_hash p)) (next_seq l p)
        (res\<lparr>pages := pages res + 1, changes := changes res + length (page_changes p)\<rparr>) cf fs"
      "changes res < maxChanges lims"
  using assms
  by (subst (asm) reconcile_loop.simps)
    (auto simp: next_seq_def Let_def not_less split: if_splits sum.splits)

lemma reconcile_loop_facts:
  "reconcile_loop fetch lims io since l res cf fs = (r, cf', fs') \<Longrightarrow> pages res \<le> maxPages lims
   \<Longrightarrow> localSeq (cf_state cf') = localSeq (cf_state cf)
      \<and> (\<forall>res'. r = Inr res' \<longrightarrow> pages res' \<le> maxPages lims \<and> pages res \<le> pages res')"
proof (induction "maxPages lims - pages res" arbitrary: since l res rule: less_induct)
  case less
  from less.prems(1) show ?case
  proof (cases rule: reconcile_loop_cases)
    case bound
    then show ?thesis
      using less.prems(2) return_after_state [OF bound(2) [symmetric]] flag_state(1) [of io cf fs _ cf' fs']
      by (auto simp: return_after_eq)
  next
    case (drift p)
    then show ?thesis
      using drift(2) return_after_state [OF drift(4) [symmetric]] flag_state(1) [of io cf fs _ cf' fs']
      by (auto simp: return_after_eq)
  next
    case (caught_up p)
    then show ?thesis
      using caught_up(2) return_after_state [OF caught_up(5) [symmetric]] setBackend_localSeq [of _ _ io cf fs _ cf' fs']
      by (auto simp: return_after_eq)
  next
    case (more p)
    show ?thesis
      using less.hyps [OF _ more(5) [symmetric]] more(2) by fastforce
  qed auto
qed

text \<open>
  A reconciliation pass is bounded and leaves the authoritative cursor alone: whatever
  the feed returns, the local cursor is the same afterwards, at most \<open>maxPages\<close> pages are
  read, and two feeds that agree on the first \<open>maxPages\<close> calls give the same pass.
\<close>
theorem reconcile_bounded:
  assumes "reconcile fetch lims io cf fs = (r, cf', fs')"
    and "\<forall>n < maxPages lims. fetch' n = fetch n"
  shows "localSeq (cf_state cf') = localSeq (cf_state cf)
    \<and> (\<forall>res. r = Inr res \<longrightarrow> pages res \<le> maxPages lims)
    \<and> reconcile fetch' lims io cf fs = (r, cf', fs')"
proof -
  have agree: "reconcile_loop fetch' lims io since l res cf fs = reconcile_loop fetch lims io since l res cf fs"
    for since l res
  proof (induction "maxPages lims - pages res" arbitrary: since l res rule: less_induct)
    case less
    then show ?case
      using assms(2)
      by (subst (1 2) reconcile_loop.simps) (auto simp: Let_def split: sum.split)
  qed
  show ?thesis
    using assms(1) agree reconcile_loop_facts [OF assms(1) [unfolded reconcile_def]]
    by (auto simp: reconcile_def empty_result_def)
qed

definition one_page :: feed where
  "one_page n since = Inr \<lparr>page_changes = [4, 5], page_hash = ''h2'', hasMore = False\<rparr>"

definition seen_3 :: CursorFile where
  "seen_3 = \<lparr>cf_state = [(''schemaVersion'', JNum 1), (''localSeq'', JNum 7), (''backendLastSeq'', JNum 3),
     (''lastCommitHash'', JStr ''h1'')], newerSchema = None\<rparr>"

lemma one_page_reconcile:
  "reconcile one_page DEFAULT_RECONCILE_LIMITS IoOk seen_3 None =
     (Inr \<lparr>pages = 1, changes = 2, drift = False, paused = False\<rparr>,
      seen_3\<lparr>cf_state := [(''schemaVersion'', JNum 1), (''localSeq'', JNum 7), (''backendLastSeq'', JNum 5),
        (''lastCommitHash'', JStr ''h2''), (''reconcileNeeded'', JBool False)]\<rparr>,
      Some (Some (JObj [(''schemaVersion'', JNum 1), (''localSeq'', JNum 7), (''backendLastSeq'', JNum 5),
        (''lastCommitHash'', JStr ''h2''), (''reconcileNeeded'', JBool False)])))"
  by (simp add: reconcile_def reconcile_loop.simps one_page_def seen_3_def empty_result_def DEFAULT_RECONCILE_LIMITS_def
      page_drifts_def backendLastSeq_def lastCommitHash_def state_num_def return_after_def setBackend_def put_defs)

theorem reconcile_bounded_witness:
  "localSeq (cf_state (fst (snd (reconcile one_page DEFAULT_RECONCILE_LIMITS IoOk seen_3 None)))) = localSeq (cf_state seen_3)"
  using reconcile_bounded [OF one_page_reconcile, of one_page] by (simp add: one_page_reconcile)

lemma reconcile_loop_adopts:
  "reconcile_loop fetch lims io since l res cf fs = (Inr res', cf', fs') \<Longrightarrow> \<not> drift res' \<Longrightarrow> \<not> paused res'
   \<Longrightarrow> \<exists>ps. ps \<noteq> [] \<and> length ps = pages res' - pages res \<and> page_chain fetch (pages res) since l ps
      \<and> setBackend (foldl next_seq l ps) (page_hash (last ps)) io cf fs = (Inr (), cf', fs') \<and> pages res < pages res'"
proof (induction "maxPages lims - pages res" arbitrary: since l res rule: less_induct)
  case less
  from less.prems(1) show ?case
  proof (cases rule: reconcile_loop_cases)
    case bound
    then show ?thesis using less.prems by (auto simp: return_after_eq)
  next
    case (drift p)
    then show ?thesis using less.prems by (auto simp: return_after_eq)
  next
    case (caught_up p)
    then show ?thesis by (intro exI [of _ "[p]"]) (auto simp: return_after_eq)
  next
    case (more p)
    let ?res = "res\<lparr>pages := pages res + 1, changes := changes res + length (page_changes p)\<rparr>"
    obtain ps where "ps \<noteq> []" "length ps = pages res' - pages ?res"
      "page_chain fetch (pages ?res) (Some (page_hash p)) (next_seq l p) ps"
      "setBackend (foldl next_seq (next_seq l p) ps) (page_hash (last ps)) io cf fs = (Inr (), cf', fs')"
      "pages ?res < pages res'"
      using less.hyps [OF _ more(5) [symmetric] less.prems(2,3)] more(2) by fastforce
    then show ?thesis using more by (intro exI [of _ "p # ps"]) auto
  qed auto
qed

text \<open>
  The backend cursor is only adopted when continuity was verified: a pass that reports
  neither drift nor a pause read an unbroken chain of pages, each starting past the last
  sequence number of the one before (right after it, once a cursor exists), the last one
  with no more to come; the cursor it adopted is the last number and hash of that chain, it
  is in the file, and the reconcile flag is cleared.
\<close>
theorem reconcile_adopts_verified:
  assumes "reconcile fetch lims io cf fs = (Inr res, cf', fs')" "\<not> drift res" "\<not> paused res"
  shows "\<exists>ps. ps \<noteq> [] \<and> length ps = pages res
    \<and> page_chain fetch 0 (lastCommitHash (cf_state cf)) (default_to 0 (backendLastSeq (cf_state cf))) ps
    \<and> backendLastSeq (cf_state cf') = Some (foldl next_seq (default_to 0 (backendLastSeq (cf_state cf))) ps)
    \<and> lastCommitHash (cf_state cf') = Some (page_hash (last ps))
    \<and> \<not> reconcileNeeded (cf_state cf') \<and> fs' = Some (Some (JObj (cf_state cf')))"
  using reconcile_loop_adopts [OF assms(1) [unfolded reconcile_def] assms(2,3)] setBackend_adopts
  by (auto simp: empty_result_def; blast)

theorem reconcile_adopts_verified_witness:
  "backendLastSeq (cf_state (fst (snd (reconcile one_page DEFAULT_RECONCILE_LIMITS IoOk seen_3 None)))) = Some 5
   \<and> (\<exists>ps. length ps = 1 \<and> page_chain one_page 0 (Some ''h1'') 3 ps)"
  using reconcile_adopts_verified [OF one_page_reconcile]
  by (auto simp: one_page_reconcile [unfolded seen_3_def] seen_3_def lastCommitHash_def backendLastSeq_def state_num_def)

section \<open>A paused pass\<close>

lemma flag_IoOk:
  "flagReconcileNeeded IoOk cf fs =
     (Inr (), cf\<lparr>cf_state := AList.update ''reconcileNeeded'' (JBool True) (cf_state cf)\<rparr>,
      Some (Some (JObj (AList.update ''reconcileNeeded'' (JBool True) (cf_state cf)))))"
  by (simp add: flag_frame)

lemma reconcile_loop_paused:
  "reconcile_loop fetch lims io since l res cf fs = (Inr res', cf', fs') \<Longrightarrow> paused res' \<Longrightarrow> \<not> paused res
   \<Longrightarrow> reconcile_loop fetch lims IoOk since l res cf2 fs2 = return_after res' (flagReconcileNeeded IoOk cf2 fs2)
      \<and> flagReconcileNeeded io cf fs = (Inr (), cf', fs')"
proof (induction "maxPages lims - pages res" arbitrary: since l res rule: less_induct)
  case less
  from less.prems(1) show ?case
  proof (cases rule: reconcile_loop_cases)
    case bound
    then show ?thesis
      by (subst reconcile_loop.simps) (auto simp: return_after_eq)
  next
    case (more p)
    let ?res = "res\<lparr>pages := pages res + 1, changes := changes res + length (page_changes p)\<rparr>"
    have "reconcile_loop fetch lims IoOk (Some (page_hash p)) (next_seq l p) ?res cf2 fs2
        = return_after res' (flagReconcileNeeded IoOk cf2 fs2) \<and> flagReconcileNeeded io cf fs = (Inr (), cf', fs')"
      using less.hyps [OF _ more(5) [symmetric] less.prems(2)] less.prems(3) more(2) by simp
    then show ?thesis
      using more by (subst reconcile_loop.simps) (auto simp: next_seq_def Let_def)
  qed (use less.prems in \<open>auto simp: return_after_eq\<close>)
qed

fun later_passes :: "nat \<Rightarrow> feed \<Rightarrow> ReconcileLimits \<Rightarrow> CursorFile \<Rightarrow> cursor_fs
    \<Rightarrow> (reconcile_error + ReconcileResult) \<times> CursorFile \<times> cursor_fs" where
  "later_passes 0 fetch lims cf fs = reconcile fetch lims IoOk cf fs"
| "later_passes (Suc n) fetch lims cf fs =
     (case reconcile fetch lims IoOk cf fs of (_, cf', fs') \<Rightarrow> later_passes n fetch lims cf' fs')"

lemma reconcile_paused_again:
  assumes "reconcile fetch lims io cf fs = (Inr res, cf', fs')" "paused res"
    and "lastCommitHash (cf_state cf2) = lastCommitHash (cf_state cf)"
      "backendLastSeq (cf_state cf2) = backendLastSeq (cf_state cf)"
  shows "reconcile fetch lims IoOk cf2 fs2 = return_after res (flagReconcileNeeded IoOk cf2 fs2)"
  using reconcile_loop_paused [OF assms(1) [unfolded reconcile_def] assms(2)] assms(3,4)
  by (simp add: reconcile_def empty_result_def)

lemma later_passes_paused:
  assumes "reconcile fetch lims io cf fs = (Inr res, cf', fs')" "paused res"
  shows "lastCommitHash (cf_state cf2) = lastCommitHash (cf_state cf) \<Longrightarrow>
      backendLastSeq (cf_state cf2) = backendLastSeq (cf_state cf) \<Longrightarrow>
    \<exists>cf3 fs3. later_passes n fetch lims cf2 fs2 = (Inr res, cf3, fs3)
      \<and> backendLastSeq (cf_state cf3) = backendLastSeq (cf_state cf)"
proof (induction n arbitrary: cf2 fs2)
  case 0
  then show ?case
    using reconcile_paused_again [OF assms 0] flag_state(2) [OF flag_IoOk]
    by (simp add: return_after_def flag_IoOk)
next
  case (Suc n)
  let ?cf = "cf2\<lparr>cf_state := AList.update ''reconcileNeeded'' (JBool True) (cf_state cf2)\<rparr>"
  have "lastCommitHash (cf_state ?cf) = lastCommitHash (cf_state cf)" "backendLastSeq (cf_state ?cf) = backendLastSeq (cf_state cf)"
    using Suc.prems flag_state(2,3) [OF flag_IoOk, of cf2] by simp_all
  then show ?case
    using reconcile_paused_again [OF assms Suc.prems] Suc.IH [of ?cf] by (simp add: return_after_def flag_IoOk)
qed

text \<open>
  A pass stopped by the bound makes no progress: over a feed that answers the same
  calls the same way, once a pass pauses every later pass, however many there are, reads
  the same pages and pauses again with the advisory cursor where it was, because the pause
  saves neither the hash nor the sequence number it reached. A feed longer than the bound
  is never caught up with.
\<close>
theorem paused_reconcile_makes_no_progress:
  assumes "reconcile fetch lims io cf fs = (Inr res, cf', fs')" "paused res"
  shows "\<exists>cf2 fs2. later_passes n fetch lims cf' fs' = (Inr res, cf2, fs2)
    \<and> backendLastSeq (cf_state cf2) = backendLastSeq (cf_state cf)"
proof -
  have "flagReconcileNeeded io cf fs = (Inr (), cf', fs')"
    using reconcile_loop_paused [OF assms(1) [unfolded reconcile_def] assms(2)] by (simp add: empty_result_def)
  then show ?thesis
    using later_passes_paused [OF assms, of cf' n fs'] flag_state(2,3) [of io cf fs] by simp
qed

definition long_feed :: feed where
  "long_feed n since = Inr \<lparr>page_changes = [int n + 1], page_hash = show_nat n, hasMore = n < 3\<rparr>"

definition fresh_cursor :: CursorFile where
  "fresh_cursor = \<lparr>cf_state = initial_state, newerSchema = None\<rparr>"

lemma long_feed_pauses:
  "reconcile long_feed \<lparr>maxPages = 2, maxChanges = 100\<rparr> IoOk fresh_cursor None =
     (Inr \<lparr>pages = 2, changes = 2, drift = False, paused = True\<rparr>,
      fresh_cursor\<lparr>cf_state := AList.update ''reconcileNeeded'' (JBool True) initial_state\<rparr>,
      Some (Some (JObj (AList.update ''reconcileNeeded'' (JBool True) initial_state))))"
  by (simp add: reconcile_def reconcile_loop.simps long_feed_def empty_result_def fresh_cursor_def initial_state_def
      page_drifts_def backendLastSeq_def lastCommitHash_def state_num_def return_after_def flag_frame)

theorem paused_reconcile_makes_no_progress_witness:
  "\<exists>cf2 fs2. later_passes 1000 long_feed \<lparr>maxPages = 2, maxChanges = 100\<rparr>
      (fresh_cursor\<lparr>cf_state := AList.update ''reconcileNeeded'' (JBool True) initial_state\<rparr>)
      (Some (Some (JObj (AList.update ''reconcileNeeded'' (JBool True) initial_state))))
     = (Inr \<lparr>pages = 2, changes = 2, drift = False, paused = True\<rparr>, cf2, fs2)"
  using paused_reconcile_makes_no_progress [OF long_feed_pauses, of 1000] by auto

section \<open>Newer files and failed saves\<close>

text \<open>
  A file of a newer schema version is refused by \<open>advanceLocalSeq\<close> and \<open>setBackend\<close>,
  which leave it as it is, but \<open>flagReconcileNeeded\<close> has no such guard: it rewrites the file,
  with the reconcile flag set, and returns.
\<close>
theorem flag_rewrites_newer_file:
  assumes "open_cursor io fs0 = (Inr cf, fs)" "newerSchema cf = Some v"
  shows "advanceLocalSeq sq io1 cf fs = (Inl (CursorReadOnly v), cf, fs)
    \<and> setBackend bs h io1 cf fs = (Inl (CursorReadOnly v), cf, fs)
    \<and> flagReconcileNeeded IoOk cf fs = (Inr (), cf, Some (Some (JObj (cf_state cf))))"
proof -
  obtain s where "cf_state cf = AList.update ''reconcileNeeded'' (JBool True) s"
    using assms
    by (cases io)
      (auto simp: open_cursor_def cursor_of_json_def put_defs split: option.splits json.splits if_splits)
  moreover have "AList.update k x (AList.update k x d) = AList.update k x d" for k :: string and x :: json and d
    by (induction d) auto
  ultimately have "AList.update ''reconcileNeeded'' (JBool True) (cf_state cf) = cf_state cf"
    by simp
  with assms(2) show ?thesis by (simp add: advanceLocalSeq_def setBackend_def flag_IoOk)
qed

theorem flag_rewrites_newer_file_witness:
  "flagReconcileNeeded IoOk
      \<lparr>cf_state = [(''schemaVersion'', JNum 2), (''localSeq'', JNum 4), (''reconcileNeeded'', JBool True)], newerSchema = Some 2\<rparr>
      (Some (Some (JObj [(''schemaVersion'', JNum 2), (''localSeq'', JNum 4)])))
   = (Inr (), \<lparr>cf_state = [(''schemaVersion'', JNum 2), (''localSeq'', JNum 4), (''reconcileNeeded'', JBool True)], newerSchema = Some 2\<rparr>,
      Some (Some (JObj [(''schemaVersion'', JNum 2), (''localSeq'', JNum 4), (''reconcileNeeded'', JBool True)])))"
proof -
  have o: "open_cursor IoOk (Some (Some (JObj [(''schemaVersion'', JNum 2), (''localSeq'', JNum 4)]))) =
    (Inr \<lparr>cf_state = [(''schemaVersion'', JNum 2), (''localSeq'', JNum 4), (''reconcileNeeded'', JBool True)], newerSchema = Some 2\<rparr>,
     Some (Some (JObj [(''schemaVersion'', JNum 2), (''localSeq'', JNum 4)])))"
    by (simp add: open_cursor_def cursor_of_json_def state_num_def is_safe_integer_def)
  show ?thesis using flag_rewrites_newer_file [OF o] by simp
qed

text \<open>
  A failed save of the authoritative cursor is not retried: when the save inside
  \<open>advanceLocalSeq\<close> fails the in-memory cursor has moved already, so calling it again with
  the same sequence number returns normally without writing, and the file still holds the
  old cursor.
\<close>
theorem failed_advance_is_not_retried:
  assumes "newerSchema cf = None" "localSeq (cf_state cf) < sq"
  shows "\<exists>cf1. advanceLocalSeq sq IoFailBefore cf fs = (Inl CursorIo, cf1, fs)
    \<and> advanceLocalSeq sq IoOk cf1 fs = (Inr (), cf1, fs)"
  using assms by (simp add: advanceLocalSeq_def put_defs)

theorem failed_advance_is_not_retried_witness:
  "\<exists>cf1. advanceLocalSeq 5 IoFailBefore fresh_cursor (Some (Some (JObj initial_state))) = (Inl CursorIo, cf1, Some (Some (JObj initial_state)))
     \<and> advanceLocalSeq 5 IoOk cf1 (Some (Some (JObj initial_state))) = (Inr (), cf1, Some (Some (JObj initial_state)))"
  using failed_advance_is_not_retried [of fresh_cursor 5 "Some (Some (JObj initial_state))"]
  by (simp add: fresh_cursor_def initial_state_def localSeq_def state_num_def)

end
