(* ===== verification/Frontmatter.thy ===== *)
theory Frontmatter
  imports Json
begin

text \<open>
  The text formats records are read from (src/backend/parse.ts): \<open>key: value\<close> lines and the
  frontmatter block of a markdown document. Also the string-to-number conversion
  \<open>Number(s)\<close> of JavaScript, which the readers apply to frontmatter values; its result is
  exact where the program's double would be rounded.
\<close>

section \<open>Number(s)\<close>

datatype js_num = NaN | Infinite bool | Fin rat

definition radix_digits :: "nat \<Rightarrow> string \<Rightarrow> js_num" where
  "radix_digits b s =
     (if s \<noteq> [] \<and> list_all (\<lambda>c. case hex_val c of None \<Rightarrow> False | Some d \<Rightarrow> d < b) s
      then Fin (of_nat (foldl (\<lambda>n c. b * n + default_to 0 (hex_val c)) 0 s))
      else NaN)"

text \<open>\<open>10 ^ e\<close> with the sign and the digits of an exponent part, when there is one.\<close>

definition exponent :: "string \<Rightarrow> rat option" where
  "exponent s =
     (case s of
        [] \<Rightarrow> Some 1
      | e # r \<Rightarrow>
          if e = CHR ''e'' \<or> e = CHR ''E'' then
            (let (neg, ds) = (case r of [] \<Rightarrow> (False, [])
               | c # r' \<Rightarrow> if c = CHR ''-'' then (True, r') else if c = CHR ''+'' then (False, r') else (False, r))
             in if ds \<noteq> [] \<and> list_all is_digit ds
                then Some (if neg then 1 / 10 ^ read_digits 0 ds else 10 ^ read_digits 0 ds)
                else None)
          else None)"

definition decimal :: "string \<Rightarrow> js_num" where
  "decimal s =
     (if s = ''Infinity'' then Infinite True
      else
        (let a = takeWhile is_digit s; r = dropWhile is_digit s;
             frac = (r \<noteq> [] \<and> hd r = CHR ''.'');
             b = (if frac then takeWhile is_digit (tl r) else []);
             r2 = (if frac then dropWhile is_digit (tl r) else r)
         in if a = [] \<and> b = [] then NaN
            else (case exponent r2 of
                    None \<Rightarrow> NaN
                  | Some k \<Rightarrow> Fin (of_nat (read_digits 0 (a @ b)) / 10 ^ length b * k))))"

fun js_neg :: "js_num \<Rightarrow> js_num" where
  "js_neg NaN = NaN" | "js_neg (Infinite p) = Infinite (\<not> p)" | "js_neg (Fin q) = Fin (- q)"

definition js_number :: "string \<Rightarrow> js_num" where
  "js_number s =
     (let t = trim s in
      case t of
        [] \<Rightarrow> Fin 0
      | c # r \<Rightarrow>
          if c = CHR ''+'' then decimal r
          else if c = CHR ''-'' then js_neg (decimal r)
          else if c = CHR ''0'' \<and> r \<noteq> [] \<and> hd r \<in> {CHR ''x'', CHR ''X''} then radix_digits 16 (tl r)
          else if c = CHR ''0'' \<and> r \<noteq> [] \<and> hd r \<in> {CHR ''o'', CHR ''O''} then radix_digits 8 (tl r)
          else if c = CHR ''0'' \<and> r \<noteq> [] \<and> hd r \<in> {CHR ''b'', CHR ''B''} then radix_digits 2 (tl r)
          else decimal t)"

fun js_integer :: "js_num \<Rightarrow> int option" where
  "js_integer (Fin q) = (if of_int \<lfloor>q\<rfloor> = q then Some \<lfloor>q\<rfloor> else None)"
| "js_integer _ = None"

lemma takeWhile_show_nat: "takeWhile is_digit (show_nat n) = show_nat n"
  by (simp add: takeWhile_eq_all_conv) (meson show_nat_digits)

lemma dropWhile_show_nat: "dropWhile is_digit (show_nat n) = []"
  by (simp add: dropWhile_eq_Nil_conv) (meson show_nat_digits)

lemma digit_not_space: "is_digit c \<Longrightarrow> \<not> is_space c"
  by (auto simp: is_digit_def is_space_def)

lemma trim_id:
  assumes "s \<noteq> []" "\<not> is_space (hd s)" "\<not> is_space (last s)"
  shows "trim s = s"
proof -
  have "dropWhile is_space s = s" using assms by (cases s) auto
  moreover have "dropWhile is_space (rev s) = rev s"
    using assms by (cases "rev s") (auto simp: hd_rev [symmetric])
  ultimately show ?thesis by (simp add: trim_def)
qed

lemma decimal_show_nat: "decimal (show_nat n) = Fin (of_nat n)"
proof -
  have "show_nat n \<noteq> ''Infinity''"
    using show_nat_digits [of "CHR ''I''" n] by (auto simp: is_digit_def)
  then show ?thesis
    by (simp add: decimal_def takeWhile_show_nat dropWhile_show_nat exponent_def read_show_nat)
qed

lemma show_nat_second:
  assumes "show_nat n = c # r" "r \<noteq> []"
  shows "is_digit (hd r)"
  using assms show_nat_digits [of "hd r" n] by simp

lemma js_number_show_nat: "js_number (show_nat n) = Fin (of_nat n)"
proof -
  obtain c r where s: "show_nat n = c # r" by (cases "show_nat n") auto
  have dc: "is_digit c" using show_nat_digits [of c n] s by simp
  have dl: "is_digit (last (show_nat n))" by (rule show_nat_digits [of _ n]) simp
  have t: "trim (show_nat n) = show_nat n"
    using dc dl s by (intro trim_id) (auto dest: digit_not_space)
  have "c \<noteq> CHR ''+''" "c \<noteq> CHR ''-''" using dc by (auto simp: is_digit_def)
  moreover have "r \<noteq> [] \<Longrightarrow> hd r \<notin> {CHR ''x'', CHR ''X''}" "r \<noteq> [] \<Longrightarrow> hd r \<notin> {CHR ''o'', CHR ''O''}"
    "r \<noteq> [] \<Longrightarrow> hd r \<notin> {CHR ''b'', CHR ''B''}"
    using show_nat_second [OF s] by (auto simp: is_digit_def)
  ultimately show ?thesis
    using decimal_show_nat [of n] s t by (auto simp: js_number_def Let_def)
qed

section \<open>Key and value lines\<close>

definition key_start :: "char \<Rightarrow> bool" where
  "key_start c = (is_lower c \<or> is_upper c \<or> c = CHR ''_'')"

definition key_char :: "char \<Rightarrow> bool" where
  "key_char c = (key_start c \<or> is_digit c \<or> c = CHR ''-'')"

text \<open>
  The match of \<open>/^([A-Za-z_][A-Za-z0-9_-]*):\s*(.*)$/\<close>: the greedy \<open>\s*\<close> takes all leading
  white space, and the dot excludes the line terminators (U+000D here).
\<close>

definition kv_line :: "string \<Rightarrow> (string \<times> string) option" where
  "kv_line line =
     (let k = takeWhile key_char line; r = dropWhile key_char line in
      if k \<noteq> [] \<and> key_start (hd k) \<and> r \<noteq> [] \<and> hd r = CHR '':''
      then (let v = dropWhile is_space (tl r)
            in if CHR 0x0D \<in> set v \<or> nl \<in> set v then None else Some (k, v))
      else None)"

definition parseKeyValueLines :: "string \<Rightarrow> string dict" where
  "parseKeyValueLines text =
     foldl (\<lambda>out line. case kv_line line of None \<Rightarrow> out | Some (k, v) \<Rightarrow> AList.update k v out)
       [] (split_on nl text)"

section \<open>Frontmatter\<close>

abbreviation fence :: string where "fence \<equiv> ''---''"

text \<open>The shortest prefix followed by a line break and three dashes, and what follows them.\<close>

fun until_fence :: "string \<Rightarrow> (string \<times> string) option" where
  "until_fence s =
     (if prefix (nl # fence) s then Some ([], drop 4 s)
      else (case s of [] \<Rightarrow> None | c # cs \<Rightarrow> map_option (\<lambda>(a, b). (c # a, b)) (until_fence cs)))"

declare until_fence.simps [simp del]

definition parseFrontmatter :: "string \<Rightarrow> string dict \<times> string" where
  "parseFrontmatter doc =
     (if prefix (fence @ [nl]) doc then
        (case until_fence (drop 4 doc) of
           None \<Rightarrow> ([], doc)
         | Some (fm, r) \<Rightarrow> (parseKeyValueLines fm, if r \<noteq> [] \<and> hd r = nl then tl r else r))
      else ([], doc))"

section \<open>Reading back what was printed\<close>

definition fm_value :: "string \<Rightarrow> bool" where
  "fm_value v = (nl \<notin> set v \<and> CHR 0x0D \<notin> set v \<and> (v = [] \<or> \<not> is_space (hd v)))"

definition fm_key :: "string \<Rightarrow> bool" where
  "fm_key k = (k \<noteq> [] \<and> key_start (hd k) \<and> list_all key_char k)"

lemma key_char_not: "key_char c \<Longrightarrow> c \<noteq> CHR '':'' \<and> c \<noteq> nl"
  by (auto simp: key_char_def key_start_def is_lower_def is_upper_def is_digit_def)

lemma fm_key_span:
  assumes "fm_key k"
  shows "takeWhile key_char (k @ CHR '':'' # r) = k" "dropWhile key_char (k @ CHR '':'' # r) = CHR '':'' # r"
proof -
  have "\<not> key_char (CHR '':'')" by (auto dest: key_char_not)
  then show "takeWhile key_char (k @ CHR '':'' # r) = k" "dropWhile key_char (k @ CHR '':'' # r) = CHR '':'' # r"
    using assms by (simp_all add: fm_key_def list_all_iff)
qed

lemma kv_line_print:
  assumes "fm_key k" "fm_value v"
  shows "kv_line (k @ '': '' @ v) = Some (k, v)"
proof -
  have "dropWhile is_space ('' '' @ v) = v"
    using assms(2) by (cases v) (auto simp: fm_value_def is_space_def)
  then show ?thesis
    using assms fm_key_span [OF assms(1), of "'' '' @ v"]
    by (auto simp: kv_line_def Let_def fm_key_def fm_value_def)
qed

lemma kv_line_Some:
  assumes "kv_line l = Some (k, v)"
  shows "fm_key k" "fm_value v"
proof -
  have "list_all key_char (takeWhile key_char l)" by (simp add: list_all_iff) (meson set_takeWhileD)
  moreover have "s = [] \<or> \<not> is_space (hd (dropWhile is_space s)) \<or> dropWhile is_space s = []" for s
    by (induction s) auto
  ultimately show "fm_key k" "fm_value v"
    using assms hd_dropWhile [of is_space]
    by (auto simp: kv_line_def fm_key_def fm_value_def Let_def split: if_splits)
qed

abbreviation fm_text :: "string \<times> string \<Rightarrow> string" where
  "fm_text kv \<equiv> fst kv @ '': '' @ snd kv"

lemma fm_text_no_nl: "fm_key (fst kv) \<Longrightarrow> fm_value (snd kv) \<Longrightarrow> nl \<notin> set (fm_text kv)"
  by (auto simp: fm_key_def fm_value_def list_all_iff dest: key_char_not)

lemma parse_fm_lines:
  assumes "kvs \<noteq> []" "\<forall>kv \<in> set kvs. fm_key (fst kv) \<and> fm_value (snd kv)" "distinct (map fst kvs)"
  shows "parseKeyValueLines (join_with [nl] (map fm_text kvs)) = kvs"
proof -
  have "split_on nl (join_with [nl] (map fm_text kvs)) = map fm_text kvs"
    using assms(1,2) fm_text_no_nl by (intro split_join) fastforce+
  moreover have "foldl (\<lambda>out line. case kv_line line of None \<Rightarrow> out | Some (k, v) \<Rightarrow> AList.update k v out)
      acc (map fm_text kvs) = acc @ kvs"
    if "\<forall>kv \<in> set kvs. fm_key (fst kv) \<and> fm_value (snd kv)" "distinct (map fst (acc @ kvs))" for acc kvs
    using that
  proof (induction kvs arbitrary: acc)
    case (Cons kv kvs)
    obtain k v where kv: "kv = (k, v)" by (cases kv)
    have "kv_line (fm_text kv) = Some (k, v)" using Cons.prems(1) kv kv_line_print [of k v] by simp
    moreover have "AList.update k v acc = acc @ [kv]"
      using Cons.prems(2) kv by (auto intro: AList_update_new)
    moreover have "distinct (map fst ((acc @ [kv]) @ kvs))" using Cons.prems(2) by simp
    ultimately show ?case using Cons.IH [of "acc @ [kv]"] Cons.prems(1) by simp
  qed simp
  ultimately show ?thesis using assms(2,3) by (simp add: parseKeyValueLines_def)
qed

lemma until_fence_first:
  assumes "\<forall>l \<in> set ls. nl \<notin> set l \<and> (l = [] \<or> hd l \<noteq> CHR ''-'')" "ls \<noteq> []"
  shows "until_fence (join_with [nl] ls @ nl # fence @ r) = Some (join_with [nl] ls, r)"
  using assms
proof (induction ls)
  case (Cons l ls)
  have step: "until_fence (p @ s) = map_option (\<lambda>(a, b). (p @ a, b)) (until_fence s)" if "nl \<notin> set p" for p s
    using that
  proof (induction p)
    case (Cons c p)
    then show ?case
      by (subst until_fence.simps) (auto simp: option.map_comp comp_def case_prod_beta prefix_def map_option_case split: option.splits)
  qed (simp add: case_prod_beta option.map_id0)
  show ?case
  proof (cases ls)
    case Nil
    then show ?thesis using Cons.prems step [of l "nl # fence @ r"] by (simp add: until_fence.simps [of "nl # _"])
  next
    case (Cons l' ls')
    let ?rest = "join_with [nl] (l' # ls') @ nl # fence @ r"
    have "\<not> prefix (nl # fence) (nl # ?rest)"
    proof (cases l')
      case Nil
      then show ?thesis by (cases ls') (auto simp: prefix_def)
    next
      case c: (Cons d l'')
      then have "d \<noteq> CHR ''-''" using Cons.prems Cons by auto
      then show ?thesis using c by (cases ls') auto
    qed
    then have "until_fence (nl # ?rest) = Some (nl # join_with [nl] (l' # ls'), r)"
      using Cons.IH Cons.prems Cons by (subst until_fence.simps) auto
    then show ?thesis using Cons.prems Cons step [of l "nl # ?rest"] by simp
  qed
qed simp

lemma parse_printed_frontmatter:
  assumes "kvs \<noteq> []" "\<forall>kv \<in> set kvs. fm_key (fst kv) \<and> fm_value (snd kv)" "distinct (map fst kvs)"
  shows "parseFrontmatter (fence @ nl # join_with [nl] (map fm_text kvs) @ nl # fence @ nl # body) = (kvs, body)"
proof -
  have "\<forall>l \<in> set (map fm_text kvs). nl \<notin> set l \<and> (l = [] \<or> hd l \<noteq> CHR ''-'')"
  proof
    fix l assume "l \<in> set (map fm_text kvs)"
    then obtain kv where kv: "kv \<in> set kvs" "l = fm_text kv" by auto
    then have "hd l = hd (fst kv)" "key_start (hd (fst kv))" using assms(2) by (auto simp: fm_key_def)
    then show "nl \<notin> set l \<and> (l = [] \<or> hd l \<noteq> CHR ''-'')"
      using kv assms(2) fm_text_no_nl by (auto simp: key_start_def is_lower_def is_upper_def)
  qed
  then have "until_fence (join_with [nl] (map fm_text kvs) @ nl # fence @ nl # body)
      = Some (join_with [nl] (map fm_text kvs), nl # body)"
    using assms(1) by (intro until_fence_first) auto
  then show ?thesis using parse_fm_lines [OF assms] by (simp add: parseFrontmatter_def)
qed

text \<open>What the reader returns is always a key the grammar admits with a printable value.\<close>

lemma AList_update_all:
  "\<forall>kv \<in> set d. P kv \<Longrightarrow> P (k, v) \<Longrightarrow> \<forall>kv \<in> set (AList.update k v d). P kv"
  by (induction d) auto

abbreviation kv_ok :: "string \<times> string \<Rightarrow> bool" where
  "kv_ok kv \<equiv> fm_key (fst kv) \<and> fm_value (snd kv)"

lemma kv_fold_wf:
  "\<forall>kv \<in> set acc. kv_ok kv \<Longrightarrow>
   \<forall>kv \<in> set (foldl (\<lambda>out line. case kv_line line of None \<Rightarrow> out | Some (k, v) \<Rightarrow> AList.update k v out) acc ls). kv_ok kv"
proof (induction ls arbitrary: acc)
  case (Cons l ls)
  let ?acc = "case kv_line l of None \<Rightarrow> acc | Some (k, v) \<Rightarrow> AList.update k v acc"
  have "\<forall>kv \<in> set ?acc. kv_ok kv"
  proof (cases "kv_line l")
    case (Some kv)
    then have "kv_ok (fst kv, snd kv)" using kv_line_Some [of l "fst kv" "snd kv"] by simp
    from AList_update_all [of acc kv_ok, OF Cons.prems this] Some show ?thesis
      by (simp add: case_prod_beta)
  qed (use Cons.prems in simp)
  from Cons.IH [OF this] show ?case by (simp only: foldl_Cons)
qed simp

lemma parseKeyValueLines_wf: "\<forall>kv \<in> set (parseKeyValueLines text). kv_ok kv"
  unfolding parseKeyValueLines_def by (rule kv_fold_wf) simp

lemma parseFrontmatter_value:
  assumes "map_of (fst (parseFrontmatter doc)) k = Some v"
  shows "fm_value v"
proof -
  have "fst (parseFrontmatter doc) = [] \<or> (\<exists>t. fst (parseFrontmatter doc) = parseKeyValueLines t)"
    by (auto simp: parseFrontmatter_def split: option.splits)
  then have "(k, v) \<in> set (fst (parseFrontmatter doc))" "\<exists>t. fst (parseFrontmatter doc) = parseKeyValueLines t"
    using assms by (auto dest: map_of_SomeD)
  then show ?thesis using parseKeyValueLines_wf by fastforce
qed

end
