(* ===== verification/Records.thy ===== *)
theory Records
  imports Frontmatter Paths
begin

text \<open>
  Stored records and local artifacts (src/domain/records.ts): the fail-safe readers of the
  markdown wire format and of the local JSON files, and the writer. The human-readable
  detail of a failure is left out, its reason is kept. \<open>Date.parse\<close> is an argument,
  \<open>None\<close> for \<open>NaN\<close>, because what it accepts besides the ISO format is left to the engine.
\<close>

definition SCHEMA_VERSION :: int where "SCHEMA_VERSION = 1"

datatype RecordType = TObservation | TReflection | TProposal | TBackupChunk | TBoardMessage

fun type_text :: "RecordType \<Rightarrow> string" where
  "type_text TObservation = ''observation''"
| "type_text TReflection = ''reflection''"
| "type_text TProposal = ''proposal''"
| "type_text TBackupChunk = ''backup-chunk''"
| "type_text TBoardMessage = ''board-message''"

definition RECORD_TYPES :: "RecordType list" where
  "RECORD_TYPES = [TObservation, TReflection, TProposal, TBackupChunk, TBoardMessage]"

datatype LifecycleStatus = Active | Superseded | PendingApproval

fun lifecycle_text :: "LifecycleStatus \<Rightarrow> string" where
  "lifecycle_text Active = ''active''"
| "lifecycle_text Superseded = ''superseded''"
| "lifecycle_text PendingApproval = ''pending-approval''"

definition STATUSES :: "LifecycleStatus list" where
  "STATUSES = [Active, Superseded, PendingApproval]"

record SourceRef =
  sessionId :: string
  branchId :: "string option"
  entryIds :: "string list"

record RecordFrontmatter =
  fm_schemaVersion :: int
  fm_id :: string
  fm_type :: RecordType
  fm_scope :: string
  fm_created :: string
  fm_sources :: "SourceRef list"
  fm_model :: "string option"
  fm_status :: LifecycleStatus
  fm_to :: "string option"
  fm_from :: "string option"
  fm_channel :: "string option"
  fm_ttl :: "string option"

record StoredRecord =
  frontmatter :: RecordFrontmatter
  body :: string

datatype fail_reason = RMalformed | RFutureVersion | RUnsupportedVersion

datatype RecordReadResult = ReadOk StoredRecord | ReadFail fail_reason

section \<open>Source references\<close>

fun json_str :: "json \<Rightarrow> string option" where
  "json_str (JStr s) = Some s" | "json_str _ = None"

fun str_field :: "json option \<Rightarrow> string option" where
  "str_field (Some (JStr s)) = Some s" | "str_field _ = None"

fun entry_list :: "json option \<Rightarrow> string list option" where
  "entry_list (Some (JArr es)) =
     (if list_ex (\<lambda>e. json_str e = None \<or> json_str e = Some '''') es then None
      else Some (map (\<lambda>e. default_to '''' (json_str e)) es))"
| "entry_list _ = None"

definition parse_source :: "json \<Rightarrow> SourceRef option" where
  "parse_source item =
     (case item of
        JObj ms \<Rightarrow>
          (case (str_field (map_of ms ''sessionId''), entry_list (map_of ms ''entryIds'')) of
             (Some sid, Some es) \<Rightarrow>
               if sid = '''' then None
               else Some \<lparr>sessionId = sid,
                 branchId = (case str_field (map_of ms ''branchId'') of
                               Some b \<Rightarrow> if b \<noteq> '''' then Some b else None
                             | None \<Rightarrow> None),
                 entryIds = es\<rparr>
           | _ \<Rightarrow> None)
      | _ \<Rightarrow> None)"

fun parse_sources :: "json list \<Rightarrow> SourceRef list option" where
  "parse_sources [] = Some []"
| "parse_sources (x # xs) =
     (case parse_source x of None \<Rightarrow> None
      | Some s \<Rightarrow> (case parse_sources xs of None \<Rightarrow> None | Some ss \<Rightarrow> Some (s # ss)))"

definition parseSourceRefs :: "string \<Rightarrow> SourceRef list option" where
  "parseSourceRefs raw =
     (case json_parse raw of Some (JArr items) \<Rightarrow> parse_sources items | _ \<Rightarrow> None)"

section \<open>Reading a record\<close>

definition type_of :: "string \<Rightarrow> RecordType option" where
  "type_of s = find (\<lambda>t. type_text t = s) RECORD_TYPES"

definition lifecycle_of :: "string \<Rightarrow> LifecycleStatus option" where
  "lifecycle_of s = find (\<lambda>t. lifecycle_text t = s) STATUSES"

text \<open>A required field: present and not the empty string.\<close>

definition required :: "string dict \<Rightarrow> string \<Rightarrow> string option" where
  "required fm k = (case map_of fm k of Some v \<Rightarrow> if v = '''' then None else Some v | None \<Rightarrow> None)"

text \<open>The fields after the version check.\<close>

definition read_fields :: "(string \<Rightarrow> ms option) \<Rightarrow> string dict \<Rightarrow> string \<Rightarrow> RecordReadResult" where
  "read_fields date_parse fm bd =
     (case (required fm ''id'', required fm ''type'', required fm ''scope'', required fm ''created'',
            required fm ''status'', required fm ''sources'') of
        (Some i, Some ty, Some sc, Some cr, Some stt, Some srcs) \<Rightarrow>
          (case type_of ty of None \<Rightarrow> ReadFail RMalformed
           | Some t \<Rightarrow>
          (case lifecycle_of stt of None \<Rightarrow> ReadFail RMalformed
           | Some st \<Rightarrow>
             if \<not> is_owner_scope sc then ReadFail RMalformed
             else if \<not> is_ok (validateId ty i) \<or> \<not> is_ok (check_scope sc) then ReadFail RMalformed
             else if date_parse cr = None then ReadFail RMalformed
             else (case parseSourceRefs srcs of None \<Rightarrow> ReadFail RMalformed
              | Some ss \<Rightarrow>
                  (let field = (\<lambda>k. if t = TBoardMessage then Some (default_to '''' (map_of fm k)) else None)
                   in ReadOk \<lparr>frontmatter = \<lparr>fm_schemaVersion = SCHEMA_VERSION, fm_id = i, fm_type = t, fm_scope = sc,
                     fm_created = cr, fm_sources = ss, fm_model = map_of fm ''model'', fm_status = st,
                     fm_to = field ''to'', fm_from = field ''from'', fm_channel = field ''channel'',
                     fm_ttl = field ''ttl''\<rparr>, body = bd\<rparr>))))
      | _ \<Rightarrow> ReadFail RMalformed)"

definition parseStoredRecord :: "(string \<Rightarrow> ms option) \<Rightarrow> string \<Rightarrow> RecordReadResult" where
  "parseStoredRecord date_parse doc =
     (case parseFrontmatter doc of (fm, bd) \<Rightarrow>
        (case map_of fm ''schemaVersion'' of
           None \<Rightarrow> ReadFail RMalformed
         | Some raw \<Rightarrow>
             (case js_integer (js_number raw) of
                None \<Rightarrow> ReadFail RMalformed
              | Some version \<Rightarrow>
                  if version < 1 then ReadFail RMalformed
                  else if version > SCHEMA_VERSION then ReadFail RFutureVersion
                  else if version \<noteq> SCHEMA_VERSION then ReadFail RUnsupportedVersion
                  else read_fields date_parse fm bd)))"

section \<open>Writing a record\<close>

datatype write_error = NewlineInValue string | NotWritable int

definition has_newline :: "string \<Rightarrow> bool" where
  "has_newline v = (nl \<in> set v \<or> CHR 0x0D \<in> set v)"

definition source_json :: "SourceRef \<Rightarrow> json" where
  "source_json s = JObj ([(''sessionId'', JStr (sessionId s))]
     @ (case branchId s of None \<Rightarrow> [] | Some b \<Rightarrow> [(''branchId'', JStr b)])
     @ [(''entryIds'', JArr (map JStr (entryIds s)))])"

definition fm_pairs :: "RecordFrontmatter \<Rightarrow> (string \<times> string) list" where
  "fm_pairs fm =
     [(''schemaVersion'', show_int (fm_schemaVersion fm)), (''id'', fm_id fm), (''type'', type_text (fm_type fm)),
      (''scope'', fm_scope fm), (''created'', fm_created fm),
      (''sources'', stringify (JArr (map source_json (fm_sources fm))))]
     @ (case fm_model fm of None \<Rightarrow> [] | Some m \<Rightarrow> [(''model'', m)])
     @ [(''status'', lifecycle_text (fm_status fm))]
     @ (if fm_type fm = TBoardMessage
        then [(''to'', default_to '''' (fm_to fm)), (''from'', default_to '''' (fm_from fm)),
              (''channel'', default_to '''' (fm_channel fm)), (''ttl'', default_to '''' (fm_ttl fm))]
        else [])"

definition fmLine :: "string \<times> string \<Rightarrow> write_error + string" where
  "fmLine kv = (if has_newline (snd kv) then Inl (NewlineInValue (fst kv)) else Inr (fm_text kv))"

text \<open>The lines in order; the first value with a line break throws.\<close>

fun fm_lines :: "(string \<times> string) list \<Rightarrow> write_error + string list" where
  "fm_lines [] = Inr []"
| "fm_lines (kv # kvs) =
     (case fmLine kv of Inl e \<Rightarrow> Inl e
      | Inr l \<Rightarrow> (case fm_lines kvs of Inl e \<Rightarrow> Inl e | Inr ls \<Rightarrow> Inr (l # ls)))"

definition serializeStoredRecord :: "StoredRecord \<Rightarrow> write_error + string" where
  "serializeStoredRecord r =
     (if fm_schemaVersion (frontmatter r) \<noteq> SCHEMA_VERSION
      then Inl (NotWritable (fm_schemaVersion (frontmatter r)))
      else (case fm_lines (fm_pairs (frontmatter r)) of
              Inl e \<Rightarrow> Inl e
            | Inr ls \<Rightarrow> Inr (fence @ nl # join_with [nl] ls @ nl # fence @ nl # body r)))"

section \<open>Local JSON artifacts\<close>

datatype artifact_kind = KTombstone | KCursor | KManifest

datatype LocalArtifact =
    TombstoneEntry (tomb_path: string) (tomb_status: string) (tomb_at: string) (tomb_reason: string)
  | ProcessingCursor (cur_session: string) (cur_entry: string) (cur_updated: string)
  | BackupManifest (man_project: string) (man_session: string) (man_range: json) (man_chunks: "json list")
      (man_redactions: json) (man_omissions: "json list") (man_created: string)

datatype LocalArtifactReadResult = ArtifactOk LocalArtifact | ArtifactFail fail_reason

text \<open>\<open>typeof v === "object" && v !== null\<close>, and \<open>Array.isArray(v)\<close>.\<close>

fun object_field :: "json option \<Rightarrow> json option" where
  "object_field (Some (JObj ms)) = Some (JObj ms)"
| "object_field (Some (JArr xs)) = Some (JArr xs)"
| "object_field _ = None"

fun array_field :: "json option \<Rightarrow> json list option" where
  "array_field (Some (JArr xs)) = Some xs" | "array_field _ = None"

definition read_artifact :: "artifact_kind \<Rightarrow> (string \<rightharpoonup> json) \<Rightarrow> LocalArtifactReadResult" where
  "read_artifact k obj =
     (case k of
        KTombstone \<Rightarrow>
          (case (str_field (obj ''path''), str_field (obj ''status''), str_field (obj ''supersededAt''), str_field (obj ''reason'')) of
             (Some p, Some st, Some ts, Some r) \<Rightarrow>
               if st \<noteq> ''superseded'' \<and> st \<noteq> ''deleted'' then ArtifactFail RMalformed
               else ArtifactOk (TombstoneEntry p st ts r)
           | _ \<Rightarrow> ArtifactFail RMalformed)
      | KCursor \<Rightarrow>
          (case (str_field (obj ''sessionId''), str_field (obj ''lastConsumedEntryId''), str_field (obj ''updatedAt'')) of
             (Some s, Some e, Some u) \<Rightarrow>
               if s = '''' then ArtifactFail RMalformed else ArtifactOk (ProcessingCursor s e u)
           | _ \<Rightarrow> ArtifactFail RMalformed)
      | KManifest \<Rightarrow>
          (case (str_field (obj ''projectId''), str_field (obj ''sessionId''), object_field (obj ''coveredRange''),
                 array_field (obj ''chunks''), object_field (obj ''redactionSummary''), array_field (obj ''omissions''),
                 str_field (obj ''createdAt'')) of
             (Some p, Some s, Some rg, Some ch, Some rs, Some om, Some cr) \<Rightarrow>
               if \<not> is_ok (validateProjectId p) then ArtifactFail RMalformed
               else ArtifactOk (BackupManifest p s rg ch rs om cr)
           | _ \<Rightarrow> ArtifactFail RMalformed))"

definition parseLocalArtifact :: "artifact_kind \<Rightarrow> string \<Rightarrow> LocalArtifactReadResult" where
  "parseLocalArtifact k text =
     (case json_parse text of
        Some (JObj ms) \<Rightarrow>
          (case map_of ms ''schemaVersion'' of
             Some (JNum version) \<Rightarrow>
               if version < 1 then ArtifactFail RMalformed
               else if version > SCHEMA_VERSION then ArtifactFail RFutureVersion
               else if version \<noteq> SCHEMA_VERSION then ArtifactFail RUnsupportedVersion
               else read_artifact k (map_of ms)
           | _ \<Rightarrow> ArtifactFail RMalformed)
      | _ \<Rightarrow> ArtifactFail RMalformed)"

section \<open>Facts about the readers\<close>

lemma find_inj_Some:
  assumes "inj f" "x \<in> set xs"
  shows "find (\<lambda>y. f y = f x) xs = Some x"
  using assms(2)
proof (induction xs)
  case (Cons y ys)
  then show ?case using assms(1) by (auto dest: injD)
qed simp

lemma type_text_inj: "inj type_text"
proof (rule injI)
  fix x y assume "type_text x = type_text y"
  then show "x = y" by (cases x; cases y) simp_all
qed

lemma lifecycle_text_inj: "inj lifecycle_text"
proof (rule injI)
  fix x y assume "lifecycle_text x = lifecycle_text y"
  then show "x = y" by (cases x; cases y) simp_all
qed

lemma type_of_text [simp]: "type_of (type_text t) = Some t"
  unfolding type_of_def by (rule find_inj_Some [OF type_text_inj]) (cases t; simp add: RECORD_TYPES_def)

lemma lifecycle_of_text [simp]: "lifecycle_of (lifecycle_text t) = Some t"
  unfolding lifecycle_of_def by (rule find_inj_Some [OF lifecycle_text_inj]) (cases t; simp add: STATUSES_def)

subsection \<open>Source references survive printing\<close>

definition source_wf :: "SourceRef \<Rightarrow> bool" where
  "source_wf s = (sessionId s \<noteq> '''' \<and> branchId s \<noteq> Some '''' \<and> (\<forall>e \<in> set (entryIds s). e \<noteq> ''''))"

lemma entry_list_print: "\<forall>e \<in> set es. e \<noteq> '''' \<Longrightarrow> entry_list (Some (JArr (map JStr es))) = Some es"
  by (induction es) (auto simp: list_ex_iff)

lemma parse_source_json: "source_wf s \<Longrightarrow> parse_source (source_json s) = Some s"
  using entry_list_print [of "entryIds s"]
  by (cases s) (auto simp: parse_source_def source_json_def source_wf_def split: option.split)

lemma parse_sources_json: "\<forall>s \<in> set ss. source_wf s \<Longrightarrow> parse_sources (map source_json ss) = Some ss"
  by (induction ss) (auto simp: parse_source_json)

lemma source_json_wf: "json_wf (source_json s)"
  by (auto simp: source_json_def split: option.split)

lemma parseSourceRefs_print:
  "\<forall>s \<in> set ss. source_wf s \<Longrightarrow> parseSourceRefs (stringify (JArr (map source_json ss))) = Some ss"
  using parse_stringify [of "JArr (map source_json ss)"]
  by (simp add: parseSourceRefs_def parse_sources_json source_json_wf del: stringify.simps)

lemma entry_list_wf: "entry_list v = Some es \<Longrightarrow> e \<in> set es \<Longrightarrow> e \<noteq> ''''"
  by (induction v rule: entry_list.induct)
    (fastforce simp: list_ex_iff default_to_def split: if_splits option.splits)+

lemma parse_source_wf: "parse_source item = Some s \<Longrightarrow> source_wf s"
  by (auto simp: parse_source_def source_wf_def dest!: entry_list_wf split: json.splits option.splits if_splits)

lemma parse_sources_wf: "parse_sources xs = Some ss \<Longrightarrow> s \<in> set ss \<Longrightarrow> source_wf s"
  by (induction xs arbitrary: ss) (auto split: option.splits dest: parse_source_wf)

lemma parseSourceRefs_wf: "parseSourceRefs raw = Some ss \<Longrightarrow> s \<in> set ss \<Longrightarrow> source_wf s"
  by (auto simp: parseSourceRefs_def split: option.splits json.splits dest: parse_sources_wf)

subsection \<open>Printed JSON is a frontmatter value\<close>

lemma esc_no_cr: "CHR 0x0D \<notin> set (esc c)"
  by (auto simp: esc_def hex_char_def) (auto dest!: arg_cong [where f = code] simp: of_char_of)

lemma quote_line: "c = nl \<or> c = CHR 0x0D \<Longrightarrow> c \<notin> set (quote s)"
  using esc_no_nl esc_no_cr by (auto simp: quote_def)

lemma join_with_line:
  "c \<notin> set sep \<Longrightarrow> \<forall>p \<in> set ps. c \<notin> set p \<Longrightarrow> c \<notin> set (join_with sep ps)"
  using set_join_with [of sep ps] by auto

lemma source_json_line:
  assumes "c = nl \<or> c = CHR 0x0D"
  shows "c \<notin> set (stringify (source_json s))"
proof -
  have q: "c \<notin> set (quote t)" for t by (rule quote_line [OF assms])
  have "c \<notin> set (join_with '','' (map (\<lambda>e. quote e) (entryIds s)))"
    using assms q by (intro join_with_line) auto
  then show ?thesis
    using assms q by (cases "branchId s") (auto simp: source_json_def comp_def)
qed

lemma sources_value: "fm_value (stringify (JArr (map source_json ss)))"
proof -
  have "c \<notin> set (join_with '','' (map stringify (map source_json ss)))" if "c = nl \<or> c = CHR 0x0D" for c
    using that source_json_line [OF that] by (intro join_with_line) auto
  then show ?thesis by (auto simp: fm_value_def is_space_def)
qed

section \<open>Well-formed records\<close>

definition opt_value :: "string option \<Rightarrow> bool" where
  "opt_value v = (case v of None \<Rightarrow> True | Some x \<Rightarrow> fm_value x)"

definition record_wf :: "(string \<Rightarrow> ms option) \<Rightarrow> StoredRecord \<Rightarrow> bool" where
  "record_wf date_parse r =
     (let fm = frontmatter r in
      fm_schemaVersion fm = SCHEMA_VERSION \<and> ID_GRAMMAR (fm_id fm)
      \<and> check_scope (fm_scope fm) = Inr () \<and> fm_value (fm_scope fm)
      \<and> fm_value (fm_created fm) \<and> fm_created fm \<noteq> '''' \<and> date_parse (fm_created fm) \<noteq> None
      \<and> (\<forall>s \<in> set (fm_sources fm). source_wf s) \<and> opt_value (fm_model fm)
      \<and> (\<forall>f \<in> {fm_to fm, fm_from fm, fm_channel fm, fm_ttl fm}.
           opt_value f \<and> (f \<noteq> None \<longleftrightarrow> fm_type fm = TBoardMessage)))"

lemma record_wfD:
  assumes "record_wf date_parse r" "fm = frontmatter r"
  shows "fm_schemaVersion fm = 1" "ID_GRAMMAR (fm_id fm)" "check_scope (fm_scope fm) = Inr ()"
    "fm_value (fm_scope fm)" "fm_value (fm_created fm)" "fm_created fm \<noteq> ''''"
    "\<exists>t. date_parse (fm_created fm) = Some t" "\<forall>s \<in> set (fm_sources fm). source_wf s" "opt_value (fm_model fm)"
    "opt_value (fm_to fm)" "opt_value (fm_from fm)" "opt_value (fm_channel fm)" "opt_value (fm_ttl fm)"
    "fm_to fm \<noteq> None \<longleftrightarrow> fm_type fm = TBoardMessage" "fm_from fm \<noteq> None \<longleftrightarrow> fm_type fm = TBoardMessage"
    "fm_channel fm \<noteq> None \<longleftrightarrow> fm_type fm = TBoardMessage" "fm_ttl fm \<noteq> None \<longleftrightarrow> fm_type fm = TBoardMessage"
  using assms by (auto simp: record_wf_def Let_def SCHEMA_VERSION_def)

lemma fm_lines_ok:
  "\<forall>kv \<in> set kvs. fm_value (snd kv) \<Longrightarrow> fm_lines kvs = Inr (map fm_text kvs)"
  by (induction kvs) (auto simp: fmLine_def has_newline_def fm_value_def)

lemma const_value:
  "fm_value (type_text t)" "fm_value (lifecycle_text st)" "fm_value (show_int 1)" "fm_value ''''"
     apply (cases t; simp add: fm_value_def is_space_def)
    apply (cases st; simp add: fm_value_def is_space_def)
  by (simp_all add: fm_value_def is_space_def show_int_def show_nat.simps)

lemma const_not_empty [simp]: "type_text t \<noteq> []" "lifecycle_text st \<noteq> []"
  by (cases t; simp) (cases st; simp)

lemma id_value: "ID_GRAMMAR i \<Longrightarrow> fm_value i \<and> i \<noteq> ''''"
proof -
  assume g: "ID_GRAMMAR i"
  have "c \<in> set i \<Longrightarrow> c \<noteq> nl \<and> c \<noteq> CHR 0x0D \<and> \<not> is_space c" for c
    using ID_GRAMMAR_chars [OF g, of c] by (auto simp: id_char_def is_lower_def is_digit_def is_space_def)
  moreover have "i \<noteq> []" using ID_GRAMMAR_safe(1) [OF g] .
  ultimately show ?thesis by (cases i) (auto simp: fm_value_def)
qed

lemma fm_pairs_wf:
  assumes "record_wf date_parse r"
  shows "\<forall>kv \<in> set (fm_pairs (frontmatter r)). fm_key (fst kv) \<and> fm_value (snd kv)"
    "distinct (map fst (fm_pairs (frontmatter r)))" "fm_pairs (frontmatter r) \<noteq> []"
proof -
  have dv: "opt_value v \<Longrightarrow> fm_value (default_to '''' v)" for v
    by (cases v) (auto simp: opt_value_def const_value)
  note wf = record_wfD [OF assms refl]
  show "\<forall>kv \<in> set (fm_pairs (frontmatter r)). fm_key (fst kv) \<and> fm_value (snd kv)"
    using wf id_value [OF wf(2)] sources_value [of "fm_sources (frontmatter r)"]
    by (auto simp: fm_pairs_def fm_key_def key_char_def key_start_def is_lower_def is_upper_def const_value dv
        opt_value_def simp del: stringify.simps split: option.splits)
  show "distinct (map fst (fm_pairs (frontmatter r)))" "fm_pairs (frontmatter r) \<noteq> []"
    by (auto simp: fm_pairs_def split: option.splits)
qed

lemma check_scope_owner: "check_scope sc = Inr () \<Longrightarrow> is_owner_scope sc \<and> sc \<noteq> ''''"
  by (auto simp: check_scope_def is_owner_scope_def split: if_splits)

lemma fm_pairs_lookup:
  assumes "record_wf date_parse r" "fm = frontmatter r"
  shows "map_of (fm_pairs fm) ''schemaVersion'' = Some (show_int 1)" "map_of (fm_pairs fm) ''id'' = Some (fm_id fm)"
    "map_of (fm_pairs fm) ''type'' = Some (type_text (fm_type fm))" "map_of (fm_pairs fm) ''scope'' = Some (fm_scope fm)"
    "map_of (fm_pairs fm) ''created'' = Some (fm_created fm)"
    "map_of (fm_pairs fm) ''sources'' = Some (stringify (JArr (map source_json (fm_sources fm))))"
    "map_of (fm_pairs fm) ''model'' = fm_model fm" "map_of (fm_pairs fm) ''status'' = Some (lifecycle_text (fm_status fm))"
    "fm_type fm = TBoardMessage \<Longrightarrow> map_of (fm_pairs fm) ''to'' = Some (default_to '''' (fm_to fm))"
    "fm_type fm = TBoardMessage \<Longrightarrow> map_of (fm_pairs fm) ''from'' = Some (default_to '''' (fm_from fm))"
    "fm_type fm = TBoardMessage \<Longrightarrow> map_of (fm_pairs fm) ''channel'' = Some (default_to '''' (fm_channel fm))"
    "fm_type fm = TBoardMessage \<Longrightarrow> map_of (fm_pairs fm) ''ttl'' = Some (default_to '''' (fm_ttl fm))"
  using record_wfD(1) [OF assms]
  by (auto simp: fm_pairs_def simp del: stringify.simps split: option.split)

lemma read_fields_print:
  assumes wf: "record_wf date_parse r"
  shows "read_fields date_parse (fm_pairs (frontmatter r)) (body r) = ReadOk r"
proof -
  define fm where "fm = frontmatter r"
  note w = record_wfD [OF wf fm_def] and look = fm_pairs_lookup [OF wf fm_def]
  have ne: "fm_id fm \<noteq> ''''" "fm_scope fm \<noteq> ''''" "type_text (fm_type fm) \<noteq> ''''" "lifecycle_text (fm_status fm) \<noteq> ''''"
    "is_owner_scope (fm_scope fm)"
    using id_value [OF w(2)] check_scope_owner [OF w(3)] by auto
  have src: "stringify (JArr (map source_json (fm_sources fm))) \<noteq> ''''" by simp
  have opt: "(if fm_type fm = TBoardMessage then Some (default_to '''' (Some (default_to '''' v))) else None) = v"
    if "v \<noteq> None \<longleftrightarrow> fm_type fm = TBoardMessage" for v
    using that by (cases v) auto
  have r: "r = \<lparr>frontmatter = fm, body = body r\<rparr>" by (simp add: fm_def)
  have fm: "fm = \<lparr>fm_schemaVersion = SCHEMA_VERSION, fm_id = fm_id fm, fm_type = fm_type fm, fm_scope = fm_scope fm,
      fm_created = fm_created fm, fm_sources = fm_sources fm, fm_model = fm_model fm, fm_status = fm_status fm,
      fm_to = fm_to fm, fm_from = fm_from fm, fm_channel = fm_channel fm, fm_ttl = fm_ttl fm\<rparr>"
    using w(1) by (simp add: SCHEMA_VERSION_def)
  have "read_fields date_parse (fm_pairs fm) (body r) = ReadOk \<lparr>frontmatter = fm, body = body r\<rparr>"
    using ne src w look opt [of "fm_to fm"] opt [of "fm_from fm"] opt [of "fm_channel fm"] opt [of "fm_ttl fm"]
    by (subst (2) fm)
      (auto simp: read_fields_def required_def parseSourceRefs_print validateId_def Let_def simp del: stringify.simps)
  then show ?thesis using r by (simp add: fm_def)
qed

lemma print_read_record:
  assumes "record_wf date_parse r"
  shows "\<exists>doc. serializeStoredRecord r = Inr doc \<and> parseStoredRecord date_parse doc = ReadOk r"
proof -
  have "serializeStoredRecord r
      = Inr (fence @ nl # join_with [nl] (map fm_text (fm_pairs (frontmatter r))) @ nl # fence @ nl # body r)"
    using fm_pairs_wf(1) [OF assms] record_wfD(1) [OF assms refl]
    by (simp add: serializeStoredRecord_def SCHEMA_VERSION_def fm_lines_ok)
  moreover have "js_integer (js_number (show_int 1)) = Some 1"
    using js_number_show_nat [of 1] by (simp add: show_int_def)
  then have "parseStoredRecord date_parse
      (fence @ nl # join_with [nl] (map fm_text (fm_pairs (frontmatter r))) @ nl # fence @ nl # body r) = ReadOk r"
    using parse_printed_frontmatter [OF fm_pairs_wf(3,1,2) [OF assms], of "body r"]
      read_fields_print [OF assms] fm_pairs_lookup(1) [OF assms refl]
    by (simp add: parseStoredRecord_def SCHEMA_VERSION_def)
  ultimately show ?thesis by blast
qed


definition any_date :: "string \<Rightarrow> ms option" where
  "any_date s = (if s = ''2026-01-02T03:04:05.000Z'' then Some 1767323045000 else None)"

definition example_record :: StoredRecord where
  "example_record = \<lparr>frontmatter = \<lparr>fm_schemaVersion = 1, fm_id = ''abc'', fm_type = TBoardMessage, fm_scope = ''personal'',
     fm_created = ''2026-01-02T03:04:05.000Z'',
     fm_sources = [\<lparr>sessionId = ''s1'', branchId = None, entryIds = [''e1'', ''e2'']\<rparr>],
     fm_model = None, fm_status = Active, fm_to = Some ''bob'', fm_from = Some ''ann'', fm_channel = Some ''dev'', fm_ttl = Some ''''\<rparr>,
     body = [CHR ''-'', CHR ''-'', CHR ''-'', nl, CHR ''x'']\<rparr>"

lemma example_record_wf: "record_wf any_date example_record"
  by (simp add: record_wf_def Let_def example_record_def any_date_def SCHEMA_VERSION_def ID_GRAMMAR_def id_char_def
      is_lower_def is_digit_def check_scope_def is_owner_scope_def fm_value_def is_space_def source_wf_def opt_value_def)


section \<open>The reader accepts only well-formed records\<close>

lemma find_text_Some: "find (\<lambda>t. f t = s) xs = Some t \<Longrightarrow> f t = s"
  by (auto simp: find_Some_iff)

lemma required_value: "required fm k = Some v \<Longrightarrow> map_of fm k = Some v \<and> v \<noteq> ''''"
  by (auto simp: required_def split: option.splits if_splits)

lemma read_fields_ok:
  assumes "read_fields date_parse fm bd = ReadOk r" and val: "\<And>k v. map_of fm k = Some v \<Longrightarrow> fm_value v"
  shows "record_wf date_parse r"
proof -
  have opt: "opt_value (map_of fm k)" "opt_value (Some (default_to '''' (map_of fm k)))" for k
    using val [of k] by (cases "map_of fm k"; simp add: opt_value_def const_value)+
  have ok: "is_ok (check_scope sc) \<longleftrightarrow> check_scope sc = Inr ()" for sc
    by (cases "check_scope sc") auto
  from assms(1) obtain i ty sc cr stt srcs t st ss where
      req: "required fm ''id'' = Some i" "required fm ''scope'' = Some sc" "required fm ''created'' = Some cr"
    and valid: "is_ok (validateId ty i)" "is_ok (check_scope sc)" "date_parse cr \<noteq> None" "parseSourceRefs srcs = Some ss"
    and r: "frontmatter r = \<lparr>fm_schemaVersion = SCHEMA_VERSION, fm_id = i, fm_type = t, fm_scope = sc, fm_created = cr,
        fm_sources = ss, fm_model = map_of fm ''model'', fm_status = st,
        fm_to = (if t = TBoardMessage then Some (default_to '''' (map_of fm ''to'')) else None),
        fm_from = (if t = TBoardMessage then Some (default_to '''' (map_of fm ''from'')) else None),
        fm_channel = (if t = TBoardMessage then Some (default_to '''' (map_of fm ''channel'')) else None),
        fm_ttl = (if t = TBoardMessage then Some (default_to '''' (map_of fm ''ttl'')) else None)\<rparr>"
    by (auto simp: read_fields_def Let_def split: option.splits if_splits)
  then show ?thesis
    using req [THEN required_value] val opt parseSourceRefs_wf [OF valid(4)]
    by (auto simp: record_wf_def ok is_ok_iff validateId_Inr opt_value_def)
qed



text \<open>
  Newer data fails safe: a record or a local artifact whose schema version is a greater
  integer is reported as a future version, whatever its other fields hold, and a record that
  carries such a version is refused by the writer.
\<close>
theorem future_version_fails_safe:
  assumes "1 < v"
    and "map_of (fst (parseFrontmatter doc)) ''schemaVersion'' = Some raw" "js_number raw = Fin (of_int v)"
    and "json_parse text = Some (JObj ms)" "map_of ms ''schemaVersion'' = Some (JNum v)"
  shows "parseStoredRecord date_parse doc = ReadFail RFutureVersion
    \<and> parseLocalArtifact k text = ArtifactFail RFutureVersion
    \<and> (fm_schemaVersion (frontmatter r) = v \<longrightarrow> serializeStoredRecord r = Inl (NotWritable v))"
  using assms
  by (auto simp: parseStoredRecord_def parseLocalArtifact_def serializeStoredRecord_def SCHEMA_VERSION_def split: prod.split)

theorem future_version_fails_safe_witness:
  "parseStoredRecord any_date (fence @ nl # ''schemaVersion: 2'' @ nl # fence @ nl # ''x'') = ReadFail RFutureVersion"
proof -
  have p: "parseFrontmatter (fence @ nl # join_with [nl] (map fm_text [(''schemaVersion'', ''2'')]) @ nl # fence @ nl # ''x'')
      = ([(''schemaVersion'', ''2'')], ''x'')"
    by (rule parse_printed_frontmatter)
      (auto simp: fm_key_def fm_value_def key_char_def key_start_def is_lower_def is_upper_def is_space_def)
  have n: "js_number ''2'' = Fin (of_int 2)"
    using js_number_show_nat [of 2] by (simp add: show_nat.simps)
  have j: "json_parse (stringify (JObj [(''schemaVersion'', JNum 2)])) = Some (JObj [(''schemaVersion'', JNum 2)])"
    by (rule parse_stringify) simp
  have m: "map_of (fst (parseFrontmatter (fence @ nl # ''schemaVersion: 2'' @ nl # fence @ nl # ''x''))) ''schemaVersion'' = Some ''2''"
    using p by simp
  show ?thesis
    by (rule conjunct1 [OF future_version_fails_safe [OF _ m n j]]) simp_all
qed

end
