(* ===== verification/Idempotency.thy ===== *)
theory Idempotency
  imports Records OutboxStore
begin

text \<open>
  Deterministic identities: canonical JSON, idempotency keys and record ids
  (src/domain/idempotency.ts), message ids and paths (src/backend/ids.ts) and the in-memory
  operation-id ledger (src/backend/opid.ts). SHA-256 (node:crypto) is an argument, the
  function from a text to its lower-case hex digest; what the lemmas show is that the texts
  that are hashed determine what they identify, so two different identities can only meet
  in a collision of the hash.
\<close>

section \<open>Canonical JSON\<close>

fun canonicalJson :: "json \<Rightarrow> string" where
  "canonicalJson (JArr xs) = ''['' @ join_with '','' (map canonicalJson xs) @ '']''"
| "canonicalJson (JObj ms) =
     ''{'' @ join_with '','' (map (\<lambda>(k, t). quote k @ '':'' @ t)
       (sort_key fst (map (\<lambda>(k, v). (k, canonicalJson v)) ms))) @ ''}''"
| "canonicalJson v = stringify v"

fun sort_json :: "json \<Rightarrow> json" where
  "sort_json (JArr xs) = JArr (map sort_json xs)"
| "sort_json (JObj ms) = JObj (sort_key fst (map (\<lambda>(k, v). (k, sort_json v)) ms))"
| "sort_json v = v"

lemma insort_key_map_snd:
  "map (\<lambda>(k, v). (k, f v)) (insort_key fst kv al) = insort_key fst (fst kv, f (snd kv)) (map (\<lambda>(k, v). (k, f v)) al)"
  by (induction al) (auto simp: case_prod_beta)

lemma sort_key_map_snd:
  "sort_key fst (map (\<lambda>(k, v). (k, f v)) al) = map (\<lambda>(k, v). (k, f v)) (sort_key fst al)"
  by (induction al) (auto simp: insort_key_map_snd)

lemma canonicalJson_sort: "canonicalJson v = stringify (sort_json v)"
proof (induction v rule: canonicalJson.induct)
  case (1 xs)
  then have "map canonicalJson xs = map (stringify \<circ> sort_json) xs" by (intro map_cong) auto
  then show ?case by (simp only: canonicalJson.simps sort_json.simps stringify.simps map_map)
next
  case (2 ms)
  then have "map (\<lambda>(k, v). (k, canonicalJson v)) ms = map (\<lambda>(k, v). (k, stringify v)) (map (\<lambda>(k, v). (k, sort_json v)) ms)"
    by auto
  then show ?case by (simp only: canonicalJson.simps sort_json.simps stringify.simps sort_key_map_snd)
    (simp add: comp_def case_prod_beta)
qed simp_all

lemma sort_json_wf: "json_wf v \<Longrightarrow> json_wf (sort_json v)"
proof (induction v rule: json_wf.induct)
  case (2 ms)
  have fst: "map fst (map (\<lambda>(k, v). (k, sort_json v)) ms) = map fst ms" by auto
  have "distinct (map fst (sort_key fst (map (\<lambda>(k, v). (k, sort_json v)) ms)))
    \<longleftrightarrow> distinct (map fst (map (\<lambda>(k, v). (k, sort_json v)) ms))"
    by (simp only: distinct_map distinct_sort set_sort)
  then have "distinct (map fst (sort_key fst (map (\<lambda>(k, v). (k, sort_json v)) ms)))" using 2(2) fst by (simp del: map_map)
  then show ?case using 2 by auto
qed auto

lemma canonicalJson_eq:
  "json_wf v \<Longrightarrow> json_wf w \<Longrightarrow> canonicalJson v = canonicalJson w \<longleftrightarrow> sort_json v = sort_json w"
  by (simp add: canonicalJson_sort stringify_inj sort_json_wf)

lemma sort_json_lookup:
  assumes "sort_json (JObj ms) = sort_json (JObj ns)" "distinct (map fst ms)" "distinct (map fst ns)"
  shows "map_option sort_json (map_of ms k) = map_option sort_json (map_of ns k)"
proof -
  let ?s = "\<lambda>ms. map (\<lambda>(k, v). (k, sort_json v)) ms"
  have m: "map_of (sort_key fst (?s ms)) k = map_option sort_json (map_of ms k)"
    if "distinct (map fst ms)" for ms :: "(string \<times> json) list"
  proof -
    have d: "distinct (map fst (?s ms))" using that by (simp add: comp_def case_prod_beta)
    then have "map_of (sort_key fst (?s ms)) = map_of (?s ms)"
      by (intro map_of_inject_set [THEN iffD2]) (simp_all only: distinct_map distinct_sort set_sort)
    then show ?thesis by (simp add: map_of_map)
  qed
  show ?thesis using m [OF assms(2)] m [OF assms(3)] assms(1) by simp
qed

section \<open>Keys and identifiers\<close>

record IdempotencyInput =
  id_kind :: IdempotentKind
  id_scope :: string
  id_sources :: "SourceRef list"
  id_channel :: "string option"
  id_tokens :: "string list option"

definition idempotency_payload :: "IdempotencyInput \<Rightarrow> json" where
  "idempotency_payload inp = JObj (
     [(''kind'', JStr (kind_text (id_kind inp))), (''scope'', JStr (id_scope inp))]
     @ opt_member ''channel'' (map_option JStr (id_channel inp))
     @ opt_member ''tokens'' (map_option (\<lambda>ts. JArr (map JStr ts)) (id_tokens inp))
     @ [(''sources'', JArr (map source_json (id_sources inp)))])"

definition idempotencyKey :: "(string \<Rightarrow> string) \<Rightarrow> IdempotencyInput \<Rightarrow> string" where
  "idempotencyKey sha256 inp = take 32 (sha256 (canonicalJson (idempotency_payload inp)))"

definition opid_ok :: "string \<Rightarrow> bool" where
  "opid_ok s = (length s = 36 \<and> list_all (\<lambda>c. is_hex c \<or> c = CHR ''-'') s)"

definition deriveRecordId :: "(string \<Rightarrow> string) \<Rightarrow> IdempotentKind \<Rightarrow> string \<Rightarrow> string option" where
  "deriveRecordId sha256 k op =
     (if \<not> opid_ok op then None else Some (take 16 (sha256 (kind_text k @ ''/'' @ op))))"

definition MSG_ID_HEX_CHARS :: nat where "MSG_ID_HEX_CHARS = 16"

definition deriveMsgId :: "(string \<Rightarrow> string) \<Rightarrow> string \<Rightarrow> string \<Rightarrow> string \<Rightarrow> string" where
  "deriveMsgId sha256 channel from op = take MSG_ID_HEX_CHARS (sha256 (channel @ ''/'' @ from @ ''/'' @ op))"

definition deriveMsgPath :: "(string \<Rightarrow> string) \<Rightarrow> string \<Rightarrow> string \<Rightarrow> string \<Rightarrow> string" where
  "deriveMsgPath sha256 channel from op =
     ''board/'' @ channel @ ''/'' @ deriveMsgId sha256 channel from op @ ''.md''"

section \<open>The operation-id ledger\<close>

type_synonym OpIdLedger = "string list"

definition ledger_record :: "string \<Rightarrow> OpIdLedger \<Rightarrow> OpIdLedger" where
  "ledger_record op l = List.insert op l"

definition ledger_assertPersisted :: "OpIdLedger \<Rightarrow> string \<Rightarrow> exn option" where
  "ledger_assertPersisted l op = (if op \<notin> set l then Some (Backend OpIdNotPersistedError) else None)"

section \<open>The hashed texts determine what they identify\<close>

lemma source_json_inj: "source_json s = source_json t \<longleftrightarrow> s = t"
  by (cases s; cases t) (auto simp: source_json_def inj_map_eq_map inj_def split: option.splits)

lemma sort_source_json: "sort_json (source_json s) = sort_json (source_json t) \<longleftrightarrow> s = t"
proof
  assume eq: "sort_json (source_json s) = sort_json (source_json t)"
  obtain ms ns where m: "source_json s = JObj ms" "source_json t = JObj ns" by (auto simp: source_json_def)
  have d: "distinct (map fst ms)" "distinct (map fst ns)"
    using m source_json_wf [of s] source_json_wf [of t] by simp_all
  note look = sort_json_lookup [OF eq [unfolded m] d]
  have ent: "map_option sort_json (map_of ms ''entryIds'') = map_option sort_json (map_of ns ''entryIds'')"
    "map_option sort_json (map_of ms ''sessionId'') = map_option sort_json (map_of ns ''sessionId'')"
    "map_option sort_json (map_of ms ''branchId'') = map_option sort_json (map_of ns ''branchId'')"
    by (rule look)+
  have "map (sort_json \<circ> JStr) es = map JStr es" for es by simp
  then show "s = t"
    using m ent by (cases s; cases t) (auto simp: source_json_def inj_map_eq_map inj_def comp_def split: option.splits)
qed simp

lemma sort_source_map:
  "map sort_json (map source_json ss) = map sort_json (map source_json ts) \<longleftrightarrow> ss = ts"
  by (rule iffI) (auto intro!: map_inj_on [of "sort_json \<circ> source_json"] inj_onI simp: sort_source_json comp_def)

lemma kind_text_inj: "kind_text a = kind_text b \<longleftrightarrow> a = b"
  by (cases a; cases b) simp_all

lemma idempotency_payload_wf: "json_wf (idempotency_payload inp)"
  by (auto simp: idempotency_payload_def opt_member_def source_json_wf split: option.split)

text \<open>
  The idempotency key identifies the work: the text that is hashed is the same for two
  inputs exactly when kind, scope, channel, tokens and the ordered sources (session, branch
  and entry ids) are all the same, so a replayed job gets the same key, and two different
  events can share a key only by a collision of the truncated hash.
\<close>
theorem idempotency_preimage_injective:
  "canonicalJson (idempotency_payload a) = canonicalJson (idempotency_payload b) \<longleftrightarrow> a = b"
proof
  assume "canonicalJson (idempotency_payload a) = canonicalJson (idempotency_payload b)"
  then have eq: "sort_json (idempotency_payload a) = sort_json (idempotency_payload b)"
    by (simp add: canonicalJson_eq idempotency_payload_wf)
  obtain ms ns where m: "idempotency_payload a = JObj ms" "idempotency_payload b = JObj ns"
    by (auto simp: idempotency_payload_def)
  have d: "distinct (map fst ms)" "distinct (map fst ns)"
    using m idempotency_payload_wf [of a] idempotency_payload_wf [of b] by simp_all
  have look: "map_option sort_json (map_of ms k) = map_option sort_json (map_of ns k)" for k
    by (rule sort_json_lookup [OF eq [unfolded m] d])
  have strs: "map (sort_json \<circ> JStr) xs = map JStr xs" for xs by simp
  have "id_kind a = id_kind b"
    using look [of "''kind''"] m by (auto simp: idempotency_payload_def kind_text_inj)
  moreover have "id_scope a = id_scope b"
    using look [of "''scope''"] m by (auto simp: idempotency_payload_def)
  moreover have "id_channel a = id_channel b"
    using look [of "''channel''"] m by (auto simp: idempotency_payload_def opt_member_def split: option.splits)
  moreover have "id_tokens a = id_tokens b"
    using look [of "''tokens''"] m
    by (auto simp: idempotency_payload_def opt_member_def strs inj_map_eq_map inj_def split: option.splits)
  moreover have "id_sources a = id_sources b"
    using look [of "''sources''"] m sort_source_map [of "id_sources a" "id_sources b"]
    by (auto simp: idempotency_payload_def opt_member_def split: option.splits)
  ultimately show "a = b" by (cases a; cases b) simp
qed simp

lemma append_slash_inj:
  "slash \<notin> set a \<Longrightarrow> slash \<notin> set b \<Longrightarrow> a @ slash # s = b @ slash # t \<longleftrightarrow> a = b \<and> s = t"
proof (induction a arbitrary: b)
  case Nil
  then show ?case by (cases b) auto
next
  case (Cons x a)
  then show ?case by (cases b) auto
qed

text \<open>
  A board message's path is a slot of its own: two messages with valid channel and
  sender whose paths are equal are in the same channel and have equal digests of the
  sender and operation id; the hashed text itself determines channel, sender and operation.
\<close>
theorem message_path_identifies:
  assumes "is_ok (validateId ''channel'' c)" "is_ok (validateId ''from'' f)"
    and "is_ok (validateId ''channel'' c')" "is_ok (validateId ''from'' f')"
  shows "(deriveMsgPath sha256 c f op = deriveMsgPath sha256 c' f' op'
      \<longleftrightarrow> c = c' \<and> take 16 (sha256 (c @ ''/'' @ f @ ''/'' @ op)) = take 16 (sha256 (c @ ''/'' @ f' @ ''/'' @ op')))
    \<and> (c @ ''/'' @ f @ ''/'' @ op = c' @ ''/'' @ f' @ ''/'' @ op' \<longleftrightarrow> c = c' \<and> f = f' \<and> op = op')"
proof (intro conjI)
  have s: "slash \<notin> set c" "slash \<notin> set c'" "slash \<notin> set f" "slash \<notin> set f'"
    using assms(1-4) by (auto simp: is_ok_iff validateId_Inr dest!: ID_GRAMMAR_safe(2))
  then show "c @ ''/'' @ f @ ''/'' @ op = c' @ ''/'' @ f' @ ''/'' @ op' \<longleftrightarrow> c = c' \<and> f = f' \<and> op = op'"
    by (simp add: append_slash_inj)
  show "deriveMsgPath sha256 c f op = deriveMsgPath sha256 c' f' op'
      \<longleftrightarrow> c = c' \<and> take 16 (sha256 (c @ ''/'' @ f @ ''/'' @ op)) = take 16 (sha256 (c @ ''/'' @ f' @ ''/'' @ op'))"
    using s by (auto simp: deriveMsgPath_def deriveMsgId_def MSG_ID_HEX_CHARS_def append_slash_inj)
qed

definition toy_sha :: "string \<Rightarrow> string" where
  "toy_sha t = replicate 63 (CHR ''0'') @ [CHR ''1'']"

theorem message_path_identifies_witness:
  "deriveMsgPath toy_sha ''dev'' ''ann'' ''1'' \<noteq> deriveMsgPath toy_sha ''ops'' ''ann'' ''1''"
proof -
  have v: "is_ok (validateId k ''dev'')" "is_ok (validateId k ''ops'')" "is_ok (validateId k ''ann'')" for k
    by (simp_all add: validateId_def ID_GRAMMAR_def id_char_def is_lower_def)
  show ?thesis
    using message_path_identifies [OF v(1) v(3) v(2) v(3), of toy_sha "''1''" "''1''"] by (simp add: toy_sha_def)
qed

end
