(* ===== verification/BoardMessages.thy ===== *)
theory BoardMessages
  imports Idempotency
begin

text \<open>
  Board messages (src/board/messages.ts) and the outbox jobs that carry them
  (src/board/job.ts): building the wire content, parsing it back with the client-side
  expiry, the payload check at delivery and the delivery of one job. \<open>Date.parse\<close> and
  \<open>toISOString\<close> are arguments, as is SHA-256; the adapter's \<open>writeImmutable\<close> is an argument
  that answers or throws. A time-to-live is a whole number of seconds.
\<close>

record BoardMessageInput =
  bi_channel :: string
  bi_from :: string
  bi_to :: string
  bi_ttl :: "int option"
  bi_body :: string
  bi_created :: "ms option"

record BuiltBoardMessage =
  bm_msgId :: string
  bm_path :: string
  bm_content :: string

definition validateBoardIdentities :: "string \<Rightarrow> string \<Rightarrow> string \<Rightarrow> path_error + unit" where
  "validateBoardIdentities channel from to =
     (case validateId ''channel'' channel of Inl e \<Rightarrow> Inl e
      | Inr _ \<Rightarrow> (case validateId ''from'' from of Inl e \<Rightarrow> Inl e
      | Inr _ \<Rightarrow> (case validateId ''to'' to of Inl e \<Rightarrow> Inl e | Inr _ \<Rightarrow> Inr ())))"

definition message_record :: "(ms \<Rightarrow> string) \<Rightarrow> BoardMessageInput \<Rightarrow> string \<Rightarrow> ms \<Rightarrow> StoredRecord" where
  "message_record isoString inp msgId created =
     \<lparr>frontmatter = \<lparr>fm_schemaVersion = 1, fm_id = msgId, fm_type = TBoardMessage, fm_scope = ''personal'',
        fm_created = isoString (default_to created (bi_created inp)), fm_sources = [], fm_model = None, fm_status = Active,
        fm_to = Some (bi_to inp), fm_from = Some (bi_from inp), fm_channel = Some (bi_channel inp),
        fm_ttl = Some (case bi_ttl inp of Some t \<Rightarrow> show_int t | None \<Rightarrow> '''')\<rparr>,
      body = bi_body inp\<rparr>"

definition buildBoardMessage ::
  "(string \<Rightarrow> string) \<Rightarrow> (ms \<Rightarrow> string) \<Rightarrow> BoardMessageInput \<Rightarrow> string \<Rightarrow> ms \<Rightarrow> exn + BuiltBoardMessage" where
  "buildBoardMessage sha256 isoString inp op created =
     (case validateBoardIdentities (bi_channel inp) (bi_from inp) (bi_to inp) of
        Inl _ \<Rightarrow> Inl (Backend PathEscapeError)
      | Inr _ \<Rightarrow>
          (let msgId = deriveMsgId sha256 (bi_channel inp) (bi_from inp) op;
               path = deriveMsgPath sha256 (bi_channel inp) (bi_from inp) op
           in case serializeStoredRecord (message_record isoString inp msgId created) of
                Inl _ \<Rightarrow> Inl (OtherError ''Error'' None)
              | Inr content \<Rightarrow> Inr \<lparr>bm_msgId = msgId, bm_path = path, bm_content = content\<rparr>))"

datatype ParsedBoardMessage = MsgOk StoredRecord bool | MsgFail fail_reason

definition ttl_expired :: "rat \<Rightarrow> ms \<Rightarrow> ms \<Rightarrow> bool" where
  "ttl_expired ttl createdMs now = (of_int createdMs + ttl * 1000 < of_int now)"

definition parseBoardMessage :: "(string \<Rightarrow> ms option) \<Rightarrow> string \<Rightarrow> ms \<Rightarrow> ParsedBoardMessage" where
  "parseBoardMessage date_parse content now =
     (case parseStoredRecord date_parse content of
        ReadFail r \<Rightarrow> MsgFail r
      | ReadOk r \<Rightarrow>
          (let fm = frontmatter r in
           if fm_type fm \<noteq> TBoardMessage then MsgFail RMalformed
           else MsgOk r
             (case fm_ttl fm of
                None \<Rightarrow> False
              | Some t \<Rightarrow>
                  t \<noteq> '''' \<and>
                  (case js_number t of
                     Fin q \<Rightarrow> q \<ge> 0 \<and> (case date_parse (fm_created fm) of None \<Rightarrow> False | Some c \<Rightarrow> ttl_expired q c now)
                   | _ \<Rightarrow> False))))"

definition isExpired :: "(string \<Rightarrow> ms option) \<Rightarrow> string \<Rightarrow> js_num option \<Rightarrow> ms \<Rightarrow> bool" where
  "isExpired date_parse createdIso ttl now =
     (case ttl of None \<Rightarrow> False
      | Some t \<Rightarrow>
          (case date_parse createdIso of None \<Rightarrow> False
           | Some c \<Rightarrow> (case t of Fin q \<Rightarrow> ttl_expired q c now | Infinite pos \<Rightarrow> \<not> pos | NaN \<Rightarrow> False)))"

section \<open>Outbox jobs\<close>

record BoardMessagePayload =
  bp_opId :: string
  bp_channel :: string
  bp_from :: string
  bp_to :: string
  bp_body :: string
  bp_ttl :: "int option"
  bp_created :: string

definition parseBoardPayload :: "(string \<Rightarrow> ms option) \<Rightarrow> OutboxJob \<Rightarrow> exn + BoardMessagePayload" where
  "parseBoardPayload date_parse job =
     (case payload job of
        Some (JObj ms) \<Rightarrow>
          (let m = map_of ms in
           case (str_field (m ''opId''), str_field (m ''channel''), str_field (m ''from''), str_field (m ''to''),
                 str_field (m ''body''), str_field (m ''created'')) of
             (Some op, Some ch, Some fr, Some t, Some bd, Some cr) \<Rightarrow>
               if op \<noteq> opId job \<or> date_parse cr = None then Inl (Backend ValidationError)
               else if (case m ''ttlSeconds'' of None \<Rightarrow> False | Some (JNum _) \<Rightarrow> False | Some _ \<Rightarrow> True)
                 then Inl (Backend ValidationError)
               else if \<not> is_ok (validateBoardIdentities ch fr t) \<or> \<not> is_ok (validateId ''channel'' ch)
                 then Inl (Backend ValidationError)
               else Inr \<lparr>bp_opId = op, bp_channel = ch, bp_from = fr, bp_to = t, bp_body = bd,
                 bp_ttl = as_num (m ''ttlSeconds''), bp_created = cr\<rparr>
           | _ \<Rightarrow> Inl (Backend ValidationError))
      | _ \<Rightarrow> Inl (Backend ValidationError))"

text \<open>\<open>created\<close> comes from the payload; it has been checked to be a readable date.\<close>

definition buildBoardJobMessage ::
  "(string \<Rightarrow> string) \<Rightarrow> (ms \<Rightarrow> string) \<Rightarrow> (string \<Rightarrow> ms option) \<Rightarrow> BoardMessagePayload \<Rightarrow> string \<Rightarrow> exn + BuiltBoardMessage" where
  "buildBoardJobMessage sha256 isoString date_parse p op =
     (let created = default_to 0 (date_parse (bp_created p))
      in buildBoardMessage sha256 isoString
           \<lparr>bi_channel = bp_channel p, bi_from = bp_from p, bi_to = bp_to p, bi_ttl = bp_ttl p, bi_body = bp_body p,
            bi_created = Some created\<rparr> op created)"

text \<open>
  The delivery of one job: the error, if any, and the calls of \<open>writeImmutable\<close> it made
  (path, content, operation id). The adapter's answer is a function of the call.
\<close>

type_synonym write_call = "string \<times> string \<times> string"

definition sendBoardJob ::
  "(string \<Rightarrow> string) \<Rightarrow> (ms \<Rightarrow> string) \<Rightarrow> (string \<Rightarrow> ms option) \<Rightarrow> (write_call \<Rightarrow> exn + bool) \<Rightarrow> OutboxJob
   \<Rightarrow> exn option \<times> write_call list" where
  "sendBoardJob sha256 isoString date_parse writeImmutable job =
     (case parseBoardPayload date_parse job of
        Inl e \<Rightarrow> (Some e, [])
      | Inr p \<Rightarrow>
          (case buildBoardJobMessage sha256 isoString date_parse p (opId job) of
             Inl e \<Rightarrow> (Some e, [])
           | Inr b \<Rightarrow>
               (let call = (bm_path b, bm_content b, opId job)
                in case writeImmutable call of
                     Inr _ \<Rightarrow> (None, [call])
                   | Inl e \<Rightarrow> (Some (if e = Backend ConflictError then Backend ValidationError else e), [call]))))"

section \<open>The message round trip\<close>

text \<open>What the code relies on of the JavaScript \<open>Date\<close> and of SHA-256.\<close>

definition iso_dates :: "(ms \<Rightarrow> string) \<Rightarrow> (string \<Rightarrow> ms option) \<Rightarrow> bool" where
  "iso_dates isoString date_parse = (\<forall>t. date_parse (isoString t) = Some t \<and> isoString t \<noteq> '''' \<and> fm_value (isoString t))"

definition hex_digest :: "(string \<Rightarrow> string) \<Rightarrow> bool" where
  "hex_digest sha256 = (\<forall>t. length (sha256 t) = 64 \<and> list_all is_hex (sha256 t))"

lemma js_number_show_int: "js_number (show_int i) = Fin (of_int i)"
proof (cases "i < 0")
  case True
  let ?s = "show_nat (nat (- i))"
  have "is_digit (last ?s)" by (rule show_nat_digits [of _ "nat (- i)"]) simp
  then have "trim (CHR ''-'' # ?s) = CHR ''-'' # ?s"
    by (intro trim_id) (auto simp: is_space_def dest: digit_not_space)
  then show ?thesis
    using True by (simp add: show_int_def js_number_def Let_def decimal_show_nat)
next
  case False
  then show ?thesis by (simp add: show_int_def js_number_show_nat)
qed

lemma deriveMsgId_grammar:
  assumes "hex_digest sha256"
  shows "ID_GRAMMAR (deriveMsgId sha256 c f op)"
proof -
  define h where "h = sha256 (c @ ''/'' @ f @ ''/'' @ op)"
  have h: "length h = 64" "list_all is_hex h" using assms by (simp_all add: hex_digest_def h_def)
  then obtain x r where xr: "h = x # r" by (cases h) auto
  have hex: "is_hex y \<Longrightarrow> is_lower y \<or> is_digit y" for y by (auto simp: is_hex_def is_lower_def)
  have "list_all id_char (take 15 r)"
    using h xr hex by (auto simp: list_all_iff id_char_def dest!: in_set_takeD)
  moreover have "deriveMsgId sha256 c f op = x # take 15 r"
    using xr by (simp add: deriveMsgId_def MSG_ID_HEX_CHARS_def h_def)
  ultimately show ?thesis using h xr hex by (auto simp: ID_GRAMMAR_def)
qed

lemma show_int_value: "fm_value (show_int t)"
proof -
  have "c \<in> set (show_int t) \<Longrightarrow> c = CHR ''-'' \<or> is_digit c" for c
    by (auto simp: show_int_def split: if_splits dest: show_nat_digits)
  moreover have "show_int t \<noteq> []" by (simp add: show_int_def)
  ultimately show ?thesis
    by (cases "show_int t") (fastforce simp: fm_value_def is_digit_def is_space_def)+
qed

lemma personal_value: "fm_value ''personal''"
  by (simp add: fm_value_def is_space_def)

lemma message_record_wf:
  assumes "hex_digest sha256" "iso_dates isoString date_parse"
    and "validateBoardIdentities (bi_channel inp) (bi_from inp) (bi_to inp) = Inr ()"
  shows "record_wf date_parse (message_record isoString inp (deriveMsgId sha256 (bi_channel inp) (bi_from inp) op) created)"
  using assms deriveMsgId_grammar [OF assms(1)] id_value
  by (auto simp: record_wf_def Let_def message_record_def SCHEMA_VERSION_def iso_dates_def check_scope_def
      is_owner_scope_def validateBoardIdentities_def validateId_def opt_value_def const_value show_int_value
      personal_value split: if_splits option.split)

definition board_expired :: "BoardMessageInput \<Rightarrow> ms \<Rightarrow> ms \<Rightarrow> bool" where
  "board_expired inp created now =
     (case bi_ttl inp of None \<Rightarrow> False
      | Some t \<Rightarrow> 0 \<le> t \<and> default_to created (bi_created inp) + t * 1000 < now)"

lemma ttl_expired_int: "ttl_expired (of_int t) c now \<longleftrightarrow> c + t * 1000 < now"
proof -
  have "(of_int c + of_int t * 1000 :: rat) = of_int (c + t * 1000)" by simp
  then show ?thesis by (simp only: ttl_expired_def of_int_less_iff)
qed

lemma parse_message_record:
  assumes "parseStoredRecord date_parse doc = ReadOk (message_record isoString inp i created)" "iso_dates isoString date_parse"
  shows "parseBoardMessage date_parse doc now = MsgOk (message_record isoString inp i created) (board_expired inp created now)"
proof (cases "bi_ttl inp")
  case None
  then show ?thesis using assms(1) by (simp add: parseBoardMessage_def message_record_def board_expired_def)
next
  case (Some t)
  have "show_int t \<noteq> ''''" by (simp add: show_int_def)
  then show ?thesis
    using Some assms
    by (auto simp: parseBoardMessage_def message_record_def board_expired_def js_number_show_int ttl_expired_int iso_dates_def)
qed

lemma buildBoardMessage_ok:
  assumes "hex_digest sha256" "iso_dates isoString date_parse"
    and "validateBoardIdentities (bi_channel inp) (bi_from inp) (bi_to inp) = Inr ()"
  obtains b where "buildBoardMessage sha256 isoString inp op created = Inr b"
    "bm_msgId b = deriveMsgId sha256 (bi_channel inp) (bi_from inp) op"
    "bm_path b = deriveMsgPath sha256 (bi_channel inp) (bi_from inp) op"
    "parseStoredRecord date_parse (bm_content b) = ReadOk (message_record isoString inp (bm_msgId b) created)"
  using print_read_record [OF message_record_wf [OF assms, of op created]] assms(3)
  by (auto simp: buildBoardMessage_def)

text \<open>
  A board message survives the wire: with identities the grammar admits the message is
  built at its own board path, and parsing its content gives back channel, sender,
  recipient and the body unchanged; it is reported expired exactly when a non-negative
  time-to-live has run out.
\<close>
theorem board_message_roundtrip:
  assumes "hex_digest sha256" "iso_dates isoString date_parse"
    and "validateBoardIdentities (bi_channel inp) (bi_from inp) (bi_to inp) = Inr ()"
  shows "\<exists>b r. buildBoardMessage sha256 isoString inp op created = Inr b
    \<and> boardMessagePath (bi_channel inp) (bm_msgId b) = Inr (bm_path b)
    \<and> parseBoardMessage date_parse (bm_content b) now = MsgOk r (board_expired inp created now)
    \<and> body r = bi_body inp \<and> fm_id (frontmatter r) = bm_msgId b
    \<and> fm_channel (frontmatter r) = Some (bi_channel inp) \<and> fm_from (frontmatter r) = Some (bi_from inp)
    \<and> fm_to (frontmatter r) = Some (bi_to inp)"
proof -
  obtain b where b: "buildBoardMessage sha256 isoString inp op created = Inr b"
    "bm_msgId b = deriveMsgId sha256 (bi_channel inp) (bi_from inp) op"
    "bm_path b = deriveMsgPath sha256 (bi_channel inp) (bi_from inp) op"
    "parseStoredRecord date_parse (bm_content b) = ReadOk (message_record isoString inp (bm_msgId b) created)"
    by (rule buildBoardMessage_ok [OF assms])
  have "validateId ''channel'' (bi_channel inp) = Inr (bi_channel inp)"
    using assms(3) by (auto simp: validateBoardIdentities_def validateId_def split: if_splits)
  then have "boardMessagePath (bi_channel inp) (bm_msgId b) = Inr (bm_path b)"
    using b(2,3) deriveMsgId_grammar [OF assms(1)] by (simp add: boardMessagePath_def validateId_def deriveMsgPath_def)
  then show ?thesis
    using b(1) parse_message_record [OF b(4) assms(2)] by (auto simp: message_record_def)
qed

definition toy_iso :: "ms \<Rightarrow> string" where "toy_iso t = show_int t"

definition toy_date :: "string \<Rightarrow> ms option" where "toy_date s = js_integer (js_number s)"

lemma toy_dates: "iso_dates toy_iso toy_date"
  by (simp add: iso_dates_def toy_iso_def toy_date_def js_number_show_int show_int_value) (simp add: show_int_def)

lemma toy_digest: "hex_digest toy_sha"
proof -
  have "length (toy_sha t) = 64" "set (toy_sha t) \<subseteq> {CHR ''0'', CHR ''1''}" for t
    by (auto simp: toy_sha_def)
  then show ?thesis by (fastforce simp: hex_digest_def list_all_iff is_hex_def is_digit_def)
qed

theorem board_message_roundtrip_witness:
  "\<exists>b r. buildBoardMessage toy_sha toy_iso
      \<lparr>bi_channel = ''dev'', bi_from = ''ann'', bi_to = ''bob'', bi_ttl = Some 60, bi_body = ''hi'', bi_created = None\<rparr> ''op'' 1000 = Inr b
    \<and> parseBoardMessage toy_date (bm_content b) 61001 = MsgOk r True \<and> body r = ''hi''"
proof -
  have "validateBoardIdentities ''dev'' ''ann'' ''bob'' = Inr ()"
    by (simp add: validateBoardIdentities_def validateId_def ID_GRAMMAR_def id_char_def is_lower_def)
  then show ?thesis
    using board_message_roundtrip [OF toy_digest toy_dates,
        of "\<lparr>bi_channel = ''dev'', bi_from = ''ann'', bi_to = ''bob'', bi_ttl = Some 60, bi_body = ''hi'', bi_created = None\<rparr>" "''op''" 1000 61001]
    by (fastforce simp: board_expired_def)
qed

section \<open>Delivery of a job\<close>

definition board_job_payload :: "BoardMessagePayload \<Rightarrow> json" where
  "board_job_payload p = JObj ([(''opId'', JStr (bp_opId p)), (''channel'', JStr (bp_channel p)), (''from'', JStr (bp_from p)),
     (''to'', JStr (bp_to p)), (''body'', JStr (bp_body p))]
     @ opt_member ''ttlSeconds'' (map_option JNum (bp_ttl p)) @ [(''created'', JStr (bp_created p))])"

lemma parse_board_payload_ok:
  assumes "payload job = Some (board_job_payload p)" "bp_opId p = opId job" "date_parse (bp_created p) \<noteq> None"
    and "validateBoardIdentities (bp_channel p) (bp_from p) (bp_to p) = Inr ()"
  shows "parseBoardPayload date_parse job = Inr p"
proof -
  have "validateId ''channel'' (bp_channel p) = Inr (bp_channel p)"
    using assms(4) by (auto simp: validateBoardIdentities_def validateId_def split: if_splits)
  then show ?thesis
    using assms
    by (cases "bp_ttl p") (auto simp: parseBoardPayload_def board_job_payload_def opt_member_def Let_def is_ok_def)
qed

text \<open>
  The delivery of a board job writes at most once, always at the job's own path with
  content that is a function of the job alone, never before the payload check, and turns a
  differing message at that path into a permanent failure: the error it reports is never a
  conflict, so the worker quarantines the job and nothing is overwritten.
\<close>
theorem board_delivery_writes_own_slot:
  assumes "sendBoardJob sha256 isoString date_parse wr job = (res, calls)"
  shows "(calls = [] \<and> res \<noteq> None \<and> (\<forall>wr'. sendBoardJob sha256 isoString date_parse wr' job = (res, [])))
    \<or> (\<exists>p b. parseBoardPayload date_parse job = Inr p \<and> bp_opId p = opId job
        \<and> buildBoardJobMessage sha256 isoString date_parse p (opId job) = Inr b
        \<and> calls = [(bm_path b, bm_content b, opId job)]
        \<and> bm_path b = deriveMsgPath sha256 (bp_channel p) (bp_from p) (opId job)
        \<and> (res = None \<longleftrightarrow> is_ok (wr (bm_path b, bm_content b, opId job)))
        \<and> (wr (bm_path b, bm_content b, opId job) = Inl (Backend ConflictError) \<longrightarrow> res = Some (Backend ValidationError) \<and> \<not> isRetryable (the res)))"
proof -
  have path: "bm_path b = deriveMsgPath sha256 (bp_channel p) (bp_from p) op"
    if "buildBoardJobMessage sha256 isoString date_parse p op = Inr b" for p b op
    using that by (auto simp: buildBoardJobMessage_def buildBoardMessage_def Let_def split: sum.splits)
  have op: "bp_opId p = opId job" if "parseBoardPayload date_parse job = Inr p" for p
    using that by (auto simp: parseBoardPayload_def Let_def split: option.splits json.splits if_splits)
  show ?thesis
    using assms path op
    by (auto simp: sendBoardJob_def Let_def split: sum.splits)
qed

definition board_job :: OutboxJob where
  "board_job = \<lparr>seq = 1, schemaVersion = 1, kind = KBoardMessage, scope = ''board/dev'', opId = ''op'', idempotencyKey = ''k'',
     payload = Some (board_job_payload \<lparr>bp_opId = ''op'', bp_channel = ''dev'', bp_from = ''ann'', bp_to = ''bob'', bp_body = ''hi'',
       bp_ttl = None, bp_created = ''5''\<rparr>), target = None, attempts = 0, nextAttemptAt = 0, createdAt = 0, status = Pending,
     lastError = None, ackedAt = None\<rparr>"

theorem board_delivery_writes_own_slot_witness:
  "fst (sendBoardJob toy_sha toy_iso toy_date (\<lambda>_. Inl (Backend ConflictError)) board_job) = Some (Backend ValidationError)"
proof -
  have v: "validateBoardIdentities ''dev'' ''ann'' ''bob'' = Inr ()"
    by (simp add: validateBoardIdentities_def validateId_def ID_GRAMMAR_def id_char_def is_lower_def)
  have t: "toy_date ''5'' = Some 5"
    using js_number_show_int [of 5] by (simp add: toy_date_def show_int_def show_nat.simps)
  let ?p = "\<lparr>bp_opId = ''op'', bp_channel = ''dev'', bp_from = ''ann'', bp_to = ''bob'', bp_body = ''hi'', bp_ttl = None, bp_created = ''5''\<rparr>"
  have p: "parseBoardPayload toy_date board_job = Inr ?p"
    by (rule parse_board_payload_ok) (simp_all add: board_job_def v t)
  obtain b where b: "buildBoardJobMessage toy_sha toy_iso toy_date ?p ''op'' = Inr b"
    using buildBoardMessage_ok [OF toy_digest toy_dates,
        of "\<lparr>bi_channel = ''dev'', bi_from = ''ann'', bi_to = ''bob'', bi_ttl = None, bi_body = ''hi'', bi_created = Some 5\<rparr>" "''op''" 5] v t
    by (auto simp: buildBoardJobMessage_def)
  obtain res calls where s: "sendBoardJob toy_sha toy_iso toy_date (\<lambda>_. Inl (Backend ConflictError)) board_job = (res, calls)"
    by (cases "sendBoardJob toy_sha toy_iso toy_date (\<lambda>_. Inl (Backend ConflictError)) board_job")
  have "calls \<noteq> []" using s p b by (auto simp: sendBoardJob_def board_job_def Let_def)
  then have "res = Some (Backend ValidationError)"
    using board_delivery_writes_own_slot [OF s] by auto
  then show ?thesis unfolding s by simp
qed

end
