(* ===== verification/Adapter.thy ===== *)
theory Adapter
  imports Frontmatter Paths Errors
begin

text \<open>
  The typed backend boundary (src/backend/adapter.ts) and two of its result parsers
  (src/backend/parse.ts): the shared call policy with its single retry, reading, plain and
  immutable writes, append, delete and forget. The transport is an argument: what a tool
  call returns or throws in a state of the outside world, which it may change. Every
  operation also returns the tool calls it made. An error is its class with its message,
  because a read tells a missing path by the message. The ledger is the list of operation
  ids that are durably persisted.
\<close>

section \<open>Parsing results\<close>

text \<open>\<open>/\(ETag:\s*([^)\s]+)\)/\<close> at the head of the text, then at the first position that matches.\<close>

definition etag_here :: "string \<Rightarrow> string option" where
  "etag_here s =
     (case strip_prefix ''(ETag:'' s of
        None \<Rightarrow> None
      | Some r \<Rightarrow>
          (let t = dropWhile is_space r;
               e = takeWhile (\<lambda>c. c \<noteq> CHR '')'' \<and> \<not> is_space c) t;
               u = dropWhile (\<lambda>c. c \<noteq> CHR '')'' \<and> \<not> is_space c) t
           in if e \<noteq> [] \<and> u \<noteq> [] \<and> hd u = CHR '')'' then Some e else None))"

fun parseMutationEtag :: "string \<Rightarrow> string option" where
  "parseMutationEtag [] = None"
| "parseMutationEtag (c # cs) =
     (case etag_here (c # cs) of Some e \<Rightarrow> Some e | None \<Rightarrow> parseMutationEtag cs)"

definition parseDeletedPath :: "string \<Rightarrow> string option" where
  "parseDeletedPath s =
     (case strip_prefix ''Deleted'' s of
        None \<Rightarrow> None
      | Some r \<Rightarrow>
          (let t = dropWhile is_space r; p = takeWhile (\<lambda>c. \<not> is_space c) t
           in if r \<noteq> t \<and> p \<noteq> [] then Some p else None))"

section \<open>Messages\<close>

definition token_char :: "char \<Rightarrow> bool" where
  "token_char c = (is_lower c \<or> is_upper c \<or> is_digit c \<or> c \<in> set ''._~+/=-'')"

text \<open>The rest after \<open>Bearer\s+token\<close> at the head of the text, without regard to case.\<close>

definition bearer_rest :: "string \<Rightarrow> string option" where
  "bearer_rest s =
     (if map to_lower (take 6 s) = ''bearer'' then
        (let r = drop 6 s; t = dropWhile is_space r
         in if r \<noteq> t \<and> t \<noteq> [] \<and> token_char (hd t) then Some (dropWhile token_char t) else None)
      else None)"

lemma bearer_rest_length:
  assumes "bearer_rest s = Some t"
  shows "length t < length s"
proof -
  have "t = dropWhile token_char (dropWhile is_space (drop 6 s))" "drop 6 s \<noteq> []"
    using assms by (auto simp: bearer_rest_def Let_def split: if_splits)
  then have "length t \<le> length (drop 6 s)" "6 < length s"
    using length_dropWhile_le [of token_char "dropWhile is_space (drop 6 s)"]
      length_dropWhile_le [of is_space "drop 6 s"] by auto
  then show ?thesis by simp
qed

function redact_bearer :: "string \<Rightarrow> string" where
  "redact_bearer s =
     (case bearer_rest s of
        Some t \<Rightarrow> ''Bearer [redacted]'' @ redact_bearer t
      | None \<Rightarrow> (case s of [] \<Rightarrow> [] | c # cs \<Rightarrow> c # redact_bearer cs))"
  by pat_completeness auto

termination
  by (relation "measure length") (auto dest: bearer_rest_length)

declare redact_bearer.simps [simp del]

text \<open>Every maximal run of at least 32 token characters.\<close>

function redact_long :: "string \<Rightarrow> string" where
  "redact_long s =
     (case s of
        [] \<Rightarrow> []
      | c # cs \<Rightarrow>
          if token_char c then
            (let run = takeWhile token_char s
             in (if length run \<ge> 32 then ''[redacted]'' else run) @ redact_long (dropWhile token_char s))
          else c # redact_long cs)"
  by pat_completeness auto

termination
  by (relation "measure length") (auto simp: less_Suc_eq_le length_dropWhile_le)

declare redact_long.simps [simp del]

definition sanitizeMessage :: "string \<Rightarrow> string" where
  "sanitizeMessage s = redact_long (redact_bearer s)"

fun contains :: "string \<Rightarrow> string \<Rightarrow> bool" where
  "contains p [] = (p = [])"
| "contains p (c # cs) = (prefix p (c # cs) \<or> contains p cs)"

definition says_not_found :: "string \<Rightarrow> bool" where
  "says_not_found msg = contains ''not found'' (map to_lower msg)"

section \<open>Calls\<close>

datatype kiwi_tool =
    KiwiRead | KiwiWrite | KiwiAppend | KiwiDelete | KiwiSearch | KiwiSearchSemantic | KiwiSearchHybrid
  | KiwiBrief | KiwiChanges | KiwiQueryMeta | KiwiForget

fun tool_name :: "kiwi_tool \<Rightarrow> string" where
  "tool_name KiwiRead = ''kiwi_read''"
| "tool_name KiwiWrite = ''kiwi_write''"
| "tool_name KiwiAppend = ''kiwi_append''"
| "tool_name KiwiDelete = ''kiwi_delete''"
| "tool_name KiwiSearch = ''kiwi_search''"
| "tool_name KiwiSearchSemantic = ''kiwi_search_semantic''"
| "tool_name KiwiSearchHybrid = ''kiwi_search_hybrid''"
| "tool_name KiwiBrief = ''kiwi_brief''"
| "tool_name KiwiChanges = ''kiwi_changes''"
| "tool_name KiwiQueryMeta = ''kiwi_query_meta''"
| "tool_name KiwiForget = ''kiwi_forget''"

definition REQUIRED_TOOLS :: "kiwi_tool list" where
  "REQUIRED_TOOLS = [KiwiRead, KiwiWrite, KiwiAppend, KiwiDelete, KiwiSearch, KiwiSearchSemantic, KiwiSearchHybrid,
     KiwiBrief, KiwiChanges, KiwiQueryMeta, KiwiForget]"

definition IDEMPOTENT_TOOLS :: "kiwi_tool list" where
  "IDEMPOTENT_TOOLS = [KiwiRead, KiwiWrite, KiwiDelete, KiwiSearch, KiwiSearchSemantic, KiwiSearchHybrid,
     KiwiBrief, KiwiChanges, KiwiQueryMeta, KiwiForget]"

definition SEARCH_LIMIT_MAX :: int where "SEARCH_LIMIT_MAX = 50"
definition CONTENT_MAX_BYTES :: nat where "CONTENT_MAX_BYTES = 32 * 1024 * 1024"
definition PATH_MAX_CHARS :: nat where "PATH_MAX_CHARS = 500"

record tool_result =
  isError :: bool
  res_text :: string
  res_meta :: "json dict"

type_synonym failure = "exn \<times> string"
type_synonym tool_call = "kiwi_tool \<times> json dict"
type_synonym 's transport = "kiwi_tool \<Rightarrow> json dict \<Rightarrow> 's \<Rightarrow> (failure + tool_result) \<times> 's"
type_synonym ('r, 's) outcome = "(failure + 'r) \<times> tool_call list \<times> 's"

definition validation :: "string \<Rightarrow> failure" where
  "validation msg = (Backend ValidationError, msg)"

definition callTool :: "'s transport \<Rightarrow> kiwi_tool \<Rightarrow> json dict \<Rightarrow> 's \<Rightarrow> (failure + tool_result) \<times> 's" where
  "callTool transport tool args s =
     (case transport tool args s of
        (Inl e, s') \<Rightarrow> (Inl e, s')
      | (Inr res, s') \<Rightarrow>
          if isError res
          then (Inl (validation (''backend rejected '' @ tool_name tool @ '': '' @ sanitizeMessage (res_text res))), s')
          else (Inr res, s'))"

text \<open>At most two attempts; \<open>aborted\<close> is the caller's signal when the first one fails.\<close>

definition call :: "'s transport \<Rightarrow> bool \<Rightarrow> kiwi_tool \<Rightarrow> json dict \<Rightarrow> 's \<Rightarrow> (tool_result, 's) outcome" where
  "call transport aborted tool args s =
     (case callTool transport tool args s of
        (Inr res, s1) \<Rightarrow> (Inr res, [(tool, args)], s1)
      | (Inl e, s1) \<Rightarrow>
          if \<not> isRetryable (fst e) \<or> tool \<notin> set IDEMPOTENT_TOOLS \<or> aborted then (Inl e, [(tool, args)], s1)
          else (case callTool transport tool args s1 of (r, s2) \<Rightarrow> (r, [(tool, args), (tool, args)], s2)))"

section \<open>Operations\<close>

definition assertValidPath :: "string \<Rightarrow> failure option" where
  "assertValidPath path =
     (if length path > PATH_MAX_CHARS then Some (validation ''path exceeds 500 characters (server limit)'') else None)"

text \<open>UTF-8 length: the model's characters are below 256.\<close>

definition byteLength :: "string \<Rightarrow> nat" where
  "byteLength s = sum_list (map (\<lambda>c. if code c < 128 then 1 else 2) s)"

definition assertContentSize :: "string \<Rightarrow> failure option" where
  "assertContentSize content =
     (if byteLength content > CONTENT_MAX_BYTES
      then Some (validation ''content exceeds 33554432 bytes (32 MiB server limit)'') else None)"

definition assertPersisted :: "string list \<Rightarrow> string \<Rightarrow> failure option" where
  "assertPersisted ledger op =
     (if op \<notin> set ledger then Some (Backend OpIdNotPersistedError, ''opId was not durably persisted before mutation (refusing side effect)'')
      else None)"

datatype read_state = RdOk | RdNotModified | RdMissing

record AdapterRead =
  rd_state :: read_state
  rd_content :: "string option"
  rd_etag :: "string option"
  rd_frontmatter :: "string dict"
  rd_body :: string

record WriteResult =
  wr_etag :: "string option"
  replayed :: bool

fun meta_str :: "json option \<Rightarrow> string option" where
  "meta_str (Some (JStr s)) = Some s" | "meta_str _ = None"

definition result_etag :: "tool_result \<Rightarrow> string option" where
  "result_etag res =
     (case meta_str (map_of (res_meta res) ''kiwi.etag'') of Some e \<Rightarrow> Some e | None \<Rightarrow> parseMutationEtag (res_text res))"

definition read_result :: "tool_result \<Rightarrow> AdapterRead" where
  "read_result res =
     (if map_of (res_meta res) ''kiwi.not_modified'' = Some (JBool True)
      then \<lparr>rd_state = RdNotModified, rd_content = None, rd_etag = result_etag res, rd_frontmatter = [], rd_body = ''''\<rparr>
      else (case parseFrontmatter (res_text res) of (fm, bd) \<Rightarrow>
        \<lparr>rd_state = RdOk, rd_content = Some (res_text res), rd_etag = meta_str (map_of (res_meta res) ''kiwi.etag''),
         rd_frontmatter = fm, rd_body = bd\<rparr>))"

definition missing_read :: AdapterRead where
  "missing_read = \<lparr>rd_state = RdMissing, rd_content = None, rd_etag = None, rd_frontmatter = [], rd_body = ''''\<rparr>"

definition is_validation :: "exn \<Rightarrow> bool" where
  "is_validation e = (e = Backend ValidationError)"

definition adapter_read ::
  "'s transport \<Rightarrow> bool \<Rightarrow> string \<Rightarrow> string option \<Rightarrow> 's \<Rightarrow> (AdapterRead, 's) outcome" where
  "adapter_read transport aborted path ifNotEtag s =
     (case assertValidPath path of Some e \<Rightarrow> (Inl e, [], s)
      | None \<Rightarrow>
          (let args = [(''path'', JStr path)]
             @ (case ifNotEtag of None \<Rightarrow> [] | Some t \<Rightarrow> [(''if_not_etag'', JStr t)])
           in case call transport aborted KiwiRead args s of
                (Inl e, tr, s') \<Rightarrow>
                  if is_validation (fst e) \<and> says_not_found (snd e) then (Inr missing_read, tr, s') else (Inl e, tr, s')
              | (Inr res, tr, s') \<Rightarrow> (Inr (read_result res), tr, s')))"

definition mutate_args :: "string \<Rightarrow> string \<Rightarrow> string \<Rightarrow> (string \<times> string option) list \<Rightarrow> json dict" where
  "mutate_args path content op extra =
     [(''path'', JStr path), (''content'', JStr content), (''opId'', JStr op)]
     @ concat (map (\<lambda>(k, v). case v of None \<Rightarrow> [] | Some x \<Rightarrow> [(k, JStr x)]) extra)"

definition adapter_write ::
  "'s transport \<Rightarrow> string list \<Rightarrow> bool \<Rightarrow> string \<Rightarrow> string \<Rightarrow> string option \<Rightarrow> string option \<Rightarrow> string \<Rightarrow> 's
   \<Rightarrow> (WriteResult, 's) outcome" where
  "adapter_write transport ledger aborted path content actor provenance op s =
     (case assertValidPath path of Some e \<Rightarrow> (Inl e, [], s) | None \<Rightarrow>
     (case assertContentSize content of Some e \<Rightarrow> (Inl e, [], s) | None \<Rightarrow>
     (case assertPersisted ledger op of Some e \<Rightarrow> (Inl e, [], s) | None \<Rightarrow>
     (case call transport aborted KiwiWrite
             (mutate_args path content op [(''actor'', actor), (''provenance'', provenance)]) s of
        (Inl e, tr, s') \<Rightarrow> (Inl e, tr, s')
      | (Inr res, tr, s') \<Rightarrow> (Inr \<lparr>wr_etag = result_etag res, replayed = False\<rparr>, tr, s')))))"

definition conflict :: failure where
  "conflict = (Backend ConflictError, ''refusing to overwrite (fail closed)'')"

definition writeImmutable ::
  "'s transport \<Rightarrow> string list \<Rightarrow> bool \<Rightarrow> string \<Rightarrow> string \<Rightarrow> string option \<Rightarrow> string option \<Rightarrow> string \<Rightarrow> 's
   \<Rightarrow> (WriteResult, 's) outcome" where
  "writeImmutable transport ledger aborted path content actor provenance op s =
     (case assertValidPath path of Some e \<Rightarrow> (Inl e, [], s) | None \<Rightarrow>
     (case assertContentSize content of Some e \<Rightarrow> (Inl e, [], s) | None \<Rightarrow>
     (case assertPersisted ledger op of Some e \<Rightarrow> (Inl e, [], s) | None \<Rightarrow>
     (case adapter_read transport aborted path None s of
        (Inl e, tr, s1) \<Rightarrow> (Inl e, tr, s1)
      | (Inr ex, tr, s1) \<Rightarrow>
          if rd_state ex = RdOk \<and> rd_content ex \<noteq> None then
            (if rd_content ex = Some content
             then (Inr \<lparr>wr_etag = rd_etag ex, replayed = True\<rparr>, tr, s1)
             else (Inl conflict, tr, s1))
          else if rd_state ex = RdNotModified then (Inl conflict, tr, s1)
          else (case adapter_write transport ledger aborted path content actor provenance op s1 of
                  (r, tr', s2) \<Rightarrow> (r, tr @ tr', s2))))))"

definition append_page ::
  "'s transport \<Rightarrow> string list \<Rightarrow> bool \<Rightarrow> string \<Rightarrow> string \<Rightarrow> string option \<Rightarrow> string option \<Rightarrow> string \<Rightarrow> 's
   \<Rightarrow> (WriteResult, 's) outcome" where
  "append_page transport ledger aborted path content separator actor op s =
     (case assertValidPath path of Some e \<Rightarrow> (Inl e, [], s) | None \<Rightarrow>
     (case assertContentSize content of Some e \<Rightarrow> (Inl e, [], s) | None \<Rightarrow>
     (case assertPersisted ledger op of Some e \<Rightarrow> (Inl e, [], s) | None \<Rightarrow>
     (case call transport aborted KiwiAppend
             (mutate_args path content op [(''separator'', separator), (''actor'', actor)]) s of
        (Inl e, tr, s') \<Rightarrow> (Inl e, tr, s')
      | (Inr res, tr, s') \<Rightarrow> (Inr \<lparr>wr_etag = result_etag res, replayed = False\<rparr>, tr, s')))))"

definition path_args :: "string \<Rightarrow> string \<Rightarrow> (string \<times> string option) list \<Rightarrow> json dict" where
  "path_args path op extra =
     [(''path'', JStr path), (''opId'', JStr op)]
     @ concat (map (\<lambda>(k, v). case v of None \<Rightarrow> [] | Some x \<Rightarrow> [(k, JStr x)]) extra)"

definition del :: "'s transport \<Rightarrow> string list \<Rightarrow> bool \<Rightarrow> string \<Rightarrow> string option \<Rightarrow> string \<Rightarrow> 's \<Rightarrow> (string, 's) outcome" where
  "del transport ledger aborted path actor op s =
     (case assertValidPath path of Some e \<Rightarrow> (Inl e, [], s) | None \<Rightarrow>
     (case assertPersisted ledger op of Some e \<Rightarrow> (Inl e, [], s) | None \<Rightarrow>
     (case call transport aborted KiwiDelete (path_args path op [(''actor'', actor)]) s of
        (Inl e, tr, s') \<Rightarrow> (Inl e, tr, s')
      | (Inr res, tr, s') \<Rightarrow> (Inr (default_to path (parseDeletedPath (res_text res))), tr, s'))))"

definition forget :: "'s transport \<Rightarrow> string list \<Rightarrow> bool \<Rightarrow> string \<Rightarrow> string option \<Rightarrow> string \<Rightarrow> 's \<Rightarrow> (string, 's) outcome" where
  "forget transport ledger aborted path reason op s =
     (case assertValidPath path of Some e \<Rightarrow> (Inl e, [], s) | None \<Rightarrow>
     (case assertPersisted ledger op of Some e \<Rightarrow> (Inl e, [], s) | None \<Rightarrow>
     (case call transport aborted KiwiForget (path_args path op [(''superseded_reason'', reason)]) s of
        (Inl e, tr, s') \<Rightarrow> (Inl e, tr, s')
      | (Inr res, tr, s') \<Rightarrow> (Inr path, tr, s'))))"

record SearchOptions =
  so_scope :: "string option"
  so_pathPrefix :: "string option"
  so_limit :: "int option"
  so_offset :: "int option"

definition searchArgs :: "string \<Rightarrow> SearchOptions \<Rightarrow> json dict" where
  "searchArgs query opts =
     [(''query'', JStr query)]
     @ (case so_scope opts of None \<Rightarrow> [] | Some v \<Rightarrow> [(''scope'', JStr v)])
     @ (case so_pathPrefix opts of None \<Rightarrow> [] | Some v \<Rightarrow> [(''path_prefix'', JStr v)])
     @ (case so_limit opts of None \<Rightarrow> [] | Some v \<Rightarrow> [(''limit'', JNum (min (max 1 v) SEARCH_LIMIT_MAX))])
     @ (case so_offset opts of None \<Rightarrow> [] | Some v \<Rightarrow> [(''offset'', JNum (max 0 v))])"

text \<open>The tools the server advertises, by name; the missing ones make \<open>connect\<close> throw.\<close>

definition missing_tools :: "string list \<Rightarrow> kiwi_tool list" where
  "missing_tools names = filter (\<lambda>t. tool_name t \<notin> set names) REQUIRED_TOOLS"

definition connect_check :: "string list \<Rightarrow> failure + string list" where
  "connect_check names =
     (if missing_tools names \<noteq> []
      then Inl (validation (''backend is missing required tools: '' @ join_with '', '' (map tool_name (missing_tools names))))
      else Inr names)"

section \<open>Facts about calls\<close>

lemma call_trace:
  "call transport ab tool args s = (r, tr, s') \<Longrightarrow> set tr = {(tool, args)} \<and> length tr \<le> 2"
  by (auto simp: call_def split: prod.splits sum.splits if_splits)

lemma adapter_read_reads:
  assumes "adapter_read transport ab path etag s = (r, tr, s')"
  shows "fst ` set tr \<subseteq> {KiwiRead}"
proof (cases "assertValidPath path")
  case None
  obtain cr c1 c2 where c: "call transport ab KiwiRead ([(''path'', JStr path)]
      @ (case etag of None \<Rightarrow> [] | Some t \<Rightarrow> [(''if_not_etag'', JStr t)])) s = (cr, c1, c2)" by (metis prod_cases3)
  then have "c1 = tr" using assms None by (cases cr) (simp_all add: adapter_read_def Let_def split: if_splits)
  then show ?thesis using call_trace [OF c] by auto
qed (use assms in \<open>auto simp: adapter_read_def\<close>)

lemma call_not_idempotent:
  "call transport ab tool args s = (r, tr, s') \<Longrightarrow> tool \<notin> set IDEMPOTENT_TOOLS \<Longrightarrow> length tr = 1"
  by (auto simp: call_def split: prod.splits sum.splits if_splits)

lemma no_id_no_call:
  assumes "op \<notin> set ledger"
  shows "\<exists>e. adapter_write transport ledger ab path content actor prov op s = (Inl e, [], s)"
    "\<exists>e. writeImmutable transport ledger ab path content actor prov op s = (Inl e, [], s)"
    "\<exists>e. append_page transport ledger ab path content sep actor op s = (Inl e, [], s)"
    "\<exists>e. del transport ledger ab path actor op s = (Inl e, [], s)"
    "\<exists>e. forget transport ledger ab path reason op s = (Inl e, [], s)"
  using assms
  by (cases "assertValidPath path"; cases "assertContentSize content";
      simp add: adapter_write_def writeImmutable_def append_page_def del_def forget_def assertPersisted_def)+

lemma call_retry:
  "length (fst (snd (call transport ab tool args s))) = 2 \<longrightarrow>
      tool \<in> set IDEMPOTENT_TOOLS \<and> (\<exists>e s1. callTool transport tool args s = (Inl e, s1) \<and> isRetryable (fst e))"
  by (cases "callTool transport tool args s"; cases "fst (callTool transport tool args s)")
    (auto simp: call_def split: prod.splits)

lemma append_once: "length (fst (snd (append_page transport ledger ab path content sep actor op s))) \<le> 1"
proof -
  have "length (fst (snd (call transport ab KiwiAppend args s))) = 1" for args
    using call_not_idempotent [of transport ab KiwiAppend args s]
    by (cases "call transport ab KiwiAppend args s") (simp add: IDEMPOTENT_TOOLS_def)
  then show ?thesis
    by (simp add: append_page_def split: option.split prod.split sum.split) (metis fst_conv le_refl snd_conv One_nat_def)
qed

text \<open>
  No mutation under an unpersisted identity, and no blind replay: whatever the transport
  does, an operation id that is not in the ledger makes every mutating operation fail before
  any tool call, an append is sent at most once, and every other operation sends at most two
  calls of its own tool, the second only after an availability fault of the first.
\<close>
theorem mutations_need_persisted_id:
  assumes "op \<notin> set ledger"
  shows "(\<exists>e. adapter_write transport ledger ab path content actor prov op s = (Inl e, [], s))
    \<and> (\<exists>e. writeImmutable transport ledger ab path content actor prov op s = (Inl e, [], s))
    \<and> (\<exists>e. append_page transport ledger ab path content sep actor op s = (Inl e, [], s))
    \<and> (\<exists>e. del transport ledger ab path actor op s = (Inl e, [], s))
    \<and> (\<exists>e. forget transport ledger ab path reason op s = (Inl e, [], s))
    \<and> length (fst (snd (append_page transport ledger2 ab path content sep actor op s))) \<le> 1
    \<and> (length (fst (snd (call transport ab tool args s))) = 2 \<longrightarrow>
      tool \<in> set IDEMPOTENT_TOOLS \<and> (\<exists>e s1. callTool transport tool args s = (Inl e, s1) \<and> isRetryable (fst e)))"
  by (intro conjI no_id_no_call [OF assms] append_once call_retry)

definition down :: "nat transport" where
  "down tool args n = (Inl (Backend AvailabilityError, ''''), Suc n)"

theorem mutations_need_persisted_id_witness:
  "\<exists>e. writeImmutable down [''a''] False ''p'' ''c'' None None ''b'' 0 = (Inl e, [], 0)"
  using mutations_need_persisted_id [of "''b''" "[''a'']" down False "''p''" "''c''" None None 0] by simp

section \<open>Immutable writes over a store of pages\<close>

text \<open>
  What the adapter relies on of the server, with \<open>get\<close> the pages it holds: a read never
  changes them, answers with the page's text, and says \<open>not found\<close> only for an absent page; a
  write either leaves the pages alone or sets the written one, and it has set it when it
  succeeds. Any call may fail with any error, before or after its effect.
\<close>

definition kiwi_laws :: "'s transport \<Rightarrow> ('s \<Rightarrow> string \<Rightarrow> string option) \<Rightarrow> bool" where
  "kiwi_laws transport get =
     ((\<forall>args path s r s'. map_of args ''path'' = Some (JStr path) \<longrightarrow> callTool transport KiwiRead args s = (r, s') \<longrightarrow>
         get s' = get s
         \<and> (\<forall>res. r = Inr res \<longrightarrow> get s path = Some (res_text res) \<and> map_of (res_meta res) ''kiwi.not_modified'' \<noteq> Some (JBool True))
         \<and> (\<forall>e. r = Inl e \<longrightarrow> says_not_found (snd e) \<and> is_validation (fst e) \<longrightarrow> get s path = None))
      \<and> (\<forall>args path c s r s'. map_of args ''path'' = Some (JStr path) \<longrightarrow> map_of args ''content'' = Some (JStr c)
         \<longrightarrow> callTool transport KiwiWrite args s = (r, s') \<longrightarrow>
         (get s' = (get s)(path \<mapsto> c)) \<or> (get s' = get s \<and> \<not> is_ok r)))"

lemma kiwi_read_law:
  assumes "kiwi_laws transport get" "callTool transport KiwiRead args s = (r, s')" "map_of args ''path'' = Some (JStr path)"
  shows "get s' = get s" "r = Inr res \<Longrightarrow> get s path = Some (res_text res)"
    "r = Inr res \<Longrightarrow> map_of (res_meta res) ''kiwi.not_modified'' \<noteq> Some (JBool True)"
    "r = Inl e \<Longrightarrow> says_not_found (snd e) \<Longrightarrow> is_validation (fst e) \<Longrightarrow> get s path = None"
  using assms(1) [unfolded kiwi_laws_def, THEN conjunct1, rule_format, OF assms(3,2)] by simp_all

lemma kiwi_write_law:
  assumes "kiwi_laws transport get" "callTool transport KiwiWrite args s = (r, s')"
    "map_of args ''path'' = Some (JStr path)" "map_of args ''content'' = Some (JStr c)"
  shows "get s' = (get s)(path \<mapsto> c) \<or> (get s' = get s \<and> \<not> is_ok r)"
  by (rule assms(1) [unfolded kiwi_laws_def, THEN conjunct2, rule_format, OF assms(3,4,2)])

lemma call_read_law:
  assumes "kiwi_laws transport get" "call transport ab KiwiRead args s = (r, tr, s')" "map_of args ''path'' = Some (JStr path)"
  shows "get s' = get s \<and> (\<forall>res. r = Inr res \<longrightarrow> get s path = Some (res_text res)
      \<and> map_of (res_meta res) ''kiwi.not_modified'' \<noteq> Some (JBool True))
    \<and> (\<forall>e. r = Inl e \<longrightarrow> says_not_found (snd e) \<longrightarrow> is_validation (fst e) \<longrightarrow> get s path = None)"
proof -
  obtain r1 s1 where c1: "callTool transport KiwiRead args s = (r1, s1)" by (cases "callTool transport KiwiRead args s")
  obtain r2 s2 where c2: "callTool transport KiwiRead args s1 = (r2, s2)" by (cases "callTool transport KiwiRead args s1")
  note l1 = kiwi_read_law [OF assms(1) c1 assms(3)] and l2 = kiwi_read_law [OF assms(1) c2 assms(3)]
  consider "r = r1" "s' = s1" | "r = r2" "s' = s2"
    using assms(2) c1 c2 by (auto simp: call_def split: sum.splits if_splits)
  then show ?thesis by cases (use l1 l2 in auto)
qed

lemma call_write_law:
  assumes "kiwi_laws transport get" "call transport ab KiwiWrite args s = (r, tr, s')"
    "map_of args ''path'' = Some (JStr path)" "map_of args ''content'' = Some (JStr c)"
  shows "get s' = (get s)(path \<mapsto> c) \<or> (get s' = get s \<and> \<not> is_ok r)"
proof -
  obtain r1 s1 where c1: "callTool transport KiwiWrite args s = (r1, s1)" by (cases "callTool transport KiwiWrite args s")
  obtain r2 s2 where c2: "callTool transport KiwiWrite args s1 = (r2, s2)" by (cases "callTool transport KiwiWrite args s1")
  note l1 = kiwi_write_law [OF assms(1) c1 assms(3,4)] and l2 = kiwi_write_law [OF assms(1) c2 assms(3,4)]
  consider "r = r1" "s' = s1" | "r = r2" "s' = s2"
    using assms(2) c1 c2 by (auto simp: call_def split: sum.splits if_splits)
  then show ?thesis by cases (use l1 l2 in auto)
qed

lemma adapter_read_law:
  assumes "kiwi_laws transport get" "adapter_read transport ab path None s = (r, tr, s')"
  shows "get s' = get s \<and> (\<forall>rd. r = Inr rd \<longrightarrow> (rd_state rd = RdMissing \<and> get s path = None)
    \<or> (rd_state rd = RdOk \<and> rd_content rd = get s path \<and> get s path \<noteq> None))"
proof (cases "assertValidPath path")
  case None
  obtain r1 tr1 s1 where c: "call transport ab KiwiRead [(''path'', JStr path)] s = (r1, tr1, s1)"
    by (cases "call transport ab KiwiRead [(''path'', JStr path)] s") auto
  have l: "get s1 = get s" "\<And>res. r1 = Inr res \<Longrightarrow> get s path = Some (res_text res)"
    "\<And>res. r1 = Inr res \<Longrightarrow> map_of (res_meta res) ''kiwi.not_modified'' \<noteq> Some (JBool True)"
    "\<And>e. r1 = Inl e \<Longrightarrow> says_not_found (snd e) \<Longrightarrow> is_validation (fst e) \<Longrightarrow> get s path = None"
    using call_read_law [OF assms(1) c, of path] by auto
  show ?thesis
  proof (cases r1)
    case (Inl e)
    then show ?thesis
      using assms(2) None c l(1) l(4) [OF Inl] by (auto simp: adapter_read_def missing_read_def split: if_splits)
  next
    case (Inr res)
    then show ?thesis
      using assms(2) None c l(1) l(2,3) [OF Inr] by (auto simp: adapter_read_def read_result_def split: prod.splits)
  qed
qed (use assms(2) in \<open>auto simp: adapter_read_def\<close>)

lemma adapter_write_law:
  assumes "kiwi_laws transport get" "adapter_write transport ledger ab path content actor prov op s = (r, tr, s')"
  shows "get s' = (get s)(path \<mapsto> content) \<or> (get s' = get s \<and> \<not> is_ok r)"
proof -
  let ?args = "mutate_args path content op [(''actor'', actor), (''provenance'', prov)]"
  obtain r1 tr1 s1 where c: "call transport ab KiwiWrite ?args s = (r1, tr1, s1)"
    by (cases "call transport ab KiwiWrite ?args s") auto
  have "get s1 = (get s)(path \<mapsto> content) \<or> (get s1 = get s \<and> \<not> is_ok r1)"
    by (rule call_write_law [OF assms(1) c]) (simp_all add: mutate_args_def)
  then show ?thesis
    using assms(2) c by (auto simp: adapter_write_def split: option.splits sum.splits)
qed

text \<open>
  C5. An immutable write never overwrites: over a server that keeps the laws above, and
  whichever calls fail or are retried, a page that existed before is unchanged afterwards and
  no other page is touched; when the write reports success the page holds exactly the
  written content, and when the page held something else it reports a conflict or the
  read's own failure.
\<close>
theorem immutable_write_never_overwrites:
  assumes "kiwi_laws transport get"
    and "writeImmutable transport ledger ab path content actor prov op s = (r, tr, s')"
  shows "(\<forall>q. get s q \<noteq> None \<longrightarrow> get s' q = get s q) \<and> (\<forall>q. q \<noteq> path \<longrightarrow> get s' q = get s q)
    \<and> (is_ok r \<longrightarrow> get s' path = Some content)
    \<and> (\<forall>c. get s path = Some c \<longrightarrow> c \<noteq> content \<longrightarrow> \<not> is_ok r)"
proof -
  consider (early) "\<not> is_ok r" "s' = s"
    | (run) rr tr1 s1 where "adapter_read transport ab path None s = (rr, tr1, s1)"
      "(case rr of Inl e \<Rightarrow> (Inl e, tr1, s1)
        | Inr ex \<Rightarrow>
          if rd_state ex = RdOk \<and> rd_content ex \<noteq> None then
            (if rd_content ex = Some content then (Inr \<lparr>wr_etag = rd_etag ex, replayed = True\<rparr>, tr1, s1) else (Inl conflict, tr1, s1))
          else if rd_state ex = RdNotModified then (Inl conflict, tr1, s1)
          else (case adapter_write transport ledger ab path content actor prov op s1 of (r, tr', s2) \<Rightarrow> (r, tr1 @ tr', s2)))
        = (r, tr, s')"
    using assms(2) by (auto simp: writeImmutable_def split: option.splits prod.splits sum.splits)
  then show ?thesis
  proof cases
    case early
    then show ?thesis by auto
  next
    case run
    note l = adapter_read_law [OF assms(1) run(1)]
    show ?thesis
    proof (cases rr)
      case (Inl e)
      then show ?thesis using run l by auto
    next
      case (Inr ex)
      show ?thesis
      proof (cases "get s path")
        case None
        then have m: "rd_state ex = RdMissing" "get s1 = get s" using l Inr by auto
        obtain r2 tr2 s2 where w: "adapter_write transport ledger ab path content actor prov op s1 = (r2, tr2, s2)"
          by (cases "adapter_write transport ledger ab path content actor prov op s1") auto
        show ?thesis
          using adapter_write_law [OF assms(1) w] run(2) Inr w m None by auto
      next
        case (Some c)
        then show ?thesis using l run(2) Inr by (auto split: if_splits)
      qed
    qed
  qed
qed

text \<open>A server that keeps the laws: pages in a map.\<close>

definition mem_server :: "(string \<Rightarrow> string option) transport" where
  "mem_server tool args s =
     (let path = default_to '''' (meta_str (map_of args ''path'')); c = default_to '''' (meta_str (map_of args ''content'')) in
      case tool of
        KiwiRead \<Rightarrow> (case s path of None \<Rightarrow> (Inr \<lparr>isError = True, res_text = ''not found'', res_meta = []\<rparr>, s)
                     | Some t \<Rightarrow> (Inr \<lparr>isError = False, res_text = t, res_meta = []\<rparr>, s))
      | KiwiWrite \<Rightarrow> (Inr \<lparr>isError = False, res_text = ''Written'', res_meta = []\<rparr>, s(path \<mapsto> c))
      | _ \<Rightarrow> (Inl (Backend ValidationError, ''''), s))"

lemma mem_server_laws: "kiwi_laws mem_server (\<lambda>s. s)"
  by (auto simp: kiwi_laws_def callTool_def mem_server_def Let_def validation_def split: option.splits)

theorem immutable_write_never_overwrites_witness:
  "\<not> is_ok (fst (writeImmutable mem_server [''o''] False ''p'' ''new'' None None ''o'' [''p'' \<mapsto> ''old'']))"
proof -
  obtain r tr s' where w: "writeImmutable mem_server [''o''] False ''p'' ''new'' None None ''o'' [''p'' \<mapsto> ''old''] = (r, tr, s')"
    by (cases "writeImmutable mem_server [''o''] False ''p'' ''new'' None None ''o'' [''p'' \<mapsto> ''old'']") auto
  show ?thesis using immutable_write_never_overwrites [OF mem_server_laws w] w by auto
qed

end
