(* ===== verification/BoardRepository.thy ===== *)
theory BoardRepository
  imports BoardMessages Adapter
begin

text \<open>
  The board repository (src/board/repository.ts): sending, reading and listing messages with
  the client-side checks on everything the shared backend returns. The adapter's answers are
  arguments: the read of a path, the page of a metadata query at an offset, the immutable
  write. Private mode is the value of the gate at the call.
\<close>

definition BOARD_LIST_MAX :: int where "BOARD_LIST_MAX = 200"

section \<open>Board paths\<close>

text \<open>The part of a path after \<open>board/{channel}/\<close>, with the channel.\<close>

definition board_parts :: "string \<Rightarrow> (string \<times> string) option" where
  "board_parts path =
     (case strip_prefix ''board/'' path of
        None \<Rightarrow> None
      | Some r \<Rightarrow>
          (let ch = takeWhile (\<lambda>c. c \<noteq> slash) r; u = dropWhile (\<lambda>c. c \<noteq> slash) r
           in if u \<noteq> [] \<and> ID_GRAMMAR ch then Some (ch, tl u) else None))"

definition boardChannelOfPath :: "string \<Rightarrow> string option" where
  "boardChannelOfPath path =
     (case board_parts path of
        None \<Rightarrow> None
      | Some (ch, _) \<Rightarrow> if pathWithinBoardChannel path ch = Inr True then Some ch else None)"

definition boardMsgIdOfPath :: "string \<Rightarrow> string option" where
  "boardMsgIdOfPath path =
     (case board_parts path of
        None \<Rightarrow> None
      | Some (_, r) \<Rightarrow>
          (let i = takeWhile is_hex r
           in if 16 \<le> length i \<and> length i \<le> 64 \<and> dropWhile is_hex r = ''.md'' then Some i else None))"

section \<open>Reading\<close>

datatype read_failure =
    BMissing | BExpired | BMalformed | BFutureVersion | BUnsupportedVersion | BOutOfChannel | BBadRequest | BUnavailable

record BoardMessage =
  br_msgId :: string
  br_to :: string
  br_from :: string
  br_channel :: string
  br_created :: string
  br_ttl :: "js_num option"
  br_expired :: bool
  br_etag :: "string option"
  br_body :: string

datatype ReadResult = BrOk BoardMessage | BrFail read_failure

fun parse_failure :: "fail_reason \<Rightarrow> read_failure" where
  "parse_failure RMalformed = BMalformed"
| "parse_failure RFutureVersion = BFutureVersion"
| "parse_failure RUnsupportedVersion = BUnsupportedVersion"

fun finite_ttl :: "js_num option \<Rightarrow> js_num option" where
  "finite_ttl (Some (Fin q)) = Some (Fin q)"
| "finite_ttl _ = None"

definition read_message ::
  "(string \<Rightarrow> ms option) \<Rightarrow> ms \<Rightarrow> bool \<Rightarrow> string option \<Rightarrow> string \<Rightarrow> ReadResult" where
  "read_message date_parse now includeExpired etag content =
     (case parseBoardMessage date_parse content now of
        MsgFail r \<Rightarrow> BrFail (parse_failure r)
      | MsgOk r _ \<Rightarrow>
          (let fm = frontmatter r;
               ttl = (case fm_ttl fm of None \<Rightarrow> None | Some t \<Rightarrow> if t \<noteq> '''' then Some (js_number t) else None);
               expired = isExpired date_parse (fm_created fm) ttl now
           in if expired \<and> \<not> includeExpired then BrFail BExpired
              else BrOk \<lparr>br_msgId = fm_id fm, br_to = default_to '''' (fm_to fm), br_from = default_to '''' (fm_from fm),
                br_channel = default_to '''' (fm_channel fm), br_created = fm_created fm, br_ttl = finite_ttl ttl,
                br_expired = expired, br_etag = etag, br_body = body r\<rparr>))"

definition repo_read ::
  "(string \<Rightarrow> ms option) \<Rightarrow> bool \<Rightarrow> ms \<Rightarrow> bool \<Rightarrow> (string \<Rightarrow> exn + AdapterRead) \<Rightarrow> string \<Rightarrow> exn + ReadResult" where
  "repo_read date_parse isPrivate now includeExpired ad_read path =
     (if isPrivate then Inl PrivateModeActive
      else (case boardChannelOfPath path of
              None \<Rightarrow> Inr (BrFail BBadRequest)
            | Some _ \<Rightarrow>
                (case ad_read path of
                   Inl e \<Rightarrow>
                     if isRetryable e then Inr (BrFail BUnavailable)
                     else if e = Backend CancelledError then Inl e
                     else Inr (BrFail BMissing)
                 | Inr raw \<Rightarrow>
                     if rd_state raw = RdMissing then Inr (BrFail BMissing)
                     else (case rd_content raw of
                             None \<Rightarrow> Inr (BrFail BMissing)
                           | Some content \<Rightarrow>
                               if rd_state raw \<noteq> RdOk then Inr (BrFail BMissing)
                               else Inr (read_message date_parse now includeExpired (rd_etag raw) content)))))"

section \<open>Sending\<close>

datatype SendResult = SentOk string string bool | SentCollision string

definition repo_send ::
  "(string \<Rightarrow> string) \<Rightarrow> (ms \<Rightarrow> string) \<Rightarrow> bool \<Rightarrow> (string \<Rightarrow> string option) option \<Rightarrow> ms
   \<Rightarrow> (string \<times> string \<times> string \<Rightarrow> exn + bool) \<Rightarrow> BoardMessageInput \<Rightarrow> string \<Rightarrow> exn + SendResult" where
  "repo_send sha256 isoString isPrivate redact now write inp op =
     (if isPrivate then Inl PrivateModeActive
      else (case validateBoardIdentities (bi_channel inp) (bi_from inp) (bi_to inp) of
        Inl _ \<Rightarrow> Inl (Backend PathEscapeError)
      | Inr _ \<Rightarrow>
          (case (case redact of None \<Rightarrow> Some (bi_body inp) | Some f \<Rightarrow> f (bi_body inp)) of
             None \<Rightarrow> Inl (Backend PrivacyGateError)
           | Some bd \<Rightarrow>
               (case buildBoardMessage sha256 isoString (inp\<lparr>bi_body := bd\<rparr>) op now of
                  Inl e \<Rightarrow> Inl e
                | Inr b \<Rightarrow>
                    (case write (bm_path b, bm_content b, op) of
                       Inr rep \<Rightarrow> Inr (SentOk (bm_msgId b) (bm_path b) rep)
                     | Inl e \<Rightarrow> if e = Backend ConflictError then Inr (SentCollision (bm_path b)) else Inl e)))))"

section \<open>Listing\<close>

text \<open>\<open>/^path:\s*(\S+)/\<close> on one line of a query result.\<close>

definition path_of_line :: "string \<Rightarrow> string option" where
  "path_of_line line =
     (case strip_prefix ''path:'' line of
        None \<Rightarrow> None
      | Some r \<Rightarrow>
          (let p = takeWhile (\<lambda>c. \<not> is_space c) (dropWhile is_space r) in if p \<noteq> [] then Some p else None))"

definition page_paths :: "string \<Rightarrow> string list" where
  "page_paths text = List.map_filter path_of_line (split_on nl text)"

text \<open>The paths of one page kept for a channel, after those seen already.\<close>

definition keep_path :: "string \<Rightarrow> string list \<Rightarrow> string \<Rightarrow> string list" where
  "keep_path channel seen p =
     (if pathWithinBoardChannel p channel \<noteq> Inr True then seen else if p \<in> set seen then seen else seen @ [p])"

type_synonym query = "nat \<Rightarrow> int \<Rightarrow> exn + string"

fun list_loop :: "query \<Rightarrow> string \<Rightarrow> int \<Rightarrow> nat \<Rightarrow> nat \<Rightarrow> int \<Rightarrow> string list \<Rightarrow> exn + string list" where
  "list_loop q channel limit page 0 offset seen = Inr seen"
| "list_loop q channel limit page (Suc n) offset seen =
     (case q page offset of
        Inl e \<Rightarrow> Inl e
      | Inr text \<Rightarrow>
          (let raw = page_paths text; seen' = foldl (keep_path channel) seen raw in
           if int (length seen') \<ge> limit \<or> raw = [] \<or> length seen' = length seen then Inr seen'
           else list_loop q channel limit (Suc page) n (offset + limit) seen'))"

datatype ListResult = ListOk "string list" | ListBadRequest

definition repo_list ::
  "bool \<Rightarrow> query \<Rightarrow> string \<Rightarrow> string option \<Rightarrow> int option \<Rightarrow> int option \<Rightarrow> nat option \<Rightarrow> exn + ListResult" where
  "repo_list isPrivate q channel to limit offset maxPages =
     (if isPrivate then Inl PrivateModeActive
      else if \<not> is_ok (validateId ''channel'' channel) \<or> (case to of None \<Rightarrow> False | Some t \<Rightarrow> \<not> is_ok (validateId ''to'' t))
        then Inr ListBadRequest
      else
        (let lim = (case limit of Some l \<Rightarrow> min (max 1 l) BOARD_LIST_MAX | None \<Rightarrow> BOARD_LIST_MAX)
         in case list_loop q channel lim 0 (default_to 10 maxPages) (default_to 0 offset) [] of
              Inl e \<Rightarrow> Inl e
            | Inr seen \<Rightarrow> Inr (ListOk (take (nat lim) seen))))"

text \<open>One page of the cross-channel discovery: the paths seen and whether the path bound stopped it.\<close>

fun discover_page :: "string set \<Rightarrow> nat \<Rightarrow> string list \<Rightarrow> string list \<Rightarrow> string list \<times> bool" where
  "discover_page exclude maxPaths seen [] = (seen, False)"
| "discover_page exclude maxPaths seen (p # ps) =
     (if boardChannelOfPath p = None \<or> boardMsgIdOfPath p = None \<or> p \<in> exclude \<or> p \<in> set seen
      then discover_page exclude maxPaths seen ps
      else if length seen \<ge> maxPaths then (seen, True)
      else discover_page exclude maxPaths (seen @ [p]) ps)"

fun discover_loop :: "query \<Rightarrow> string set \<Rightarrow> nat \<Rightarrow> nat \<Rightarrow> nat \<Rightarrow> int \<Rightarrow> string list \<Rightarrow> bool \<Rightarrow> exn + (string list \<times> bool)" where
  "discover_loop q exclude maxPaths page 0 offset seen lastRaw = Inr (seen, lastRaw)"
| "discover_loop q exclude maxPaths page (Suc n) offset seen lastRaw =
     (case q page offset of
        Inl e \<Rightarrow> Inl e
      | Inr text \<Rightarrow>
          (let raw = page_paths text in
           case discover_page exclude maxPaths seen raw of
             (seen', truncated) \<Rightarrow>
               if raw = [] \<or> truncated then Inr (seen', truncated \<or> raw \<noteq> [])
               else discover_loop q exclude maxPaths (Suc page) n (offset + BOARD_LIST_MAX) seen' True))"

definition listAllBoardMessagePaths ::
  "bool \<Rightarrow> query \<Rightarrow> nat option \<Rightarrow> nat option \<Rightarrow> string set \<Rightarrow> exn + (string list \<times> bool)" where
  "listAllBoardMessagePaths isPrivate q maxPaths maxPages exclude =
     (if isPrivate then Inl PrivateModeActive
      else discover_loop q exclude (max 1 (default_to 1000 maxPaths)) 0 (default_to 20 maxPages) 0 [] False)"

section \<open>What a listing returns\<close>

lemma foldl_keep:
  "distinct seen \<and> (\<forall>p \<in> set seen. pathWithinBoardChannel p ch = Inr True) \<Longrightarrow>
   distinct (foldl (keep_path ch) seen ps) \<and> (\<forall>p \<in> set (foldl (keep_path ch) seen ps). pathWithinBoardChannel p ch = Inr True)"
proof (induction ps arbitrary: seen)
  case (Cons p ps)
  have "distinct (keep_path ch seen p) \<and> (\<forall>p \<in> set (keep_path ch seen p). pathWithinBoardChannel p ch = Inr True)"
    using Cons.prems by (auto simp: keep_path_def)
  then show ?case using Cons.IH by simp
qed simp

lemma list_loop_contained:
  "list_loop q ch limit page n offset seen = Inr res \<Longrightarrow>
   distinct seen \<and> (\<forall>p \<in> set seen. pathWithinBoardChannel p ch = Inr True) \<Longrightarrow>
   distinct res \<and> (\<forall>p \<in> set res. pathWithinBoardChannel p ch = Inr True)"
proof (induction q ch limit page n offset seen rule: list_loop.induct)
  case (2 q ch limit page n offset seen)
  then obtain tx where t: "q page offset = Inr tx" by (auto split: sum.splits)
  then show ?case
    using 2 foldl_keep [of seen ch "page_paths tx"] by (auto simp: Let_def split: if_splits)
qed simp

lemma repo_list_contained:
  assumes "repo_list priv q ch to limit offset maxPages = Inr (ListOk ps)"
  shows "distinct ps \<and> int (length ps) \<le> BOARD_LIST_MAX \<and> (\<forall>p \<in> set ps. pathWithinBoardChannel p ch = Inr True)"
proof -
  let ?lim = "case limit of Some l \<Rightarrow> min (max 1 l) BOARD_LIST_MAX | None \<Rightarrow> BOARD_LIST_MAX"
  obtain seen where s: "list_loop q ch ?lim 0 (default_to 10 maxPages) (default_to 0 offset) [] = Inr seen"
    "ps = take (nat ?lim) seen"
    using assms by (auto simp: repo_list_def Let_def split: if_splits sum.splits)
  have "distinct seen \<and> (\<forall>p \<in> set seen. pathWithinBoardChannel p ch = Inr True)"
    by (rule list_loop_contained [OF s(1)]) simp
  moreover have "nat ?lim \<le> nat BOARD_LIST_MAX" by (auto simp: BOARD_LIST_MAX_def split: option.split)
  ultimately show ?thesis using s(2) by (auto simp: BOARD_LIST_MAX_def dest: in_set_takeD)
qed

definition board_shaped :: "string \<Rightarrow> bool" where
  "board_shaped p = (boardChannelOfPath p \<noteq> None \<and> boardMsgIdOfPath p \<noteq> None)"

definition discovered_ok :: "string set \<Rightarrow> nat \<Rightarrow> string list \<Rightarrow> bool" where
  "discovered_ok exclude maxPaths seen =
     (distinct seen \<and> length seen \<le> maxPaths \<and> (\<forall>p \<in> set seen. board_shaped p \<and> p \<notin> exclude))"

lemma discover_page_ok:
  "discover_page exclude maxPaths seen ps = (seen', tr) \<Longrightarrow> discovered_ok exclude maxPaths seen
   \<Longrightarrow> discovered_ok exclude maxPaths seen' \<and> set seen \<subseteq> set seen'
      \<and> (\<not> tr \<longrightarrow> (\<forall>p \<in> set ps. board_shaped p \<longrightarrow> p \<notin> exclude \<longrightarrow> p \<in> set seen'))"
proof (induction exclude maxPaths seen ps rule: discover_page.induct)
  case (2 exclude maxPaths seen p ps)
  show ?case
  proof (cases "boardChannelOfPath p = None \<or> boardMsgIdOfPath p = None \<or> p \<in> exclude \<or> p \<in> set seen")
    case True
    then show ?thesis using 2 by (auto simp: board_shaped_def)
  next
    case False
    then have "length seen < maxPaths \<Longrightarrow> discovered_ok exclude maxPaths (seen @ [p])"
      using 2(4) by (auto simp: discovered_ok_def board_shaped_def)
    then show ?thesis using 2 False by (auto split: if_splits)
  qed
qed simp

text \<open>The pages a discovery read: page numbers from \<open>k\<close>, each not empty.\<close>

definition pages_read :: "query \<Rightarrow> nat \<Rightarrow> string list list \<Rightarrow> bool" where
  "pages_read q m raws =
     (\<forall>i < length raws. \<exists>text. q (m + i) (int (m + i) * BOARD_LIST_MAX) = Inr text \<and> page_paths text = raws ! i)"

lemma pages_read_Cons:
  "q m (int m * BOARD_LIST_MAX) = Inr text \<Longrightarrow> pages_read q (Suc m) raws \<Longrightarrow> pages_read q m (page_paths text # raws)"
  by (auto simp: pages_read_def nth_Cons algebra_simps split: nat.split)

lemma discover_loop_ok:
  "discover_loop q exclude maxPaths page n (int page * BOARD_LIST_MAX) seen lastRaw = Inr (seen', tr) \<Longrightarrow>
   discovered_ok exclude maxPaths seen \<Longrightarrow>
   discovered_ok exclude maxPaths seen' \<and> set seen \<subseteq> set seen'
   \<and> (\<not> tr \<longrightarrow> (\<not> lastRaw \<and> n = 0) \<or> (\<exists>raws. raws \<noteq> [] \<and> length raws \<le> n \<and> last raws = [] \<and> pages_read q page raws
       \<and> (\<forall>ps \<in> set raws. \<forall>p \<in> set ps. board_shaped p \<longrightarrow> p \<notin> exclude \<longrightarrow> p \<in> set seen')))"
proof (induction n arbitrary: page seen lastRaw)
  case (Suc n)
  obtain tx where t: "q page (int page * BOARD_LIST_MAX) = Inr tx"
    using Suc.prems(1) by (auto split: sum.splits)
  obtain s1 tr1 where d: "discover_page exclude maxPaths seen (page_paths tx) = (s1, tr1)"
    by (cases "discover_page exclude maxPaths seen (page_paths tx)")
  note ok = discover_page_ok [OF d Suc.prems(2)]
  show ?case
  proof (cases "page_paths tx = [] \<or> tr1")
    case True
    then have r: "seen' = s1" "tr \<longleftrightarrow> tr1 \<or> page_paths tx \<noteq> []"
      using Suc.prems(1) t d by auto
    show ?thesis
    proof (intro conjI impI disjI2)
      assume "\<not> tr"
      then have e: "page_paths tx = []" using r by simp
      have "pages_read q page [[]]"
        using pages_read_Cons [of q page tx "[]"] t e by (simp add: pages_read_def)
      then show "\<exists>raws. raws \<noteq> [] \<and> length raws \<le> Suc n \<and> last raws = [] \<and> pages_read q page raws
         \<and> (\<forall>ps \<in> set raws. \<forall>p \<in> set ps. board_shaped p \<longrightarrow> p \<notin> exclude \<longrightarrow> p \<in> set seen')"
        by (intro exI [of _ "[[]]"]) simp
    qed (use ok r in auto)
  next
    case False
    have off: "int page * BOARD_LIST_MAX + BOARD_LIST_MAX = int (Suc page) * BOARD_LIST_MAX"
      by (simp add: BOARD_LIST_MAX_def)
    have step: "discover_loop q exclude maxPaths (Suc page) n (int (Suc page) * BOARD_LIST_MAX) s1 True = Inr (seen', tr)"
      using Suc.prems(1) t d False off by simp
    have rec: "discovered_ok exclude maxPaths seen'" "set s1 \<subseteq> set seen'"
      "\<not> tr \<Longrightarrow> \<exists>raws. raws \<noteq> [] \<and> length raws \<le> n \<and> last raws = [] \<and> pages_read q (Suc page) raws
       \<and> (\<forall>ps \<in> set raws. \<forall>p \<in> set ps. board_shaped p \<longrightarrow> p \<notin> exclude \<longrightarrow> p \<in> set seen')"
      using Suc.IH [OF step] ok by auto
    show ?thesis
    proof (intro conjI impI disjI2)
      assume "\<not> tr"
      then obtain raws where w: "raws \<noteq> []" "length raws \<le> n" "last raws = []" "pages_read q (Suc page) raws"
        "\<forall>ps \<in> set raws. \<forall>p \<in> set ps. board_shaped p \<longrightarrow> p \<notin> exclude \<longrightarrow> p \<in> set seen'"
        using rec(3) by blast
      have "\<forall>ps \<in> set (page_paths tx # raws). \<forall>p \<in> set ps. board_shaped p \<longrightarrow> p \<notin> exclude \<longrightarrow> p \<in> set seen'"
        using w(5) ok False rec(2) by auto
      then show "\<exists>raws. raws \<noteq> [] \<and> length raws \<le> Suc n \<and> last raws = [] \<and> pages_read q page raws
         \<and> (\<forall>ps \<in> set raws. \<forall>p \<in> set ps. board_shaped p \<longrightarrow> p \<notin> exclude \<longrightarrow> p \<in> set seen')"
        using w pages_read_Cons [OF t w(4)] by (intro exI [of _ "page_paths tx # raws"]) simp
    qed (use ok rec in auto)
  qed
qed simp

text \<open>
  Fallback discovery is contained, bounded and honest: whatever the backend answers, the
  paths are distinct, no more than the bound, each a well-formed board message path and none
  that was handled already; and unless truncation is disclosed (or no page was allowed), the
  pages were read up to an empty one and every unhandled board path on them is returned.
\<close>
theorem discovery_is_contained_and_honest:
  assumes "listAllBoardMessagePaths False q maxPaths maxPages exclude = Inr (paths, truncated)"
  shows "discovered_ok exclude (max 1 (default_to 1000 maxPaths)) paths
    \<and> (\<not> truncated \<longrightarrow> maxPages = Some 0 \<or> (\<exists>raws. raws \<noteq> [] \<and> last raws = [] \<and> pages_read q 0 raws
        \<and> (\<forall>ps \<in> set raws. \<forall>p \<in> set ps. board_shaped p \<longrightarrow> p \<notin> exclude \<longrightarrow> p \<in> set paths)))"
proof -
  let ?m = "max 1 (default_to 1000 maxPaths)" and ?n = "default_to 20 maxPages"
  have l: "discover_loop q exclude ?m 0 ?n (int 0 * BOARD_LIST_MAX) [] False = Inr (paths, truncated)"
    using assms by (simp add: listAllBoardMessagePaths_def)
  have "discovered_ok exclude ?m []" by (simp add: discovered_ok_def)
  from discover_loop_ok [OF l this] show ?thesis
    by (cases maxPages) auto
qed

definition one_listing :: query where
  "one_listing page offset = Inr (if page = 0 then ''path: board/dev/0123456789abcdef.md'' else '''')"

lemma one_listing_run:
  "listAllBoardMessagePaths False one_listing None None {} = Inr ([''board/dev/0123456789abcdef.md''], False)"
  by code_simp

theorem discovery_is_contained_and_honest_witness:
  "discovered_ok {} 1000 [''board/dev/0123456789abcdef.md'']"
  using discovery_is_contained_and_honest [OF one_listing_run] by simp

end
