(* ===== verification/BoardDelivery.thy ===== *)
theory BoardDelivery
  imports BoardRepository
begin

text \<open>
  Board delivery (src/board/delivery.ts): the durable per-consumer state with its bounded
  dedupe set, the local acknowledgment and garbage collection, the polling interval, the
  status, and one delivery cycle with its changes feed, fallback listing, reads, skips and
  deliveries. The file holds a state, a JSON value that is none, or bytes that are no JSON.
  What the outside answers during a cycle is a record of functions (\<open>cycle_env\<close>): the feed
  page by page, the listing, the adapter's reads, the gate at each of its checks, the
  deliver callback, the clock, the outcome of each durable write, and the collation rank
  that \<open>localeCompare\<close> orders by.
\<close>

definition DELIVERY_SCHEMA_VERSION :: int where "DELIVERY_SCHEMA_VERSION = 1"
definition ACTIVE_POLL_MS :: int where "ACTIVE_POLL_MS = 60000"
definition EMPTY_POLLS_BEFORE_BACKOFF :: int where "EMPTY_POLLS_BEFORE_BACKOFF = 3"
definition BACKOFF_BASE_MS :: int where "BACKOFF_BASE_MS = 60000"
definition BACKOFF_CAP_MS :: int where "BACKOFF_CAP_MS = 15 * 60000"
definition BACKLOG_PAUSE_THRESHOLD :: nat where "BACKLOG_PAUSE_THRESHOLD = 500"
definition MAX_CHANGES_PAGES_PER_CYCLE :: nat where "MAX_CHANGES_PAGES_PER_CYCLE = 20"
definition MAX_TRACKED_ENTRIES :: nat where "MAX_TRACKED_ENTRIES = 2000"
definition ACK_RETENTION_MS :: ms where "ACK_RETENTION_MS = 14 * 24 * 60 * 60 * 1000"

section \<open>The delivery state\<close>

datatype DeliveryEntrySkip = SkExpired | SkUnauthorized | SkMissing | SkMalformed

record DeliveryEntry =
  e_msgId :: string
  e_path :: string
  e_channel :: string
  deliveredAt :: "ms option"
  e_ackedAt :: "ms option"
  skip :: "DeliveryEntrySkip option"
  skippedAt :: "ms option"

record DeliveryState =
  consumerId :: string
  ds_lastSeq :: "string option"
  entries :: "DeliveryEntry dict"

datatype delivery_file = NotJson | NotState | StateFile int DeliveryState

type_synonym delivery_fs = "delivery_file option"

datatype delivery_error = StateCorrupt | StateNewer int | StateIo

definition new_entry :: "string \<Rightarrow> string \<Rightarrow> string \<Rightarrow> DeliveryEntry" where
  "new_entry i path ch = \<lparr>e_msgId = i, e_path = path, e_channel = ch, deliveredAt = None, e_ackedAt = None,
     skip = None, skippedAt = None\<rparr>"

definition settled :: "DeliveryEntry \<Rightarrow> bool" where
  "settled e = (e_ackedAt e \<noteq> None \<or> skip e \<noteq> None)"

text \<open>\<open>e.ackedAt ?? e.skippedAt ?? e.deliveredAt ?? 0\<close>.\<close>

definition age_key :: "DeliveryEntry \<Rightarrow> ms" where
  "age_key e =
     (case e_ackedAt e of Some t \<Rightarrow> t
      | None \<Rightarrow> (case skippedAt e of Some t \<Rightarrow> t | None \<Rightarrow> default_to 0 (deliveredAt e)))"

definition latest :: "DeliveryEntry list \<Rightarrow> ms" where
  "latest es =
     foldl (\<lambda>n e. max n (max (default_to 0 (deliveredAt e)) (max (default_to 0 (e_ackedAt e)) (default_to 0 (skippedAt e))))) 0 es"

definition prune_acked :: "ms \<Rightarrow> DeliveryEntry dict \<Rightarrow> DeliveryEntry dict" where
  "prune_acked now es =
     filter (\<lambda>(_, e). \<not> (case e_ackedAt e of None \<Rightarrow> False | Some t \<Rightarrow> now - t > ACK_RETENTION_MS)) es"

text \<open>Eviction of the oldest settled entries while the set is over its bound.\<close>

fun evict :: "int \<Rightarrow> DeliveryEntry list \<Rightarrow> DeliveryEntry dict \<Rightarrow> DeliveryEntry dict" where
  "evict over [] es = es"
| "evict over (e # rest) es =
     (if over \<le> 0 then es
      else if settled e then evict (over - 1) rest (AList.delete (e_msgId e) es)
      else evict over rest es)"

definition compact :: "DeliveryEntry dict \<Rightarrow> DeliveryEntry dict" where
  "compact es =
     (let es1 = prune_acked (latest (map snd es)) es;
          sorted = sort_key age_key (map snd es1)
      in evict (int (length es1) - int MAX_TRACKED_ENTRIES) sorted es1)"

text \<open>\<open>save()\<close>: whether it returned, the state it left in memory, and the file.\<close>

definition save_state :: "io \<Rightarrow> DeliveryState \<Rightarrow> delivery_fs \<Rightarrow> bool \<times> DeliveryState \<times> delivery_fs" where
  "save_state io st fs =
     (let st' = st\<lparr>entries := compact (entries st)\<rparr>
      in case atomic_write io (StateFile DELIVERY_SCHEMA_VERSION st') fs of (ok, fs') \<Rightarrow> (ok, st', fs'))"

definition open_delivery :: "string \<Rightarrow> io \<Rightarrow> delivery_fs \<Rightarrow> (delivery_error + DeliveryState) \<times> delivery_fs" where
  "open_delivery consumer io fs =
     (case fs of
        Some NotJson \<Rightarrow> (Inl StateCorrupt, fs)
      | Some NotState \<Rightarrow> (Inl StateCorrupt, fs)
      | Some (StateFile v st) \<Rightarrow>
          if consumerId st \<noteq> consumer then (Inl StateCorrupt, fs)
          else if v > DELIVERY_SCHEMA_VERSION then (Inl (StateNewer v), fs)
          else (Inr st, fs)
      | None \<Rightarrow>
          (case save_state io \<lparr>consumerId = consumer, ds_lastSeq = None, entries = []\<rparr> fs of
             (True, st, fs') \<Rightarrow> (Inr st, fs')
           | (False, st, fs') \<Rightarrow> (Inl StateIo, fs')))"

definition getEntry :: "DeliveryState \<Rightarrow> string \<Rightarrow> DeliveryEntry option" where
  "getEntry st i = map_of (entries st) i"

definition unreadCount :: "DeliveryState \<Rightarrow> nat" where
  "unreadCount st =
     length (filter (\<lambda>(_, e). (deliveredAt e \<noteq> None \<and> e_ackedAt e = None) \<or> (deliveredAt e = None \<and> skip e = None))
       (entries st))"

definition setLastSeq :: "string \<Rightarrow> io \<Rightarrow> DeliveryState \<Rightarrow> delivery_fs \<Rightarrow> bool \<times> DeliveryState \<times> delivery_fs" where
  "setLastSeq sq io st fs = save_state io (st\<lparr>ds_lastSeq := Some sq\<rparr>) fs"

definition put_entry :: "DeliveryEntry \<Rightarrow> DeliveryState \<Rightarrow> DeliveryState" where
  "put_entry e st = st\<lparr>entries := AList.update (e_msgId e) e (entries st)\<rparr>"

definition recordDelivered :: "DeliveryEntry \<Rightarrow> ms \<Rightarrow> io \<Rightarrow> DeliveryState \<Rightarrow> delivery_fs \<Rightarrow> bool \<times> DeliveryState \<times> delivery_fs" where
  "recordDelivered e now io st fs = save_state io (put_entry (e\<lparr>deliveredAt := Some now\<rparr>) st) fs"

definition recordSkip ::
  "DeliveryEntry \<Rightarrow> DeliveryEntrySkip \<Rightarrow> ms \<Rightarrow> io \<Rightarrow> DeliveryState \<Rightarrow> delivery_fs \<Rightarrow> bool \<times> DeliveryState \<times> delivery_fs" where
  "recordSkip e sk now io st fs = save_state io (put_entry (e\<lparr>skip := Some sk, skippedAt := Some now\<rparr>) st) fs"

text \<open>Local acknowledgment: \<open>Inl\<close> when the save throws.\<close>

definition recordAck ::
  "string \<Rightarrow> ms \<Rightarrow> io \<Rightarrow> DeliveryState \<Rightarrow> delivery_fs \<Rightarrow> (delivery_error + bool) \<times> DeliveryState \<times> delivery_fs" where
  "recordAck i now io st fs =
     (case getEntry st i of
        None \<Rightarrow> (Inr False, st, fs)
      | Some e \<Rightarrow>
          if e_ackedAt e \<noteq> None then (Inr True, st, fs)
          else (case save_state io (st\<lparr>entries := AList.update i (e\<lparr>e_ackedAt := Some now\<rparr>) (entries st)\<rparr>) fs of
                  (ok, st', fs') \<Rightarrow> (if ok then Inr True else Inl StateIo, st', fs')))"

definition gc_removes :: "ms \<Rightarrow> DeliveryEntry \<Rightarrow> bool" where
  "gc_removes now e =
     (case e_ackedAt e of
        Some t \<Rightarrow> now - t > ACK_RETENTION_MS
      | None \<Rightarrow> (case skippedAt e of None \<Rightarrow> False | Some t \<Rightarrow> now - t > ACK_RETENTION_MS))"

definition gc :: "ms \<Rightarrow> io \<Rightarrow> DeliveryState \<Rightarrow> delivery_fs \<Rightarrow> (delivery_error + nat) \<times> DeliveryState \<times> delivery_fs" where
  "gc now io st fs =
     (let keep = filter (\<lambda>(_, e). \<not> gc_removes now e) (entries st);
          removed = length (entries st) - length keep
      in if removed > 0
         then (case save_state io (st\<lparr>entries := keep\<rparr>) fs of
                 (ok, st', fs') \<Rightarrow> (if ok then Inr removed else Inl StateIo, st', fs'))
         else (Inr 0, st, fs))"

section \<open>Polling\<close>

record BoardDelivery =
  recipient :: "string option"
  activePollMs :: int
  backoffBaseMs :: int
  backoffCapMs :: int
  backlogPauseAt :: nat
  maxChangesPages :: nat
  maxListingPaths :: nat
  maxListingPages :: nat
  running :: bool
  stopped :: bool
  consecutiveEmptyPolls :: int
  lastCycleAt :: "ms option"
  bd_lastError :: "string option"
  lastDiscoveryFallback :: bool

definition nextIntervalMs :: "BoardDelivery \<Rightarrow> int" where
  "nextIntervalMs bd =
     (let over = consecutiveEmptyPolls bd - EMPTY_POLLS_BEFORE_BACKOFF
      in if over \<le> 0 then activePollMs bd
         else min (backoffCapMs bd) (backoffBaseMs bd * 2 ^ nat (min over 8)))"

datatype DeliveryRunState = RsIdle | RsPolling | RsBackoff | RsBacklogPaused | RsPrivate | RsStopped

record DeliveryStatus =
  runState :: DeliveryRunState
  unread :: nat
  st_emptyPolls :: int
  nextPollInMs :: "int option"
  st_lastCycleAt :: "ms option"
  st_lastError :: "string option"
  st_discoveryFallback :: bool

definition statusSnapshot :: "bool \<Rightarrow> BoardDelivery \<Rightarrow> DeliveryState \<Rightarrow> DeliveryStatus" where
  "statusSnapshot isPrivate bd st =
     (let n = unreadCount st;
          pausedForBacklog = (n \<ge> backlogPauseAt bd);
          rs = (if stopped bd then RsStopped
                else if running bd then RsPolling
                else if isPrivate then RsPrivate
                else if pausedForBacklog then RsBacklogPaused
                else if consecutiveEmptyPolls bd \<ge> EMPTY_POLLS_BEFORE_BACKOFF then RsBackoff
                else RsIdle)
      in \<lparr>runState = rs, unread = n, st_emptyPolls = consecutiveEmptyPolls bd,
          nextPollInMs = (if \<not> stopped bd \<and> \<not> running bd \<and> \<not> pausedForBacklog then Some (nextIntervalMs bd) else None),
          st_lastCycleAt = lastCycleAt bd, st_lastError = bd_lastError bd,
          st_discoveryFallback = lastDiscoveryFallback bd\<rparr>)"

definition stop :: "BoardDelivery \<Rightarrow> BoardDelivery" where
  "stop bd = bd\<lparr>stopped := True\<rparr>"

section \<open>One cycle\<close>

datatype pause_reason = PBacklog | PPrivate | PUnavailable

record CycleResult =
  cr_pages :: nat
  cr_changes :: nat
  delivered :: "string list"
  skipped :: "(string \<times> DeliveryEntrySkip) list"
  cr_paused :: bool
  pauseReason :: "pause_reason option"
  discoveryFallback :: bool
  listingTruncated :: bool

definition empty_cycle :: CycleResult where
  "empty_cycle = \<lparr>cr_pages = 0, cr_changes = 0, delivered = [], skipped = [], cr_paused = False, pauseReason = None,
     discoveryFallback = False, listingTruncated = False\<rparr>"

record cycle_env =
  ce_now :: ms
  ce_private :: bool
  ce_changes :: "nat \<Rightarrow> string \<Rightarrow> exn + (string list \<times> string option)"
  ce_query :: query
  ce_privateListing :: bool
  ce_privateRead :: "string \<Rightarrow> bool"
  ce_privateRepo :: "string \<Rightarrow> bool"
  ce_read :: "string \<Rightarrow> exn + AdapterRead"
  ce_readAt :: "string \<Rightarrow> ms"
  ce_date_parse :: "string \<Rightarrow> ms option"
  ce_collate :: "string \<Rightarrow> int"
  ce_privateDeliver :: "string \<Rightarrow> bool"
  ce_deliver :: "string \<Rightarrow> exn option"
  ce_time :: "string \<Rightarrow> ms"
  ce_io :: "string \<Rightarrow> io"
  ce_ioCursor :: io

record pending_msg =
  p_path :: string
  p_msgId :: string
  p_channel :: string

text \<open>Board paths of a page that are neither in the dedupe set nor seen this cycle.\<close>

fun collect :: "DeliveryState \<Rightarrow> pending_msg list \<Rightarrow> string list \<Rightarrow> pending_msg list" where
  "collect st pend [] = pend"
| "collect st pend (path # paths) =
     (case (boardChannelOfPath path, boardMsgIdOfPath path) of
        (Some ch, Some i) \<Rightarrow>
          if getEntry st i \<noteq> None \<or> i \<in> p_msgId ` set pend then collect st pend paths
          else collect st (pend @ [\<lparr>p_path = path, p_msgId = i, p_channel = ch\<rparr>]) paths
      | _ \<Rightarrow> collect st pend paths)"

record feed_state =
  since :: string
  lastSeqSeen :: "string option"
  f_pages :: nat
  f_changes :: nat
  f_pending :: "pending_msg list"

fun feed_loop :: "cycle_env \<Rightarrow> DeliveryState \<Rightarrow> nat \<Rightarrow> nat \<Rightarrow> feed_state \<Rightarrow> exn option \<times> feed_state" where
  "feed_loop env st page 0 f = (None, f)"
| "feed_loop env st page (Suc n) f =
     (case ce_changes env page (since f) of
        Inl e \<Rightarrow> (Some e, f)
      | Inr (paths, ls) \<Rightarrow>
          (let f1 = f\<lparr>f_pages := f_pages f + 1, f_changes := f_changes f + length paths,
                      f_pending := collect st (f_pending f) paths\<rparr>
           in case ls of
                None \<Rightarrow> (None, f1)
              | Some s \<Rightarrow>
                  if s = since f then (None, f1)
                  else (let f2 = f1\<lparr>since := s, lastSeqSeen := Some s\<rparr>
                        in if paths = [] then (None, f2) else feed_loop env st (Suc page) n f2)))"

record cycle =
  cy_state :: DeliveryState
  cy_fs :: delivery_fs
  cy_result :: CycleResult
  cy_calls :: "string list"
  cy_error :: "exn option"

definition pause :: "pause_reason \<Rightarrow> cycle \<Rightarrow> cycle" where
  "pause r c = c\<lparr>cy_result := (cy_result c)\<lparr>cr_paused := True, pauseReason := Some r\<rparr>\<rparr>"

definition throw :: "exn \<Rightarrow> cycle \<Rightarrow> cycle" where
  "throw e c = c\<lparr>cy_error := Some e\<rparr>"

abbreviation write_failed :: exn where "write_failed \<equiv> OtherError ''Error'' None"

text \<open>The reads, in pending order, until one is paused or throws.\<close>

fun read_loop :: "cycle_env \<Rightarrow> pending_msg list \<Rightarrow> ReadResult dict \<Rightarrow> cycle \<Rightarrow> ReadResult dict \<times> cycle" where
  "read_loop env [] rd c = (rd, c)"
| "read_loop env (p # ps) rd c =
     (if ce_privateRead env (p_path p) then (rd, pause PPrivate c)
      else (case repo_read (ce_date_parse env) (ce_privateRepo env (p_path p)) (ce_readAt env (p_path p)) False (ce_read env) (p_path p) of
              Inl e \<Rightarrow> (rd, throw e c)
            | Inr r \<Rightarrow>
                if r = BrFail BUnavailable then (rd, pause PUnavailable c)
                else read_loop env ps (AList.update (p_path p) r rd) c))"

fun skip_reason :: "read_failure \<Rightarrow> DeliveryEntrySkip" where
  "skip_reason BExpired = SkExpired"
| "skip_reason BMissing = SkMissing"
| "skip_reason BOutOfChannel = SkUnauthorized"
| "skip_reason BBadRequest = SkUnauthorized"
| "skip_reason _ = SkMalformed"

definition record_skip :: "cycle_env \<Rightarrow> pending_msg \<Rightarrow> DeliveryEntrySkip \<Rightarrow> cycle \<Rightarrow> cycle" where
  "record_skip env p sk c =
     (case recordSkip (new_entry (p_msgId p) (p_path p) (p_channel p)) sk (ce_time env (p_msgId p)) (ce_io env (p_msgId p))
             (cy_state c) (cy_fs c) of
        (ok, st, fs) \<Rightarrow>
          (let c1 = c\<lparr>cy_state := st, cy_fs := fs\<rparr> in
           if ok then c1\<lparr>cy_result := (cy_result c1)\<lparr>skipped := skipped (cy_result c1) @ [(p_msgId p, sk)]\<rparr>\<rparr>
           else throw write_failed c1))"

fun triage :: "cycle_env \<Rightarrow> string option \<Rightarrow> ReadResult dict \<Rightarrow> pending_msg list \<Rightarrow> (pending_msg \<times> BoardMessage) list \<Rightarrow> cycle
    \<Rightarrow> (pending_msg \<times> BoardMessage) list \<times> cycle" where
  "triage env rcp rd [] out c = (out, c)"
| "triage env rcp rd (p # ps) out c =
     (if cy_error c \<noteq> None then (out, c)
      else (case map_of rd (p_path p) of
              None \<Rightarrow> (out, c)
            | Some (BrFail f) \<Rightarrow> triage env rcp rd ps out (record_skip env p (skip_reason f) c)
            | Some (BrOk m) \<Rightarrow>
                if rcp \<noteq> None \<and> rcp \<noteq> Some (br_to m)
                then triage env rcp rd ps out (record_skip env p SkUnauthorized c)
                else triage env rcp rd ps (out @ [(p, m)]) c))"

definition deliver_one :: "cycle_env \<Rightarrow> pending_msg \<Rightarrow> cycle \<Rightarrow> cycle" where
  "deliver_one env p c =
     (let c1 = c\<lparr>cy_calls := cy_calls c @ [p_msgId p]\<rparr> in
      case ce_deliver env (p_msgId p) of
        Some e \<Rightarrow> throw e c1
      | None \<Rightarrow>
          (case recordDelivered (new_entry (p_msgId p) (p_path p) (p_channel p)) (ce_time env (p_msgId p)) (ce_io env (p_msgId p))
                  (cy_state c1) (cy_fs c1) of
             (ok, st, fs) \<Rightarrow>
               (let c2 = c1\<lparr>cy_state := st, cy_fs := fs\<rparr> in
                if ok then c2\<lparr>cy_result := (cy_result c2)\<lparr>delivered := delivered (cy_result c2) @ [p_msgId p]\<rparr>\<rparr>
                else throw write_failed c2)))"

fun deliver_loop :: "cycle_env \<Rightarrow> (pending_msg \<times> BoardMessage) list \<Rightarrow> cycle \<Rightarrow> cycle" where
  "deliver_loop env [] c = c"
| "deliver_loop env ((p, m) # ps) c =
     (if cy_error c \<noteq> None then c
      else if ce_privateDeliver env (p_msgId p) then pause PPrivate c
      else deliver_loop env ps (deliver_one env p c))"

text \<open>Discovery: the feed, and the listing when the feed fails with a domain error.\<close>

record discovery =
  dc_pending :: "pending_msg list"
  dc_last :: "string option"
  dc_fallback :: bool
  dc_truncated :: bool
  dc_lastError :: "string option"

definition discover :: "cycle_env \<Rightarrow> BoardDelivery \<Rightarrow> DeliveryState \<Rightarrow> (exn + discovery) \<times> feed_state \<times> string option" where
  "discover env bd st =
     (case feed_loop env st 0 (maxChangesPages bd)
             \<lparr>since = default_to '''' (ds_lastSeq st), lastSeqSeen = None, f_pages = 0, f_changes = 0, f_pending = []\<rparr> of
        (None, f) \<Rightarrow>
          (Inr \<lparr>dc_pending = f_pending f, dc_last = lastSeqSeen f, dc_fallback = False, dc_truncated = False, dc_lastError = None\<rparr>,
           f, None)
      | (Some e, f) \<Rightarrow>
          if isRetryable e then (Inl e, f, None)
          else
            (let exclude = p_msgId ` set (f_pending f) \<union> (\<lambda>(_, x). e_path x) ` set (entries st)
             in case listAllBoardMessagePaths (ce_privateListing env) (ce_query env) (Some (maxListingPaths bd))
                       (Some (maxListingPages bd)) exclude of
                  Inl e2 \<Rightarrow> (Inl e2, f, Some (errorFingerprint e))
                | Inr (paths, truncated) \<Rightarrow>
                    (Inr \<lparr>dc_pending = collect st (f_pending f) paths, dc_last = lastSeqSeen f, dc_fallback = True,
                      dc_truncated = truncated, dc_lastError = Some (errorFingerprint e)\<rparr>, f, Some (errorFingerprint e))))"

text \<open>Everything after discovery, up to and including the deliveries.\<close>

definition process :: "cycle_env \<Rightarrow> BoardDelivery \<Rightarrow> pending_msg list \<Rightarrow> cycle \<Rightarrow> cycle" where
  "process env bd pend c =
     (case read_loop env pend [] c of
        (rd, c1) \<Rightarrow>
          if cy_error c1 \<noteq> None then c1
          else (case triage env (recipient bd) rd pend [] c1 of
                  (out, c2) \<Rightarrow>
                    if cy_error c2 \<noteq> None then c2
                    else deliver_loop env (sort_key (\<lambda>(_, m). ce_collate env (br_created m)) out) c2))"

text \<open>\<open>running\<close> is set for the duration of the cycle; the result is the state after its \<open>finally\<close>.\<close>

type_synonym cycle_out = "BoardDelivery \<times> DeliveryState \<times> delivery_fs \<times> CycleResult \<times> string list"

text \<open>The outer \<open>catch\<close>.\<close>

definition caught :: "exn \<Rightarrow> BoardDelivery \<Rightarrow> cycle \<Rightarrow> cycle_out" where
  "caught e bd c =
     (bd\<lparr>bd_lastError := Some (errorFingerprint e)\<rparr>, cy_state c, cy_fs c,
      (cy_result c)\<lparr>cr_paused := True, pauseReason := Some PUnavailable\<rparr>, cy_calls c)"

definition complete :: "cycle_env \<Rightarrow> BoardDelivery \<Rightarrow> discovery \<Rightarrow> cycle \<Rightarrow> cycle_out" where
  "complete env bd d c =
     (let bd1 = bd\<lparr>consecutiveEmptyPolls := (if dc_pending d = [] then consecutiveEmptyPolls bd + 1 else 0)\<rparr>;
          bd2 = bd1\<lparr>lastDiscoveryFallback := dc_fallback d\<rparr>;
          res = (cy_result c)\<lparr>discoveryFallback := dc_fallback d, listingTruncated := dc_truncated d\<rparr>
      in case dc_last d of
           None \<Rightarrow> (bd2, cy_state c, cy_fs c, res, cy_calls c)
         | Some s \<Rightarrow>
             (case setLastSeq s (ce_ioCursor env) (cy_state c) (cy_fs c) of
                (ok, st, fs) \<Rightarrow>
                  if ok then (bd2, st, fs, res, cy_calls c)
                  else caught write_failed bd1 (c\<lparr>cy_state := st, cy_fs := fs\<rparr>)))"

definition cycle_start :: "DeliveryState \<Rightarrow> delivery_fs \<Rightarrow> feed_state \<Rightarrow> cycle" where
  "cycle_start st fs f = \<lparr>cy_state = st, cy_fs = fs, cy_result = empty_cycle\<lparr>cr_pages := f_pages f, cr_changes := f_changes f\<rparr>,
     cy_calls = [], cy_error = None\<rparr>"

definition after_discovery :: "cycle_env \<Rightarrow> BoardDelivery \<Rightarrow> cycle \<Rightarrow> exn + discovery \<Rightarrow> cycle_out" where
  "after_discovery env bd c dr =
     (case dr of
        Inl e \<Rightarrow> caught e bd c
      | Inr d \<Rightarrow>
          (let c1 = process env bd (dc_pending d) c
           in case cy_error c1 of
                Some e \<Rightarrow> caught e bd c1
              | None \<Rightarrow>
                  if pauseReason (cy_result c1) = None then complete env bd d c1
                  else (bd, cy_state c1, cy_fs c1, cy_result c1, cy_calls c1)))"

definition runCycleInner :: "cycle_env \<Rightarrow> BoardDelivery \<Rightarrow> DeliveryState \<Rightarrow> delivery_fs \<Rightarrow> cycle_out" where
  "runCycleInner env bd st fs =
     (if stopped bd then (bd, st, fs, empty_cycle\<lparr>cr_paused := True, pauseReason := Some PPrivate\<rparr>, [])
      else
        (let bd1 = bd\<lparr>lastCycleAt := Some (ce_now env), running := False\<rparr> in
         if ce_private env then (bd1, st, fs, empty_cycle\<lparr>cr_paused := True, pauseReason := Some PPrivate\<rparr>, [])
         else if unreadCount st \<ge> backlogPauseAt bd
           then (bd1, st, fs, empty_cycle\<lparr>cr_paused := True, pauseReason := Some PBacklog\<rparr>, [])
         else
           (case discover env bd1 st of
              (dr, f, err) \<Rightarrow>
                after_discovery env (case err of None \<Rightarrow> bd1 | Some m \<Rightarrow> bd1\<lparr>bd_lastError := Some m\<rparr>) (cycle_start st fs f) dr)))"

section \<open>The dedupe set\<close>

definition stamped :: "DeliveryEntry \<Rightarrow> bool" where
  "stamped e = (skippedAt e \<noteq> None \<longrightarrow> skip e \<noteq> None)"

definition entries_wf :: "DeliveryEntry dict \<Rightarrow> bool" where
  "entries_wf es = (distinct (map fst es) \<and> (\<forall>(k, e) \<in> set es. e_msgId e = k \<and> stamped e))"

lemma entries_wf_map: "entries_wf es \<Longrightarrow> map e_msgId (map snd es) = map fst es"
  by (induction es) (auto simp: entries_wf_def)

lemma entries_wfD: "entries_wf es \<Longrightarrow> (k, e) \<in> set es \<Longrightarrow> e_msgId e = k \<and> map_of es k = Some e"
  by (auto simp: entries_wf_def)

lemma entries_wf_filter: "entries_wf es \<Longrightarrow> entries_wf (filter P es)"
  by (auto simp: entries_wf_def distinct_map_filter)

lemma entries_wf_delete: "entries_wf es \<Longrightarrow> entries_wf (AList.delete k es)"
  unfolding AList.delete_eq by (rule entries_wf_filter)

lemma entries_wf_update:
  assumes "entries_wf es" "e_msgId e = k" "stamped e"
  shows "entries_wf (AList.update k e es)"
proof -
  let ?P = "\<lambda>kv. e_msgId (snd kv) = fst kv \<and> stamped (snd kv)"
  have "\<forall>kv \<in> set es. ?P kv" using assms(1) by (auto simp: entries_wf_def)
  then have "\<forall>kv \<in> set (AList.update k e es). ?P kv"
    using assms(2,3) AList_update_all [of es ?P k e] by simp
  then show ?thesis
    using assms(1) by (auto simp: entries_wf_def intro: distinct_update)
qed

lemma map_of_filter_keep:
  "distinct (map fst es) \<Longrightarrow> map_of es k = Some e \<Longrightarrow> P (k, e) \<Longrightarrow> map_of (filter P es) k = Some e"
  by (simp add: distinct_map_filter map_of_eq_Some_iff)

lemma delete_absent: "k \<notin> fst ` set es \<Longrightarrow> AList.delete k es = es"
  unfolding AList.delete_eq by (rule filter_True) force

lemma length_delete:
  "distinct (map fst es) \<Longrightarrow> k \<in> fst ` set es \<Longrightarrow> Suc (length (AList.delete k es)) = length es"
proof (induction es)
  case (Cons kv es)
  then show ?case
    by (cases kv; cases "fst kv = k") (auto simp: delete_absent)
qed simp

lemma keys_delete: "fst ` set (AList.delete k es) = fst ` set es - {k}"
proof -
  have "fst ` set (AList.delete k es) = set (map fst (AList.delete k es))" by simp
  also have "\<dots> = fst ` set es - {k}" unfolding delete_keys by auto
  finally show ?thesis .
qed

lemma evict_wf: "entries_wf es \<Longrightarrow> entries_wf (evict over rest es)"
  by (induction over rest es rule: evict.induct) (auto simp: entries_wf_delete)

lemma evict_keeps:
  "\<forall>x \<in> set rest. settled x \<longrightarrow> e_msgId x \<noteq> i \<Longrightarrow> map_of (evict over rest es) i = map_of es i"
  by (induction over rest es rule: evict.induct) auto

lemma evict_length:
  "entries_wf es \<Longrightarrow> distinct (map e_msgId rest) \<Longrightarrow> e_msgId ` set rest \<subseteq> fst ` set es \<Longrightarrow>
   int (length (evict (int n) rest es)) = int (length es) - int (min n (length (filter settled rest)))"
proof (induction rest arbitrary: n es)
  case (Cons e rest)
  have d: "distinct (map fst es)" using Cons.prems(1) by (simp add: entries_wf_def)
  show ?case
  proof (cases n)
    case (Suc m)
    show ?thesis
    proof (cases "settled e")
      case True
      let ?es = "AList.delete (e_msgId e) es"
      have len: "Suc (length ?es) = length es"
        using Cons.prems(3) by (intro length_delete [OF d]) simp
      have sub: "e_msgId ` set rest \<subseteq> fst ` set ?es"
        using Cons.prems(2,3) by (simp add: keys_delete subset_Diff_insert)
      have "distinct (map e_msgId rest)" using Cons.prems(2) by simp
      from Cons.IH [OF entries_wf_delete [OF Cons.prems(1)] this sub, of m]
      show ?thesis using Suc True len by simp
    next
      case False
      then show ?thesis using Cons.IH [of es n] Cons.prems Suc by simp
    qed
  qed simp
qed simp

definition unsettled :: "DeliveryEntry dict \<Rightarrow> nat" where
  "unsettled es = length (filter (\<lambda>(_, e). \<not> settled e) es)"

lemma prune_wf: "entries_wf es \<Longrightarrow> entries_wf (prune_acked now es)"
  unfolding prune_acked_def by (rule entries_wf_filter)

lemma prune_keeps:
  "entries_wf es \<Longrightarrow> map_of es i = Some e \<Longrightarrow> \<not> settled e \<Longrightarrow> map_of (prune_acked now es) i = Some e"
  unfolding prune_acked_def
  by (rule map_of_filter_keep) (auto simp: entries_wf_def settled_def)

lemma compact_keeps:
  assumes wf: "entries_wf es" and e: "map_of es i = Some e" "\<not> settled e"
  shows "map_of (compact es) i = Some e"
proof -
  let ?p = "prune_acked (latest (map snd es)) es"
  have p: "entries_wf ?p" "map_of ?p i = Some e" by (rule prune_wf [OF wf], rule prune_keeps [OF wf e])
  have "x = e" if "x \<in> set (map snd ?p)" "e_msgId x = i" for x
    using that p entries_wfD [OF p(1)] by fastforce
  then have "\<forall>x \<in> set (sort_key age_key (map snd ?p)). settled x \<longrightarrow> e_msgId x \<noteq> i" using e(2) by auto
  then show ?thesis using p(2) evict_keeps by (simp add: compact_def Let_def)
qed

lemma compact_wf: "entries_wf es \<Longrightarrow> entries_wf (compact es)"
  by (simp add: compact_def Let_def evict_wf prune_wf)

lemma prune_unsettled: "length (filter (\<lambda>e. \<not> settled e) (map snd (prune_acked now es))) = unsettled es"
  by (induction es) (auto simp: unsettled_def prune_acked_def settled_def split: option.splits)

lemma compact_bound:
  assumes wf: "entries_wf es"
  shows "length (compact es) \<le> max MAX_TRACKED_ENTRIES (unsettled es)"
proof -
  let ?p = "prune_acked (latest (map snd es)) es"
  let ?s = "sort_key age_key (map snd ?p)"
  let ?over = "int (length ?p) - int MAX_TRACKED_ENTRIES"
  have p: "entries_wf ?p" by (rule prune_wf [OF wf])
  note un = prune_unsettled [of "latest (map snd es)" es]
  have sp: "length (filter settled ?s) + length (filter (\<lambda>e. \<not> settled e) (map snd ?p)) = length ?p"
    using sum_length_filter_compl [of settled "map snd ?p"]
    by (simp add: filter_sort)
  show ?thesis
  proof (cases "0 \<le> ?over")
    case True
    have d: "distinct (map e_msgId ?s)"
      using p entries_wf_map [OF p] by (simp only: distinct_map distinct_sort set_sort entries_wf_def) (metis distinct_map)
    have "e_msgId ` set ?s \<subseteq> fst ` set ?p" using entries_wfD [OF p] by force
    from evict_length [OF p d this, of "nat ?over"] show ?thesis
      using un sp True by (simp add: compact_def Let_def)
  next
    case False
    have "evict ?over ?s ?p = ?p" using False by (cases ?s) auto
    then show ?thesis using False by (simp add: compact_def Let_def)
  qed
qed

lemma unsettled_delete:
  "\<forall>(k, e) \<in> set es. k = i \<longrightarrow> settled e \<Longrightarrow> unsettled (AList.delete i es) = unsettled es"
  unfolding unsettled_def AList.delete_eq
  by (simp, rule arg_cong [where f = length], rule filter_cong) auto

lemma unsettled_evict:
  "\<forall>x \<in> set rest. settled x \<longrightarrow> (\<forall>(k, e) \<in> set es. k = e_msgId x \<longrightarrow> settled e)
   \<Longrightarrow> unsettled (evict over rest es) = unsettled es"
proof (induction over rest es rule: evict.induct)
  case (2 over e rest es)
  have "settled e \<Longrightarrow> unsettled (AList.delete (e_msgId e) es) = unsettled es"
    using 2(3) by (intro unsettled_delete) auto
  moreover have "\<forall>x \<in> set rest. settled x \<longrightarrow> (\<forall>(k, y) \<in> set (AList.delete (e_msgId e) es). k = e_msgId x \<longrightarrow> settled y)"
    using 2(3) by (auto simp: AList.delete_eq)
  ultimately show ?case using 2 by auto
qed simp

lemma unsettled_compact:
  assumes "entries_wf es"
  shows "unsettled (compact es) = unsettled es"
proof -
  let ?p = "prune_acked (latest (map snd es)) es"
  have p: "entries_wf ?p" by (rule prune_wf [OF assms])
  have "unsettled ?p = unsettled es"
    using prune_unsettled [of "latest (map snd es)" es] by (simp add: unsettled_def filter_map comp_def case_prod_unfold)
  moreover have "\<forall>x \<in> set (sort_key age_key (map snd ?p)). settled x \<longrightarrow> (\<forall>(k, e) \<in> set ?p. k = e_msgId x \<longrightarrow> settled e)"
  proof safe
    fix x k e assume x: "x \<in> set (sort_key age_key (map snd ?p))" "settled x" and e: "(e_msgId x, e) \<in> set ?p"
    then obtain k' where k: "(k', x) \<in> set ?p" by auto
    from entries_wfD [OF p e] entries_wfD [OF p k] have "e = x" by auto
    with x show "settled e" by simp
  qed
  ultimately show ?thesis by (simp add: compact_def Let_def unsettled_evict)
qed

section \<open>The local operations\<close>

datatype delivery_cmd =
    CmdDelivered DeliveryEntry ms | CmdSkip DeliveryEntry DeliveryEntrySkip ms | CmdAck string ms | CmdGc ms | CmdLastSeq string

fun delivery_step :: "delivery_cmd \<Rightarrow> io \<Rightarrow> DeliveryState \<times> delivery_fs \<Rightarrow> DeliveryState \<times> delivery_fs" where
  "delivery_step (CmdDelivered e t) io (st, fs) = snd (recordDelivered e t io st fs)"
| "delivery_step (CmdSkip e sk t) io (st, fs) = snd (recordSkip e sk t io st fs)"
| "delivery_step (CmdAck i t) io (st, fs) = snd (recordAck i t io st fs)"
| "delivery_step (CmdGc t) io (st, fs) = snd (gc t io st fs)"
| "delivery_step (CmdLastSeq s) io (st, fs) = snd (setLastSeq s io st fs)"

fun cmd_about :: "delivery_cmd \<Rightarrow> string option" where
  "cmd_about (CmdDelivered e t) = Some (e_msgId e)"
| "cmd_about (CmdSkip e sk t) = Some (e_msgId e)"
| "cmd_about (CmdAck i t) = Some i"
| "cmd_about _ = None"

definition delivery_run :: "(delivery_cmd \<times> io) list \<Rightarrow> DeliveryState \<times> delivery_fs \<Rightarrow> DeliveryState \<times> delivery_fs" where
  "delivery_run cs w = foldl (\<lambda>w (c, io). delivery_step c io w) w cs"

definition delivery_inv :: "DeliveryState \<Rightarrow> bool" where
  "delivery_inv st =
     (entries_wf (entries st) \<and> length (entries st) \<le> max MAX_TRACKED_ENTRIES (unsettled (entries st)))"

definition on_file :: "DeliveryState \<Rightarrow> delivery_fs \<Rightarrow> bool" where
  "on_file st fs = (fs = Some (StateFile DELIVERY_SCHEMA_VERSION st))"

lemma save_state_facts:
  assumes "save_state io st fs = (ok, st', fs')"
  shows "entries st' = compact (entries st)" "ds_lastSeq st' = ds_lastSeq st" "consumerId st' = consumerId st"
    "fs' = fs \<or> on_file st' fs'" "ok \<Longrightarrow> on_file st' fs'"
  using assms by (auto simp: save_state_def on_file_def Let_def split: prod.splits dest: atomic_write_cases)

lemma snd_save_entries: "entries (fst (snd (save_state io st fs))) = compact (entries st)"
  by (cases "save_state io st fs") (auto dest: save_state_facts)

lemma compact_inv: "entries_wf es \<Longrightarrow> entries_wf (compact es) \<and> length (compact es) \<le> max MAX_TRACKED_ENTRIES (unsettled (compact es))"
  using compact_wf compact_bound by (simp add: unsettled_compact)

definition cmd_ok :: "delivery_cmd \<Rightarrow> bool" where
  "cmd_ok c = (case c of CmdDelivered e t \<Rightarrow> stamped e | _ \<Rightarrow> True)"

lemma recordAck_cases:
  assumes "delivery_step (CmdAck i t) io (st, fs) = (st', fs')"
  obtains "st' = st" | e where "map_of (entries st) i = Some e"
    "entries st' = compact (AList.update i (e\<lparr>e_ackedAt := Some t\<rparr>) (entries st))"
proof (cases "getEntry st i")
  case None
  then show ?thesis using assms that(1) by (simp add: recordAck_def)
next
  case (Some e)
  show ?thesis
  proof (cases "e_ackedAt e")
    case None
    then have "entries st' = compact (AList.update i (e\<lparr>e_ackedAt := Some t\<rparr>) (entries st))"
      using assms Some snd_save_entries [of io "st\<lparr>entries := AList.update i (e\<lparr>e_ackedAt := Some t\<rparr>) (entries st)\<rparr>" fs]
      by (auto simp: recordAck_def split: prod.splits)
    then show ?thesis using that(2) Some by (simp add: getEntry_def)
  next
    case (Some u)
    then show ?thesis using assms that(1) \<open>getEntry st i = Some e\<close> by (simp add: recordAck_def)
  qed
qed

lemma gc_keeps:
  assumes "entries_wf es" "map_of es i = Some e" "\<not> settled e"
  shows "map_of (filter (\<lambda>(_, e). \<not> gc_removes t e) es) i = Some e"
proof (rule map_of_filter_keep)
  have "stamped e" using assms(1,2) by (auto simp: entries_wf_def dest: map_of_SomeD)
  then show "case (i, e) of (_, e) \<Rightarrow> \<not> gc_removes t e"
    using assms(3) by (auto simp: stamped_def settled_def gc_removes_def)
qed (use assms in \<open>simp_all add: entries_wf_def\<close>)

text \<open>Every operation either leaves the state alone or compacts an update of its entries.\<close>

lemma delivery_step_cases:
  assumes "delivery_step c io (st, fs) = (st', fs')" "entries_wf (entries st)" "cmd_ok c"
  obtains "entries st' = entries st" | es where "entries st' = compact es" "entries_wf es"
    "\<And>i e. cmd_about c \<noteq> Some i \<Longrightarrow> \<not> settled e \<Longrightarrow> map_of (entries st) i = Some e \<Longrightarrow> map_of es i = Some e"
proof (cases c)
  case (CmdDelivered e t)
  let ?e = "e\<lparr>deliveredAt := Some t\<rparr>"
  have "entries st' = compact (AList.update (e_msgId e) ?e (entries st))"
    using assms(1) CmdDelivered snd_save_entries [of io "put_entry ?e st" fs] by (simp add: recordDelivered_def put_entry_def)
  moreover have "entries_wf (AList.update (e_msgId e) ?e (entries st))"
    using assms(2,3) CmdDelivered by (intro entries_wf_update) (auto simp: cmd_ok_def stamped_def)
  ultimately show ?thesis by (rule that(2)) (simp add: CmdDelivered)
next
  case (CmdSkip e sk t)
  let ?e = "e\<lparr>skip := Some sk, skippedAt := Some t\<rparr>"
  have "entries st' = compact (AList.update (e_msgId e) ?e (entries st))"
    using assms(1) CmdSkip snd_save_entries [of io "put_entry ?e st" fs] by (simp add: recordSkip_def put_entry_def)
  moreover have "entries_wf (AList.update (e_msgId e) ?e (entries st))"
    using assms(2) by (intro entries_wf_update) (auto simp: stamped_def)
  ultimately show ?thesis by (rule that(2)) (simp add: CmdSkip)
next
  case (CmdAck i t)
  from assms(1) [unfolded CmdAck] show ?thesis
  proof (cases rule: recordAck_cases)
    case 1
    then show ?thesis by (intro that(1)) simp
  next
    case (2 e)
    have "e_msgId e = i \<and> stamped e" using 2(1) assms(2) by (auto simp: entries_wf_def dest: map_of_SomeD)
    then have "entries_wf (AList.update i (e\<lparr>e_ackedAt := Some t\<rparr>) (entries st))"
      using assms(2) by (intro entries_wf_update) (auto simp: stamped_def)
    with 2(2) show ?thesis by (rule that(2)) (simp add: CmdAck)
  qed
next
  case (CmdGc t)
  let ?es = "filter (\<lambda>(_, e). \<not> gc_removes t e) (entries st)"
  show ?thesis
  proof (cases "length (entries st) - length ?es > 0")
    case True
    then have "entries st' = compact ?es"
      using assms(1) CmdGc snd_save_entries [of io "st\<lparr>entries := ?es\<rparr>" fs]
      by (auto simp: gc_def Let_def split: prod.splits)
    from that(2) [OF this entries_wf_filter [OF assms(2)]] gc_keeps [OF assms(2)] show ?thesis by simp
  next
    case False
    then show ?thesis using assms(1) CmdGc by (intro that(1)) (simp add: gc_def Let_def)
  qed
next
  case (CmdLastSeq s)
  have "entries st' = compact (entries st)"
    using assms(1) CmdLastSeq snd_save_entries [of io "st\<lparr>ds_lastSeq := Some s\<rparr>" fs] by (simp add: setLastSeq_def)
  then show ?thesis using assms(2) by (rule that(2))
qed

lemma delivery_step_inv:
  assumes "delivery_step c io (st, fs) = (st', fs')" "delivery_inv st" "cmd_ok c"
  shows "delivery_inv st' \<and> (\<forall>i e. cmd_about c \<noteq> Some i \<longrightarrow> \<not> settled e \<longrightarrow> getEntry st i = Some e \<longrightarrow> getEntry st' i = Some e)"
proof -
  have wf: "entries_wf (entries st)" using assms(2) by (simp add: delivery_inv_def)
  from assms(1) wf assms(3) show ?thesis
  proof (cases rule: delivery_step_cases)
    case 1
    then show ?thesis using assms(2) by (simp add: delivery_inv_def getEntry_def)
  next
    case (2 es)
    then show ?thesis using compact_inv [OF 2(2)] compact_keeps [OF 2(2)] by (simp add: delivery_inv_def getEntry_def)
  qed
qed

lemma delivery_run_inv:
  "delivery_inv st \<Longrightarrow> \<forall>(c, io) \<in> set cs. cmd_ok c \<Longrightarrow> delivery_run cs (st, fs) = (st', fs') \<Longrightarrow>
   delivery_inv st' \<and> (\<forall>i e. (\<forall>(c, io) \<in> set cs. cmd_about c \<noteq> Some i) \<longrightarrow> \<not> settled e \<longrightarrow> getEntry st i = Some e \<longrightarrow> getEntry st' i = Some e)"
proof (induction cs arbitrary: st fs)
  case (Cons ci cs)
  obtain c io where ci: "ci = (c, io)" by (cases ci)
  obtain st1 fs1 where s: "delivery_step c io (st, fs) = (st1, fs1)" by (cases "delivery_step c io (st, fs)")
  have r: "delivery_run cs (st1, fs1) = (st', fs')" using Cons.prems(3) ci s by (simp add: delivery_run_def)
  have ok: "cmd_ok c" "\<forall>(c, io) \<in> set cs. cmd_ok c" using Cons.prems(2) ci by auto
  note one = delivery_step_inv [OF s Cons.prems(1) ok(1)]
  from Cons.IH [OF conjunct1 [OF one] ok(2) r] one ci show ?case by auto
qed (simp add: delivery_run_def)

text \<open>
  C13. Undelivered work is never evicted and the dedupe set stays bounded: through any
  sequence of deliveries, skips, acknowledgments, garbage collections and cursor updates,
  with any of their saves failing, an entry that is neither acknowledged nor skipped stays
  exactly as it is unless an operation names it, and the set never holds more than 2000
  entries unless that many are unsettled.
\<close>
theorem backlog_is_never_evicted:
  assumes "delivery_inv st" "\<forall>(c, io) \<in> set cs. cmd_ok c" "delivery_run cs (st, fs) = (st', fs')"
  shows "length (entries st') \<le> max 2000 (unsettled (entries st'))
    \<and> (\<forall>i e. getEntry st i = Some e \<longrightarrow> \<not> settled e \<longrightarrow> (\<forall>(c, io) \<in> set cs. cmd_about c \<noteq> Some i) \<longrightarrow> getEntry st' i = Some e)"
  using delivery_run_inv [OF assms] by (simp add: delivery_inv_def MAX_TRACKED_ENTRIES_def)

definition fresh_state :: DeliveryState where
  "fresh_state = \<lparr>consumerId = ''me'', ds_lastSeq = None, entries = []\<rparr>"

lemma fresh_inv: "delivery_inv fresh_state"
  by (simp add: delivery_inv_def fresh_state_def entries_wf_def)

theorem backlog_is_never_evicted_witness:
  "length (entries (fst (delivery_run [(CmdDelivered (new_entry ''a'' ''p'' ''c'') 5, IoOk), (CmdGc 9, IoFailBefore)] (fresh_state, None)))) \<le> 2000"
proof -
  let ?cs = "[(CmdDelivered (new_entry ''a'' ''p'' ''c'') 5, IoOk), (CmdGc 9, IoFailBefore)]"
  obtain st fs where r: "delivery_run ?cs (fresh_state, None) = (st, fs)" by (cases "delivery_run ?cs (fresh_state, None)")
  have ok: "\<forall>(c, io) \<in> set ?cs. cmd_ok c" by (simp add: cmd_ok_def new_entry_def stamped_def)
  have "st = \<lparr>consumerId = ''me'', ds_lastSeq = None, entries = [(''a'', (new_entry ''a'' ''p'' ''c'')\<lparr>deliveredAt := Some 5\<rparr>)]\<rparr>"
    using r by code_simp auto
  then show ?thesis
    using backlog_is_never_evicted [OF fresh_inv ok r] r by (simp add: unsettled_def)
qed

section \<open>Facts about a cycle\<close>

abbreviation pend_ids :: "pending_msg list \<Rightarrow> string list" where "pend_ids \<equiv> map p_msgId"

definition pend_ok :: "DeliveryState \<Rightarrow> pending_msg list \<Rightarrow> bool" where
  "pend_ok st ps = (distinct (pend_ids ps) \<and> (\<forall>p \<in> set ps. getEntry st (p_msgId p) = None))"

definition covers :: "DeliveryState \<Rightarrow> string list \<Rightarrow> string list \<Rightarrow> bool" where
  "covers st ids paths =
     (\<forall>path \<in> set paths. \<forall>i. boardChannelOfPath path \<noteq> None \<longrightarrow> boardMsgIdOfPath path = Some i
        \<longrightarrow> getEntry st i \<noteq> None \<or> i \<in> set ids)"

lemma covers_Cons:
  "covers st ids (p # ps) \<longleftrightarrow>
     (\<forall>i. boardChannelOfPath p \<noteq> None \<longrightarrow> boardMsgIdOfPath p = Some i \<longrightarrow> getEntry st i \<noteq> None \<or> i \<in> set ids) \<and> covers st ids ps"
  by (auto simp: covers_def)

lemma collect_facts:
  "pend_ok st pend \<Longrightarrow> pend_ok st (collect st pend paths) \<and> set (pend_ids pend) \<subseteq> set (pend_ids (collect st pend paths))
     \<and> covers st (pend_ids (collect st pend paths)) paths"
proof (induction paths arbitrary: pend)
  case (Cons path paths)
  consider (other) "boardChannelOfPath path = None \<or> boardMsgIdOfPath path = None" "collect st pend (path # paths) = collect st pend paths"
    | (known) i where "boardMsgIdOfPath path = Some i" "getEntry st i \<noteq> None \<or> i \<in> set (pend_ids pend)"
        "collect st pend (path # paths) = collect st pend paths"
    | (fresh) ch i where "boardMsgIdOfPath path = Some i" "getEntry st i = None" "i \<notin> set (pend_ids pend)"
        "collect st pend (path # paths) = collect st (pend @ [\<lparr>p_path = path, p_msgId = i, p_channel = ch\<rparr>]) paths"
    by (cases "boardChannelOfPath path"; cases "boardMsgIdOfPath path") (auto split: if_splits)
  then show ?case
  proof cases
    case other
    then show ?thesis using Cons.IH [OF Cons.prems] by (auto simp: covers_Cons)
  next
    case known
    note rec = Cons.IH [OF Cons.prems]
    have "getEntry st i \<noteq> None \<or> i \<in> set (pend_ids (collect st pend paths))" using known(2) rec by blast
    then show ?thesis using rec known(1,3) by (simp add: covers_Cons)
  next
    case fresh
    let ?p = "\<lparr>p_path = path, p_msgId = i, p_channel = ch\<rparr>"
    have "pend_ok st (pend @ [?p])" using Cons.prems fresh(2,3) by (auto simp: pend_ok_def)
    note rec = Cons.IH [OF this]
    then have "i \<in> set (pend_ids (collect st (pend @ [?p]) paths))" by simp
    then show ?thesis using rec fresh(1,4) by (simp add: covers_Cons)
  qed
qed (simp add: covers_def)

text \<open>All paths on the pages of the feed that a cycle reads.\<close>

fun fed_paths :: "cycle_env \<Rightarrow> nat \<Rightarrow> nat \<Rightarrow> string \<Rightarrow> string list" where
  "fed_paths env page 0 s = []"
| "fed_paths env page (Suc n) s =
     (case ce_changes env page s of
        Inl e \<Rightarrow> []
      | Inr (paths, ls) \<Rightarrow>
          paths @ (case ls of None \<Rightarrow> []
                   | Some s' \<Rightarrow> if s' = s \<or> paths = [] then [] else fed_paths env (Suc page) n s'))"

lemma covers_append: "covers st ids (ps @ qs) \<longleftrightarrow> covers st ids ps \<and> covers st ids qs"
  by (auto simp: covers_def)

lemma covers_mono: "covers st ids ps \<Longrightarrow> set ids \<subseteq> set ids' \<Longrightarrow> covers st ids' ps"
  by (auto simp: covers_def)

lemma feed_loop_facts:
  "feed_loop env st page n f = (r, f') \<Longrightarrow> pend_ok st (f_pending f) \<Longrightarrow>
   pend_ok st (f_pending f') \<and> set (pend_ids (f_pending f)) \<subseteq> set (pend_ids (f_pending f'))
   \<and> covers st (pend_ids (f_pending f')) (fed_paths env page n (since f))"
proof (induction n arbitrary: page f)
  case (Suc n)
  show ?case
  proof (cases "ce_changes env page (since f)")
    case (Inl e)
    then show ?thesis using Suc.prems by (simp add: covers_def)
  next
    case (Inr res)
    obtain paths ls where res: "res = (paths, ls)" by (cases res)
    let ?pend = "collect st (f_pending f) paths"
    let ?f1 = "f\<lparr>f_pages := f_pages f + 1, f_changes := f_changes f + length paths, f_pending := ?pend\<rparr>"
    note col = collect_facts [OF Suc.prems(2), of paths]
    show ?thesis
    proof (cases "\<exists>s. ls = Some s \<and> s \<noteq> since f \<and> paths \<noteq> []")
      case True
      then obtain s where s: "ls = Some s" "s \<noteq> since f" "paths \<noteq> []" by auto
      let ?f2 = "?f1\<lparr>since := s, lastSeqSeen := Some s\<rparr>"
      have step: "feed_loop env st (Suc page) n ?f2 = (r, f')" using Suc.prems(1) Inr res s by (simp add: Let_def)
      have "pend_ok st (f_pending ?f2)" using col by simp
      note rec = Suc.IH [OF step this]
      have sub: "set (pend_ids ?pend) \<subseteq> set (pend_ids (f_pending f'))" using rec by simp
      have "covers st (pend_ids (f_pending f')) paths"
        using col sub covers_mono [of st "pend_ids ?pend" paths] by blast
      moreover have "set (pend_ids (f_pending f)) \<subseteq> set (pend_ids (f_pending f'))"
        using col sub by (meson subset_trans)
      ultimately show ?thesis using rec Inr res s by (simp add: covers_append)
    next
      case False
      then have p: "f_pending f' = ?pend" using Suc.prems(1) Inr res
        by (cases ls) (auto simp: Let_def split: if_splits)
      have "fed_paths env page (Suc n) (since f) = paths" using False Inr res by (cases ls) auto
      then show ?thesis using col by (simp only: p)
    qed
  qed
qed (simp add: covers_def)

lemma read_loop_frame:
  "read_loop env ps rd c = (rd', c') \<Longrightarrow>
   cy_state c' = cy_state c \<and> cy_fs c' = cy_fs c \<and> cy_calls c' = cy_calls c \<and> delivered (cy_result c') = delivered (cy_result c)
   \<and> skipped (cy_result c') = skipped (cy_result c)
   \<and> (cy_error c = None \<longrightarrow> cy_error c' = None \<longrightarrow> pauseReason (cy_result c') = None \<longrightarrow>
        pauseReason (cy_result c) = None \<and> (\<forall>p \<in> set ps. map_of rd' (p_path p) \<noteq> None) \<and> (\<forall>x. map_of rd x \<noteq> None \<longrightarrow> map_of rd' x \<noteq> None))"
  by (induction env ps rd c rule: read_loop.induct) (auto simp: pause_def throw_def split: if_splits sum.splits)

lemma record_skip_frame:
  assumes "c' = record_skip env p sk c"
  shows "cy_calls c' = cy_calls c" "delivered (cy_result c') = delivered (cy_result c)"
    "pauseReason (cy_result c') = pauseReason (cy_result c)" "ds_lastSeq (cy_state c') = ds_lastSeq (cy_state c)"
    "cy_error c' = None \<Longrightarrow> skipped (cy_result c') = skipped (cy_result c) @ [(p_msgId p, sk)]"
    "\<exists>s. skipped (cy_result c') = skipped (cy_result c) @ s \<and> fst ` set s \<subseteq> {p_msgId p}"
proof -
  obtain ok st fs where r: "recordSkip (new_entry (p_msgId p) (p_path p) (p_channel p)) sk (ce_time env (p_msgId p))
      (ce_io env (p_msgId p)) (cy_state c) (cy_fs c) = (ok, st, fs)"
    by (cases "recordSkip (new_entry (p_msgId p) (p_path p) (p_channel p)) sk (ce_time env (p_msgId p))
      (ce_io env (p_msgId p)) (cy_state c) (cy_fs c)")
  have seq: "ds_lastSeq st = ds_lastSeq (cy_state c)"
    using save_state_facts(2) [OF r [unfolded recordSkip_def]] by (simp add: put_entry_def)
  show "cy_calls c' = cy_calls c" "delivered (cy_result c') = delivered (cy_result c)"
    "pauseReason (cy_result c') = pauseReason (cy_result c)" "ds_lastSeq (cy_state c') = ds_lastSeq (cy_state c)"
    "cy_error c' = None \<Longrightarrow> skipped (cy_result c') = skipped (cy_result c) @ [(p_msgId p, sk)]"
    "\<exists>s. skipped (cy_result c') = skipped (cy_result c) @ s \<and> fst ` set s \<subseteq> {p_msgId p}"
    by (cases ok; simp add: assms record_skip_def r Let_def throw_def seq)+
qed

lemma triage_step:
  "triage env rcp rd (p # ps) out c =
     (if cy_error c \<noteq> None \<or> map_of rd (p_path p) = None then (out, c)
      else (case the (map_of rd (p_path p)) of
              BrFail f \<Rightarrow> triage env rcp rd ps out (record_skip env p (skip_reason f) c)
            | BrOk m \<Rightarrow> if rcp \<noteq> None \<and> rcp \<noteq> Some (br_to m) then triage env rcp rd ps out (record_skip env p SkUnauthorized c)
                else triage env rcp rd ps (out @ [(p, m)]) c))"
  by (auto split: option.split ReadResult.split)

lemma triage_cases:
  assumes "triage env rcp rd (p # ps) out c = (out', c')"
  obtains (stop) "out' = out" "c' = c" "cy_error c \<noteq> None \<or> map_of rd (p_path p) = None"
  | (skip) sk where "triage env rcp rd ps out (record_skip env p sk c) = (out', c')" "cy_error c = None"
  | (keep) m where "triage env rcp rd ps (out @ [(p, m)]) c = (out', c')" "cy_error c = None"
proof (cases "cy_error c \<noteq> None \<or> map_of rd (p_path p) = None")
  case True
  then have "out' = out" "c' = c" using assms unfolding triage_step by simp_all
  then show ?thesis using True by (rule that(1))
next
  case False
  then have e: "cy_error c = None" by simp
  show ?thesis
  proof (cases "the (map_of rd (p_path p))")
    case (BrOk m)
    show ?thesis
    proof (cases "rcp \<noteq> None \<and> rcp \<noteq> Some (br_to m)")
      case True
      then have "triage env rcp rd ps out (record_skip env p SkUnauthorized c) = (out', c')"
        using assms False BrOk unfolding triage_step by (simp only: if_False if_True ReadResult.case simp_thms)
      then show ?thesis using e by (rule that(2))
    next
      case no: False
      then have "triage env rcp rd ps (out @ [(p, m)]) c = (out', c')"
        using assms False BrOk unfolding triage_step by (simp only: if_False ReadResult.case)
      then show ?thesis using e by (rule that(3))
    qed
  next
    case (BrFail f)
    then have "triage env rcp rd ps out (record_skip env p (skip_reason f) c) = (out', c')"
      using assms False unfolding triage_step by (simp only: if_False ReadResult.case)
    then show ?thesis using e by (rule that(2))
  qed
qed

declare triage.simps(2) [simp del]

lemma triage_frame:
  "triage env rcp rd ps out c = (out', c') \<Longrightarrow>
   delivered (cy_result c') = delivered (cy_result c) \<and> cy_calls c' = cy_calls c
   \<and> pauseReason (cy_result c') = pauseReason (cy_result c) \<and> ds_lastSeq (cy_state c') = ds_lastSeq (cy_state c)
   \<and> fst ` set (skipped (cy_result c)) \<subseteq> fst ` set (skipped (cy_result c')) \<and> set out \<subseteq> set out'
   \<and> (cy_error c \<noteq> None \<longrightarrow> cy_error c' \<noteq> None)"
proof (induction ps arbitrary: out c)
  case (Cons p ps)
  from Cons.prems show ?case
  proof (cases rule: triage_cases)
    case (skip sk)
    note fr = record_skip_frame [OF refl, of env p sk c]
    have "fst ` set (skipped (cy_result c)) \<subseteq> fst ` set (skipped (cy_result (record_skip env p sk c)))"
      using fr(6) by force
    then show ?thesis using Cons.IH [OF skip(1)] fr(1-4) skip(2) by auto
  next
    case (keep m)
    then show ?thesis using Cons.IH [OF keep(1)] by auto
  qed simp
qed simp

lemma triage_out:
  "triage env rcp rd ps out c = (out', c') \<Longrightarrow> \<exists>new. out' = out @ new \<and> subseq (map fst new) ps"
proof (induction ps arbitrary: out c)
  case (Cons p ps)
  from Cons.prems show ?case
  proof (cases rule: triage_cases)
    case stop
    then show ?thesis by (intro exI [of _ "[]"]) simp
  next
    case (skip sk)
    then show ?thesis using Cons.IH [OF skip(1)] by (auto intro: list_emb_Cons)
  next
    case (keep m)
    obtain new where "out' = (out @ [(p, m)]) @ new" "subseq (map fst new) ps" using Cons.IH [OF keep(1)] by blast
    then show ?thesis by (intro exI [of _ "(p, m) # new"]) simp
  qed
qed simp

lemma triage_covers:
  "triage env rcp rd ps out c = (out', c') \<Longrightarrow> cy_error c' = None \<Longrightarrow> \<forall>p \<in> set ps. map_of rd (p_path p) \<noteq> None
   \<Longrightarrow> p_msgId ` set ps \<subseteq> fst ` set (skipped (cy_result c')) \<union> (p_msgId \<circ> fst) ` set out'"
proof (induction ps arbitrary: out c)
  case (Cons p ps)
  from Cons.prems(1) show ?case
  proof (cases rule: triage_cases)
    case stop
    then show ?thesis using Cons.prems(2,3) by auto
  next
    case (skip sk)
    note fr = triage_frame [OF skip(1)]
    have "cy_error (record_skip env p sk c) = None" using fr Cons.prems(2) by auto
    then have "p_msgId p \<in> fst ` set (skipped (cy_result (record_skip env p sk c)))"
      using record_skip_frame(5) [OF refl] by simp
    then show ?thesis using Cons.IH [OF skip(1) Cons.prems(2)] Cons.prems(3) fr by auto
  next
    case (keep m)
    then have "(p, m) \<in> set out'" using triage_frame [OF keep(1)] by auto
    then have "p_msgId p \<in> (p_msgId \<circ> fst) ` set out'" by (rule rev_image_eqI) simp
    then show ?thesis using Cons.IH [OF keep(1) Cons.prems(2)] Cons.prems(3) by auto
  qed
qed simp

end
