(* ===== verification/DeliveryCycle.thy ===== *)
theory DeliveryCycle
  imports BoardDelivery
begin

text \<open>
  What one delivery cycle guarantees (the model is in BoardDelivery): each message is handed
  to the callback at most once and never when its entry is known, a delivered message has a
  durable entry that keeps later cycles from delivering it again, and the feed cursor moves
  only past messages that were handled.
\<close>

section \<open>Deliveries\<close>

definition known_delivered :: "cycle \<Rightarrow> bool" where
  "known_delivered c =
     (delivery_inv (cy_state c) \<and> (\<forall>i \<in> set (delivered (cy_result c)). \<exists>e. getEntry (cy_state c) i = Some e \<and> \<not> settled e))"

lemma recordDelivered_facts:
  assumes "recordDelivered e t io st fs = (ok, st', fs')" "delivery_inv st" "skip e = None" "e_ackedAt e = None" "skippedAt e = None"
  shows "delivery_inv st'" "\<exists>x. getEntry st' (e_msgId e) = Some x \<and> \<not> settled x" "ds_lastSeq st' = ds_lastSeq st"
    "\<And>i x. i \<noteq> e_msgId e \<Longrightarrow> getEntry st i = Some x \<Longrightarrow> \<not> settled x \<Longrightarrow> getEntry st' i = Some x"
proof -
  have step: "delivery_step (CmdDelivered e t) io (st, fs) = (st', fs')" using assms(1) by simp
  have ok: "cmd_ok (CmdDelivered e t)" using assms by (simp add: cmd_ok_def stamped_def)
  note inv = delivery_step_inv [OF step assms(2) ok]
  show "delivery_inv st'" using inv by simp
  show "\<And>i x. i \<noteq> e_msgId e \<Longrightarrow> getEntry st i = Some x \<Longrightarrow> \<not> settled x \<Longrightarrow> getEntry st' i = Some x"
    using inv by auto
  let ?e = "e\<lparr>deliveredAt := Some t\<rparr>"
  have u: "\<not> settled ?e" using assms(3,4) by (simp add: settled_def)
  have wf: "entries_wf (AList.update (e_msgId e) ?e (entries st))"
    using assms(2,5) by (intro entries_wf_update) (simp_all add: delivery_inv_def stamped_def)
  have "entries st' = compact (AList.update (e_msgId e) ?e (entries st))"
    using save_state_facts(1) [OF assms(1) [unfolded recordDelivered_def]] by (simp add: put_entry_def)
  then show "\<exists>x. getEntry st' (e_msgId e) = Some x \<and> \<not> settled x"
    using compact_keeps [OF wf _ u, of "e_msgId e"] u by (auto simp: getEntry_def)
  show "ds_lastSeq st' = ds_lastSeq st"
    using save_state_facts(2) [OF assms(1) [unfolded recordDelivered_def]] by (simp add: put_entry_def)
qed

lemma deliver_one_facts:
  assumes "c' = deliver_one env p c" "cy_error c = None"
  shows "cy_calls c' = cy_calls c @ [p_msgId p]" "skipped (cy_result c') = skipped (cy_result c)"
    "pauseReason (cy_result c') = pauseReason (cy_result c)" "ds_lastSeq (cy_state c') = ds_lastSeq (cy_state c)"
    "delivered (cy_result c') = delivered (cy_result c) @ (if cy_error c' = None then [p_msgId p] else [])"
    "known_delivered c \<Longrightarrow> p_msgId p \<notin> set (delivered (cy_result c)) \<Longrightarrow> known_delivered c'"
proof -
  let ?e = "new_entry (p_msgId p) (p_path p) (p_channel p)"
  obtain ok st fs where r: "recordDelivered ?e (ce_time env (p_msgId p)) (ce_io env (p_msgId p)) (cy_state c) (cy_fs c) = (ok, st, fs)"
    by (cases "recordDelivered ?e (ce_time env (p_msgId p)) (ce_io env (p_msgId p)) (cy_state c) (cy_fs c)")
  have seq: "ds_lastSeq st = ds_lastSeq (cy_state c)"
    using save_state_facts(2) [OF r [unfolded recordDelivered_def]] by (simp add: put_entry_def)
  note def = assms(1) deliver_one_def r Let_def throw_def seq assms(2)
  show "cy_calls c' = cy_calls c @ [p_msgId p]" "skipped (cy_result c') = skipped (cy_result c)"
    "pauseReason (cy_result c') = pauseReason (cy_result c)" "ds_lastSeq (cy_state c') = ds_lastSeq (cy_state c)"
    "delivered (cy_result c') = delivered (cy_result c) @ (if cy_error c' = None then [p_msgId p] else [])"
    by (cases ok; cases "ce_deliver env (p_msgId p)"; simp add: def)+
  show "known_delivered c'" if k: "known_delivered c" "p_msgId p \<notin> set (delivered (cy_result c))"
  proof (cases "ce_deliver env (p_msgId p)")
    case None
    have i: "delivery_inv (cy_state c)" using k(1) by (simp add: known_delivered_def)
    have "\<And>i. i \<in> set (delivered (cy_result c)) \<Longrightarrow> \<exists>e. getEntry st i = Some e \<and> \<not> settled e"
    proof -
      fix i assume m: "i \<in> set (delivered (cy_result c))"
      then obtain e where "getEntry (cy_state c) i = Some e" "\<not> settled e" using k(1) by (auto simp: known_delivered_def)
      moreover have "i \<noteq> p_msgId p" using m k(2) by auto
      ultimately show "\<exists>e. getEntry st i = Some e \<and> \<not> settled e"
        using recordDelivered_facts(4) [OF r i] by (auto simp: new_entry_def)
    qed
    moreover have "\<exists>e. getEntry st (p_msgId p) = Some e \<and> \<not> settled e" "delivery_inv st"
      using recordDelivered_facts(1,2) [OF r i] by (simp_all add: new_entry_def)
    ultimately show ?thesis using None by (cases ok) (simp_all add: known_delivered_def def)
  next
    case (Some e)
    then show ?thesis using k(1) by (simp add: known_delivered_def def)
  qed
qed

abbreviation out_ids :: "(pending_msg \<times> BoardMessage) list \<Rightarrow> string list" where
  "out_ids ps \<equiv> map (\<lambda>x. p_msgId (fst x)) ps"

text \<open>The callbacks made are a prefix; all but possibly the last one, which failed, are recorded.\<close>

definition loop_spec :: "cycle \<Rightarrow> cycle \<Rightarrow> string list \<Rightarrow> string list \<Rightarrow> string list \<Rightarrow> bool" where
  "loop_spec c c' ids k r =
     (cy_calls c' = cy_calls c @ k \<and> prefix k ids \<and> delivered (cy_result c') @ r = delivered (cy_result c) @ k \<and> length r \<le> 1
      \<and> (cy_error c' = None \<longrightarrow> r = [])
      \<and> (cy_error c' = None \<and> pauseReason (cy_result c') = None \<longrightarrow> k = ids \<and> pauseReason (cy_result c) = None))"

lemma loop_spec_stop:
  "cy_calls c' = cy_calls c \<Longrightarrow> delivered (cy_result c') = delivered (cy_result c) \<Longrightarrow>
   ids = [] \<and> pauseReason (cy_result c') = pauseReason (cy_result c) \<or> pauseReason (cy_result c') \<noteq> None \<Longrightarrow> loop_spec c c' ids [] []"
  by (auto simp: loop_spec_def)

lemma loop_spec_fail:
  "cy_calls c' = cy_calls c @ [i] \<Longrightarrow> delivered (cy_result c') = delivered (cy_result c) \<Longrightarrow> cy_error c' \<noteq> None
   \<Longrightarrow> loop_spec c c' (i # ids) [i] [i]"
  by (auto simp: loop_spec_def)

lemma loop_spec_step:
  "loop_spec c1 c' ids k r \<Longrightarrow> cy_calls c1 = cy_calls c @ [i] \<Longrightarrow> delivered (cy_result c1) = delivered (cy_result c) @ [i]
   \<Longrightarrow> pauseReason (cy_result c1) = pauseReason (cy_result c) \<Longrightarrow> loop_spec c c' (i # ids) (i # k) r"
  by (simp add: loop_spec_def)

lemma deliver_loop_facts:
  "cy_error c = None \<Longrightarrow> c' = deliver_loop env ps c \<Longrightarrow>
   skipped (cy_result c') = skipped (cy_result c) \<and> ds_lastSeq (cy_state c') = ds_lastSeq (cy_state c)
   \<and> (\<exists>k r. loop_spec c c' (out_ids ps) k r)"
proof (induction ps arbitrary: c)
  case Nil
  then have "loop_spec c c' (out_ids []) [] []" by (intro loop_spec_stop) simp_all
  with Nil show ?case by auto
next
  case (Cons x ps)
  obtain p m where x: "x = (p, m)" by (cases x)
  show ?case
  proof (cases "ce_privateDeliver env (p_msgId p)")
    case True
    then have c': "c' = pause PPrivate c" using Cons.prems x by simp
    then have "loop_spec c c' (out_ids (x # ps)) [] []" by (intro loop_spec_stop) (simp_all add: pause_def)
    then show ?thesis using c' by (auto simp: pause_def)
  next
    case False
    define c1 where "c1 = deliver_one env p c"
    note one = deliver_one_facts [OF c1_def Cons.prems(1)]
    have c': "c' = deliver_loop env ps c1" using Cons.prems x False by (simp add: c1_def)
    show ?thesis
    proof (cases "cy_error c1")
      case (Some e)
      then have c1': "c' = c1" using c' by (cases ps) auto
      have "loop_spec c c' (p_msgId p # out_ids ps) [p_msgId p] [p_msgId p]"
        using one(1,5) Some unfolding c1' by (intro loop_spec_fail) simp_all
      then have "\<exists>k r. loop_spec c c' (out_ids (x # ps)) k r" unfolding x by (simp, intro exI)
      then show ?thesis using one(2,4) unfolding c1' by simp
    next
      case None
      from Cons.IH [OF None c'] obtain k r where k: "loop_spec c1 c' (out_ids ps) k r"
        and fr: "skipped (cy_result c') = skipped (cy_result c1)" "ds_lastSeq (cy_state c') = ds_lastSeq (cy_state c1)"
        by (elim conjE exE) (rule that)
      have "loop_spec c c' (p_msgId p # out_ids ps) (p_msgId p # k) r"
        using one(1,3,5) None by (intro loop_spec_step [OF k]) simp_all
      then have "\<exists>k r. loop_spec c c' (out_ids (x # ps)) k r" unfolding x by (simp, intro exI)
      then show ?thesis using one(2,4) fr by simp
    qed
  qed
qed

lemma deliver_loop_known:
  "cy_error c = None \<Longrightarrow> known_delivered c \<Longrightarrow> distinct (out_ids ps) \<Longrightarrow>
   set (out_ids ps) \<inter> set (delivered (cy_result c)) = {} \<Longrightarrow> known_delivered (deliver_loop env ps c)"
proof (induction ps arbitrary: c)
  case (Cons x ps)
  obtain p m where x: "x = (p, m)" by (cases x)
  define c1 where "c1 = deliver_one env p c"
  note one = deliver_one_facts [OF c1_def Cons.prems(1)]
  have ids: "p_msgId p \<notin> set (out_ids ps)" "distinct (out_ids ps)"
    "set (out_ids ps) \<inter> set (delivered (cy_result c)) = {}" "p_msgId p \<notin> set (delivered (cy_result c))"
    using Cons.prems(3,4) unfolding x by simp_all
  have k1: "known_delivered c1" by (rule one(6) [OF Cons.prems(2) ids(4)])
  show ?case
  proof (cases "ce_privateDeliver env (p_msgId p)")
    case True
    then have "deliver_loop env (x # ps) c = pause PPrivate c" using Cons.prems(1) x by simp
    then show ?thesis using Cons.prems(2) by (simp add: pause_def known_delivered_def)
  next
    case False
    then have run: "deliver_loop env (x # ps) c = deliver_loop env ps c1" using Cons.prems(1) x by (simp add: c1_def)
    show ?thesis
    proof (cases "cy_error c1")
      case (Some e)
      then have "deliver_loop env ps c1 = c1" by (cases ps) auto
      then show ?thesis using run k1 by simp
    next
      case None
      have "set (delivered (cy_result c1)) = insert (p_msgId p) (set (delivered (cy_result c)))"
        using one(5) None by simp
      then have "set (out_ids ps) \<inter> set (delivered (cy_result c1)) = {}"
        using ids(1,3) by (simp only: Int_insert_right if_False)
      from Cons.IH [OF None k1 ids(2) this] show ?thesis using run by simp
    qed
  qed
qed simp

section \<open>From the pending messages to the deliveries\<close>

lemma subseq_set: "subseq xs ys \<Longrightarrow> set xs \<subseteq> set ys"
  by (induction rule: list_emb.induct) auto

lemma subseq_dist: "subseq xs ys \<Longrightarrow> distinct ys \<Longrightarrow> distinct xs"
  by (induction rule: list_emb.induct) (auto dest: subseq_set)

lemma record_skip_inv: "delivery_inv (cy_state c) \<Longrightarrow> delivery_inv (cy_state (record_skip env p sk c))"
proof -
  assume i: "delivery_inv (cy_state c)"
  let ?e = "new_entry (p_msgId p) (p_path p) (p_channel p)"
  obtain ok st fs where r: "recordSkip ?e sk (ce_time env (p_msgId p)) (ce_io env (p_msgId p)) (cy_state c) (cy_fs c) = (ok, st, fs)"
    by (cases "recordSkip ?e sk (ce_time env (p_msgId p)) (ce_io env (p_msgId p)) (cy_state c) (cy_fs c)")
  then have "delivery_step (CmdSkip ?e sk (ce_time env (p_msgId p))) (ce_io env (p_msgId p)) (cy_state c, cy_fs c) = (st, fs)" by simp
  from delivery_step_inv [OF this i] have "delivery_inv st" by (simp add: cmd_ok_def)
  then show ?thesis by (cases ok) (simp_all add: record_skip_def r Let_def throw_def)
qed

lemma triage_inv: "triage env rcp rd ps out c = (out', c') \<Longrightarrow> delivery_inv (cy_state c) \<Longrightarrow> delivery_inv (cy_state c')"
proof (induction ps arbitrary: out c)
  case (Cons p ps)
  from Cons.prems(1) show ?case
  proof (cases rule: triage_cases)
    case stop
    then show ?thesis using Cons.prems(2) by simp
  next
    case (skip sk)
    then show ?thesis using Cons.IH record_skip_inv [OF Cons.prems(2)] by blast
  next
    case (keep m)
    then show ?thesis using Cons.IH Cons.prems(2) by blast
  qed
qed simp

definition starts :: "cycle \<Rightarrow> bool" where
  "starts c = (cy_error c = None \<and> cy_calls c = [] \<and> delivered (cy_result c) = [] \<and> skipped (cy_result c) = []
     \<and> pauseReason (cy_result c) = None)"

text \<open>What the processing of the pending messages gives; \<open>ids\<close> are their identities.\<close>

definition processed :: "string list \<Rightarrow> cycle \<Rightarrow> cycle \<Rightarrow> bool" where
  "processed ids c c' =
     (set (cy_calls c') \<subseteq> set ids \<and> distinct (cy_calls c')
      \<and> (\<exists>r. delivered (cy_result c') @ r = cy_calls c' \<and> length r \<le> 1)
      \<and> ds_lastSeq (cy_state c') = ds_lastSeq (cy_state c)
      \<and> (cy_error c' = None \<and> pauseReason (cy_result c') = None \<longrightarrow>
           set ids \<subseteq> set (delivered (cy_result c')) \<union> fst ` set (skipped (cy_result c')))
      \<and> (delivery_inv (cy_state c) \<longrightarrow> known_delivered c'))"

lemma processed_none:
  assumes "cy_calls c' = []" "delivered (cy_result c') = []" "ds_lastSeq (cy_state c') = ds_lastSeq (cy_state c)"
    "delivery_inv (cy_state c) \<longrightarrow> delivery_inv (cy_state c')" "cy_error c' \<noteq> None"
  shows "processed ids c c'"
  using assms by (auto simp: processed_def known_delivered_def)

lemma process_facts:
  assumes "starts c" "distinct (pend_ids pend)"
  shows "processed (pend_ids pend) c (process env bd pend c)"
proof -
  obtain rd c1 where rl: "read_loop env pend [] c = (rd, c1)" by (cases "read_loop env pend [] c")
  note fr = read_loop_frame [OF rl]
  have s1: "cy_calls c1 = []" "delivered (cy_result c1) = []" "skipped (cy_result c1) = []" "cy_state c1 = cy_state c"
    using fr assms(1) by (simp_all add: starts_def)
  obtain out c2 where tr: "triage env (recipient bd) rd pend [] c1 = (out, c2)"
    by (cases "triage env (recipient bd) rd pend [] c1")
  note tf = triage_frame [OF tr]
  have s2: "cy_calls c2 = []" "delivered (cy_result c2) = []" "ds_lastSeq (cy_state c2) = ds_lastSeq (cy_state c)"
    "pauseReason (cy_result c2) = pauseReason (cy_result c1)"
    using tf s1 by simp_all
  have i2: "delivery_inv (cy_state c) \<longrightarrow> delivery_inv (cy_state c2)" using triage_inv [OF tr] s1(4) by simp
  show ?thesis
  proof (cases "cy_error c1")
    case (Some e)
    then have "process env bd pend c = c1" by (simp add: process_def rl)
    then show ?thesis using s1 Some by (intro processed_none) simp_all
  next
    case e1: None
    show ?thesis
    proof (cases "cy_error c2")
      case (Some e)
      then have "process env bd pend c = c2" by (simp add: process_def rl tr e1)
      then show ?thesis using s2 i2 Some by (intro processed_none) simp_all
    next
      case e2: None
      define ps where "ps = sort_key (\<lambda>(_, m). ce_collate env (br_created m)) out"
      define c3 where "c3 = deliver_loop env ps c2"
      have pr: "process env bd pend c = c3" by (simp add: process_def rl tr e1 e2 ps_def c3_def)
      obtain new where new: "out = new" "subseq (map fst new) pend" using triage_out [OF tr] by auto
      have sq: "subseq (out_ids out) (pend_ids pend)" using subseq_map [OF new(2), of p_msgId] new(1) by (simp add: comp_def)
      have ids: "set (out_ids ps) = set (out_ids out)" "distinct (out_ids ps)"
        using subseq_dist [OF sq assms(2)] by (simp_all add: ps_def distinct_map)
      obtain k r where k: "loop_spec c2 c3 (out_ids ps) k r" and fr3: "skipped (cy_result c3) = skipped (cy_result c2)"
        "ds_lastSeq (cy_state c3) = ds_lastSeq (cy_state c2)"
        using deliver_loop_facts [OF e2 c3_def] by (elim conjE exE) (rule that)
      have calls: "cy_calls c3 = k" "delivered (cy_result c3) @ r = k" "length r \<le> 1" "prefix k (out_ids ps)"
        using k s2 by (simp_all add: loop_spec_def)
      have sub: "set k \<subseteq> set (pend_ids pend)" "distinct k"
        using calls(4) ids subseq_set [OF sq] set_mono_prefix [OF calls(4)] by (blast, auto simp: prefix_def)
      have all: "set (pend_ids pend) \<subseteq> set (delivered (cy_result c3)) \<union> fst ` set (skipped (cy_result c3))"
        if d: "cy_error c3 = None" "pauseReason (cy_result c3) = None"
      proof -
        have full: "k = out_ids ps" "r = []" "pauseReason (cy_result c2) = None" using k d by (simp_all add: loop_spec_def)
        have "\<forall>p \<in> set pend. map_of rd (p_path p) \<noteq> None"
          using fr assms(1) e1 full(3) s2(4) by (simp add: starts_def)
        from triage_covers [OF tr e2 this] have "set (pend_ids pend) \<subseteq> fst ` set (skipped (cy_result c2)) \<union> set (out_ids out)"
          by (simp add: comp_def)
        then show ?thesis using full calls(2) ids(1) fr3(1) by auto
      qed
      have "known_delivered c3" if "delivery_inv (cy_state c)"
        unfolding c3_def using i2 that s2(2) ids(2) by (intro deliver_loop_known e2) (simp_all add: known_delivered_def)
      then show ?thesis
        unfolding pr processed_def using calls(1-3) sub s2(3) fr3(2)
        by (intro conjI impI exI [of _ r]) (simp_all only: simp_thms, elim conjE, rule all)
    qed
  qed
qed

section \<open>Whole cycles\<close>

lemma starts_cycle_start: "starts (cycle_start st fs f)"
  by (simp add: starts_def cycle_start_def empty_cycle_def)

lemma pend_ok_empty: "pend_ok st []"
  by (simp add: pend_ok_def)

abbreviation fed :: "cycle_env \<Rightarrow> BoardDelivery \<Rightarrow> DeliveryState \<Rightarrow> string list" where
  "fed env bd st \<equiv> fed_paths env 0 (maxChangesPages bd) (default_to '''' (ds_lastSeq st))"

lemma discover_facts:
  assumes "discover env bd st = (Inr d, f, err)"
  shows "pend_ok st (dc_pending d)" "covers st (pend_ids (dc_pending d)) (fed env bd st)"
proof -
  let ?f0 = "\<lparr>since = default_to '''' (ds_lastSeq st), lastSeqSeen = None, f_pages = 0, f_changes = 0, f_pending = []\<rparr>"
  obtain r f1 where l: "feed_loop env st 0 (maxChangesPages bd) ?f0 = (r, f1)"
    by (cases "feed_loop env st 0 (maxChangesPages bd) ?f0")
  have base: "pend_ok st (f_pending f1)" "covers st (pend_ids (f_pending f1)) (fed env bd st)"
    using feed_loop_facts [OF l] pend_ok_empty by simp_all
  show "pend_ok st (dc_pending d)" "covers st (pend_ids (dc_pending d)) (fed env bd st)"
  proof -
    consider "dc_pending d = f_pending f1" | paths where "dc_pending d = collect st (f_pending f1) paths"
      using assms l by (cases r) (auto simp: discover_def Let_def split: if_splits sum.splits prod.splits)
    then show "pend_ok st (dc_pending d)" "covers st (pend_ids (dc_pending d)) (fed env bd st)"
      using base collect_facts [OF base(1)] covers_mono [OF base(2)] by (cases; simp)+
  qed
qed

text \<open>The ways a cycle ends.\<close>

lemma runCycle_cases:
  assumes "runCycleInner env bd st fs = (bd', st', fs', res, calls)"
  obtains (idle) "st' = st" "fs' = fs" "calls = []" "delivered res = []" "cr_paused res"
  | (ran) d :: discovery and f c' where "\<not> stopped bd" "\<not> ce_private env" "unreadCount st < backlogPauseAt bd"
      "pend_ok st (dc_pending d)" "covers st (pend_ids (dc_pending d)) (fed env bd st)"
      "processed (pend_ids (dc_pending d)) (cycle_start st fs f) c'" "calls = cy_calls c'"
      "delivered res = delivered (cy_result c')" "skipped res = skipped (cy_result c')"
      "(st' = cy_state c' \<and> fs' = cy_fs c') \<or>
        (cy_error c' = None \<and> pauseReason (cy_result c') = None \<and> (\<exists>s ok. setLastSeq s (ce_ioCursor env) (cy_state c') (cy_fs c') = (ok, st', fs')))"
proof -
  let ?bd = "bd\<lparr>lastCycleAt := Some (ce_now env), running := False\<rparr>"
  show ?thesis
  proof (cases "stopped bd \<or> ce_private env \<or> unreadCount st \<ge> backlogPauseAt bd")
    case True
    then show ?thesis using assms by (intro that(1)) (auto simp: runCycleInner_def Let_def empty_cycle_def split: if_splits)
  next
    case False
    obtain dr f err where d: "discover env ?bd st = (dr, f, err)" by (cases "discover env ?bd st") auto
    let ?bd2 = "case err of None \<Rightarrow> ?bd | Some m \<Rightarrow> ?bd\<lparr>bd_lastError := Some m\<rparr>"
    have run: "after_discovery env ?bd2 (cycle_start st fs f) dr = (bd', st', fs', res, calls)"
      using assms False d by (simp add: runCycleInner_def Let_def)
    show ?thesis
    proof (cases dr)
      case (Inl e)
      then show ?thesis using run by (intro that(1)) (auto simp: after_discovery_def caught_def cycle_start_def empty_cycle_def)
    next
      case (Inr dd)
      define bd2 where "bd2 = ?bd2"
      define c1 where "c1 = process env bd2 (dc_pending dd) (cycle_start st fs f)"
      have df: "pend_ok st (dc_pending dd)" "covers st (pend_ids (dc_pending dd)) (fed env bd st)"
        using discover_facts [of env ?bd st dd f err] d Inr by simp_all
      have pf: "processed (pend_ids (dc_pending dd)) (cycle_start st fs f) c1"
        unfolding c1_def using df(1) by (intro process_facts starts_cycle_start) (simp add: pend_ok_def)
      have g: "\<not> stopped bd" "\<not> ce_private env" "unreadCount st < backlogPauseAt bd" using False by simp_all
      have run1: "(case cy_error c1 of Some e \<Rightarrow> caught e bd2 c1
          | None \<Rightarrow> if pauseReason (cy_result c1) = None then complete env bd2 dd c1
              else (bd2, cy_state c1, cy_fs c1, cy_result c1, cy_calls c1)) = (bd', st', fs', res, calls)"
        using run unfolding bd2_def [symmetric] Inr after_discovery_def by (simp only: sum.case Let_def c1_def)
      have out: "calls = cy_calls c1 \<and> delivered res = delivered (cy_result c1) \<and> skipped res = skipped (cy_result c1)
        \<and> ((st' = cy_state c1 \<and> fs' = cy_fs c1) \<or> (cy_error c1 = None \<and> pauseReason (cy_result c1) = None
            \<and> (\<exists>s ok. setLastSeq s (ce_ioCursor env) (cy_state c1) (cy_fs c1) = (ok, st', fs'))))"
        using run1
        by (cases "cy_error c1"; cases "dc_last dd")
          (auto simp: caught_def complete_def Let_def split: if_splits prod.splits)
      show ?thesis using that(2) [OF g df pf] out by blast
    qed
  qed
qed


lemma setLastSeq_facts:
  assumes "setLastSeq s io st fs = (ok, st', fs')" "delivery_inv st"
  shows "delivery_inv st'" "getEntry st i = Some e \<Longrightarrow> \<not> settled e \<Longrightarrow> getEntry st' i = Some e"
proof -
  have "delivery_step (CmdLastSeq s) io (st, fs) = (st', fs')" using assms(1) by simp
  from delivery_step_inv [OF this assms(2)]
  show "delivery_inv st'" "getEntry st i = Some e \<Longrightarrow> \<not> settled e \<Longrightarrow> getEntry st' i = Some e" by (simp_all add: cmd_ok_def)
qed

lemma cycle_calls:
  assumes "runCycleInner env bd st fs = (bd', st', fs', res, calls)"
  shows "distinct calls" "i \<in> set calls \<Longrightarrow> getEntry st i = None" "\<exists>r. delivered res @ r = calls \<and> length r \<le> 1"
    "delivery_inv st \<Longrightarrow> delivery_inv st'"
    "delivery_inv st \<Longrightarrow> i \<in> set (delivered res) \<Longrightarrow> \<exists>e. getEntry st' i = Some e \<and> \<not> settled e"
proof -
  have "distinct calls \<and> (i \<in> set calls \<longrightarrow> getEntry st i = None) \<and> (\<exists>r. delivered res @ r = calls \<and> length r \<le> 1)
    \<and> (delivery_inv st \<longrightarrow> delivery_inv st' \<and> (i \<in> set (delivered res) \<longrightarrow> (\<exists>e. getEntry st' i = Some e \<and> \<not> settled e)))"
    using assms
  proof (cases rule: runCycle_cases)
    case idle
    then show ?thesis by simp
  next
    case (ran d f c')
    have p: "set (cy_calls c') \<subseteq> set (pend_ids (dc_pending d))" "distinct (cy_calls c')"
      "\<exists>r. delivered (cy_result c') @ r = cy_calls c' \<and> length r \<le> 1" "delivery_inv st \<longrightarrow> known_delivered c'"
      using ran(6) by (simp_all add: processed_def cycle_start_def)
    have "i \<in> set calls \<longrightarrow> getEntry st i = None"
      using p(1) ran(4,7) by (auto simp: pend_ok_def)
    moreover have "delivery_inv st' \<and> (i \<in> set (delivered res) \<longrightarrow> (\<exists>e. getEntry st' i = Some e \<and> \<not> settled e))"
      if "delivery_inv st"
    proof -
      have k: "known_delivered c'" using p(4) that by simp
      from ran(10) show ?thesis
      proof (elim disjE conjE exE)
        assume "st' = cy_state c'"
        then show ?thesis using k ran(8) by (simp add: known_delivered_def)
      next
        fix s ok assume s: "setLastSeq s (ce_ioCursor env) (cy_state c') (cy_fs c') = (ok, st', fs')"
        have "delivery_inv (cy_state c')" using k by (simp add: known_delivered_def)
        from setLastSeq_facts [OF s this] show ?thesis using k ran(8) by (auto simp: known_delivered_def)
      qed
    qed
    ultimately show ?thesis using p(2,3) ran(7,8) by simp
  qed
  then show "distinct calls" "i \<in> set calls \<Longrightarrow> getEntry st i = None" "\<exists>r. delivered res @ r = calls \<and> length r \<le> 1"
    "delivery_inv st \<Longrightarrow> delivery_inv st'"
    "delivery_inv st \<Longrightarrow> i \<in> set (delivered res) \<Longrightarrow> \<exists>e. getEntry st' i = Some e \<and> \<not> settled e" by blast+
qed

text \<open>
  C7. A message is delivered once: within a cycle the callback gets each message at most
  once and never one whose entry is known, at most the last call is unrecorded (it failed),
  and a recorded message is not handed to the callback again by any later cycle, whatever
  happens in between that does not name it (other deliveries, skips, acknowledgments,
  garbage collection, failed saves).
\<close>
theorem delivered_once:
  assumes "delivery_inv st" "runCycleInner env bd st fs = (bd1, st1, fs1, res1, calls1)"
    and "i \<in> set (delivered res1)"
    and "delivery_run cs (st1, fs1) = (st2, fs2)" "\<forall>(c, io) \<in> set cs. cmd_ok c \<and> cmd_about c \<noteq> Some i"
    and "runCycleInner env2 bd2 st2 fs2 = (bd3, st3, fs3, res3, calls3)"
  shows "distinct calls1 \<and> i \<in> set calls1 \<and> getEntry st i = None \<and> (\<exists>r. delivered res1 @ r = calls1 \<and> length r \<le> 1)
    \<and> i \<notin> set calls3"
proof -
  note c1 = cycle_calls [OF assms(2)]
  obtain r where r: "delivered res1 @ r = calls1" "length r \<le> 1" using c1(3) by blast
  have m: "i \<in> set calls1" using assms(3) by (simp add: r(1) [symmetric])
  obtain e where e: "getEntry st1 i = Some e" "\<not> settled e" using c1(5) [OF assms(1,3)] by blast
  have ok: "\<forall>(c, io) \<in> set cs. cmd_ok c" "\<forall>(c, io) \<in> set cs. cmd_about c \<noteq> Some i" using assms(5) by auto
  have "getEntry st2 i = Some e"
    using delivery_run_inv [OF c1(4) [OF assms(1)] ok(1) assms(4)] ok(2) e by blast
  then have "i \<notin> set calls3" using cycle_calls(2) [OF assms(6)] by force
  then show ?thesis using c1(1) m c1(2) [OF m] r by blast
qed

section \<open>A concrete cycle\<close>

definition example_path :: string where "example_path = ''board/dev/0123456789abcdef.md''"

definition example_content :: string where
  "example_content = join_with [nl] [''---'', ''schemaVersion: 1'', ''id: 0123456789abcdef'', ''type: board-message'', ''scope: personal'',
     ''created: 5'', ''sources: []'', ''status: active'', ''to: bob'', ''from: ann'', ''channel: dev'', ''ttl: '', ''---'', ''hi'']"

text \<open>The feed has one message; \<open>rd\<close> is what the adapter answers to its read.\<close>

definition example_env :: "exn + AdapterRead \<Rightarrow> cycle_env" where
  "example_env rd = \<lparr>ce_now = 10, ce_private = False,
     ce_changes = (\<lambda>page s. Inr (if s = '''' then ([example_path], Some ''s1'') else ([], Some ''s1''))),
     ce_query = (\<lambda>_ _. Inr ''''), ce_privateListing = False, ce_privateRead = (\<lambda>_. False), ce_privateRepo = (\<lambda>_. False),
     ce_read = (\<lambda>_. rd), ce_readAt = (\<lambda>_. 10), ce_date_parse = (\<lambda>_. Some 5), ce_collate = (\<lambda>_. 0),
     ce_privateDeliver = (\<lambda>_. False), ce_deliver = (\<lambda>_. None), ce_time = (\<lambda>_. 10), ce_io = (\<lambda>_. IoOk), ce_ioCursor = IoOk\<rparr>"

definition example_bd :: BoardDelivery where
  "example_bd = \<lparr>recipient = None, activePollMs = 60000, backoffBaseMs = 60000, backoffCapMs = 900000, backlogPauseAt = 500,
     maxChangesPages = 20, maxListingPaths = 1000, maxListingPages = 20, running = False, stopped = False,
     consecutiveEmptyPolls = 0, lastCycleAt = None, bd_lastError = None, lastDiscoveryFallback = False\<rparr>"

definition example_read :: "exn + AdapterRead" where
  "example_read = Inr \<lparr>rd_state = RdOk, rd_content = Some example_content, rd_etag = None, rd_frontmatter = [], rd_body = ''''\<rparr>"

lemma example_message:
  "parseStoredRecord (\<lambda>_. Some 5) example_content = ReadOk
     \<lparr>frontmatter = \<lparr>fm_schemaVersion = 1, fm_id = ''0123456789abcdef'', fm_type = TBoardMessage, fm_scope = ''personal'',
        fm_created = ''5'', fm_sources = [], fm_model = None, fm_status = Active, fm_to = Some ''bob'', fm_from = Some ''ann'',
        fm_channel = Some ''dev'', fm_ttl = Some ''''\<rparr>, body = ''hi''\<rparr>"
  by code_simp

definition example_entry :: DeliveryEntry where
  "example_entry = new_entry ''0123456789abcdef'' example_path ''dev''"

lemma example_cycle:
  "runCycleInner (example_env example_read) example_bd fresh_state None =
     (example_bd\<lparr>lastCycleAt := Some 10\<rparr>,
      fresh_state\<lparr>ds_lastSeq := Some ''s1'', entries := [(''0123456789abcdef'', example_entry\<lparr>deliveredAt := Some 10\<rparr>)]\<rparr>,
      Some (StateFile 1 (fresh_state\<lparr>ds_lastSeq := Some ''s1'', entries := [(''0123456789abcdef'', example_entry\<lparr>deliveredAt := Some 10\<rparr>)]\<rparr>)),
      empty_cycle\<lparr>cr_pages := 2, cr_changes := 1, delivered := [''0123456789abcdef'']\<rparr>,
      [''0123456789abcdef''])"
  by code_simp

lemma example_run_empty: "delivery_run [] w = w"
  by (simp add: delivery_run_def)


theorem delivered_once_witness:
  "''0123456789abcdef'' \<notin> set (snd (snd (snd (snd (runCycleInner (example_env example_read) example_bd
     (fresh_state\<lparr>ds_lastSeq := Some ''s1'', entries := [(''0123456789abcdef'', example_entry\<lparr>deliveredAt := Some 10\<rparr>)]\<rparr>)
     (Some (StateFile 1 (fresh_state\<lparr>ds_lastSeq := Some ''s1'', entries := [(''0123456789abcdef'', example_entry\<lparr>deliveredAt := Some 10\<rparr>)]\<rparr>))))))))"
proof -
  let ?st = "fresh_state\<lparr>ds_lastSeq := Some ''s1'', entries := [(''0123456789abcdef'', example_entry\<lparr>deliveredAt := Some 10\<rparr>)]\<rparr>"
  let ?fs = "Some (StateFile 1 ?st)"
  obtain bd3 st3 fs3 res3 calls3 where c: "runCycleInner (example_env example_read) example_bd ?st ?fs = (bd3, st3, fs3, res3, calls3)"
    by (cases "runCycleInner (example_env example_read) example_bd ?st ?fs")
  have d: "''0123456789abcdef'' \<in> set (delivered (empty_cycle\<lparr>cr_pages := 2, cr_changes := 1, delivered := [''0123456789abcdef'']\<rparr>))"
    by (simp add: empty_cycle_def)
  have n: "\<forall>(c, io) \<in> set []. cmd_ok c \<and> cmd_about c \<noteq> Some ''0123456789abcdef''" by simp
  show ?thesis
    using delivered_once [OF fresh_inv example_cycle d example_run_empty n c] by (simp add: c)
qed

section \<open>A read that fails\<close>

lemma repo_read_failure:
  "boardChannelOfPath path = Some ch \<Longrightarrow> ad_read path = Inl e \<Longrightarrow> \<not> isRetryable e \<Longrightarrow> e \<noteq> Backend CancelledError
   \<Longrightarrow> repo_read date_parse False now inc ad_read path = Inr (BrFail BMissing)"
  by (simp add: repo_read_def)

text \<open>
  A board message whose read times out is lost: a time-out is not retryable, so the
  repository reports the message as missing, the cycle records a permanent skip and moves
  the cursor, and a later cycle that sees the message again, even with the feed replayed
  from the beginning and the backend answering, never hands it to the callback.
\<close>
theorem timed_out_read_loses_message:
  "case runCycleInner (example_env (Inl (Backend TimeoutError))) example_bd fresh_state None of
     (_, st, fs, res, _) \<Rightarrow>
       skipped res = [(''0123456789abcdef'', SkMissing)] \<and> pauseReason res = None \<and> ds_lastSeq st = Some ''s1''
       \<and> (case runCycleInner (example_env example_read) example_bd (st\<lparr>ds_lastSeq := None\<rparr>) fs of
            (_, _, _, res2, calls) \<Rightarrow> calls = [] \<and> cr_changes res2 = 1)"
  by code_simp

text \<open>
  A fallback cycle moves the stored cursor: when the first page of the feed is read and
  the second one is rejected, the cycle completes in fallback mode and the cursor is the
  first page's, although the result's documentation says it is untouched in fallback mode.
\<close>
theorem fallback_cycle_moves_cursor:
  "case runCycleInner ((example_env example_read)\<lparr>ce_changes :=
        (\<lambda>page s. if page = 0 then Inr ([example_path], Some ''s1'') else Inl (Backend ValidationError))\<rparr>) example_bd fresh_state None of
     (_, st, _, res, _) \<Rightarrow> discoveryFallback res \<and> \<not> cr_paused res \<and> ds_lastSeq fresh_state = None \<and> ds_lastSeq st = Some ''s1''"
  by code_simp

section \<open>Polling\<close>

text \<open>
  The poll interval is bounded and backs off only when idle: with a base and an active
  interval that do not exceed the cap, the next poll is never later than the cap, it is the
  active interval until three polls in a row were empty, and more empty polls never make it
  shorter once it backs off.
\<close>
theorem poll_interval_bounded:
  assumes "0 \<le> activePollMs bd" "activePollMs bd \<le> backoffCapMs bd" "0 \<le> backoffBaseMs bd"
  shows "0 \<le> nextIntervalMs bd \<and> nextIntervalMs bd \<le> backoffCapMs bd
    \<and> (consecutiveEmptyPolls bd \<le> 3 \<longrightarrow> nextIntervalMs bd = activePollMs bd)
    \<and> (3 < consecutiveEmptyPolls bd \<and> consecutiveEmptyPolls bd \<le> n \<longrightarrow>
      nextIntervalMs bd \<le> nextIntervalMs (bd\<lparr>consecutiveEmptyPolls := n\<rparr>))"
proof (intro conjI impI; (elim conjE)?)
  show "0 \<le> nextIntervalMs bd" "nextIntervalMs bd \<le> backoffCapMs bd"
    using assms by (auto simp: nextIntervalMs_def Let_def)
  show "nextIntervalMs bd = activePollMs bd" if "consecutiveEmptyPolls bd \<le> 3"
    using that by (simp add: nextIntervalMs_def Let_def EMPTY_POLLS_BEFORE_BACKOFF_def)
  assume n: "3 < consecutiveEmptyPolls bd" "consecutiveEmptyPolls bd \<le> n"
  let ?k = "\<lambda>m. nat (min (m - 3) 8)"
  have "(2::int) ^ ?k (consecutiveEmptyPolls bd) \<le> 2 ^ ?k n" using n by (intro power_increasing) auto
  then have "backoffBaseMs bd * 2 ^ ?k (consecutiveEmptyPolls bd) \<le> backoffBaseMs bd * 2 ^ ?k n"
    using assms(3) by (rule mult_left_mono)
  then show "nextIntervalMs bd \<le> nextIntervalMs (bd\<lparr>consecutiveEmptyPolls := n\<rparr>)"
    using n by (auto simp: nextIntervalMs_def Let_def EMPTY_POLLS_BEFORE_BACKOFF_def)
qed

theorem poll_interval_bounded_witness:
  "nextIntervalMs (example_bd\<lparr>consecutiveEmptyPolls := 5\<rparr>) \<le> nextIntervalMs (example_bd\<lparr>consecutiveEmptyPolls := 9\<rparr>)"
  using poll_interval_bounded [of "example_bd\<lparr>consecutiveEmptyPolls := 5\<rparr>" 9] by (simp add: example_bd_def)

end
