(* ===== verification/BoardCleanup.thy ===== *)
theory BoardCleanup
  imports BoardRepository "HOL-Library.Multiset"
begin

text \<open>
  Manual remote cleanup of the board: the eligibility rules (src/board/cleanup-rules.ts), the
  read-only planner (src/board/cleanup.ts) and the guarded executor
  (src/board/cleanup-execute.ts). Planner and executor read and delete through the adapter
  over any transport, whose state is threaded. What the outside answers at the \<open>k\<close>-th
  candidate is a record of functions (\<open>cleanup_env\<close>): the signal and the private gate at each
  of their checks, the local acknowledgment, the repository's clock, the minted operation id.
  The texts of the details, which repeat the reason, are left out.
\<close>

section \<open>Eligibility\<close>

definition GC_GRACE_MS :: ms where "GC_GRACE_MS = 30 * 24 * 60 * 60 * 1000"

record CandidateReadView =
  cv_msgId :: string
  cv_from :: string
  cv_created :: string
  cv_ttl :: "js_num option"

datatype CleanupBasis = TtlExpired | LocallyAcked

datatype ineligible = NotOwner | MissingBasis | WithinGrace | MalformedTime

datatype CleanupEligibility = Eligible "CleanupBasis list" bool | Ineligible ineligible

definition evaluateCleanupCandidate ::
  "(string \<Rightarrow> ms option) \<Rightarrow> CandidateReadView \<Rightarrow> ms option \<Rightarrow> string \<Rightarrow> ms \<Rightarrow> CleanupEligibility" where
  "evaluateCleanupCandidate date_parse v ackAt ownFrom now =
     (if cv_from v \<noteq> ownFrom then Ineligible NotOwner
      else (case date_parse (cv_created v) of
        None \<Rightarrow> Ineligible MalformedTime
      | Some createdMs \<Rightarrow>
          (case cv_ttl v of
             None \<Rightarrow> Ineligible MissingBasis
           | Some (Fin ttl) \<Rightarrow>
               if ttl < 0 then Ineligible MalformedTime
               else (case ackAt of
                   None \<Rightarrow> Ineligible MissingBasis
                 | Some acked \<Rightarrow>
                     (let expired = ttl_expired ttl createdMs now;
                          settledAt = max (of_int createdMs + ttl * 1000) (of_int acked)
                      in if \<not> expired then Ineligible MissingBasis
                         else if of_int now - settledAt \<le> of_int GC_GRACE_MS then Ineligible WithinGrace
                         else Eligible [TtlExpired, LocallyAcked] expired))
           | Some _ \<Rightarrow> Ineligible MalformedTime)))"

section \<open>Planning\<close>

record cleanup_env =
  xe_date_parse :: "string \<Rightarrow> ms option"
  xe_now :: ms
  xe_repoNow :: "nat \<Rightarrow> ms"
  xe_aborted :: "nat \<Rightarrow> bool"
  xe_private :: "nat \<Rightarrow> bool"
  xe_privateRead :: "nat \<Rightarrow> bool"
  xe_abortedRead :: "nat \<Rightarrow> bool"
  xe_abortedDel :: "nat \<Rightarrow> bool"
  xe_acked :: "nat \<Rightarrow> string \<Rightarrow> ms option"
  xe_mint :: "nat \<Rightarrow> string"

text \<open>
  The \<open>k\<close>-th fresh read, expired messages included: the repository's read over the adapter's,
  which is only called when the gate is open and the path is a board path.
\<close>

definition cleanup_read ::
  "cleanup_env \<Rightarrow> 's transport \<Rightarrow> nat \<Rightarrow> string \<Rightarrow> 's \<Rightarrow> (exn + ReadResult) \<times> tool_call list \<times> 's" where
  "cleanup_read env transport k path s =
     (let read = repo_read (xe_date_parse env) (xe_privateRead env k) (xe_repoNow env k) True in
      if xe_privateRead env k \<or> boardChannelOfPath path = None
      then (read (\<lambda>_. Inr missing_read) path, [], s)
      else (case adapter_read transport (xe_abortedRead env k) path None s of
              (r, tr, s') \<Rightarrow> (read (\<lambda>_. map_sum fst id r) path, tr, s')))"

definition candidate_view :: "BoardMessage \<Rightarrow> CandidateReadView" where
  "candidate_view m = \<lparr>cv_msgId = br_msgId m, cv_from = br_from m, cv_created = br_created m, cv_ttl = br_ttl m\<rparr>"

record CleanupPreviewItem =
  ci_msgId :: string
  ci_path :: string
  ci_channel :: string
  ci_from :: string
  ci_to :: string
  ci_created :: string
  ci_ttl :: "js_num option"
  ci_basis :: "CleanupBasis list"
  ci_expired :: bool
  ci_ackedAt :: "ms option"
  ci_etag :: "string option"

datatype CleanupReason = CkRule ineligible | CkRead read_failure | CkIdMismatch | CkChanged | CkDeleteFailed

record CleanupSkip =
  sk_path :: string
  sk_msgId :: "string option"
  sk_reason :: CleanupReason

record CleanupPreview =
  cp_candidates :: "CleanupPreviewItem list"
  cp_skipped :: "CleanupSkip list"
  cp_listingTruncated :: bool
  cp_readTruncated :: bool
  cp_ownFrom :: string

datatype CleanupPreviewFailure = PfNoIdentity | PfListingFailed | PfPrivateMode

text \<open>One listed path: a candidate or a visible skip.\<close>

definition plan_path ::
  "cleanup_env \<Rightarrow> 's transport \<Rightarrow> string \<Rightarrow> nat \<Rightarrow> string \<Rightarrow> 's \<Rightarrow> (CleanupSkip + CleanupPreviewItem) \<times> tool_call list \<times> 's" where
  "plan_path env transport ownFrom k path s =
     (case boardMsgIdOfPath path of
        None \<Rightarrow> (Inl \<lparr>sk_path = path, sk_msgId = None, sk_reason = CkIdMismatch\<rparr>, [], s)
      | Some i \<Rightarrow>
          (case cleanup_read env transport k path s of
             (Inl _, tr, s') \<Rightarrow> (Inl \<lparr>sk_path = path, sk_msgId = Some i, sk_reason = CkRead BUnavailable\<rparr>, tr, s')
           | (Inr (BrFail f), tr, s') \<Rightarrow> (Inl \<lparr>sk_path = path, sk_msgId = Some i, sk_reason = CkRead f\<rparr>, tr, s')
           | (Inr (BrOk m), tr, s') \<Rightarrow>
               (case evaluateCleanupCandidate (xe_date_parse env) (candidate_view m) (xe_acked env k i) ownFrom (xe_now env) of
                  Ineligible r \<Rightarrow> (Inl \<lparr>sk_path = path, sk_msgId = Some (br_msgId m), sk_reason = CkRule r\<rparr>, tr, s')
                | Eligible basis expired \<Rightarrow>
                    (Inr \<lparr>ci_msgId = br_msgId m, ci_path = path, ci_channel = br_channel m, ci_from = br_from m,
                       ci_to = br_to m, ci_created = br_created m, ci_ttl = br_ttl m, ci_basis = basis,
                       ci_expired = expired, ci_ackedAt = xe_acked env k i, ci_etag = br_etag m\<rparr>, tr, s'))))"

fun plan_loop ::
  "cleanup_env \<Rightarrow> 's transport \<Rightarrow> string \<Rightarrow> nat \<Rightarrow> nat \<Rightarrow> nat \<Rightarrow> string list
   \<Rightarrow> CleanupPreviewItem list \<Rightarrow> CleanupSkip list \<Rightarrow> 's
   \<Rightarrow> CleanupPreviewItem list \<times> CleanupSkip list \<times> bool \<times> tool_call list \<times> 's" where
  "plan_loop env transport ownFrom maxCandidates maxReads k [] cs sk s = (cs, sk, False, [], s)"
| "plan_loop env transport ownFrom maxCandidates maxReads k (p # ps) cs sk s =
     (if length cs \<ge> maxCandidates \<or> length sk + length cs \<ge> maxReads then (cs, sk, True, [], s)
      else (case plan_path env transport ownFrom k p s of
              (r, tr, s1) \<Rightarrow>
                (case (case r of
                         Inl x \<Rightarrow> plan_loop env transport ownFrom maxCandidates maxReads (Suc k) ps cs (sk @ [x]) s1
                       | Inr c \<Rightarrow> plan_loop env transport ownFrom maxCandidates maxReads (Suc k) ps (cs @ [c]) sk s1) of
                   (cs', sk', t, tr', s2) \<Rightarrow> (cs', sk', t, tr @ tr', s2))))"

definition planBoardCleanup ::
  "cleanup_env \<Rightarrow> 's transport \<Rightarrow> bool \<Rightarrow> query \<Rightarrow> string \<Rightarrow> nat option \<Rightarrow> nat option \<Rightarrow> 's
   \<Rightarrow> (CleanupPreviewFailure + CleanupPreview) \<times> tool_call list \<times> 's" where
  "planBoardCleanup env transport privateListing q ownFrom maxCandidates maxReads s =
     (if ownFrom = '''' then (Inl PfNoIdentity, [], s)
      else (case listAllBoardMessagePaths privateListing q None None {} of
              Inl e \<Rightarrow> (Inl (if e = PrivateModeActive then PfPrivateMode else PfListingFailed), [], s)
            | Inr (paths, truncated) \<Rightarrow>
                (case plan_loop env transport ownFrom (max 1 (default_to 200 maxCandidates)) (max 1 (default_to 500 maxReads))
                        0 paths [] [] s of
                   (cs, sk, t, tr, s') \<Rightarrow>
                     (Inr \<lparr>cp_candidates = cs, cp_skipped = sk, cp_listingTruncated = truncated, cp_readTruncated = t,
                        cp_ownFrom = ownFrom\<rparr>, tr, s'))))"

section \<open>Execution\<close>

record CleanupDeleted =
  cd_msgId :: string
  cd_path :: string
  cd_opId :: string

record cleanup_run =
  cx_deleted :: "CleanupDeleted list"
  cx_skipped :: "CleanupSkip list"
  cx_unknown :: "string list"
  cx_ledger :: OpIdLedger

datatype cleanup_stop = Finished | CkAborted | PrivateTransition | BoundHit

datatype recheck = StopNow cleanup_stop | SkipIt "string option" CleanupReason | DeleteNow

text \<open>What the executor does with the result of the recheck read of one candidate.\<close>

definition recheck_item ::
  "cleanup_env \<Rightarrow> string \<Rightarrow> nat \<Rightarrow> CleanupPreviewItem \<Rightarrow> exn + ReadResult \<Rightarrow> recheck" where
  "recheck_item env ownFrom k item r =
     (case r of
        Inl e \<Rightarrow>
          if e = PrivateModeActive then StopNow PrivateTransition
          else if e = Backend CancelledError then StopNow CkAborted
          else SkipIt (Some (ci_msgId item)) (CkRead BUnavailable)
      | Inr (BrFail f) \<Rightarrow> SkipIt (Some (ci_msgId item)) (CkRead f)
      | Inr (BrOk m) \<Rightarrow>
          if br_msgId m \<noteq> ci_msgId item \<or> br_created m \<noteq> ci_created item \<or> br_from m \<noteq> ownFrom
          then SkipIt (Some (br_msgId m)) CkChanged
          else if ci_etag item \<noteq> None \<and> br_etag m \<noteq> ci_etag item then SkipIt (Some (br_msgId m)) CkChanged
          else (case evaluateCleanupCandidate (xe_date_parse env) (candidate_view m) (xe_acked env k (ci_msgId item))
                      ownFrom (xe_now env) of
                  Ineligible x \<Rightarrow> SkipIt (Some (ci_msgId item)) (CkRule x)
                | Eligible _ _ \<Rightarrow> DeleteNow))"

definition skip_item :: "CleanupPreviewItem \<Rightarrow> string option \<Rightarrow> CleanupReason \<Rightarrow> cleanup_run \<Rightarrow> cleanup_run" where
  "skip_item item i r run =
     run\<lparr>cx_skipped := cx_skipped run @ [\<lparr>sk_path = ci_path item, sk_msgId = i, sk_reason = r\<rparr>]\<rparr>"

text \<open>The operation id is recorded before the delete is sent.\<close>

definition delete_item ::
  "cleanup_env \<Rightarrow> 's transport \<Rightarrow> nat \<Rightarrow> CleanupPreviewItem \<Rightarrow> cleanup_run \<Rightarrow> 's
   \<Rightarrow> cleanup_stop option \<times> cleanup_run \<times> tool_call list \<times> 's" where
  "delete_item env transport k item run s =
     (let op = xe_mint env k;
          run1 = run\<lparr>cx_ledger := ledger_record op (cx_ledger run)\<rparr>
      in case del transport (cx_ledger run1) (xe_abortedDel env k) (ci_path item) None op s of
           (Inr _, tr, s') \<Rightarrow>
             (None, run1\<lparr>cx_deleted := cx_deleted run1
                @ [\<lparr>cd_msgId = ci_msgId item, cd_path = ci_path item, cd_opId = op\<rparr>]\<rparr>, tr, s')
         | (Inl e, tr, s') \<Rightarrow>
             if fst e = Backend CancelledError
             then (Some CkAborted, run1\<lparr>cx_unknown := cx_unknown run1 @ [op]\<rparr>, tr, s')
             else if fst e = PrivateModeActive
             then (Some PrivateTransition, run1\<lparr>cx_unknown := cx_unknown run1 @ [op]\<rparr>, tr, s')
             else (None, skip_item item (Some (ci_msgId item)) CkDeleteFailed run1, tr, s'))"

definition exec_item ::
  "cleanup_env \<Rightarrow> 's transport \<Rightarrow> string \<Rightarrow> nat \<Rightarrow> CleanupPreviewItem \<Rightarrow> cleanup_run \<Rightarrow> 's
   \<Rightarrow> cleanup_stop option \<times> cleanup_run \<times> tool_call list \<times> 's" where
  "exec_item env transport ownFrom k item run s =
     (if boardMsgIdOfPath (ci_path item) \<noteq> Some (ci_msgId item)
      then (None, skip_item item (boardMsgIdOfPath (ci_path item)) CkIdMismatch run, [], s)
      else (case cleanup_read env transport k (ci_path item) s of
              (r, tr, s1) \<Rightarrow>
                (case recheck_item env ownFrom k item r of
                   StopNow why \<Rightarrow> (Some why, run, tr, s1)
                 | SkipIt i reason \<Rightarrow> (None, skip_item item i reason run, tr, s1)
                 | DeleteNow \<Rightarrow>
                     (case delete_item env transport k item run s1 of (why, run', tr', s2) \<Rightarrow> (why, run', tr @ tr', s2)))))"

fun exec_loop ::
  "cleanup_env \<Rightarrow> 's transport \<Rightarrow> string \<Rightarrow> nat \<Rightarrow> nat \<Rightarrow> CleanupPreviewItem list \<Rightarrow> cleanup_run \<Rightarrow> 's
   \<Rightarrow> cleanup_stop \<times> cleanup_run \<times> tool_call list \<times> 's" where
  "exec_loop env transport ownFrom maxDeletes k [] run s = (Finished, run, [], s)"
| "exec_loop env transport ownFrom maxDeletes k (item # items) run s =
     (if xe_aborted env k then (CkAborted, run, [], s)
      else if xe_private env k then (PrivateTransition, run, [], s)
      else if length (cx_deleted run) \<ge> maxDeletes then (BoundHit, run, [], s)
      else (case exec_item env transport ownFrom k item run s of
              (Some why, run1, tr, s1) \<Rightarrow> (why, run1, tr, s1)
            | (None, run1, tr, s1) \<Rightarrow>
                (case exec_loop env transport ownFrom maxDeletes (Suc k) items run1 s1 of
                   (why, run2, tr', s2) \<Rightarrow> (why, run2, tr @ tr', s2))))"

record CleanupExecution =
  ce_deleted :: "CleanupDeleted list"
  ce_skipped :: "CleanupSkip list"
  ce_aborted :: bool
  ce_boundHit :: bool
  ce_unknown :: "string list"
  ce_ownFrom :: string

datatype refusal = NoPreview | IdentityChanged | NoIdentity | PrivateRefused

record CleanupExecutionRefused =
  rf_reason :: refusal
  rf_deleted :: "CleanupDeleted list"
  rf_unknown :: "string list"

definition refuse :: "refusal \<Rightarrow> CleanupExecutionRefused" where
  "refuse r = \<lparr>rf_reason = r, rf_deleted = [], rf_unknown = []\<rparr>"

definition executeBoardCleanup ::
  "cleanup_env \<Rightarrow> 's transport \<Rightarrow> bool \<Rightarrow> CleanupPreviewFailure + CleanupPreview \<Rightarrow> string \<Rightarrow> nat option
   \<Rightarrow> OpIdLedger \<Rightarrow> 's \<Rightarrow> (CleanupExecutionRefused + CleanupExecution) \<times> OpIdLedger \<times> tool_call list \<times> 's" where
  "executeBoardCleanup env transport isPrivate preview ownFrom maxDeletes ledger s =
     (case preview of
        Inl _ \<Rightarrow> (Inl (refuse NoPreview), ledger, [], s)
      | Inr pv \<Rightarrow>
          if ownFrom = '''' then (Inl (refuse NoIdentity), ledger, [], s)
          else if ownFrom \<noteq> cp_ownFrom pv then (Inl (refuse IdentityChanged), ledger, [], s)
          else if isPrivate then (Inl (refuse PrivateRefused), ledger, [], s)
          else (case exec_loop env transport ownFrom (max 1 (default_to 100 maxDeletes)) 0 (cp_candidates pv)
                        \<lparr>cx_deleted = [], cx_skipped = [], cx_unknown = [], cx_ledger = ledger\<rparr> s of
                  (why, run, tr, s') \<Rightarrow>
                    (if why = PrivateTransition
                     then Inl \<lparr>rf_reason = PrivateRefused, rf_deleted = cx_deleted run, rf_unknown = cx_unknown run\<rparr>
                     else Inr \<lparr>ce_deleted = cx_deleted run, ce_skipped = cx_skipped run, ce_aborted = (why = CkAborted),
                       ce_boundHit = (why = BoundHit), ce_unknown = cx_unknown run, ce_ownFrom = ownFrom\<rparr>,
                     cx_ledger run, tr, s')))"

section \<open>What may be deleted\<close>

text \<open>
  Eligibility is conjunctive: a message may be deleted exactly when it is this agent's own,
  its time-to-live has run out, this agent has acknowledged it, and both instants are older
  than the grace window.
\<close>
theorem cleanup_eligibility_is_conjunctive:
  "(evaluateCleanupCandidate date_parse v ackAt ownFrom now = Eligible basis expired)
   = (cv_from v = ownFrom \<and> basis = [TtlExpired, LocallyAcked] \<and> expired
      \<and> (\<exists>c q a. date_parse (cv_created v) = Some c \<and> cv_ttl v = Some (Fin q) \<and> 0 \<le> q \<and> ackAt = Some a
           \<and> of_int c + q * 1000 + of_int GC_GRACE_MS < (of_int now :: rat) \<and> a + GC_GRACE_MS < now))"
proof -
  have g: "(0::rat) < of_int GC_GRACE_MS" by (simp add: GC_GRACE_MS_def)
  have m: "(of_int now - max u (of_int a) \<le> (of_int GC_GRACE_MS :: rat))
      = (\<not> (u + of_int GC_GRACE_MS < of_int now \<and> a + GC_GRACE_MS < now))" for u :: rat and a
  proof -
    have "(a + GC_GRACE_MS < now) = ((of_int a :: rat) + of_int GC_GRACE_MS < of_int now)"
      by (simp only: of_int_add [symmetric] of_int_less_iff)
    then show ?thesis by (auto simp: max_def not_less le_diff_eq diff_le_eq add.commute)
  qed
  show ?thesis
    using g by (auto simp: evaluateCleanupCandidate_def Let_def ttl_expired_def m
        split: option.splits js_num.splits if_splits)
qed

definition confirmed :: "cleanup_env \<Rightarrow> 's transport \<Rightarrow> string \<Rightarrow> nat \<Rightarrow> CleanupPreviewItem \<Rightarrow> bool" where
  "confirmed env transport ownFrom k item =
     (boardMsgIdOfPath (ci_path item) = Some (ci_msgId item)
      \<and> (\<exists>s m b x. fst (cleanup_read env transport k (ci_path item) s) = Inr (BrOk m)
          \<and> br_msgId m = ci_msgId item \<and> br_created m = ci_created item \<and> br_from m = ownFrom
          \<and> (ci_etag item = None \<or> br_etag m = ci_etag item)
          \<and> evaluateCleanupCandidate (xe_date_parse env) (candidate_view m) (xe_acked env k (ci_msgId item)) ownFrom (xe_now env)
            = Eligible b x))"

text \<open>The calls made for one candidate: at most two reads of its path, then at most two deletes.\<close>

definition cleanup_segment ::
  "cleanup_env \<Rightarrow> 's transport \<Rightarrow> string \<Rightarrow> nat \<Rightarrow> CleanupPreviewItem \<Rightarrow> tool_call list \<Rightarrow> bool" where
  "cleanup_segment env transport ownFrom k item seg =
     (\<exists>n m. seg = replicate n (KiwiRead, [(''path'', JStr (ci_path item))])
                @ replicate m (KiwiDelete, path_args (ci_path item) (xe_mint env k) [(''actor'', None)])
          \<and> n \<le> 2 \<and> m \<le> 2 \<and> (m = 0 \<or> n \<noteq> 0 \<and> confirmed env transport ownFrom k item)
          \<and> (seg = [] \<or> \<not> xe_aborted env k \<and> \<not> xe_private env k))"

lemma replicate_of_set: "set xs \<subseteq> {x} \<Longrightarrow> xs = replicate (length xs) x"
  by (metis replicate_length_same singletonD subsetD)

lemma call_replicate:
  assumes "call transport ab tool args s = (r, tr, s')"
  shows "\<exists>n \<le> 2. tr = replicate n (tool, args) \<and> n \<noteq> 0"
proof -
  have "tr = replicate (length tr) (tool, args)" "length tr \<le> 2" "tr \<noteq> []"
    using call_trace [OF assms] replicate_of_set [of tr "(tool, args)"] by auto
  then show ?thesis by (metis length_0_conv)
qed

lemma adapter_read_trace:
  assumes "adapter_read transport ab path None s = (r, tr, s')"
  shows "\<exists>n \<le> 2. tr = replicate n (KiwiRead, [(''path'', JStr path)]) \<and> (n \<noteq> 0 \<or> (\<exists>e. r = Inl e))"
proof (cases "assertValidPath path")
  case None
  obtain cr c1 c2 where c: "call transport ab KiwiRead [(''path'', JStr path)] s = (cr, c1, c2)" by (metis prod_cases3)
  then have "c1 = tr" using assms None by (cases cr) (simp_all add: adapter_read_def split: if_splits)
  then show ?thesis using call_replicate [OF c] by blast
qed (use assms in \<open>auto simp: adapter_read_def\<close>)

lemma del_trace:
  assumes "del transport ledger ab path actor op s = (r, tr, s')"
  shows "\<exists>n \<le> 2. tr = replicate n (KiwiDelete, path_args path op [(''actor'', actor)])"
proof (cases "assertValidPath path = None \<and> assertPersisted ledger op = None")
  case True
  obtain cr c1 c2 where c: "call transport ab KiwiDelete (path_args path op [(''actor'', actor)]) s = (cr, c1, c2)"
    by (metis prod_cases3)
  then have "c1 = tr" using assms True by (cases cr) (simp_all add: del_def)
  then show ?thesis using call_replicate [OF c] by blast
qed (use assms in \<open>auto simp: del_def split: option.splits\<close>)

lemma cleanup_read_trace:
  assumes "cleanup_read env transport k path s = (r, tr, s')"
  shows "\<exists>n \<le> 2. tr = replicate n (KiwiRead, [(''path'', JStr path)]) \<and> (n \<noteq> 0 \<or> (\<nexists>m. r = Inr (BrOk m)))"
proof (cases "xe_privateRead env k \<or> boardChannelOfPath path = None")
  case True
  then show ?thesis using assms by (auto simp: cleanup_read_def repo_read_def Let_def split: if_splits)
next
  case False
  obtain ar t s1 where ar: "adapter_read transport (xe_abortedRead env k) path None s = (ar, t, s1)" by (metis prod_cases3)
  then have r: "t = tr" "r = repo_read (xe_date_parse env) (xe_privateRead env k) (xe_repoNow env k) True (\<lambda>_. map_sum fst id ar) path"
    using assms False by (simp_all add: cleanup_read_def)
  have "r \<noteq> Inr (BrOk m)" if "ar = Inl e" for e m
    using r(2) that False by (auto simp: repo_read_def split: if_splits)
  then show ?thesis using adapter_read_trace [OF ar] r(1) by blast
qed

lemma delete_item_facts:
  assumes "delete_item env transport k item run s = (why, run', tr, s')"
  shows "\<exists>n \<le> 2. tr = replicate n (KiwiDelete, path_args (ci_path item) (xe_mint env k) [(''actor'', None)])"
    and "cx_deleted run' = cx_deleted run
      \<or> (\<exists>op. cx_deleted run' = cx_deleted run @ [\<lparr>cd_msgId = ci_msgId item, cd_path = ci_path item, cd_opId = op\<rparr>]
           \<and> op = xe_mint env k)"
    and "cx_ledger run' = ledger_record (xe_mint env k) (cx_ledger run)"
proof -
  let ?l = "ledger_record (xe_mint env k) (cx_ledger run)"
  obtain r t s1 where d: "del transport ?l (xe_abortedDel env k) (ci_path item) None (xe_mint env k) s = (r, t, s1)"
    by (metis prod_cases3)
  have "t = tr" using assms d by (cases r) (simp_all add: delete_item_def Let_def split: if_splits)
  then show "\<exists>n \<le> 2. tr = replicate n (KiwiDelete, path_args (ci_path item) (xe_mint env k) [(''actor'', None)])"
    using del_trace [OF d] by blast
  have "(cx_deleted run' = cx_deleted run
      \<or> (\<exists>op. cx_deleted run' = cx_deleted run @ [\<lparr>cd_msgId = ci_msgId item, cd_path = ci_path item, cd_opId = op\<rparr>]
           \<and> op = xe_mint env k)) \<and> cx_ledger run' = ?l"
  proof (cases r)
    case (Inl e)
    then show ?thesis using assms d by (simp add: delete_item_def skip_item_def Let_def split: if_splits)
      (elim conjE; hypsubst; simp)+
  next
    case (Inr x)
    then show ?thesis using assms d by (simp add: delete_item_def Let_def) (elim conjE; hypsubst; simp)
  qed
  then show "cx_deleted run' = cx_deleted run
      \<or> (\<exists>op. cx_deleted run' = cx_deleted run @ [\<lparr>cd_msgId = ci_msgId item, cd_path = ci_path item, cd_opId = op\<rparr>]
           \<and> op = xe_mint env k)"
    "cx_ledger run' = ?l"
    by blast+
qed

definition deleted_by :: "cleanup_env \<Rightarrow> nat \<Rightarrow> CleanupPreviewItem \<Rightarrow> CleanupDeleted" where
  "deleted_by env k item = \<lparr>cd_msgId = ci_msgId item, cd_path = ci_path item, cd_opId = xe_mint env k\<rparr>"

lemma recheck_confirms:
  assumes "recheck_item env ownFrom k item (fst (cleanup_read env transport k (ci_path item) s)) = DeleteNow"
    and "boardMsgIdOfPath (ci_path item) = Some (ci_msgId item)"
  shows "confirmed env transport ownFrom k item \<and> (\<exists>m. fst (cleanup_read env transport k (ci_path item) s) = Inr (BrOk m))"
  using assms unfolding recheck_item_def confirmed_def
  by (auto split: sum.splits ReadResult.splits if_splits CleanupEligibility.splits)

lemma exec_item_facts:
  assumes "exec_item env transport ownFrom k item run s = (why, run', tr, s')" "\<not> xe_aborted env k" "\<not> xe_private env k"
  shows "cleanup_segment env transport ownFrom k item tr"
    and "cx_deleted run' = cx_deleted run \<or> cx_deleted run' = cx_deleted run @ [deleted_by env k item]"
    and "set (cx_ledger run) \<subseteq> set (cx_ledger run')"
proof -
  have skip: "cleanup_segment env transport ownFrom k item (replicate n (KiwiRead, [(''path'', JStr (ci_path item))]))"
    if "n \<le> 2" for n
    unfolding cleanup_segment_def using that assms(2,3) by (intro exI [of _ n] exI [of _ 0]) simp
  have "cleanup_segment env transport ownFrom k item tr
    \<and> (cx_deleted run' = cx_deleted run \<or> cx_deleted run' = cx_deleted run @ [deleted_by env k item])
    \<and> set (cx_ledger run) \<subseteq> set (cx_ledger run')"
  proof (cases "boardMsgIdOfPath (ci_path item) = Some (ci_msgId item)")
    case False
    then show ?thesis using assms(1) skip [of 0] by (auto simp: exec_item_def skip_item_def)
  next
    case True
    obtain r t1 s1 where rd: "cleanup_read env transport k (ci_path item) s = (r, t1, s1)" by (metis prod_cases3)
    from cleanup_read_trace [OF rd] obtain n where n: "n \<le> 2" "t1 = replicate n (KiwiRead, [(''path'', JStr (ci_path item))])"
      "n \<noteq> 0 \<or> (\<nexists>m. r = Inr (BrOk m))" by blast
    show ?thesis
    proof (cases "recheck_item env ownFrom k item r")
      case DeleteNow
      obtain w d t2 s2 where dl: "delete_item env transport k item run s1 = (w, d, t2, s2)" by (metis prod_cases4)
      have o: "run' = d" "tr = t1 @ t2" using assms(1) True rd DeleteNow dl by (simp_all add: exec_item_def)
      from delete_item_facts [OF dl] obtain j where j: "j \<le> 2"
        "t2 = replicate j (KiwiDelete, path_args (ci_path item) (xe_mint env k) [(''actor'', None)])" by blast
      have c: "confirmed env transport ownFrom k item" "n \<noteq> 0"
        using recheck_confirms [of env ownFrom k item transport s] True rd DeleteNow n(3) by auto
      have "cleanup_segment env transport ownFrom k item tr"
        unfolding cleanup_segment_def using o(2) n(1,2) j c assms(2,3) by (intro exI [of _ n] exI [of _ j]) simp
      then show ?thesis
        using delete_item_facts(2,3) [OF dl] o(1) by (auto simp: deleted_by_def ledger_record_def)
    qed (use assms(1) True rd n(2) skip [OF n(1)] in \<open>auto simp: exec_item_def skip_item_def\<close>)
  qed
  then show "cleanup_segment env transport ownFrom k item tr"
    "cx_deleted run' = cx_deleted run \<or> cx_deleted run' = cx_deleted run @ [deleted_by env k item]"
    "set (cx_ledger run) \<subseteq> set (cx_ledger run')" by blast+
qed

definition segments ::
  "cleanup_env \<Rightarrow> 's transport \<Rightarrow> string \<Rightarrow> nat \<Rightarrow> CleanupPreviewItem list \<Rightarrow> tool_call list list \<Rightarrow> bool" where
  "segments env transport ownFrom k items segs =
     (length segs = length items \<and> (\<forall>i < length items. cleanup_segment env transport ownFrom (k + i) (items ! i) (segs ! i)))"

lemma segments_Cons:
  "cleanup_segment env transport ownFrom k item seg \<Longrightarrow> segments env transport ownFrom (Suc k) items segs \<Longrightarrow>
   segments env transport ownFrom k (item # items) (seg # segs)"
  by (auto simp: segments_def less_Suc_eq_0_disj)

lemma segments_idle: "segments env transport ownFrom k items (replicate (length items) [])"
  by (auto simp: segments_def cleanup_segment_def)

lemma exec_loop_facts:
  assumes "exec_loop env transport ownFrom maxDeletes k items run s = (why, run', tr, s')"
  shows "(\<exists>segs. tr = concat segs \<and> segments env transport ownFrom k items segs)
    \<and> (\<exists>ks. cx_deleted run' = cx_deleted run @ map (\<lambda>i. deleted_by env (k + i) (items ! i)) ks
          \<and> subseq ks [0..<length items])
    \<and> (length (cx_deleted run) \<le> maxDeletes \<longrightarrow> length (cx_deleted run') \<le> maxDeletes)
    \<and> set (cx_ledger run) \<subseteq> set (cx_ledger run')"
  using assms
proof (induction items arbitrary: k run s why run' tr s')
  case Nil
  then show ?case by (auto simp: segments_def)
next
  case (Cons item items)
  show ?case
  proof (cases "xe_aborted env k \<or> xe_private env k \<or> length (cx_deleted run) \<ge> maxDeletes")
    case True
    then have "run' = run" "tr = []" using Cons.prems by (auto split: if_splits)
    then show ?thesis
      by (intro conjI exI [of _ "replicate (length (item # items)) []"] exI [of _ "[]"] segments_idle) simp_all
  next
    case False
    obtain w run1 t1 s1 where it: "exec_item env transport ownFrom k item run s = (w, run1, t1, s1)" by (metis prod_cases4)
    note f = exec_item_facts [OF it]
    have one: "\<exists>ks. cx_deleted run1 = cx_deleted run @ map (\<lambda>i. deleted_by env (k + i) ((item # items) ! i)) ks
        \<and> subseq ks [0]"
      using f(2) False by (auto intro: exI [of _ "[]"] exI [of _ "[0]"])
    have len: "length (cx_deleted run1) \<le> maxDeletes" using f(2) False by auto
    show ?thesis
    proof (cases w)
      case (Some x)
      then have r: "run' = run1" "tr = t1" using Cons.prems False it by auto
      have "segments env transport ownFrom k (item # items) (t1 # replicate (length items) [])"
        using f(1) False by (intro segments_Cons segments_idle) simp
      moreover have "tr = concat (t1 # replicate (length items) [])" using r by simp
      moreover have "\<exists>ks. cx_deleted run1 = cx_deleted run @ map (\<lambda>i. deleted_by env (k + i) ((item # items) ! i)) ks
          \<and> subseq ks [0..<length (item # items)]"
      proof -
        have "subseq ks [0..<length (item # items)]" if "subseq ks [0]" for ks
          using list_emb_prefix [OF that, of "[1..<length (item # items)]"]
          by (simp add: upt_conv_Cons del: upt_Suc)
        then show ?thesis using one by blast
      qed
      ultimately show ?thesis using r(1) f(3) False len by blast
    next
      case None
      obtain w2 run2 t2 s2 where lp: "exec_loop env transport ownFrom maxDeletes (Suc k) items run1 s1 = (w2, run2, t2, s2)"
        by (metis prod_cases4)
      have r: "run' = run2" "tr = t1 @ t2" using Cons.prems False it None lp by auto
      note ih = Cons.IH [OF lp]
      from ih obtain segs where sg: "t2 = concat segs" "segments env transport ownFrom (Suc k) items segs" by blast
      have "segments env transport ownFrom k (item # items) (t1 # segs)"
        using f(1) False sg(2) by (intro segments_Cons) simp_all
      moreover have "tr = concat (t1 # segs)" using r sg by simp
      moreover have "\<exists>ks. cx_deleted run2 = cx_deleted run @ map (\<lambda>i. deleted_by env (k + i) ((item # items) ! i)) ks
          \<and> subseq ks [0..<length (item # items)]"
      proof -
        from one obtain a where a: "cx_deleted run1 = cx_deleted run @ map (\<lambda>i. deleted_by env (k + i) ((item # items) ! i)) a"
          "subseq a [0]" by blast
        from ih obtain b where b: "cx_deleted run2 = cx_deleted run1 @ map (\<lambda>i. deleted_by env (Suc k + i) (items ! i)) b"
          "subseq b [0..<length items]" by blast
        have "subseq (map Suc b) [1..<Suc (length items)]" using subseq_map [OF b(2), of Suc] by (simp add: map_Suc_upt)
        then have "subseq (a @ map Suc b) ([0] @ [1..<Suc (length items)])" using a(2) by (intro list_emb_append_mono)
        then have "subseq (a @ map Suc b) [0..<length (item # items)]" by (simp add: upt_conv_Cons del: upt_Suc)
        moreover have "cx_deleted run2 = cx_deleted run
            @ map (\<lambda>i. deleted_by env (k + i) ((item # items) ! i)) (a @ map Suc b)"
          using a(1) b(1) by (simp add: comp_def)
        ultimately show ?thesis by blast
      qed
      moreover have "length (cx_deleted run2) \<le> maxDeletes" using ih len by blast
      moreover have "set (cx_ledger run) \<subseteq> set (cx_ledger run2)" using ih f(3) False by auto
      ultimately show ?thesis unfolding r(1) by blast
    qed
  qed
qed

definition preview_items :: "CleanupPreviewFailure + CleanupPreview \<Rightarrow> CleanupPreviewItem list" where
  "preview_items preview = (case preview of Inl _ \<Rightarrow> [] | Inr pv \<Rightarrow> cp_candidates pv)"

definition deletes_of :: "CleanupExecutionRefused + CleanupExecution \<Rightarrow> CleanupDeleted list" where
  "deletes_of r = (case r of Inl x \<Rightarrow> rf_deleted x | Inr x \<Rightarrow> ce_deleted x)"

lemma replicate_segments: "\<exists>segs. [] = concat segs \<and> segments env transport ownFrom 0 items segs"
  by (rule exI [of _ "replicate (length items) []"]) (simp add: segments_idle)


section \<open>What may be proposed\<close>

definition proposed :: "cleanup_env \<Rightarrow> 's transport \<Rightarrow> string \<Rightarrow> CleanupPreviewItem \<Rightarrow> bool" where
  "proposed env transport ownFrom c =
     (\<exists>k s m. fst (cleanup_read env transport k (ci_path c) s) = Inr (BrOk m)
        \<and> ci_msgId c = br_msgId m \<and> ci_created c = br_created m \<and> ci_from c = br_from m \<and> ci_etag c = br_etag m
        \<and> evaluateCleanupCandidate (xe_date_parse env) (candidate_view m) (ci_ackedAt c) ownFrom (xe_now env)
          = Eligible (ci_basis c) (ci_expired c))"

lemma plan_path_facts:
  assumes "plan_path env transport ownFrom k path s = (r, tr, s')"
  shows "fst ` set tr \<subseteq> {KiwiRead}"
    and "r = Inr c \<Longrightarrow> ci_path c = path \<and> proposed env transport ownFrom c"
    and "r = Inl x \<Longrightarrow> sk_path x = path"
proof -
  have "fst ` set tr \<subseteq> {KiwiRead} \<and> (\<forall>c. r = Inr c \<longrightarrow> ci_path c = path \<and> proposed env transport ownFrom c)
    \<and> (\<forall>x. r = Inl x \<longrightarrow> sk_path x = path)"
  proof (cases "boardMsgIdOfPath path")
    case None
    then show ?thesis using assms by (auto simp: plan_path_def)
  next
    case (Some i)
    obtain rd t s1 where rd: "cleanup_read env transport k path s = (rd, t, s1)" by (metis prod_cases3)
    then have t: "fst ` set t \<subseteq> {KiwiRead}" using cleanup_read_trace [OF rd] by auto
    have rd': "fst (cleanup_read env transport k path s) = rd" by (simp add: rd)
    show ?thesis
    proof (cases "\<exists>m b x. rd = Inr (BrOk m)
        \<and> evaluateCleanupCandidate (xe_date_parse env) (candidate_view m) (xe_acked env k i) ownFrom (xe_now env) = Eligible b x")
      case True
      then obtain m b x where m: "rd = Inr (BrOk m)"
        "evaluateCleanupCandidate (xe_date_parse env) (candidate_view m) (xe_acked env k i) ownFrom (xe_now env) = Eligible b x"
        by blast
      have o: "tr = t" "r = Inr \<lparr>ci_msgId = br_msgId m, ci_path = path, ci_channel = br_channel m, ci_from = br_from m,
         ci_to = br_to m, ci_created = br_created m, ci_ttl = br_ttl m, ci_basis = b,
         ci_expired = x, ci_ackedAt = xe_acked env k i, ci_etag = br_etag m\<rparr>"
        using assms Some rd m by (simp_all add: plan_path_def)
      show ?thesis unfolding o proposed_def using t rd' m by auto
    next
      case False
      then show ?thesis using assms Some rd t
        by (auto simp: plan_path_def split: sum.splits ReadResult.splits CleanupEligibility.splits)
    qed
  qed
  then show "fst ` set tr \<subseteq> {KiwiRead}" "r = Inr c \<Longrightarrow> ci_path c = path \<and> proposed env transport ownFrom c"
    "r = Inl x \<Longrightarrow> sk_path x = path" by blast+
qed

abbreviation listed :: "CleanupPreviewItem list \<Rightarrow> CleanupSkip list \<Rightarrow> string multiset" where
  "listed cs sk \<equiv> mset (map ci_path cs) + mset (map sk_path sk)"

lemma plan_loop_facts:
  assumes "plan_loop env transport ownFrom maxC maxR k ps cs sk s = (cs', sk', t, tr, s')"
    and "\<forall>c \<in> set cs. proposed env transport ownFrom c" "length cs \<le> maxC" "length sk + length cs \<le> maxR"
  shows "fst ` set tr \<subseteq> {KiwiRead} \<and> (\<forall>c \<in> set cs'. proposed env transport ownFrom c)
    \<and> length cs' \<le> maxC \<and> length sk' + length cs' \<le> maxR
    \<and> (\<exists>rest. listed cs sk + mset ps = listed cs' sk' + mset rest \<and> (t \<or> rest = []))"
  using assms
proof (induction ps arbitrary: k cs sk s cs' sk' t tr s')
  case Nil
  then show ?case by auto
next
  case (Cons p ps)
  show ?case
  proof (cases "length cs \<ge> maxC \<or> length sk + length cs \<ge> maxR")
    case True
    then show ?thesis using Cons.prems by (auto intro: exI [of _ "p # ps"])
  next
    case False
    obtain r t1 s1 where p: "plan_path env transport ownFrom k p s = (r, t1, s1)" by (metis prod_cases3)
    note f = plan_path_facts [OF p]
    show ?thesis
    proof (cases r)
      case (Inl x)
      obtain c2 k2 b2 t2 s2 where l: "plan_loop env transport ownFrom maxC maxR (Suc k) ps cs (sk @ [x]) s1 = (c2, k2, b2, t2, s2)"
        by (metis prod_cases5)
      have o: "cs' = c2" "sk' = k2" "t = b2" "tr = t1 @ t2" using Cons.prems(1) False p Inl l by auto
      have "fst ` set t2 \<subseteq> {KiwiRead} \<and> (\<forall>c \<in> set c2. proposed env transport ownFrom c)
          \<and> length c2 \<le> maxC \<and> length k2 + length c2 \<le> maxR
          \<and> (\<exists>rest. listed cs (sk @ [x]) + mset ps = listed c2 k2 + mset rest \<and> (b2 \<or> rest = []))"
        by (rule Cons.IH [OF l]) (use Cons.prems(2) False in auto)
      then show ?thesis unfolding o using f(1,3) Inl by (auto simp: image_Un)
    next
      case (Inr c)
      obtain c2 k2 b2 t2 s2 where l: "plan_loop env transport ownFrom maxC maxR (Suc k) ps (cs @ [c]) sk s1 = (c2, k2, b2, t2, s2)"
        by (metis prod_cases5)
      have o: "cs' = c2" "sk' = k2" "t = b2" "tr = t1 @ t2" using Cons.prems(1) False p Inr l by auto
      have "fst ` set t2 \<subseteq> {KiwiRead} \<and> (\<forall>c \<in> set c2. proposed env transport ownFrom c)
          \<and> length c2 \<le> maxC \<and> length k2 + length c2 \<le> maxR
          \<and> (\<exists>rest. listed (cs @ [c]) sk + mset ps = listed c2 k2 + mset rest \<and> (b2 \<or> rest = []))"
        by (rule Cons.IH [OF l]) (use Cons.prems(2) False f(2) Inr in auto)
      then show ?thesis unfolding o using f(1,2) Inr by (auto simp: image_Un)
    qed
  qed
qed

text \<open>
  Planning only reads, is bounded, and hides nothing: the calls it makes are reads; the
  preview holds no more candidates and looks at no more paths than the bounds; each candidate
  was freshly read and is eligible for the identity the plan is for; and unless the plan says
  that it stopped early, every listed path is a candidate or a visible skip, exactly once.
\<close>
theorem cleanup_plan_is_read_only_and_complete:
  assumes "planBoardCleanup env transport privateListing q ownFrom maxC maxR s = (r, tr, s')"
    and "listAllBoardMessagePaths privateListing q None None {} = Inr (paths, truncated)" "ownFrom \<noteq> ''''"
  shows "fst ` set tr \<subseteq> {KiwiRead} \<and> (\<exists>pv. r = Inr pv \<and> cp_ownFrom pv = ownFrom \<and> cp_listingTruncated pv = truncated
      \<and> length (cp_candidates pv) \<le> max 1 (default_to 200 maxC)
      \<and> length (cp_skipped pv) + length (cp_candidates pv) \<le> max 1 (default_to 500 maxR)
      \<and> (\<forall>c \<in> set (cp_candidates pv). proposed env transport ownFrom c)
      \<and> (cp_readTruncated pv \<or> mset paths = listed (cp_candidates pv) (cp_skipped pv)))"
proof -
  obtain cs sk t tr' s1 where l: "plan_loop env transport ownFrom (max 1 (default_to 200 maxC)) (max 1 (default_to 500 maxR)) 0 paths [] [] s
    = (cs, sk, t, tr', s1)" by (metis prod_cases5)
  have o: "tr = tr'" "r = Inr \<lparr>cp_candidates = cs, cp_skipped = sk, cp_listingTruncated = truncated, cp_readTruncated = t,
      cp_ownFrom = ownFrom\<rparr>"
    using assms l by (auto simp: planBoardCleanup_def)
  from plan_loop_facts [OF l] show ?thesis unfolding o by auto
qed

section \<open>Examples\<close>

definition old_path :: string where "old_path = ''board/dev/0123456789abcdef.md''"

definition old_text :: string where
  "old_text = join_with [nl] [''---'', ''schemaVersion: 1'', ''id: 0123456789abcdef'', ''type: board-message'', ''scope: personal'',
     ''created: 2026'', ''sources: []'', ''status: active'', ''to: bob'', ''from: ann'', ''channel: dev'', ''ttl: 1'', ''---'', ''hi'']"

text \<open>A server with one page, whose answer to a delete is lost when \<open>up\<close> is false.\<close>

fun page_server :: "bool \<Rightarrow> string option transport" where
  "page_server up KiwiRead args s =
     (case s of None \<Rightarrow> (Inl (validation ''not found''), None)
      | Some t \<Rightarrow> (Inr \<lparr>isError = False, res_text = t, res_meta = []\<rparr>, Some t))"
| "page_server up KiwiDelete args s =
     (if up then Inr \<lparr>isError = False, res_text = '''', res_meta = []\<rparr> else Inl (Backend AvailabilityError, ''''), None)"
| "page_server up _ args s = (Inl (Backend AvailabilityError, ''''), s)"

definition cleanup_example :: cleanup_env where
  "cleanup_example = \<lparr>xe_date_parse = (\<lambda>_. Some 0), xe_now = 3000000000, xe_repoNow = (\<lambda>_. 3000000000),
     xe_aborted = (\<lambda>_. False), xe_private = (\<lambda>_. False), xe_privateRead = (\<lambda>_. False), xe_abortedRead = (\<lambda>_. False),
     xe_abortedDel = (\<lambda>_. False), xe_acked = (\<lambda>_ _. Some 2000), xe_mint = (\<lambda>k. ''op'' @ show_nat k)\<rparr>"

definition old_query :: query where
  "old_query page offset = (if page = 0 then Inr (''path: '' @ old_path) else Inr '''')"

definition old_preview :: CleanupPreview where
  "old_preview = \<lparr>cp_candidates = [\<lparr>ci_msgId = ''0123456789abcdef'', ci_path = old_path, ci_channel = ''dev'', ci_from = ''ann'',
       ci_to = ''bob'', ci_created = ''2026'', ci_ttl = Some (Fin 1), ci_basis = [TtlExpired, LocallyAcked], ci_expired = True,
       ci_ackedAt = Some 2000, ci_etag = None\<rparr>], cp_skipped = [], cp_listingTruncated = False, cp_readTruncated = False,
     cp_ownFrom = ''ann''\<rparr>"

lemma old_plan:
  "planBoardCleanup cleanup_example (page_server True) False old_query ''ann'' None None (Some old_text)
   = (Inr old_preview, [(KiwiRead, [(''path'', JStr old_path)])], Some old_text)"
  by code_simp

lemma old_listing: "listAllBoardMessagePaths False old_query None None {} = Inr ([old_path], False)"
  by code_simp

theorem cleanup_plan_is_read_only_and_complete_witness:
  "mset [old_path] = listed (cp_candidates old_preview) (cp_skipped old_preview)"
  using cleanup_plan_is_read_only_and_complete [OF old_plan old_listing] by (simp add: old_preview_def)

lemma old_execution:
  "executeBoardCleanup cleanup_example (page_server True) False (Inr old_preview) ''ann'' None [] (Some old_text)
   = (Inr \<lparr>ce_deleted = [\<lparr>cd_msgId = ''0123456789abcdef'', cd_path = old_path, cd_opId = ''op0''\<rparr>], ce_skipped = [],
        ce_aborted = False, ce_boundHit = False, ce_unknown = [], ce_ownFrom = ''ann''\<rparr>,
      [''op0''],
      [(KiwiRead, [(''path'', JStr old_path)]), (KiwiDelete, path_args old_path ''op0'' [(''actor'', None)])],
      None)"
  by code_simp


text \<open>
  A delete whose answer is lost is reported as not deleted: the server removed the message and
  the connection failed, the executor lists the candidate as skipped with \<open>delete-failed\<close>, and
  neither as deleted nor among the deletes of unknown outcome, which only a cancelled call or a
  closed gate enters.
\<close>
theorem lost_delete_is_reported_as_skipped:
  "executeBoardCleanup cleanup_example (page_server False) False (Inr old_preview) ''ann'' None [] (Some old_text)
   = (Inr \<lparr>ce_deleted = [],
        ce_skipped = [\<lparr>sk_path = old_path, sk_msgId = Some ''0123456789abcdef'', sk_reason = CkDeleteFailed\<rparr>],
        ce_aborted = False, ce_boundHit = False, ce_unknown = [], ce_ownFrom = ''ann''\<rparr>,
      [''op0''],
      [(KiwiRead, [(''path'', JStr old_path)]), (KiwiDelete, path_args old_path ''op0'' [(''actor'', None)]),
       (KiwiDelete, path_args old_path ''op0'' [(''actor'', None)])],
      None)"
  by code_simp

end
