(* ===== verification/Guard.thy ===== *)
theory Guard
  imports Adapter
begin

text \<open>
  The fail-closed guard over retrieved records (src/backend/guard.ts): the advisory tombstone
  cache, the five steps every candidate passes before it may be used, and the packing of a
  brief with its fallback. Every read goes through the adapter over any transport; the privacy
  redactor is an argument (\<open>Inl\<close> of a reason, or \<open>Inr\<close> of the redacted text).
\<close>

section \<open>The tombstone cache\<close>

definition is_eol :: "char \<Rightarrow> bool" where
  "is_eol c = (c = nl \<or> c = CHR 0x0D)"

lemma strip_prefix_length: "strip_prefix p s = Some r \<Longrightarrow> length s = length p + length r"
  by (auto simp: strip_prefix_def split: if_splits) (metis append_take_drop_id length_append length_drop)

text \<open>\<open>text.matchAll(/^path:\s*(\S+)$/gm)\<close>: the first argument says whether a line starts here.\<close>

function path_matches :: "bool \<Rightarrow> string \<Rightarrow> string list" where
  "path_matches bol [] = []"
| "path_matches bol (c # cs) =
     (case (if bol then strip_prefix ''path:'' (c # cs) else None) of
        None \<Rightarrow> path_matches (is_eol c) cs
      | Some r \<Rightarrow>
          (let r1 = dropWhile is_space r;
               p = takeWhile (\<lambda>x. \<not> is_space x) r1;
               r2 = dropWhile (\<lambda>x. \<not> is_space x) r1
           in if p \<noteq> [] \<and> (r2 = [] \<or> is_eol (hd r2)) then p # path_matches False r2
              else path_matches (is_eol c) cs))"
  by pat_completeness auto

termination
proof (relation "measure (length \<circ> snd)")
  fix bol c cs r r1 p r2
  assume a: "(if bol then strip_prefix ''path:'' (c # cs) else None) = Some r" "r1 = dropWhile is_space r"
    "r2 = dropWhile (\<lambda>x. \<not> is_space x) r1"
  have "length r2 \<le> length r" unfolding a(2,3) using length_dropWhile_le order_trans by blast
  moreover have "length (c # cs) = 5 + length r" using a(1) strip_prefix_length by (fastforce split: if_splits)
  ultimately show "((False, r2), bol, c # cs) \<in> measure (length \<circ> snd)" by simp
qed auto

record TombstoneCache =
  tc_scopes :: "string list"
  tc_ttl :: ms
  tc_paths :: "string set"
  tc_fetchedAt :: ms

definition new_cache :: "string list \<Rightarrow> TombstoneCache" where
  "new_cache scopes = \<lparr>tc_scopes = scopes, tc_ttl = 5 * 60 * 1000, tc_paths = {}, tc_fetchedAt = 0\<rparr>"

fun refresh_loop :: "(string \<Rightarrow> failure + string) \<Rightarrow> string list \<Rightarrow> string set \<Rightarrow> failure + string set" where
  "refresh_loop q [] fresh = Inr fresh"
| "refresh_loop q (sc # scs) fresh =
     (case q sc of Inl e \<Rightarrow> Inl e | Inr text \<Rightarrow> refresh_loop q scs (fresh \<union> set (path_matches True text)))"

definition refresh :: "(string \<Rightarrow> failure + string) \<Rightarrow> ms \<Rightarrow> TombstoneCache \<Rightarrow> (failure + unit) \<times> TombstoneCache" where
  "refresh q now c =
     (case refresh_loop q (tc_scopes c) {} of
        Inl e \<Rightarrow> (Inl e, c)
      | Inr fresh \<Rightarrow> (Inr (), c\<lparr>tc_paths := fresh, tc_fetchedAt := now\<rparr>))"

definition isAdvisoryTombstoned :: "ms \<Rightarrow> TombstoneCache \<Rightarrow> string \<Rightarrow> bool" where
  "isAdvisoryTombstoned now c path = (if now - tc_fetchedAt c > tc_ttl c then False else path \<in> tc_paths c)"

definition advisoryPreFilter :: "ms \<Rightarrow> string \<Rightarrow> TombstoneCache option \<Rightarrow> bool" where
  "advisoryPreFilter now path c = (case c of None \<Rightarrow> False | Some x \<Rightarrow> isAdvisoryTombstoned now x path)"

section \<open>One candidate\<close>

datatype guard_step = GReadBack | GStatus | GScope | GPathPrefix | GRedaction

record Guarded =
  gd_path :: string
  gd_scope :: string
  gd_body :: string
  gd_etag :: "string option"
  gd_frontmatter :: "string dict"

datatype GuardResult = GuardOk Guarded | GuardFail guard_step

record GuardDeps =
  authorizedScopes :: "string list"
  redact :: "string \<Rightarrow> string + string"

text \<open>Steps 2 to 5, on what the fresh read returned.\<close>

definition guard_read :: "GuardDeps \<Rightarrow> string \<Rightarrow> AdapterRead \<Rightarrow> GuardResult" where
  "guard_read deps path rd =
     (if rd_state rd \<noteq> RdOk \<or> rd_content rd = None then GuardFail GReadBack
      else if map_of (rd_frontmatter rd) ''memory_status'' \<notin> {None, Some ''active''} then GuardFail GStatus
      else (case map_of (rd_frontmatter rd) ''scope'' of
              None \<Rightarrow> GuardFail GScope
            | Some sc \<Rightarrow>
                if sc \<notin> set (authorizedScopes deps) then GuardFail GScope
                else if \<not> pathWithinMemoryNamespace path sc then GuardFail GPathPrefix
                else (case redact deps (rd_body rd) of
                        Inl _ \<Rightarrow> GuardFail GRedaction
                      | Inr content \<Rightarrow>
                          GuardOk \<lparr>gd_path = path, gd_scope = sc, gd_body = content, gd_etag = rd_etag rd,
                            gd_frontmatter = rd_frontmatter rd\<rparr>)))"

definition guardCandidate ::
  "'s transport \<Rightarrow> bool \<Rightarrow> GuardDeps \<Rightarrow> string \<Rightarrow> 's \<Rightarrow> (GuardResult, 's) outcome" where
  "guardCandidate transport aborted deps path s =
     (case adapter_read transport aborted path None s of
        (Inl e, tr, s') \<Rightarrow> (Inl e, tr, s')
      | (Inr rd, tr, s') \<Rightarrow> (Inr (guard_read deps path rd), tr, s'))"

section \<open>Brief evidence\<close>

record brief_pack =
  bk_kept :: "(string \<times> string) list"
  bk_dropped :: "(string \<times> guard_step) list"
  bk_chars :: nat

text \<open>The loop of both passes: stops at the first guarded body that does not fit.\<close>

fun pack_loop ::
  "'s transport \<Rightarrow> bool \<Rightarrow> GuardDeps \<Rightarrow> int \<Rightarrow> string list \<Rightarrow> brief_pack \<Rightarrow> 's \<Rightarrow> (brief_pack, 's) outcome" where
  "pack_loop transport aborted deps maxChars [] b s = (Inr b, [], s)"
| "pack_loop transport aborted deps maxChars (p # ps) b s =
     (case guardCandidate transport aborted deps p s of
        (Inl e, tr, s1) \<Rightarrow> (Inl e, tr, s1)
      | (Inr (GuardFail step), tr, s1) \<Rightarrow>
          (case pack_loop transport aborted deps maxChars ps (b\<lparr>bk_dropped := bk_dropped b @ [(p, step)]\<rparr>) s1 of
             (r, tr', s2) \<Rightarrow> (r, tr @ tr', s2))
      | (Inr (GuardOk g), tr, s1) \<Rightarrow>
          if int (bk_chars b + length (gd_body g)) > maxChars then (Inr b, tr, s1)
          else (case pack_loop transport aborted deps maxChars ps
                       (b\<lparr>bk_kept := bk_kept b @ [(gd_path g, gd_body g)], bk_chars := bk_chars b + length (gd_body g)\<rparr>) s1 of
                  (r, tr', s2) \<Rightarrow> (r, tr @ tr', s2)))"

record BriefEvidence =
  be_kept :: "(string \<times> string) list"
  be_dropped :: "(string \<times> guard_step) list"
  be_rebuilt :: bool

text \<open>\<open>MIN_EVIDENCE_FRACTION\<close> is a quarter: \<open>chars >= maxPackChars * 0.25\<close>.\<close>

definition enough_evidence :: "int \<Rightarrow> nat \<Rightarrow> bool" where
  "enough_evidence maxChars chars = (4 * int chars \<ge> maxChars)"

definition buildBriefEvidence ::
  "'s transport \<Rightarrow> bool \<Rightarrow> GuardDeps \<Rightarrow> string list \<Rightarrow> string list \<Rightarrow> int \<Rightarrow> 's \<Rightarrow> (BriefEvidence, 's) outcome" where
  "buildBriefEvidence transport aborted deps sections hits maxChars s =
     (case pack_loop transport aborted deps maxChars sections \<lparr>bk_kept = [], bk_dropped = [], bk_chars = 0\<rparr> s of
        (Inl e, tr, s1) \<Rightarrow> (Inl e, tr, s1)
      | (Inr b, tr, s1) \<Rightarrow>
          if enough_evidence maxChars (bk_chars b)
          then (Inr \<lparr>be_kept = bk_kept b, be_dropped = bk_dropped b, be_rebuilt = False\<rparr>, tr, s1)
          else (case pack_loop transport aborted deps maxChars hits \<lparr>bk_kept = [], bk_dropped = bk_dropped b, bk_chars = 0\<rparr> s1 of
                  (Inl e, tr', s2) \<Rightarrow> (Inl e, tr @ tr', s2)
                | (Inr b2, tr', s2) \<Rightarrow>
                    (Inr \<lparr>be_kept = bk_kept b2, be_dropped = bk_dropped b2, be_rebuilt = True\<rparr>, tr @ tr', s2)))"

section \<open>What the guard lets through\<close>

definition guard_ok :: "GuardDeps \<Rightarrow> string \<Rightarrow> AdapterRead \<Rightarrow> Guarded \<Rightarrow> bool" where
  "guard_ok deps path rd g =
     (rd_state rd = RdOk \<and> rd_content rd \<noteq> None
      \<and> map_of (rd_frontmatter rd) ''memory_status'' \<in> {None, Some ''active''}
      \<and> map_of (rd_frontmatter rd) ''scope'' = Some (gd_scope g) \<and> gd_scope g \<in> set (authorizedScopes deps)
      \<and> pathWithinMemoryNamespace path (gd_scope g)
      \<and> redact deps (rd_body rd) = Inr (gd_body g)
      \<and> gd_path g = path \<and> gd_etag g = rd_etag rd \<and> gd_frontmatter g = rd_frontmatter rd)"

lemma guard_read_iff: "guard_read deps path rd = GuardOk g \<longleftrightarrow> guard_ok deps path rd g"
  by (cases g) (auto simp: guard_read_def guard_ok_def split: option.splits sum.splits)

lemma guardCandidate_ok:
  assumes "guardCandidate transport ab deps path s = (Inr (GuardOk g), tr, s')"
  shows "\<exists>rd. adapter_read transport ab path None s = (Inr rd, tr, s') \<and> guard_ok deps path rd g"
  using assms guard_read_iff by (auto simp: guardCandidate_def split: prod.splits sum.splits)

text \<open>A body in the pack is the redacted text of an authorized, active record that was read afresh.\<close>

definition vetted :: "'s transport \<Rightarrow> bool \<Rightarrow> GuardDeps \<Rightarrow> string \<times> string \<Rightarrow> bool" where
  "vetted transport ab deps e =
     (\<exists>s tr s' rd g. adapter_read transport ab (fst e) None s = (Inr rd, tr, s') \<and> guard_ok deps (fst e) rd g \<and> snd e = gd_body g)"

lemma guard_trace:
  assumes "guardCandidate transport ab deps path s = (r, tr, s')"
  shows "fst ` set tr \<subseteq> {KiwiRead}"
  using assms adapter_read_reads by (fastforce simp: guardCandidate_def split: prod.splits sum.splits)

definition pack_inv :: "'s transport \<Rightarrow> bool \<Rightarrow> GuardDeps \<Rightarrow> int \<Rightarrow> brief_pack \<Rightarrow> bool" where
  "pack_inv transport ab deps maxChars b =
     ((\<forall>e \<in> set (bk_kept b). vetted transport ab deps e)
      \<and> bk_chars b = sum_list (map (length \<circ> snd) (bk_kept b)) \<and> int (bk_chars b) \<le> max 0 maxChars)"

text \<open>One step of the loop: it stops, or goes on with a pack that differs by at most this record.\<close>

lemma pack_step:
  assumes "pack_loop transport ab deps maxChars (p # ps) b s = (r, tr, s')" "pack_inv transport ab deps maxChars b"
  obtains (halt) "fst ` set tr \<subseteq> {KiwiRead}" "r = Inr b \<or> (\<exists>e. r = Inl e)"
  | (next_rec) t1 s1 b1 t2 q where "pack_loop transport ab deps maxChars ps b1 s1 = (r, t2, s')" "tr = t1 @ t2"
      "fst ` set t1 \<subseteq> {KiwiRead}" "pack_inv transport ab deps maxChars b1"
      "map fst (bk_kept b1) = map fst (bk_kept b) @ q" "subseq q [p]"
proof -
  obtain gr t1 s1 where g: "guardCandidate transport ab deps p s = (gr, t1, s1)" by (metis prod_cases3)
  note gt = guard_trace [OF g]
  show thesis
  proof (cases gr)
    case (Inl e)
    then show thesis using assms(1) g gt halt by auto
  next
    case (Inr x)
    show thesis
    proof (cases x)
      case (GuardFail step)
      let ?b = "b\<lparr>bk_dropped := bk_dropped b @ [(p, step)]\<rparr>"
      obtain r2 t2 s2 where l: "pack_loop transport ab deps maxChars ps ?b s1 = (r2, t2, s2)" by (metis prod_cases3)
      have o: "r = r2" "tr = t1 @ t2" "s' = s2" using assms(1) g Inr GuardFail l by simp_all
      have v: "pack_inv transport ab deps maxChars ?b" using assms(2) by (simp add: pack_inv_def)
      show thesis by (rule next_rec [of ?b s1 t2 t1 "[]"]) (use l o gt v in simp_all)
    next
      case (GuardOk gd)
      obtain rd where rd: "adapter_read transport ab p None s = (Inr rd, t1, s1)" "guard_ok deps p rd gd"
        using guardCandidate_ok [of transport ab deps p s gd t1 s1] g Inr GuardOk by auto
      have v2: "gd_path gd = p" using rd(2) by (simp add: guard_ok_def)
      have v: "vetted transport ab deps (gd_path gd, gd_body gd)" "gd_path gd = p"
        unfolding vetted_def fst_conv snd_conv v2 using rd by blast+
      let ?b = "b\<lparr>bk_kept := bk_kept b @ [(gd_path gd, gd_body gd)], bk_chars := bk_chars b + length (gd_body gd)\<rparr>"
      show thesis
      proof (cases "int (bk_chars b + length (gd_body gd)) > maxChars")
        case True
        then show thesis using assms(1) g Inr GuardOk gt halt by auto
      next
        case False
        obtain r2 t2 s2 where l: "pack_loop transport ab deps maxChars ps ?b s1 = (r2, t2, s2)" by (metis prod_cases3)
        have o: "r = r2" "tr = t1 @ t2" "s' = s2" using assms(1) g Inr GuardOk False l by simp_all
        have i: "pack_inv transport ab deps maxChars ?b" using assms(2) False v(1) by (auto simp: pack_inv_def)
        show thesis by (rule next_rec [of ?b s1 t2 t1 "[p]"]) (use l o gt i v(2) in simp_all)
      qed
    qed
  qed
qed

lemma pack_loop_facts:
  assumes "pack_loop transport ab deps maxChars ps b s = (r, tr, s')" "pack_inv transport ab deps maxChars b"
  shows "fst ` set tr \<subseteq> {KiwiRead} \<and> (\<forall>b'. r = Inr b' \<longrightarrow> pack_inv transport ab deps maxChars b'
    \<and> (\<exists>q. map fst (bk_kept b') = map fst (bk_kept b) @ q \<and> subseq q ps))"
  using assms
proof (induction ps arbitrary: b s r tr s')
  case (Cons p ps)
  show ?case
  proof (rule pack_step [OF Cons.prems], goal_cases halt next_rec)
    case halt
    then show ?thesis using Cons.prems(2) by auto
  next
    case (next_rec t1 s1 b1 t2 q)
    have "subseq (q @ q2) (p # ps)" if "subseq q2 ps" for q2
      using list_emb_append_mono [OF next_rec(6) that] by simp
    moreover note Cons.IH [OF next_rec(1,4)]
    ultimately show ?thesis using next_rec(2,3,5) by (fastforce simp: image_Un)
  qed
qed auto

text \<open>
  A brief never passes unverified content: the calls it makes are reads, its text is within
  the limit, and every page in it, from the brief sections in order or, when they leave less
  than a quarter of the limit, from the search hits in order, is the redacted body of a record
  that was just read, is active or has no status, belongs to an authorized scope, and lies
  inside that scope's memory namespace.
\<close>
theorem brief_is_vetted:
  assumes "buildBriefEvidence transport ab deps sections hits maxChars s = (Inr ev, tr, s')"
  shows "fst ` set tr \<subseteq> {KiwiRead} \<and> (\<forall>e \<in> set (be_kept ev). vetted transport ab deps e)
    \<and> int (sum_list (map (length \<circ> snd) (be_kept ev))) \<le> max 0 maxChars
    \<and> subseq (map fst (be_kept ev)) (if be_rebuilt ev then hits else sections)
    \<and> (be_rebuilt ev \<or> enough_evidence maxChars (sum_list (map (length \<circ> snd) (be_kept ev))))"
proof -
  let ?e = "\<lparr>bk_kept = [], bk_dropped = [], bk_chars = 0\<rparr>"
  have e: "pack_inv transport ab deps maxChars \<lparr>bk_kept = [], bk_dropped = d, bk_chars = 0\<rparr>" for d by (simp add: pack_inv_def)
  obtain r1 t1 s1 where l: "pack_loop transport ab deps maxChars sections ?e s = (r1, t1, s1)" by (metis prod_cases3)
  then obtain b where b: "r1 = Inr b" using assms by (cases r1) (auto simp: buildBriefEvidence_def)
  have f: "fst ` set t1 \<subseteq> {KiwiRead}" "pack_inv transport ab deps maxChars b" "subseq (map fst (bk_kept b)) sections"
    using pack_loop_facts [OF l e] b by auto
  show ?thesis
  proof (cases "enough_evidence maxChars (bk_chars b)")
    case True
    then show ?thesis using assms l b f by (auto simp: buildBriefEvidence_def pack_inv_def)
  next
    case False
    obtain r2 t2 s2 where l2: "pack_loop transport ab deps maxChars hits \<lparr>bk_kept = [], bk_dropped = bk_dropped b, bk_chars = 0\<rparr> s1
      = (r2, t2, s2)" by (metis prod_cases3)
    then obtain b2 where b2: "r2 = Inr b2" using assms l b False by (cases r2) (auto simp: buildBriefEvidence_def)
    have t: "tr = t1 @ t2" using assms l b l2 b2 False by (simp add: buildBriefEvidence_def)
    have "fst ` set tr \<subseteq> {KiwiRead}" if "fst ` set t2 \<subseteq> {KiwiRead}" unfolding t using f(1) that by (simp add: image_Un)
    moreover have f2: "fst ` set t2 \<subseteq> {KiwiRead}" "pack_inv transport ab deps maxChars b2" "subseq (map fst (bk_kept b2)) hits"
      using pack_loop_facts [OF l2 e] b2 by auto
    ultimately show ?thesis using assms l b l2 b2 f2 False by (simp add: buildBriefEvidence_def pack_inv_def) (elim conjE; hypsubst; simp)
  qed
qed

section \<open>Example\<close>

definition note_path :: string where "note_path = ''personal/memory/observations/o1.md''"

fun note_server :: "unit transport" where
  "note_server KiwiRead args s =
     (Inr \<lparr>isError = False, res_text = join_with [nl] [''---'', ''scope: personal'', ''memory_status: active'', ''---'', ''hello''],
        res_meta = []\<rparr>, ())"
| "note_server _ args s = (Inl (Backend AvailabilityError, ''''), s)"

definition note_deps :: GuardDeps where
  "note_deps = \<lparr>authorizedScopes = [''personal''], redact = Inr\<rparr>"

lemma note_brief:
  "buildBriefEvidence note_server False note_deps [''project/x/memory/o.md'', note_path] [] 16 ()
   = (Inr \<lparr>be_kept = [(note_path, ''hello'')], be_dropped = [(''project/x/memory/o.md'', GPathPrefix)], be_rebuilt = False\<rparr>,
      [(KiwiRead, [(''path'', JStr ''project/x/memory/o.md'')]), (KiwiRead, [(''path'', JStr note_path)])], ())"
  by code_simp

theorem brief_is_vetted_witness:
  "vetted note_server False note_deps (note_path, ''hello'') \<and> int (sum_list (map (length \<circ> snd) [(note_path, ''hello'')])) \<le> 16"
  using brief_is_vetted [OF note_brief] by simp

text \<open>A failed refresh leaves the advisory cache as it was.\<close>

lemma failed_refresh_keeps_cache:
  "refresh q now c = (Inl e, c') \<Longrightarrow> c' = c"
  by (auto simp: refresh_def split: sum.splits)

end
