(* ===== verification/JsonPretty.thy ===== *)
theory JsonPretty
  imports Json
begin

text \<open>
  \<open>JSON.stringify(value, null, 2)\<close>: the indented form of the backup chunks, the manifest and
  the state files. Reading it back gives the value, as for the compact form.
\<close>

definition line_indent :: "nat \<Rightarrow> string" where
  "line_indent n = nl # replicate n (CHR '' '')"

fun pretty_at :: "nat \<Rightarrow> json \<Rightarrow> string" where
  "pretty_at n (JArr xs) =
     (if xs = [] then ''[]''
      else ''['' @ join_with '','' (map (\<lambda>x. line_indent (n + 2) @ pretty_at (n + 2) x) xs) @ line_indent n @ '']'')"
| "pretty_at n (JObj ms) =
     (if ms = [] then ''{}''
      else ''{'' @ join_with '','' (map (\<lambda>(k, v). line_indent (n + 2) @ quote k @ '': '' @ pretty_at (n + 2) v) ms)
             @ line_indent n @ ''}'')"
| "pretty_at n v = stringify v"

definition pretty :: "json \<Rightarrow> string" where
  "pretty = pretty_at 0"

section \<open>Reading it back\<close>

definition blank :: "string \<Rightarrow> bool" where
  "blank w = (\<forall>c \<in> set w. is_ws c)"

lemma blank_indent [simp]: "blank (line_indent n)"
  by (simp add: blank_def line_indent_def is_ws_def)

lemma skip_blank [simp]: "blank w \<Longrightarrow> skip_ws (w @ s) = skip_ws s"
  by (simp add: blank_def)

lemma p_value_blank:
  assumes "blank w"
  shows "p_value k (w @ s) = p_value k s"
proof (cases k)
  case (Suc n)
  show ?thesis unfolding Suc p_value.simps skip_blank [OF assms] by (rule refl)
qed simp

lemma p_elems_blank:
  assumes "blank w"
  shows "p_elems k (w @ s) = p_elems k s"
proof (cases k)
  case (Suc n)
  show ?thesis unfolding Suc p_elems.simps p_value_blank [OF assms] by (rule refl)
qed simp

lemma p_members_blank:
  assumes "blank w"
  shows "p_members k acc (w @ s) = p_members k acc s"
proof (cases k)
  case (Suc n)
  show ?thesis unfolding Suc p_members.simps skip_blank [OF assms] by (rule refl)
qed simp

lemma skip_ws_end: "blank w \<Longrightarrow> \<not> is_ws d \<Longrightarrow> skip_ws (w @ d # r) = d # r"
  by (simp only: skip_blank dropWhile.simps if_False)

lemma ws_not_digit: "is_ws c \<Longrightarrow> \<not> is_digit c"
  using digit_not by blast

lemma stops_blank: "blank w \<Longrightarrow> \<not> is_digit d \<Longrightarrow> stops (w @ d # r)"
  by (cases w) (simp_all add: stops_def blank_def ws_not_digit)

lemma p_elems_printed:
  assumes "\<And>x k r. x \<in> set xs \<Longrightarrow> cost x \<le> k \<Longrightarrow> stops r \<Longrightarrow> p_value k (f x @ r) = Some (x, r)"
    and "xs \<noteq> []" "sum_list (map (\<lambda>x. Suc (cost x)) xs) \<le> k" "blank w"
  shows "p_elems k (join_with '','' (map f xs) @ w @ CHR '']'' # r) = Some (xs, r)"
  using assms(1-3)
proof (induction xs arbitrary: k)
  case (Cons x xs)
  obtain k' where k: "k = Suc k'" and kx: "cost x \<le> k'" "sum_list (map (\<lambda>x. Suc (cost x)) xs) \<le> k'"
    using Cons.prems(3) by (cases k) auto
  show ?case
  proof (cases "xs = []")
    case True
    have "stops (w @ CHR '']'' # r)" using assms(4) by (intro stops_blank) (simp_all add: is_digit_def)
    then have "p_value k' (f x @ w @ CHR '']'' # r) = Some (x, w @ CHR '']'' # r)"
      using Cons.prems(1) kx by simp
    then show ?thesis using skip_ws_end [OF assms(4), of "CHR '']''" r] by (simp add: True k is_ws_def)
  next
    case False
    let ?t = "join_with '','' (map f xs) @ w @ CHR '']'' # r"
    have "stops (CHR '','' # ?t)" by (simp add: stops_def is_digit_def)
    then have "p_value k' (f x @ CHR '','' # ?t) = Some (x, CHR '','' # ?t)"
      using Cons.prems(1) kx by simp
    moreover have "p_elems k' ?t = Some (xs, r)" using Cons.IH Cons.prems(1) False kx by simp
    ultimately show ?thesis using False by (simp add: k is_ws_def join_with_Cons)
  qed
qed simp

lemma p_members_printed_step:
  assumes "p_value k t = Some (v, r)" "skip_ws r = d # u" "blank w"
  shows "p_members (Suc k) acc (w @ quote key @ '':'' @ t) =
    (let acc' = AList.update key v acc in
     if d = CHR ''}'' then Some (acc', u) else if d = CHR '','' then p_members k acc' u else None)"
  using assms by (simp add: p_members_blank quote_def is_ws_def p_chars_quote)

lemma p_members_printed:
  assumes "\<And>m k r. m \<in> set ms \<Longrightarrow> cost (snd m) \<le> k \<Longrightarrow> stops r \<Longrightarrow> p_value k (g (snd m) @ r) = Some (snd m, r)"
    and "ms \<noteq> []" "sum_list (map (\<lambda>m. Suc (cost (snd m))) ms) \<le> k" "distinct (map fst (acc @ ms))" "blank w" "blank w'"
  shows "p_members k acc (join_with '','' (map (\<lambda>(key, v). w @ quote key @ '':'' @ g v) ms) @ w' @ CHR ''}'' # r) = Some (acc @ ms, r)"
  using assms(1-4)
proof (induction ms arbitrary: k acc)
  case (Cons m ms)
  obtain key v where m: "m = (key, v)" by (cases m)
  obtain k' where k: "k = Suc k'" and kx: "cost v \<le> k'" "sum_list (map (\<lambda>m. Suc (cost (snd m))) ms) \<le> k'"
    using Cons.prems(3) by (cases k) (auto simp: m)
  have upd: "AList.update key v acc = acc @ [(key, v)]"
    using Cons.prems(4) by (intro AList_update_new) (auto simp: m)
  have val: "stops t \<Longrightarrow> p_value k' (g v @ t) = Some (v, t)" for t
    using Cons.prems(1) [of m k' t] kx by (simp add: m)
  show ?case
  proof (cases "ms = []")
    case True
    have "stops (w' @ CHR ''}'' # r)" using assms(6) by (intro stops_blank) (simp_all add: is_digit_def)
    from p_members_printed_step [OF val [OF this] skip_ws_end [OF assms(6)] assms(5), of acc key]
    show ?thesis by (simp add: True k m is_ws_def upd)
  next
    case False
    let ?t = "join_with '','' (map (\<lambda>(key, v). w @ quote key @ '':'' @ g v) ms) @ w' @ CHR ''}'' # r"
    have "stops (CHR '','' # ?t)" by (simp add: stops_def is_digit_def)
    note v = val [OF this]
    have "p_members k' (acc @ [m]) ?t = Some ((acc @ [m]) @ ms, r)"
      using Cons.IH [OF Cons.prems(1)] False kx Cons.prems(4) by simp
    then show ?thesis
      using False p_members_printed_step [OF v _ assms(5), of "CHR '',''" ?t acc key]
      by (simp add: k m join_with_Cons is_ws_def upd)
  qed
qed simp

lemma pretty_first: "\<exists>c r. pretty_at n v = c # r \<and> \<not> is_ws c \<and> c \<noteq> CHR '']''"
proof (cases v)
  case (JNum i)
  then show ?thesis using stringify_first [of v] by simp
next
  case (JBool b)
  then show ?thesis using stringify_first [of v] by simp
qed (simp_all add: quote_def is_ws_def)

lemma join_first: "xs \<noteq> [] \<Longrightarrow> \<exists>t. join_with '','' (map f xs) = f (hd xs) @ t"
  by (cases xs; cases "tl xs") auto

lemma p_value_pretty:
  "json_wf v \<Longrightarrow> cost v \<le> k \<Longrightarrow> stops r \<Longrightarrow> p_value k (pretty_at n v @ r) = Some (v, r)"
proof (induction v arbitrary: k r n)
  case (JArr xs)
  then obtain k' where k: "k = Suc k'" by (cases k) auto
  show ?case
  proof (cases "xs = []")
    case False
    let ?f = "\<lambda>x. line_indent (n + 2) @ pretty_at (n + 2) x"
    have e: "p_elems k' (join_with '','' (map ?f xs) @ line_indent n @ CHR '']'' # r) = Some (xs, r)"
    proof (rule p_elems_printed)
      fix x k r
      assume "x \<in> set xs" "cost x \<le> k" "stops r"
      then show "p_value k (?f x @ r) = Some (x, r)"
        using JArr.IH [of x k r "n + 2"] JArr.prems(1) by (simp add: p_value_blank)
    qed (use JArr.prems False k in auto)
    obtain c u where c: "pretty_at (n + 2) (hd xs) = c # u" "\<not> is_ws c" "c \<noteq> CHR '']''" using pretty_first by blast
    obtain t where "join_with '','' (map ?f xs) = ?f (hd xs) @ t" using join_first [OF False] by blast
    then have "skip_ws (join_with '','' (map ?f xs) @ line_indent n @ CHR '']'' # r) = c # u @ t @ line_indent n @ CHR '']'' # r"
      using c by simp
    then show ?thesis using e c(3) False by (simp add: k is_ws_def [of "CHR ''[''"])
  qed (simp add: k is_ws_def)
next
  case (JObj ms)
  then obtain k' where k: "k = Suc k'" by (cases k) auto
  show ?case
  proof (cases "ms = []")
    case False
    let ?g = "\<lambda>v. CHR '' '' # pretty_at (n + 2) v"
    let ?f = "\<lambda>(key, v). line_indent (n + 2) @ quote key @ '':'' @ ?g v"
    have e: "p_members k' [] (join_with '','' (map ?f ms) @ line_indent n @ CHR ''}'' # r) = Some ([] @ ms, r)"
    proof (rule p_members_printed)
      fix m k r
      assume m: "m \<in> set ms" "cost (snd m) \<le> k" "stops r"
      moreover have "json_wf (snd m)" using JObj.prems(1) m(1) by simp
      ultimately have "p_value k (pretty_at (n + 2) (snd m) @ r) = Some (snd m, r)"
        using JObj.IH [of m "snd m"] by (simp add: prod_set_defs)
      then show "p_value k (?g (snd m) @ r) = Some (snd m, r)"
        using p_value_blank [of "'' ''"] by (simp add: blank_def is_ws_def)
    qed (use JObj.prems False k in auto)
    obtain t where "join_with '','' (map ?f ms) = ?f (hd ms) @ t" using join_first [OF False] by blast
    then obtain u where "skip_ws (join_with '','' (map ?f ms) @ line_indent n @ CHR ''}'' # r) = CHR 0x22 # u"
      by (cases "hd ms") (auto simp: quote_def is_ws_def)
    then show ?thesis using e False by (simp add: k is_ws_def [of "CHR ''{''"])
  qed (simp add: k is_ws_def)
next
  case JNull
  then show ?case using p_value_stringify [of JNull k r] by (simp del: p_value.simps)
next
  case (JBool b)
  then show ?case using p_value_stringify [of "JBool b" k r] by (simp del: p_value.simps)
next
  case (JNum i)
  then show ?case using p_value_stringify [of "JNum i" k r] by (simp del: p_value.simps)
next
  case (JStr t)
  then show ?case using p_value_stringify [of "JStr t" k r] by (simp del: p_value.simps)
qed

lemma cost_pretty: "cost v \<le> length (pretty_at n v)"
proof (induction v arbitrary: n)
  case (JArr xs)
  show ?case
  proof (cases "xs = []")
    case False
    let ?f = "\<lambda>x. line_indent (n + 2) @ pretty_at (n + 2) x"
    have "sum_list (map (\<lambda>x. Suc (cost x)) xs) \<le> sum_list (map (\<lambda>x. Suc (length (?f x))) xs)"
      using JArr [of _ "n + 2"] by (intro sum_list_mono_Suc) (simp add: trans_le_add2)
    with False length_join_with [of "map ?f xs"] show ?thesis by (simp add: comp_def)
  qed simp
next
  case (JObj ms)
  show ?case
  proof (cases "ms = []")
    case False
    let ?f = "\<lambda>(k, v). line_indent (n + 2) @ quote k @ '': '' @ pretty_at (n + 2) v"
    have "cost (snd m) \<le> length (?f m)" if "m \<in> set ms" for m
      using JObj [OF that, of "snd m" "n + 2"] by (cases m) (auto simp: prod_set_defs)
    then have "sum_list (map (\<lambda>m. Suc (cost (snd m))) ms) \<le> sum_list (map (\<lambda>m. Suc (length (?f m))) ms)"
      by (rule sum_list_mono_Suc)
    with False length_join_with [of "map ?f ms"] show ?thesis by (simp add: comp_def)
  qed simp
next
  case (JNum i)
  show ?case using cost_length [of "JNum i"] by simp
next
  case (JStr t)
  show ?case using cost_length [of "JStr t"] by simp
qed simp_all

lemma parse_pretty:
  assumes "json_wf v" "blank w"
  shows "json_parse (pretty v @ w) = Some v"
proof -
  have s: "stops w" using assms(2) by (cases w) (simp_all add: stops_def blank_def ws_not_digit)
  have "cost v \<le> Suc (length (pretty v @ w))" using cost_pretty [of v 0] by (simp add: pretty_def)
  then have p: "p_value (Suc (length (pretty v @ w))) (pretty v @ w) = Some (v, w)"
    unfolding pretty_def by (rule p_value_pretty [OF assms(1) _ s])
  have "skip_ws w = []" using skip_blank [OF assms(2), of "[]"] by simp
  with p show ?thesis by (simp only: json_parse_def option.case prod.case if_True refl)
qed

text \<open>Printed text with trailing white space, as the state files have it.\<close>

lemma parse_stringify_ws: "json_wf v \<Longrightarrow> blank w \<Longrightarrow> json_parse (stringify v @ w) = Some v"
proof -
  assume wf: "json_wf v" and w: "blank w"
  have "cost v \<le> Suc (length (stringify v @ w))" using cost_length [of v] by simp
  moreover have "stops w" using w by (cases w) (simp_all add: stops_def blank_def ws_not_digit)
  ultimately have "p_value (Suc (length (stringify v @ w))) (stringify v @ w) = Some (v, w)"
    using wf by (intro p_value_stringify)
  moreover have "skip_ws w = []" using skip_blank [OF w, of "[]"] by simp
  ultimately show ?thesis by (simp add: json_parse_def)
qed

end
