(* ===== verification/Exclusions.thy ===== *)
theory Exclusions
  imports Prelude
begin

text \<open>
  User exclusion rules (src/privacy/exclusions.ts). The regular-expression engine is an
  argument: \<open>new_RegExp p\<close> is \<open>None\<close> when the pattern is invalid, otherwise the test.
\<close>

record ExclusionRule =
  ex_project :: "string option"
  ex_pathPrefix :: "string option"
  ex_pattern :: "string option"

record ExclusionContext =
  ctx_scope :: "string option"
  ctx_path :: "string option"
  ctx_content :: "string option"

type_synonym regex = "string \<Rightarrow> bool"
type_synonym compiled = "(ExclusionRule \<times> regex option) list"

datatype exclusion_error = EmptyRule | BadPattern string

fun compileExclusions :: "(string \<Rightarrow> regex option) \<Rightarrow> ExclusionRule list \<Rightarrow> exclusion_error + compiled" where
  "compileExclusions new_RegExp [] = Inr []"
| "compileExclusions new_RegExp (rule # rules) =
     (if ex_project rule = None \<and> ex_pathPrefix rule = None \<and> ex_pattern rule = None then Inl EmptyRule
      else (case ex_pattern rule of
          None \<Rightarrow> map_sum id (\<lambda>c. (rule, None) # c) (compileExclusions new_RegExp rules)
        | Some p \<Rightarrow>
            (case new_RegExp p of
               None \<Rightarrow> Inl (BadPattern p)
             | Some re \<Rightarrow> map_sum id (\<lambda>c. (rule, Some re) # c) (compileExclusions new_RegExp rules))))"

definition rule_matches :: "ExclusionContext \<Rightarrow> ExclusionRule \<times> regex option \<Rightarrow> bool" where
  "rule_matches ctx c =
     (case c of (rule, re) \<Rightarrow>
        \<not> (ex_project rule \<noteq> None \<and> ctx_scope ctx \<noteq> ex_project rule)
        \<and> (case ex_pathPrefix rule of None \<Rightarrow> True
           | Some pfx \<Rightarrow> (case ctx_path ctx of None \<Rightarrow> False | Some p \<Rightarrow> prefix pfx p))
        \<and> (case re of None \<Rightarrow> True
           | Some test \<Rightarrow> (case ctx_content ctx of None \<Rightarrow> False | Some t \<Rightarrow> test t)))"

definition rule_dims :: "ExclusionRule \<Rightarrow> string list" where
  "rule_dims rule =
     (if ex_project rule \<noteq> None then [''project''] else [])
     @ (if ex_pathPrefix rule \<noteq> None then [''pathPrefix''] else [])
     @ (if ex_pattern rule \<noteq> None then [''pattern''] else [])"

text \<open>The first matching rule, by the dimensions it matched on.\<close>

fun isExcluded :: "ExclusionContext \<Rightarrow> compiled \<Rightarrow> string option" where
  "isExcluded ctx [] = None"
| "isExcluded ctx (c # cs) =
     (if rule_matches ctx c then Some (join_with ''+'' (rule_dims (fst c))) else isExcluded ctx cs)"

lemma isExcluded_iff: "isExcluded ctx cs \<noteq> None \<longleftrightarrow> (\<exists>c \<in> set cs. rule_matches ctx c)"
  by (induction cs) auto

text \<open>Compilation keeps the rules in order, each with a test exactly when it has a pattern.\<close>

lemma compile_keeps_rules:
  "compileExclusions new_RegExp rules = Inr cs \<Longrightarrow>
   map fst cs = rules \<and> (\<forall>c \<in> set cs. snd c = Option.bind (ex_pattern (fst c)) new_RegExp)"
proof (induction rules arbitrary: cs)
  case (Cons r rs)
  obtain cs' where "compileExclusions new_RegExp rs = Inr cs'"
    using Cons.prems by (cases "compileExclusions new_RegExp rs") (auto split: option.splits if_splits)
  with Cons show ?case by (auto split: option.splits if_splits)
qed simp

text \<open>A rule that names no dimension, or a pattern that does not compile, fails the whole configuration.\<close>

lemma bad_rule_fails_closed:
  "r \<in> set rules \<Longrightarrow> (case ex_pattern r of Some p \<Rightarrow> new_RegExp p = None | None \<Rightarrow> ex_project r = None \<and> ex_pathPrefix r = None)
   \<Longrightarrow> \<not> is_ok (compileExclusions new_RegExp rules)"
proof (induction rules)
  case (Cons q rs)
  then show ?case
    by (cases "compileExclusions new_RegExp rs") (auto simp: is_ok_def split: option.splits)
qed simp

end
