(* ===== verification/BackupExport.thy ===== *)
theory BackupExport
  imports Json
begin

text \<open>
  The session-tree exporter of the backup (src/backup/exporter.ts): from the host's session
  entries, which are arbitrary JSON values, to the entries a backup keeps. An entry that is no
  object, has no id, or is a message without a message object is left out; everything else
  keeps its id and parent.
\<close>

definition BACKUP_SCHEMA_VERSION :: int where "BACKUP_SCHEMA_VERSION = 1"
definition KIWIFS_CUSTOM_PREFIX :: string where "KIWIFS_CUSTOM_PREFIX = ''kiwifs.''"

datatype BackupOmissionReason = BinaryOmitted | ExcludedByPolicy | ExtensionInternal

fun omission_text :: "BackupOmissionReason \<Rightarrow> string" where
  "omission_text BinaryOmitted = ''binary-omitted''"
| "omission_text ExcludedByPolicy = ''excluded-by-policy''"
| "omission_text ExtensionInternal = ''extension-internal''"

record BackupView =
  v_id :: string
  v_parentId :: "string option"
  v_type :: string
  v_timestamp :: string
  v_role :: "string option"
  v_text :: "string option"
  v_omissions :: "BackupOmissionReason list"

text \<open>Member access on a value that \<open>typeof\<close> says is an object: an array has no such members.\<close>

fun as_object :: "json option \<Rightarrow> (string \<times> json) list option" where
  "as_object (Some (JObj ms)) = Some ms"
| "as_object (Some (JArr _)) = Some []"
| "as_object _ = None"

fun str_of :: "json option \<Rightarrow> string option" where
  "str_of (Some (JStr s)) = Some s" | "str_of _ = None"

text \<open>\<open>String(x)\<close> and \<open>String(x ?? "")\<close>.\<close>

fun js_string :: "json \<Rightarrow> string" where
  "js_string JNull = ''null''"
| "js_string (JBool b) = (if b then ''true'' else ''false'')"
| "js_string (JNum n) = show_int n"
| "js_string (JStr s) = s"
| "js_string (JArr xs) = join_with '','' (map (\<lambda>x. if x = JNull then '''' else js_string x) xs)"
| "js_string (JObj _) = ''[object Object]''"

definition string_or_empty :: "json option \<Rightarrow> string" where
  "string_or_empty j = (case j of None \<Rightarrow> '''' | Some JNull \<Rightarrow> '''' | Some x \<Rightarrow> js_string x)"

text \<open>The text blocks of a content array, and whether a block of another type was left out.\<close>

fun text_blocks :: "json list \<Rightarrow> string list \<times> bool" where
  "text_blocks [] = ([], False)"
| "text_blocks (b # bs) =
     (case text_blocks bs of (parts, binary) \<Rightarrow>
        (case as_object (Some b) of
           None \<Rightarrow> (parts, binary)
         | Some ms \<Rightarrow>
             (case (str_of (map_of ms ''type''), str_of (map_of ms ''text'')) of
                (None, _) \<Rightarrow> (parts, binary)
              | (Some ty, None) \<Rightarrow> (parts, True)
              | (Some ty, Some t) \<Rightarrow> if ty = ''text'' then (t # parts, binary) else (parts, True))))"

definition extractText :: "json option \<Rightarrow> string option \<times> BackupOmissionReason list" where
  "extractText content =
     (case content of
        Some (JStr s) \<Rightarrow> (Some s, [])
      | Some (JArr bs) \<Rightarrow>
          (case text_blocks bs of (parts, binary) \<Rightarrow>
             (if parts = [] then None else Some (join_with [nl] parts), if binary then [BinaryOmitted] else []))
      | _ \<Rightarrow> (None, []))"

definition METADATA_TYPES :: "string list" where
  "METADATA_TYPES = [''compaction'', ''branch_summary'', ''label'', ''session_info'', ''thinking_level_change'', ''model_change'']"

definition metadata_text :: "string \<Rightarrow> (string \<times> json) list \<Rightarrow> string option" where
  "metadata_text ty e =
     (case str_of (map_of e ''summary'') of
        Some s \<Rightarrow> Some s
      | None \<Rightarrow>
          if ty = ''label'' then
            Some (case str_of (map_of e ''label'') of Some l \<Rightarrow> l
                  | None \<Rightarrow> ''label target='' @ string_or_empty (map_of e ''targetId''))
          else if ty = ''model_change'' then
            Some (string_or_empty (map_of e ''provider'') @ ''/'' @ string_or_empty (map_of e ''modelId''))
          else if ty = ''thinking_level_change'' then Some (string_or_empty (map_of e ''thinkingLevel''))
          else if ty = ''session_info'' then Some (default_to '''' (str_of (map_of e ''name'')))
          else None)"

definition internal_entry :: "(string \<times> json) list \<Rightarrow> bool" where
  "internal_entry e = (case str_of (map_of e ''customType'') of None \<Rightarrow> False | Some t \<Rightarrow> prefix KIWIFS_CUSTOM_PREFIX t)"

definition shell_view :: "string \<Rightarrow> string \<Rightarrow> (string \<times> json) list \<Rightarrow> BackupView" where
  "shell_view i ty e =
     \<lparr>v_id = i, v_parentId = str_of (map_of e ''parentId''), v_type = ty,
      v_timestamp = default_to '''' (str_of (map_of e ''timestamp'')), v_role = None, v_text = None, v_omissions = []\<rparr>"

definition with_text :: "BackupView \<Rightarrow> string option \<times> BackupOmissionReason list \<Rightarrow> BackupView" where
  "with_text v t =
     v\<lparr>v_text := (case fst t of Some x \<Rightarrow> if trim x \<noteq> '''' then Some x else None | None \<Rightarrow> None), v_omissions := snd t\<rparr>"

definition backup_view :: "json \<Rightarrow> BackupView option" where
  "backup_view raw =
     (case as_object (Some raw) of
        None \<Rightarrow> None
      | Some e \<Rightarrow>
          (case str_of (map_of e ''id'') of
             None \<Rightarrow> None
           | Some i \<Rightarrow>
               if i = '''' then None
               else (let ty = default_to '''' (str_of (map_of e ''type''));
                         v = shell_view i ty e in
                 if ty = ''message'' then
                   (case as_object (map_of e ''message'') of
                      None \<Rightarrow> None
                    | Some msg \<Rightarrow>
                        Some (with_text (v\<lparr>v_role := str_of (map_of msg ''role'')\<rparr>) (extractText (map_of msg ''content''))))
                 else if ty = ''custom_message'' then
                   (if internal_entry e then Some (v\<lparr>v_omissions := [ExtensionInternal]\<rparr>)
                    else Some (with_text v (extractText (map_of e ''content''))))
                 else if ty = ''custom'' then
                   (if internal_entry e then Some (v\<lparr>v_omissions := [ExtensionInternal]\<rparr>)
                    else Some (with_text v (Some (stringify (default_to JNull (map_of e ''data''))), [])))
                 else if ty \<in> set METADATA_TYPES then Some (with_text v (metadata_text ty e, []))
                 else Some v)))"

definition toBackupViews :: "json list \<Rightarrow> BackupView list" where
  "toBackupViews entries = List.map_filter backup_view entries"

section \<open>What an exported entry keeps\<close>

lemma with_text_keeps [simp]:
  "v_id (with_text v t) = v_id v" "v_parentId (with_text v t) = v_parentId v" "v_type (with_text v t) = v_type v"
  by (simp_all add: with_text_def)

lemma backup_view_keeps:
  assumes "backup_view raw = Some v"
  shows "\<exists>e. as_object (Some raw) = Some e \<and> map_of e ''id'' = Some (JStr (v_id v)) \<and> v_id v \<noteq> ''''
    \<and> v_parentId v = str_of (map_of e ''parentId'')"
proof -
  have s: "str_of j = Some i \<Longrightarrow> j = Some (JStr i)" for j i by (cases "(j)" rule: str_of.cases) auto
  show ?thesis
    using assms unfolding backup_view_def
    by (auto simp: Let_def shell_view_def dest!: s split: option.splits if_splits)
qed

lemma with_text_nonblank: "v_text (with_text v t) = Some x \<Longrightarrow> trim x \<noteq> ''''"
  by (auto simp: with_text_def split: option.splits if_splits)

end
