(* ===== verification/BackupChunks.thy ===== *)
theory BackupChunks
  imports BackupExport JsonPretty Adapter
begin

text \<open>
  The backup chunker (src/backup/chunker.ts) and the manifest builder
  (src/backup/manifest.ts). A chunk is the indented JSON of its entries with a trailing line
  break; SHA-256 is an argument (the function from a text to its hex digest). The lemmas show
  that chunking loses and reorders nothing and respects the size bound, and that a chunk reads
  back as exactly its entries.
\<close>

definition DEFAULT_MAX_CHUNK_BYTES :: int where "DEFAULT_MAX_CHUNK_BYTES = 64 * 1024"

record ChunkDraft =
  cd_seq :: int
  cd_content :: string
  cd_byteLength :: nat
  cd_checksum :: string
  cd_entryIds :: "string list"
  cd_oversized :: bool

definition opt_str :: "string \<Rightarrow> string option \<Rightarrow> (string \<times> json) list" where
  "opt_str k v = (case v of None \<Rightarrow> [] | Some x \<Rightarrow> [(k, JStr x)])"

definition view_json :: "BackupView \<Rightarrow> json" where
  "view_json v =
     JObj ([(''id'', JStr (v_id v)),
            (''parentId'', case v_parentId v of None \<Rightarrow> JNull | Some p \<Rightarrow> JStr p),
            (''type'', JStr (v_type v)), (''timestamp'', JStr (v_timestamp v))]
           @ opt_str ''role'' (v_role v) @ opt_str ''text'' (v_text v)
           @ [(''omissions'', JArr (map (JStr \<circ> omission_text) (v_omissions v)))])"

definition chunk_json :: "string \<Rightarrow> int \<Rightarrow> json list \<Rightarrow> json" where
  "chunk_json sessionId sq entries =
     JObj [(''schemaVersion'', JNum BACKUP_SCHEMA_VERSION), (''kind'', JStr ''kiwifs-backup-chunk''),
           (''sessionId'', JStr sessionId), (''seq'', JNum sq), (''entries'', JArr entries)]"

definition serializeChunk :: "string \<Rightarrow> int \<Rightarrow> json list \<Rightarrow> string" where
  "serializeChunk sessionId sq entries = pretty (chunk_json sessionId sq entries) @ [nl]"

definition serialize_views :: "string \<Rightarrow> int \<Rightarrow> BackupView list \<Rightarrow> string" where
  "serialize_views sessionId sq vs = serializeChunk sessionId sq (map view_json vs)"

definition chunkChecksum :: "(string \<Rightarrow> string) \<Rightarrow> string \<Rightarrow> string" where
  "chunkChecksum sha256 content = sha256 content"

section \<open>Chunking\<close>

record chunking =
  ch_drafts :: "ChunkDraft list"
  ch_pending :: "BackupView list"
  ch_seq :: int

definition draft_of :: "(string \<Rightarrow> string) \<Rightarrow> string \<Rightarrow> int \<Rightarrow> bool \<Rightarrow> BackupView list \<Rightarrow> ChunkDraft" where
  "draft_of sha256 sessionId sq oversized vs =
     (let content = serialize_views sessionId sq vs
      in \<lparr>cd_seq = sq, cd_content = content, cd_byteLength = byteLength content, cd_checksum = chunkChecksum sha256 content,
          cd_entryIds = map v_id vs, cd_oversized = oversized\<rparr>)"

definition flush :: "(string \<Rightarrow> string) \<Rightarrow> string \<Rightarrow> bool \<Rightarrow> chunking \<Rightarrow> chunking" where
  "flush sha256 sessionId oversized c =
     (if ch_pending c = [] then c
      else \<lparr>ch_drafts = ch_drafts c @ [draft_of sha256 sessionId (ch_seq c) oversized (ch_pending c)],
            ch_pending = [], ch_seq = ch_seq c + 1\<rparr>)"

definition too_big :: "string \<Rightarrow> int \<Rightarrow> int \<Rightarrow> BackupView list \<Rightarrow> bool" where
  "too_big sessionId maxBytes sq vs = (int (byteLength (serialize_views sessionId sq vs)) > maxBytes)"

definition chunk_entry :: "(string \<Rightarrow> string) \<Rightarrow> string \<Rightarrow> int \<Rightarrow> chunking \<Rightarrow> BackupView \<Rightarrow> chunking" where
  "chunk_entry sha256 sessionId maxBytes c e =
     (let pending = ch_pending c @ [e] in
      if \<not> too_big sessionId maxBytes (ch_seq c) pending then c\<lparr>ch_pending := pending\<rparr>
      else if length pending = 1 then flush sha256 sessionId True (c\<lparr>ch_pending := pending\<rparr>)
      else
        (let c1 = (flush sha256 sessionId False c)\<lparr>ch_pending := [e]\<rparr>
         in flush sha256 sessionId (too_big sessionId maxBytes (ch_seq c1) [e]) c1))"

definition chunkEntries :: "(string \<Rightarrow> string) \<Rightarrow> string \<Rightarrow> int \<Rightarrow> int option \<Rightarrow> BackupView list \<Rightarrow> (int + ChunkDraft list)" where
  "chunkEntries sha256 sessionId seqStart maxChunkBytes entries =
     (let maxBytes = default_to DEFAULT_MAX_CHUNK_BYTES maxChunkBytes in
      if maxBytes < 256 then Inl maxBytes
      else Inr (ch_drafts (flush sha256 sessionId False
             (foldl (chunk_entry sha256 sessionId maxBytes) \<lparr>ch_drafts = [], ch_pending = [], ch_seq = seqStart\<rparr> entries))))"

section \<open>The manifest\<close>

record ManifestChunk =
  mc_seq :: int
  mc_path :: string
  mc_checksum :: string
  mc_byteLength :: int
  mc_entryIds :: "string list"
  mc_oversized :: bool

record ManifestOmission =
  mo_entryId :: string
  mo_reason :: string

record BackupManifest =
  bm_schemaVersion :: int
  bm_sessionId :: string
  bm_projectId :: string
  bm_scope :: string
  bm_firstEntryId :: "string option"
  bm_lastEntryId :: "string option"
  bm_entryCount :: int
  bm_chunks :: "ManifestChunk list"
  bm_redactionSummary :: "int dict"
  bm_omissions :: "ManifestOmission list"
  bm_updatedAt :: string

definition manifest_chunk_json :: "ManifestChunk \<Rightarrow> json" where
  "manifest_chunk_json c =
     JObj ([(''seq'', JNum (mc_seq c)), (''path'', JStr (mc_path c)), (''checksum'', JStr (mc_checksum c)),
            (''byteLength'', JNum (mc_byteLength c)), (''entryIds'', JArr (map JStr (mc_entryIds c)))]
           @ (if mc_oversized c then [(''oversized'', JBool True)] else []))"

definition str_or_null :: "string option \<Rightarrow> json" where
  "str_or_null v = (case v of None \<Rightarrow> JNull | Some s \<Rightarrow> JStr s)"

definition manifest_json :: "BackupManifest \<Rightarrow> json" where
  "manifest_json m =
     JObj [(''schemaVersion'', JNum (bm_schemaVersion m)), (''kind'', JStr ''kiwifs-backup-manifest''),
           (''sessionId'', JStr (bm_sessionId m)), (''projectId'', JStr (bm_projectId m)), (''scope'', JStr (bm_scope m)),
           (''coveredRange'', JObj [(''firstEntryId'', str_or_null (bm_firstEntryId m)),
              (''lastEntryId'', str_or_null (bm_lastEntryId m)), (''entryCount'', JNum (bm_entryCount m))]),
           (''chunks'', JArr (map manifest_chunk_json (bm_chunks m))),
           (''redactionSummary'', JObj (map (\<lambda>(k, n). (k, JNum n)) (bm_redactionSummary m))),
           (''omissions'', JArr (map (\<lambda>om. JObj [(''entryId'', JStr (mo_entryId om)), (''reason'', JStr (mo_reason om))]) (bm_omissions m))),
           (''redacted'', JBool True), (''updatedAt'', JStr (bm_updatedAt m))]"

definition serializeBackupManifest :: "BackupManifest \<Rightarrow> string" where
  "serializeBackupManifest m = pretty (manifest_json m) @ [nl]"

text \<open>\<open>Inl\<close> when the clock is not an epoch value.\<close>

definition buildBackupManifest ::
  "(ms \<Rightarrow> string) \<Rightarrow> string \<Rightarrow> string \<Rightarrow> string \<Rightarrow> ManifestChunk list \<Rightarrow> int dict \<Rightarrow> ManifestOmission list
   \<Rightarrow> string list \<Rightarrow> ms \<Rightarrow> ms + BackupManifest" where
  "buildBackupManifest isoString sessionId projectId scp chunks redactionSummary omissions coveredEntryIds updatedAtMs =
     (if updatedAtMs < 0 then Inl updatedAtMs
      else Inr \<lparr>bm_schemaVersion = BACKUP_SCHEMA_VERSION, bm_sessionId = sessionId, bm_projectId = projectId, bm_scope = scp,
        bm_firstEntryId = (case coveredEntryIds of [] \<Rightarrow> None | i # _ \<Rightarrow> Some i),
        bm_lastEntryId = (if coveredEntryIds = [] then None else Some (last coveredEntryIds)),
        bm_entryCount = int (length coveredEntryIds), bm_chunks = chunks, bm_redactionSummary = redactionSummary,
        bm_omissions = omissions, bm_updatedAt = isoString updatedAtMs\<rparr>)"

section \<open>Nothing is lost, reordered or too big\<close>

definition draft_ok :: "(string \<Rightarrow> string) \<Rightarrow> string \<Rightarrow> int \<Rightarrow> ChunkDraft \<Rightarrow> BackupView list \<Rightarrow> bool" where
  "draft_ok sha256 sessionId maxBytes d vs =
     (vs \<noteq> [] \<and> d = draft_of sha256 sessionId (cd_seq d) (cd_oversized d) vs
      \<and> (if cd_oversized d then length vs = 1 \<and> int (cd_byteLength d) > maxBytes else int (cd_byteLength d) \<le> maxBytes))"

definition chunk_inv :: "(string \<Rightarrow> string) \<Rightarrow> string \<Rightarrow> int \<Rightarrow> int \<Rightarrow> chunking \<Rightarrow> BackupView list \<Rightarrow> bool" where
  "chunk_inv sha256 sessionId maxBytes start c es0 =
     ((\<exists>gs. list_all2 (draft_ok sha256 sessionId maxBytes) (ch_drafts c) gs \<and> concat gs @ ch_pending c = es0)
      \<and> map cd_seq (ch_drafts c) = map (\<lambda>i. start + int i) [0..<length (ch_drafts c)]
      \<and> ch_seq c = start + int (length (ch_drafts c))
      \<and> (ch_pending c = [] \<or> \<not> too_big sessionId maxBytes (ch_seq c) (ch_pending c)))"

lemma flush_inv:
  assumes "\<exists>gs. list_all2 (draft_ok sha256 sid mb) (ch_drafts c) gs \<and> concat gs @ ch_pending c = es0"
    and "map cd_seq (ch_drafts c) = map (\<lambda>i. start + int i) [0..<length (ch_drafts c)]"
    and "ch_seq c = start + int (length (ch_drafts c))"
    and "ch_pending c = [] \<or> (if big then length (ch_pending c) = 1 \<and> too_big sid mb (ch_seq c) (ch_pending c)
                            else \<not> too_big sid mb (ch_seq c) (ch_pending c))"
  shows "chunk_inv sha256 sid mb start (flush sha256 sid big c) es0 \<and> ch_pending (flush sha256 sid big c) = []"
proof (cases "ch_pending c = []")
  case True
  then show ?thesis using assms by (auto simp: flush_def chunk_inv_def)
next
  case False
  let ?d = "draft_of sha256 sid (ch_seq c) big (ch_pending c)"
  from assms(1) obtain gs where g: "list_all2 (draft_ok sha256 sid mb) (ch_drafts c) gs" "concat gs @ ch_pending c = es0" by blast
  have "draft_ok sha256 sid mb ?d (ch_pending c)"
    using assms(4) False by (auto simp: draft_ok_def draft_of_def Let_def too_big_def split: if_splits)
  then have "list_all2 (draft_ok sha256 sid mb) (ch_drafts c @ [?d]) (gs @ [ch_pending c])"
    using g(1) by (simp add: list_all2_appendI)
  moreover have "concat (gs @ [ch_pending c]) @ [] = es0" using g(2) by simp
  moreover have "cd_seq ?d = start + int (length (ch_drafts c))" using assms(3) by (simp add: draft_of_def Let_def)
  ultimately show ?thesis using assms(2,3) False
    unfolding flush_def chunk_inv_def by (simp del: concat_append) blast
qed

lemma chunk_entry_inv:
  assumes "chunk_inv sha256 sid mb start c es0"
  shows "chunk_inv sha256 sid mb start (chunk_entry sha256 sid mb c e) (es0 @ [e])"
proof -
  let ?p = "ch_pending c @ [e]"
  from assms have c: "map cd_seq (ch_drafts c) = map (\<lambda>i. start + int i) [0..<length (ch_drafts c)]"
    "ch_seq c = start + int (length (ch_drafts c))"
    "ch_pending c = [] \<or> \<not> too_big sid mb (ch_seq c) (ch_pending c)"
    "\<exists>gs. list_all2 (draft_ok sha256 sid mb) (ch_drafts c) gs \<and> concat gs @ ch_pending c = es0"
    by (auto simp: chunk_inv_def)
  consider (fits) "\<not> too_big sid mb (ch_seq c) ?p" | (alone) "too_big sid mb (ch_seq c) ?p" "ch_pending c = []"
    | (over) "too_big sid mb (ch_seq c) ?p" "ch_pending c \<noteq> []" by blast
  then show ?thesis
  proof cases
    case fits
    then show ?thesis using c by (auto simp: chunk_entry_def Let_def chunk_inv_def)
  next
    case alone
    have "chunk_inv sha256 sid mb start (flush sha256 sid True (c\<lparr>ch_pending := ?p\<rparr>)) (es0 @ [e])"
      by (rule conjunct1 [OF flush_inv]) (use c alone in auto)
    then show ?thesis using alone by (simp add: chunk_entry_def Let_def)
  next
    case over
    have f: "chunk_inv sha256 sid mb start (flush sha256 sid False c) es0 \<and> ch_pending (flush sha256 sid False c) = []"
      by (rule flush_inv) (use c in auto)
    let ?c1 = "(flush sha256 sid False c)\<lparr>ch_pending := [e]\<rparr>"
    have "chunk_inv sha256 sid mb start (flush sha256 sid (too_big sid mb (ch_seq ?c1) [e]) ?c1) (es0 @ [e])"
      by (rule conjunct1 [OF flush_inv]) (use f in \<open>auto simp: chunk_inv_def\<close>)
    then show ?thesis using over by (simp add: chunk_entry_def Let_def)
  qed
qed

lemma chunk_fold_inv:
  "chunk_inv sha256 sid mb start c es0 \<Longrightarrow>
   chunk_inv sha256 sid mb start (foldl (chunk_entry sha256 sid mb) c es) (es0 @ es)"
proof (induction es arbitrary: c es0)
  case (Cons e es)
  show ?case using Cons.IH [OF chunk_entry_inv [OF Cons.prems, of e]] by simp
qed simp

lemma chunkEntries_facts:
  assumes "chunkEntries sha256 sid start mcb es = Inr ds"
  shows "\<exists>gs. list_all2 (draft_ok sha256 sid (default_to DEFAULT_MAX_CHUNK_BYTES mcb)) ds gs \<and> concat gs = es
      \<and> map cd_seq ds = map (\<lambda>i. start + int i) [0..<length ds]"
proof -
  let ?mb = "default_to DEFAULT_MAX_CHUNK_BYTES mcb"
  let ?c = "foldl (chunk_entry sha256 sid ?mb) \<lparr>ch_drafts = [], ch_pending = [], ch_seq = start\<rparr> es"
  have "chunk_inv sha256 sid ?mb start \<lparr>ch_drafts = [], ch_pending = [], ch_seq = start\<rparr> []"
    by (simp add: chunk_inv_def)
  from chunk_fold_inv [OF this, of es] have i: "chunk_inv sha256 sid ?mb start ?c es" by simp
  have "chunk_inv sha256 sid ?mb start (flush sha256 sid False ?c) es \<and> ch_pending (flush sha256 sid False ?c) = []"
    by (rule flush_inv) (use i in \<open>auto simp: chunk_inv_def\<close>)
  moreover have "ds = ch_drafts (flush sha256 sid False ?c)"
    using assms by (auto simp: chunkEntries_def Let_def split: if_splits)
  ultimately show ?thesis by (auto simp: chunk_inv_def)
qed

section \<open>Reading a chunk back\<close>

definition view_wf :: "BackupView \<Rightarrow> bool" where
  "view_wf v = (v_id v \<noteq> '''')"

lemma view_json_wf: "json_wf (view_json v)"
  by (auto simp: view_json_def opt_str_def split: option.splits)

lemma parse_chunk: 
  assumes "\<forall>e \<in> set es. json_wf e"
  shows "json_parse (serializeChunk sid sq es) = Some (chunk_json sid sq es)"
proof -
  have "json_wf (chunk_json sid sq es)" using assms by (simp add: chunk_json_def)
  moreover have "blank [nl]" by (simp add: blank_def is_ws_def)
  ultimately show ?thesis unfolding serializeChunk_def by (rule parse_pretty)
qed

lemma parse_views: "json_parse (serialize_views sid sq vs) = Some (chunk_json sid sq (map view_json vs))"
  unfolding serialize_views_def by (rule parse_chunk) (simp add: view_json_wf)

lemma view_json_inj: "view_json v = view_json w \<Longrightarrow> v_id v = v_id w"
  by (simp add: view_json_def)

lemma draft_ok_ids: "draft_ok sha256 sid mb d vs \<Longrightarrow> cd_entryIds d = map v_id vs"
  by (cases d) (simp add: draft_ok_def draft_of_def Let_def)

text \<open>
  C18. Chunking loses nothing and keeps to the bound: whatever the entries, the chunks' entry ids
  one after the other are exactly the entries' ids in order, the sequence numbers run from the
  start without a gap, no chunk is empty, each chunk is within the size bound unless it is
  marked oversized, and a chunk is marked oversized exactly when it is a single entry that
  exceeds the bound by itself.
\<close>
theorem chunking_is_complete_and_bounded:
  assumes "chunkEntries sha256 sid start maxChunkBytes es = Inr ds"
  shows "concat (map cd_entryIds ds) = map v_id es
    \<and> map cd_seq ds = map (\<lambda>i. start + int i) [0..<length ds]
    \<and> (\<forall>d \<in> set ds. cd_entryIds d \<noteq> [] \<and> cd_byteLength d = byteLength (cd_content d) \<and> cd_checksum d = sha256 (cd_content d)
        \<and> (cd_oversized d = (int (cd_byteLength d) > default_to DEFAULT_MAX_CHUNK_BYTES maxChunkBytes))
        \<and> (cd_oversized d \<longrightarrow> length (cd_entryIds d) = 1))"
proof -
  let ?mb = "default_to DEFAULT_MAX_CHUNK_BYTES maxChunkBytes"
  obtain gs where g: "list_all2 (draft_ok sha256 sid ?mb) ds gs" "concat gs = es"
    "map cd_seq ds = map (\<lambda>i. start + int i) [0..<length ds]"
    using chunkEntries_facts [OF assms] by blast
  have "map cd_entryIds ds = map (map v_id) gs"
    using g(1) by (induction ds gs rule: list_all2_induct) (simp_all add: draft_ok_ids)
  then have "concat (map cd_entryIds ds) = map v_id es" by (simp add: g(2) [symmetric] map_concat)
  moreover have "cd_entryIds d \<noteq> [] \<and> cd_byteLength d = byteLength (cd_content d) \<and> cd_checksum d = sha256 (cd_content d)
      \<and> (cd_oversized d = (int (cd_byteLength d) > ?mb)) \<and> (cd_oversized d \<longrightarrow> length (cd_entryIds d) = 1)" if d: "d \<in> set ds" for d
  proof -
    obtain vs where "draft_ok sha256 sid ?mb d vs" using g(1) d by (auto simp: list_all2_conv_all_nth in_set_conv_nth)
    then have v: "vs \<noteq> []" "d = draft_of sha256 sid (cd_seq d) (cd_oversized d) vs"
      "if cd_oversized d then length vs = 1 \<and> int (cd_byteLength d) > ?mb else int (cd_byteLength d) \<le> ?mb"
      by (auto simp: draft_ok_def)
    then have "cd_entryIds d = map v_id vs" "cd_byteLength d = byteLength (cd_content d)" "cd_checksum d = sha256 (cd_content d)"
      by (metis (no_types, lifting) ChunkDraft.select_convs draft_of_def chunkChecksum_def)+
    then show ?thesis using v(1,3) by (auto split: if_splits)
  qed
  ultimately show ?thesis using g(3) by blast
qed

definition small_view :: "string \<Rightarrow> BackupView" where
  "small_view i = \<lparr>v_id = i, v_parentId = None, v_type = ''message'', v_timestamp = [], v_role = None,
     v_text = Some ''x'', v_omissions = []\<rparr>"

definition small_chunk :: "ChunkDraft list" where
  "small_chunk = [draft_of (\<lambda>_. ''0'') ''s1'' 3 False [small_view ''a'']]"

lemma example_chunk: "chunkEntries (\<lambda>_. ''0'') ''s1'' 3 None [small_view ''a''] = Inr small_chunk"
  by code_simp

theorem chunking_is_complete_and_bounded_witness:
  "concat (map cd_entryIds small_chunk) = [''a''] \<and> map cd_seq small_chunk = [3]"
  using chunking_is_complete_and_bounded [OF example_chunk]
  by (simp add: small_chunk_def small_view_def draft_of_def Let_def)

text \<open>
  An entry that overflows a chunk always gets a chunk of its own: the chunk before it is closed,
  and it is not kept open for the entries that follow, however small they all are.
\<close>

lemma overflow_leaves_singleton:
  assumes "ch_pending c \<noteq> []" "too_big sid mb (ch_seq c) (ch_pending c @ [e])"
  shows "ch_pending (chunk_entry sha256 sid mb c e) = []
    \<and> (\<exists>d. ch_drafts (chunk_entry sha256 sid mb c e)
        = ch_drafts c @ [draft_of sha256 sid (ch_seq c) False (ch_pending c), d] \<and> cd_entryIds d = [v_id e])"
  using assms by (simp add: chunk_entry_def flush_def Let_def draft_of_def)

end
