(* ===== verification/BackupCapture.thy ===== *)
theory BackupCapture
  imports BackupChunks Exclusions OutboxStore Idempotency
begin

text \<open>
  Incremental capture of a session into the durable outbox (src/backup/capture.ts): the
  coverage state and its file, the policy split of fresh entries, chunk and manifest jobs, and
  the delivery of a backup job with its second check of the payload. What the outside answers
  during one capture is a record of functions (\<open>capture_env\<close>), the \<open>k\<close>-th enqueue with its own
  clock, id and file-system outcome. The state file holds a state, one of a newer schema (or no
  object), or bytes that are no JSON; the field-by-field tolerance of \<open>loadState\<close> for a file
  the program did not write is not modelled.
\<close>

section \<open>State\<close>

record SessionBackupState =
  bs_covered :: "string list"
  bs_nextSeq :: int
  bs_chunks :: "ManifestChunk list"
  bs_omissions :: "ManifestOmission list"
  bs_counts :: "int dict"

type_synonym BackupState = "SessionBackupState dict"

definition emptySessionState :: SessionBackupState where
  "emptySessionState = \<lparr>bs_covered = [], bs_nextSeq = 0, bs_chunks = [], bs_omissions = [], bs_counts = []\<rparr>"

datatype backup_file = BfNotJson | BfNewer | BfState BackupState

record BackupCapture =
  bc_scope :: string
  bc_projectId :: string
  bc_sessionId :: string
  bc_branchId :: "string option"
  bc_sessions :: BackupState
  bc_lastError :: "string option"

datatype capture_error = CapScope | CapNewer | CapChunkSize | CapOutbox outbox_error | CapPath path_error | CapClock | CapIo

definition loadState :: "backup_file option \<Rightarrow> capture_error + BackupState" where
  "loadState f =
     (case f of None \<Rightarrow> Inr [] | Some BfNotJson \<Rightarrow> Inr [] | Some BfNewer \<Rightarrow> Inl CapNewer | Some (BfState s) \<Rightarrow> Inr s)"

definition new_capture ::
  "string \<Rightarrow> string \<Rightarrow> string \<Rightarrow> string option \<Rightarrow> exclusion_error + compiled \<Rightarrow> backup_file option \<Rightarrow> capture_error + BackupCapture" where
  "new_capture scp projectId sess branch compiled f =
     (if \<not> prefix ''project/'' scp then Inl CapScope
      else (case loadState f of
              Inl e \<Rightarrow> Inl e
            | Inr s \<Rightarrow>
                Inr \<lparr>bc_scope = scp, bc_projectId = projectId, bc_sessionId = sess, bc_branchId = branch, bc_sessions = s,
                  bc_lastError = (if is_ok compiled then None else Some ''exclusions invalid'')\<rparr>))"

definition sessionState :: "BackupCapture \<Rightarrow> SessionBackupState" where
  "sessionState bc = default_to emptySessionState (map_of (bc_sessions bc) (bc_sessionId bc))"

definition put_session :: "BackupCapture \<Rightarrow> SessionBackupState \<Rightarrow> BackupCapture" where
  "put_session bc s = bc\<lparr>bc_sessions := AList.update (bc_sessionId bc) s (bc_sessions bc)\<rparr>"

section \<open>The policy split\<close>

record capture_env =
  cap_sha256 :: "string \<Rightarrow> string"
  cap_iso :: "ms \<Rightarrow> string"
  cap_private :: bool
  cap_compiled :: "exclusion_error + compiled"
  cap_redact :: "string \<Rightarrow> string + string"
  cap_maxBytes :: "int option"
  cap_now :: ms
  cap_secret :: "string \<Rightarrow> bool"
  cap_targetFor :: "string \<Rightarrow> string option"
  cap_enqNow :: "nat \<Rightarrow> ms"
  cap_uuid :: "nat \<Rightarrow> string"
  cap_io :: "nat \<Rightarrow> io"
  cap_ioState :: io

fun fresh_views :: "string list \<Rightarrow> BackupView list \<Rightarrow> BackupView list" where
  "fresh_views seen [] = []"
| "fresh_views seen (v # vs) =
     (if v_id v \<in> set seen then fresh_views seen vs else v # fresh_views (v_id v # seen) vs)"

text \<open>The engine's own exclusion test: a rule on a path prefix never matches session text.\<close>

definition capture_excluded :: "string \<Rightarrow> compiled \<Rightarrow> string \<Rightarrow> bool" where
  "capture_excluded scp compiled text =
     list_ex (\<lambda>(rule, re). \<not> (ex_project rule \<noteq> None \<and> ex_project rule \<noteq> Some scp)
        \<and> ex_pathPrefix rule = None \<and> (case re of None \<Rightarrow> True | Some test \<Rightarrow> test text)) compiled"

record policy =
  pl_candidates :: "BackupView list"
  pl_omissions :: "ManifestOmission list"
  pl_covered :: "string list"
  pl_lastError :: "string option"

definition omit :: "string \<Rightarrow> string \<Rightarrow> ManifestOmission" where
  "omit i r = \<lparr>mo_entryId = i, mo_reason = r\<rparr>"

definition classify :: "capture_env \<Rightarrow> string \<Rightarrow> compiled \<Rightarrow> policy \<Rightarrow> BackupView \<Rightarrow> policy" where
  "classify env scp compiled p v =
     (let covered = p\<lparr>pl_covered := pl_covered p @ [v_id v]\<rparr>;
          own = map (\<lambda>r. omit (v_id v) (omission_text r)) (v_omissions v) in
      if ExtensionInternal \<in> set (v_omissions v)
        then covered\<lparr>pl_omissions := pl_omissions p @ [omit (v_id v) ''extension-internal'']\<rparr>
      else (case v_text v of
          None \<Rightarrow>
            covered\<lparr>pl_omissions := pl_omissions p
              @ (if v_omissions v = [] then [omit (v_id v) ''contentless-entry''] else own)\<rparr>
        | Some text \<Rightarrow>
            if capture_excluded scp compiled text
              then covered\<lparr>pl_omissions := pl_omissions p @ [omit (v_id v) ''excluded-by-policy'']\<rparr>
            else (case cap_redact env text of
                Inl reason \<Rightarrow> p\<lparr>pl_lastError := Some (''redaction-held ('' @ reason @ '')'')\<rparr>
              | Inr content \<Rightarrow>
                  covered\<lparr>pl_candidates := pl_candidates p @ [v\<lparr>v_text := Some content\<rparr>],
                    pl_omissions := pl_omissions p @ own\<rparr>)))"

definition classify_all :: "capture_env \<Rightarrow> string \<Rightarrow> compiled \<Rightarrow> BackupView list \<Rightarrow> policy" where
  "classify_all env scp compiled vs =
     foldl (classify env scp compiled) \<lparr>pl_candidates = [], pl_omissions = [], pl_covered = [], pl_lastError = None\<rparr> vs"

text \<open>\<open>/\[REDACTED:([a-z0-9-]+):\d+\]/g\<close>: the types of the placeholders in a text.\<close>

definition placeholder_at :: "string \<Rightarrow> string option" where
  "placeholder_at s =
     (case strip_prefix ''[REDACTED:'' s of
        None \<Rightarrow> None
      | Some r \<Rightarrow>
          (let ty_char = (\<lambda>c. is_lower c \<or> is_digit c \<or> c = CHR ''-'');
               ty = takeWhile ty_char r; r2 = dropWhile ty_char r
           in case r2 of
                [] \<Rightarrow> None
              | c # r3 \<Rightarrow>
                  if ty \<noteq> [] \<and> c = CHR '':'' \<and> takeWhile is_digit r3 \<noteq> [] \<and> take 1 (dropWhile is_digit r3) = '']''
                  then Some ty else None))"

fun placeholders :: "string \<Rightarrow> string list" where
  "placeholders [] = []"
| "placeholders (c # cs) = (case placeholder_at (c # cs) of None \<Rightarrow> placeholders cs | Some t \<Rightarrow> t # placeholders cs)"

definition count_type :: "int dict \<Rightarrow> string \<Rightarrow> int dict" where
  "count_type counts t = AList.update t (default_to 0 (map_of counts t) + 1) counts"

definition count_redactions :: "int dict \<Rightarrow> BackupView list \<Rightarrow> int dict" where
  "count_redactions counts vs = foldl count_type counts (concat (map (\<lambda>v. placeholders (default_to '''' (v_text v))) vs))"

section \<open>Jobs\<close>

definition chunk_payload :: "BackupCapture \<Rightarrow> ChunkDraft \<Rightarrow> json" where
  "chunk_payload bc d =
     JObj ([(''type'', JStr ''chunk''), (''sessionId'', JStr (bc_sessionId bc))] @ opt_str ''branchId'' (bc_branchId bc)
       @ [(''seq'', JNum (cd_seq d)), (''entryIds'', JArr (map JStr (cd_entryIds d))),
          (''content'', JStr (cd_content d)), (''checksum'', JStr (cd_checksum d))])"

definition chunk_input :: "capture_env \<Rightarrow> BackupCapture \<Rightarrow> ChunkDraft \<Rightarrow> EnqueueInput" where
  "chunk_input env bc d =
     \<lparr>in_kind = KBackupChunk, in_scope = bc_scope bc,
      in_key = Idempotency.idempotencyKey (cap_sha256 env) \<lparr>id_kind = KBackupChunk, id_scope = bc_scope bc,
        id_sources = [\<lparr>sessionId = bc_sessionId bc, branchId = bc_branchId bc, entryIds = cd_entryIds d\<rparr>],
        id_channel = None, id_tokens = Some [show_int (cd_seq d)]\<rparr>,
      in_payload = Some (chunk_payload bc d), in_opId = None, in_target = None\<rparr>"

definition manifest_payload :: "BackupCapture \<Rightarrow> BackupManifest \<Rightarrow> json" where
  "manifest_payload bc m =
     JObj [(''type'', JStr ''manifest''), (''sessionId'', JStr (bc_sessionId bc)), (''manifest'', JStr (serializeBackupManifest m))]"

definition manifest_input :: "capture_env \<Rightarrow> BackupCapture \<Rightarrow> string list \<Rightarrow> BackupManifest \<Rightarrow> EnqueueInput" where
  "manifest_input env bc covered m =
     \<lparr>in_kind = KBackupChunk, in_scope = bc_scope bc,
      in_key = Idempotency.idempotencyKey (cap_sha256 env) \<lparr>id_kind = KBackupChunk, id_scope = bc_scope bc,
        id_sources = [\<lparr>sessionId = bc_sessionId bc, branchId = None, entryIds = covered\<rparr>],
        id_channel = None, id_tokens = Some [''manifest'']\<rparr>,
      in_payload = Some (manifest_payload bc m), in_opId = None, in_target = None\<rparr>"

definition cap_enqueue ::
  "capture_env \<Rightarrow> nat \<Rightarrow> EnqueueInput \<Rightarrow> DurableOutbox \<Rightarrow> outbox_fs \<Rightarrow> (outbox_error + OutboxJob) \<times> DurableOutbox \<times> outbox_fs" where
  "cap_enqueue env k inp ob fs = enqueue (cap_secret env) (cap_targetFor env) (cap_enqNow env k) (cap_uuid env k) inp (cap_io env k) ob fs"

definition chunk_record :: "string \<Rightarrow> ChunkDraft \<Rightarrow> ManifestChunk" where
  "chunk_record path d =
     \<lparr>mc_seq = cd_seq d, mc_path = path, mc_checksum = cd_checksum d, mc_byteLength = int (cd_byteLength d),
      mc_entryIds = cd_entryIds d, mc_oversized = cd_oversized d\<rparr>"

text \<open>One job per draft; the chunk list grows in memory as the jobs are accepted.\<close>

fun enqueue_chunks ::
  "capture_env \<Rightarrow> BackupCapture \<Rightarrow> nat \<Rightarrow> ChunkDraft list \<Rightarrow> SessionBackupState \<Rightarrow> DurableOutbox \<Rightarrow> outbox_fs
   \<Rightarrow> capture_error option \<times> SessionBackupState \<times> DurableOutbox \<times> outbox_fs" where
  "enqueue_chunks env bc k [] s ob fs = (None, s, ob, fs)"
| "enqueue_chunks env bc k (d # ds) s ob fs =
     (case cap_enqueue env k (chunk_input env bc d) ob fs of
        (Inl e, ob1, fs1) \<Rightarrow> (Some (CapOutbox e), s, ob1, fs1)
      | (Inr _, ob1, fs1) \<Rightarrow>
          (case backupChunkPath (bc_projectId bc) (bc_sessionId bc) (cd_seq d) of
             Inl e \<Rightarrow> (Some (CapPath e), s, ob1, fs1)
           | Inr path \<Rightarrow> enqueue_chunks env bc (Suc k) ds (s\<lparr>bs_chunks := bs_chunks s @ [chunk_record path d]\<rparr>) ob1 fs1))"

definition enqueue_manifest ::
  "capture_env \<Rightarrow> BackupCapture \<Rightarrow> nat \<Rightarrow> SessionBackupState \<Rightarrow> DurableOutbox \<Rightarrow> outbox_fs
   \<Rightarrow> capture_error option \<times> DurableOutbox \<times> outbox_fs" where
  "enqueue_manifest env bc k s ob fs =
     (case buildBackupManifest (cap_iso env) (bc_sessionId bc) (bc_projectId bc) (bc_scope bc) (bs_chunks s) (bs_counts s)
             (bs_omissions s) (bs_covered s) (cap_now env) of
        Inl _ \<Rightarrow> (Some CapClock, ob, fs)
      | Inr m \<Rightarrow>
          (case cap_enqueue env k (manifest_input env bc (bs_covered s) m) ob fs of
             (Inl e, ob1, fs1) \<Rightarrow> (Some (CapOutbox e), ob1, fs1)
           | (Inr _, ob1, fs1) \<Rightarrow> (None, ob1, fs1)))"

section \<open>One capture\<close>

datatype skip_capture = CapPrivateMode | CapNoCandidates

record BackupCaptureResult =
  bcr_chunks :: nat
  bcr_manifest :: bool
  bcr_held :: nat
  bcr_skipped :: "skip_capture option"
  bcr_lastError :: "string option"

definition skipped_capture :: "skip_capture \<Rightarrow> string option \<Rightarrow> BackupCaptureResult" where
  "skipped_capture why e = \<lparr>bcr_chunks = 0, bcr_manifest = False, bcr_held = 0, bcr_skipped = Some why, bcr_lastError = e\<rparr>"

record capture_world =
  cw_bc :: BackupCapture
  cw_outbox :: DurableOutbox
  cw_fs :: outbox_fs
  cw_file :: "backup_file option"

text \<open>The coverage cursor moves once every chunk job is accepted.\<close>

definition advance :: "policy \<Rightarrow> nat \<Rightarrow> int dict \<Rightarrow> SessionBackupState \<Rightarrow> SessionBackupState" where
  "advance p n counts s =
     s\<lparr>bs_covered := bs_covered s @ pl_covered p, bs_nextSeq := bs_nextSeq s + int n,
       bs_omissions := bs_omissions s @ pl_omissions p, bs_counts := counts\<rparr>"

definition finish_capture ::
  "capture_env \<Rightarrow> BackupCapture \<Rightarrow> policy \<Rightarrow> nat \<Rightarrow> nat \<Rightarrow> DurableOutbox \<Rightarrow> outbox_fs \<Rightarrow> backup_file option
   \<Rightarrow> (capture_error + BackupCaptureResult) \<times> capture_world" where
  "finish_capture env bc p n freshCount ob fs bf =
     (case atomic_write (cap_ioState env) (BfState (bc_sessions bc)) bf of
        (False, bf1) \<Rightarrow> (Inl CapIo, \<lparr>cw_bc = bc, cw_outbox = ob, cw_fs = fs, cw_file = bf1\<rparr>)
      | (True, bf1) \<Rightarrow>
          (Inr \<lparr>bcr_chunks = n, bcr_manifest = (n > 0), bcr_held = freshCount - length (pl_covered p), bcr_skipped = None,
             bcr_lastError = pl_lastError p\<rparr>,
           \<lparr>cw_bc = bc\<lparr>bc_lastError := pl_lastError p\<rparr>, cw_outbox = ob, cw_fs = fs, cw_file = bf1\<rparr>))"

definition capture_fresh ::
  "capture_env \<Rightarrow> compiled \<Rightarrow> BackupView list \<Rightarrow> capture_world \<Rightarrow> (capture_error + BackupCaptureResult) \<times> capture_world" where
  "capture_fresh env compiled fresh w =
     (let bc = cw_bc w; s = sessionState bc;
          p = classify_all env (bc_scope bc) compiled fresh;
          counts = count_redactions (bs_counts s) (pl_candidates p)
      in case chunkEntries (cap_sha256 env) (bc_sessionId bc) (bs_nextSeq s) (cap_maxBytes env) (pl_candidates p) of
           Inl _ \<Rightarrow> (Inl CapChunkSize, w)
         | Inr drafts \<Rightarrow>
             (case enqueue_chunks env bc 0 drafts s (cw_outbox w) (cw_fs w) of
                (Some e, s1, ob1, fs1) \<Rightarrow> (Inl e, w\<lparr>cw_bc := put_session bc s1, cw_outbox := ob1, cw_fs := fs1\<rparr>)
              | (None, s1, ob1, fs1) \<Rightarrow>
                  (let s2 = advance p (length drafts) counts s1; bc2 = put_session bc s2 in
                   if drafts = [] then finish_capture env bc2 p 0 (length fresh) ob1 fs1 (cw_file w)
                   else (case enqueue_manifest env bc (length drafts) s2 ob1 fs1 of
                           (Some e, ob2, fs2) \<Rightarrow> (Inl e, w\<lparr>cw_bc := bc2, cw_outbox := ob2, cw_fs := fs2\<rparr>)
                         | (None, ob2, fs2) \<Rightarrow>
                             finish_capture env bc2 p (length drafts) (length fresh) ob2 fs2 (cw_file w)))))"

definition capture :: "capture_env \<Rightarrow> json list \<Rightarrow> capture_world \<Rightarrow> (capture_error + BackupCaptureResult) \<times> capture_world" where
  "capture env items w =
     (if cap_private env then (Inr (skipped_capture CapPrivateMode None), w)
      else (case cap_compiled env of
          Inl _ \<Rightarrow> (Inr (skipped_capture CapNoCandidates (bc_lastError (cw_bc w))), w)
        | Inr compiled \<Rightarrow>
            (let s = sessionState (cw_bc w); w0 = w\<lparr>cw_bc := put_session (cw_bc w) s\<rparr>;
                 fresh = fresh_views (bs_covered s) (toBackupViews items)
             in if fresh = [] then (Inr (skipped_capture CapNoCandidates None), w0)
                else capture_fresh env compiled fresh w0)))"

section \<open>Delivery\<close>

datatype BackupPayload =
    ChunkPayload string int "string list" string string
  | ManifestPayload string string

fun str_list :: "json list \<Rightarrow> string list option" where
  "str_list [] = Some []"
| "str_list (JStr s # js) = (if s = '''' then None else map_option ((#) s) (str_list js))"
| "str_list (_ # js) = None"

definition nonempty_str :: "json option \<Rightarrow> string option" where
  "nonempty_str j = (case str_of j of None \<Rightarrow> None | Some s \<Rightarrow> if s = '''' then None else Some s)"

definition bad_payload :: exn where
  "bad_payload = Backend ValidationError"

text \<open>The ids a chunk's content gives its entries: \<open>String(e?.id ?? "")\<close>.\<close>

definition content_id :: "json \<Rightarrow> string" where
  "content_id e = (case as_object (Some e) of None \<Rightarrow> '''' | Some ms \<Rightarrow> string_or_empty (map_of ms ''id''))"

definition chunk_header_ok :: "string \<Rightarrow> int \<Rightarrow> string list \<Rightarrow> json \<Rightarrow> bool" where
  "chunk_header_ok sess sq ids content =
     (case content of
        JObj obj \<Rightarrow>
          map_of obj ''kind'' = Some (JStr ''kiwifs-backup-chunk'') \<and> map_of obj ''sessionId'' = Some (JStr sess)
          \<and> map_of obj ''seq'' = Some (JNum sq)
          \<and> (case map_of obj ''entries'' of Some (JArr es) \<Rightarrow> map content_id es = ids | _ \<Rightarrow> False)
      | _ \<Rightarrow> False)"

definition parseBackupPayload :: "(string \<Rightarrow> string) \<Rightarrow> OutboxJob \<Rightarrow> exn + BackupPayload" where
  "parseBackupPayload sha256 job =
     (case as_object (payload job) of
        None \<Rightarrow> Inl bad_payload
      | Some p \<Rightarrow>
          (case str_of (map_of p ''type'') of
             None \<Rightarrow> Inl bad_payload
           | Some ty \<Rightarrow>
               if ty = ''manifest'' then
                 (case (nonempty_str (map_of p ''sessionId''), nonempty_str (map_of p ''manifest'')) of
                    (Some sess, Some m) \<Rightarrow> Inr (ManifestPayload sess m)
                  | _ \<Rightarrow> Inl bad_payload)
               else if ty \<noteq> ''chunk'' then Inl bad_payload
               else
                 (case (nonempty_str (map_of p ''sessionId''), map_of p ''entryIds'', map_of p ''seq'',
                        nonempty_str (map_of p ''content''), str_of (map_of p ''checksum'')) of
                    (Some sess, Some (JArr js), Some (JNum sq), Some content, Some checksum) \<Rightarrow>
                      (case str_list js of
                         None \<Rightarrow> Inl bad_payload
                       | Some ids \<Rightarrow>
                           if sq < 0 then Inl bad_payload
                           else (case json_parse content of
                               None \<Rightarrow> Inl bad_payload
                             | Some j \<Rightarrow>
                                 if \<not> chunk_header_ok sess sq ids j then Inl bad_payload
                                 else if chunkChecksum sha256 content \<noteq> checksum then Inl bad_payload
                                 else Inr (ChunkPayload sess sq ids content checksum)))
                  | _ \<Rightarrow> Inl bad_payload)))"

datatype backup_write = WriteManifest string string | WriteChunk string string

definition chunk_entries_of :: "json \<Rightarrow> json list" where
  "chunk_entries_of j = (case j of JObj ms \<Rightarrow> (case map_of ms ''entries'' of Some (JArr es) \<Rightarrow> es | _ \<Rightarrow> []) | _ \<Rightarrow> [])"

text \<open>The one write a backup job makes, unless it is refused before.\<close>

definition sendBackupJob :: "(string \<Rightarrow> string) \<Rightarrow> string \<Rightarrow> OutboxJob \<Rightarrow> exn + backup_write" where
  "sendBackupJob sha256 projectId job =
     (case parseBackupPayload sha256 job of
        Inl e \<Rightarrow> Inl e
      | Inr (ManifestPayload sess m) \<Rightarrow>
          (case backupManifestPath projectId sess of Inl _ \<Rightarrow> Inl (Backend PathEscapeError) | Inr path \<Rightarrow> Inr (WriteManifest path m))
      | Inr (ChunkPayload sess sq ids content checksum) \<Rightarrow>
          (case json_parse content of
             None \<Rightarrow> Inl (OtherError ''SyntaxError'' None)
           | Some j \<Rightarrow>
               if serializeChunk sess sq (chunk_entries_of j) \<noteq> content then Inl bad_payload
               else (case backupChunkPath projectId sess sq of
                       Inl _ \<Rightarrow> Inl (Backend PathEscapeError)
                     | Inr path \<Rightarrow> Inr (WriteChunk path content))))"

section \<open>A captured job is deliverable\<close>

lemma content_id_view [simp]: "content_id (view_json v) = v_id v"
  by (simp add: content_id_def view_json_def string_or_empty_def)

lemma str_list_map: "'''' \<notin> set ids \<Longrightarrow> str_list (map JStr ids) = Some ids"
  by (induction ids) auto

lemma serializeChunk_nonempty: "serializeChunk sess sq es \<noteq> ''''"
  by (simp add: serializeChunk_def)

lemma chunk_job_sent:
  assumes "draft_ok sha256 (bc_sessionId bc) mb d vs" "\<forall>v \<in> set vs. v_id v \<noteq> ''''" "0 \<le> cd_seq d"
    and "backupChunkPath (bc_projectId bc) (bc_sessionId bc) (cd_seq d) = Inr path" "bc_sessionId bc \<noteq> ''''"
    and "payload job = Some (chunk_payload bc d)"
  shows "sendBackupJob sha256 (bc_projectId bc) job = Inr (WriteChunk path (cd_content d))"
proof -
  let ?s = "bc_sessionId bc"
  have d: "cd_content d = serialize_views ?s (cd_seq d) vs" "cd_checksum d = sha256 (cd_content d)" "cd_entryIds d = map v_id vs"
    using assms(1) by (cases d; simp add: draft_ok_def draft_of_def chunkChecksum_def Let_def)+
  let ?j = "chunk_json ?s (cd_seq d) (map view_json vs)"
  have j: "json_parse (cd_content d) = Some ?j" unfolding d(1) by (rule parse_views)
  have h: "chunk_header_ok ?s (cd_seq d) (cd_entryIds d) ?j"
    by (simp add: chunk_header_ok_def chunk_json_def d(3) comp_def)
  have ids: "str_list (map JStr (cd_entryIds d)) = Some (cd_entryIds d)"
    by (rule str_list_map) (use assms(2) d(3) in auto)
  have ne: "cd_content d \<noteq> ''''" unfolding d(1) serialize_views_def by (rule serializeChunk_nonempty)
  have "parseBackupPayload sha256 job = Inr (ChunkPayload ?s (cd_seq d) (cd_entryIds d) (cd_content d) (cd_checksum d))"
    using assms(3,5,6) j h ids ne d(2)
    by (cases "bc_branchId bc")
      (simp_all add: parseBackupPayload_def chunk_payload_def opt_str_def nonempty_str_def chunkChecksum_def)
  moreover have "serializeChunk ?s (cd_seq d) (chunk_entries_of ?j) = cd_content d"
    by (simp add: d(1) chunk_entries_of_def chunk_json_def serialize_views_def)
  ultimately show ?thesis using j assms(4) by (simp add: sendBackupJob_def)
qed

section \<open>Every entry once\<close>

lemma fresh_views_facts:
  "distinct (map v_id (fresh_views seen vs)) \<and> v_id ` set (fresh_views seen vs) \<inter> set seen = {}
   \<and> set (fresh_views seen vs) \<subseteq> set vs \<and> v_id ` set vs \<subseteq> v_id ` set (fresh_views seen vs) \<union> set seen"
proof (induction vs arbitrary: seen)
  case (Cons v vs)
  show ?case
  proof (cases "v_id v \<in> set seen")
    case True
    then show ?thesis using Cons.IH [of seen] by auto
  next
    case False
    then show ?thesis using Cons.IH [of "v_id v # seen"] by auto
  qed
qed simp

text \<open>The policy split puts each view in exactly one place: a chunk, an omission, or held back.\<close>

definition redacted_from :: "capture_env \<Rightarrow> BackupView list \<Rightarrow> BackupView \<Rightarrow> bool" where
  "redacted_from env vs c = (\<exists>v \<in> set vs. \<exists>t r. v_text v = Some t \<and> cap_redact env t = Inr r \<and> c = v\<lparr>v_text := Some r\<rparr>)"

definition policy_inv :: "capture_env \<Rightarrow> BackupView list \<Rightarrow> policy \<Rightarrow> bool" where
  "policy_inv env vs p =
     (subseq (pl_covered p) (map v_id vs) \<and> subseq (map v_id (pl_candidates p)) (pl_covered p)
      \<and> set (pl_covered p) \<subseteq> v_id ` set (pl_candidates p) \<union> mo_entryId ` set (pl_omissions p)
      \<and> mo_entryId ` set (pl_omissions p) \<subseteq> set (pl_covered p)
      \<and> (\<forall>c \<in> set (pl_candidates p). redacted_from env vs c)
      \<and> (\<forall>v \<in> set vs. v_id v \<in> set (pl_covered p) \<or> (\<exists>t e. v_text v = Some t \<and> cap_redact env t = Inl e)))"

lemma redacted_from_mono: "redacted_from env vs c \<Longrightarrow> redacted_from env (vs @ ws) c"
  by (auto simp: redacted_from_def)

lemma classify_inv:
  assumes "policy_inv env vs p"
  shows "policy_inv env (vs @ [v]) (classify env scp compiled p v)"
proof -
  note sub = list_emb_prefix [of "(=)" "pl_covered p" "map v_id vs" "[v_id v]"]
    list_emb_append_mono [of "(=)" "pl_covered p" "map v_id vs" "[v_id v]" "[v_id v]"]
    list_emb_prefix [of "(=)" "map v_id (pl_candidates p)" "pl_covered p" "[v_id v]"]
    list_emb_append_mono [of "(=)" "map v_id (pl_candidates p)" "pl_covered p" "[v_id v]" "[v_id v]"]
  consider (internal) "ExtensionInternal \<in> set (v_omissions v)"
    | (empty) "ExtensionInternal \<notin> set (v_omissions v)" "v_text v = None"
    | (excl) t where "ExtensionInternal \<notin> set (v_omissions v)" "v_text v = Some t" "capture_excluded scp compiled t"
    | (held) t e where "ExtensionInternal \<notin> set (v_omissions v)" "v_text v = Some t" "\<not> capture_excluded scp compiled t"
        "cap_redact env t = Inl e"
    | (kept) t r where "ExtensionInternal \<notin> set (v_omissions v)" "v_text v = Some t" "\<not> capture_excluded scp compiled t"
        "cap_redact env t = Inr r"
    by (metis option.exhaust sum.exhaust)
  then show ?thesis
  proof cases
    case kept
    have "redacted_from env (vs @ [v]) (v\<lparr>v_text := Some r\<rparr>)" using kept by (auto simp: redacted_from_def)
    then show ?thesis using assms kept sub
      by (auto simp: policy_inv_def classify_def Let_def omit_def redacted_from_mono)
  next
    case held
    then show ?thesis using assms sub
      by (auto simp: policy_inv_def classify_def Let_def redacted_from_mono)
  next
    case empty
    show ?thesis
    proof (cases "v_omissions v")
      case Nil
      then show ?thesis using assms empty sub
        by (auto simp: policy_inv_def classify_def Let_def omit_def redacted_from_mono)
    next
      case (Cons r rs)
      then show ?thesis using assms empty sub
        by (auto simp: policy_inv_def classify_def Let_def omit_def redacted_from_mono)
    qed
  qed (use assms sub in \<open>auto simp: policy_inv_def classify_def Let_def omit_def redacted_from_mono\<close>)
qed

lemma classify_all_inv: "policy_inv env vs (classify_all env scp compiled vs)"
proof -
  let ?e = "\<lparr>pl_candidates = [], pl_omissions = [], pl_covered = [], pl_lastError = None\<rparr>"
  have "policy_inv env (us @ vs) (foldl (classify env scp compiled) p vs)" if "policy_inv env us p" for us p
    using that
  proof (induction vs arbitrary: us p)
    case (Cons v vs)
    show ?case using Cons.IH [OF classify_inv [OF Cons.prems, of v]] by simp
  qed simp
  from this [of "[]" ?e] show ?thesis by (simp add: classify_all_def policy_inv_def)
qed

text \<open>How far the chunk jobs got: the first \<open>n\<close> drafts are recorded, in memory and in the outbox.\<close>

lemma enqueue_chunks_facts:
  assumes "enqueue_chunks env bc k ds s ob fs = (r, s1, ob1, fs1)"
  shows "\<exists>n js. n \<le> length ds \<and> (r = None \<longrightarrow> n = length ds)
    \<and> s1 = s\<lparr>bs_chunks := bs_chunks s1\<rparr>
    \<and> (\<exists>ps. bs_chunks s1 = bs_chunks s @ map2 chunk_record ps (take n ds)
        \<and> list_all2 (\<lambda>p d. backupChunkPath (bc_projectId bc) (bc_sessionId bc) (cd_seq d) = Inr p) ps (take n ds))
    \<and> jobs ob1 = jobs ob @ js \<and> n \<le> length js \<and> (r = None \<longrightarrow> length js = n)
    \<and> list_all2 (\<lambda>j d. payload j = Some (chunk_payload bc d) \<and> status j = Pending) (take n js) (take n ds)"
  using assms
proof (induction ds arbitrary: k s ob fs)
  case Nil
  then show ?case by (auto intro: exI [of _ "[]"])
next
  case (Cons d ds)
  obtain er ob2 fs2 where e: "cap_enqueue env k (chunk_input env bc d) ob fs = (er, ob2, fs2)" by (metis prod_cases3)
  show ?case
  proof (cases er)
    case (Inl x)
    have "jobs ob2 = jobs ob"
      using enqueue_cases(1) [OF e [unfolded cap_enqueue_def] Inl]
      by (metis (no_types, lifting) DurableOutbox.simps(1,5) DurableOutbox.surjective DurableOutbox.update_convs(4))
    then show ?thesis using Cons.prems e Inl by (intro exI [of _ 0] exI [of _ "[]"]) auto
  next
    case (Inr job)
    have jb: "job = new_job (cap_targetFor env) (cap_enqNow env k) (cap_uuid env k) (chunk_input env bc d) (nextSeq ob)"
      "jobs ob2 = jobs ob @ [job]"
      using enqueue_cases(2) [OF e [unfolded cap_enqueue_def] Inr]
      by (auto, metis (no_types, lifting) DurableOutbox.simps(1,5,6) DurableOutbox.surjective DurableOutbox.update_convs(1,2,4))
    have jp: "payload job = Some (chunk_payload bc d)" "status job = Pending"
      by (simp_all add: jb(1) new_job_def chunk_input_def)
    show ?thesis
    proof (cases "backupChunkPath (bc_projectId bc) (bc_sessionId bc) (cd_seq d)")
      case (Inl x)
      then show ?thesis using Cons.prems e Inr jb by (intro exI [of _ 0] exI [of _ "[job]"]) auto
    next
      case p: (Inr path)
      have "enqueue_chunks env bc (Suc k) ds (s\<lparr>bs_chunks := bs_chunks s @ [chunk_record path d]\<rparr>) ob2 fs2 = (r, s1, ob1, fs1)"
        using Cons.prems e Inr p by simp
      from Cons.IH [OF this] obtain n js ps where ih: "n \<le> length ds" "r = None \<longrightarrow> n = length ds"
        "s1 = (s\<lparr>bs_chunks := bs_chunks s @ [chunk_record path d]\<rparr>)\<lparr>bs_chunks := bs_chunks s1\<rparr>"
        "bs_chunks s1 = bs_chunks s @ [chunk_record path d] @ map2 chunk_record ps (take n ds)"
        "list_all2 (\<lambda>p d. backupChunkPath (bc_projectId bc) (bc_sessionId bc) (cd_seq d) = Inr p) ps (take n ds)"
        "jobs ob1 = jobs ob2 @ js" "n \<le> length js" "r = None \<longrightarrow> length js = n"
        "list_all2 (\<lambda>j d. payload j = Some (chunk_payload bc d) \<and> status j = Pending) (take n js) (take n ds)"
        by (elim exE conjE) (rule that, (assumption | simp)+)
      show ?thesis
      proof (intro exI [of _ "Suc n"] exI [of _ "job # js"] conjI)
        show "\<exists>ps. bs_chunks s1 = bs_chunks s @ map2 chunk_record ps (take (Suc n) (d # ds))
            \<and> list_all2 (\<lambda>p d. backupChunkPath (bc_projectId bc) (bc_sessionId bc) (cd_seq d) = Inr p) ps (take (Suc n) (d # ds))"
          using ih(4,5) p by (intro exI [of _ "path # ps"]) simp
        show "s1 = s\<lparr>bs_chunks := bs_chunks s1\<rparr>" using ih(3) by simp
      qed (use ih jb jp in auto)
    qed
  qed
qed

end
