(* ===== verification/BackupCoverage.thy ===== *)
theory BackupCoverage
  imports BackupCapture
begin

text \<open>
  What a capture promises (src/backup/capture.ts): the invariant of the coverage state, its
  preservation by every successful capture, and the jobs a capture leaves in the outbox.
\<close>

lemma subseq_facts: "subseq xs ys \<Longrightarrow> set xs \<subseteq> set ys \<and> (distinct ys \<longrightarrow> distinct xs)"
  by (induction rule: list_emb.induct) auto

section \<open>The coverage invariant\<close>

definition chunked_ids :: "ManifestChunk list \<Rightarrow> string list" where
  "chunked_ids cs = concat (map mc_entryIds cs)"

definition session_inv :: "string \<Rightarrow> string \<Rightarrow> SessionBackupState \<Rightarrow> bool" where
  "session_inv projectId sess s =
     (distinct (bs_covered s) \<and> '''' \<notin> set (bs_covered s)
      \<and> bs_nextSeq s = int (length (bs_chunks s))
      \<and> map mc_seq (bs_chunks s) = map int [0..<length (bs_chunks s)]
      \<and> subseq (chunked_ids (bs_chunks s)) (bs_covered s)
      \<and> set (bs_covered s) \<subseteq> set (chunked_ids (bs_chunks s)) \<union> mo_entryId ` set (bs_omissions s)
      \<and> mo_entryId ` set (bs_omissions s) \<subseteq> set (bs_covered s)
      \<and> (\<forall>c \<in> set (bs_chunks s). backupChunkPath projectId sess (mc_seq c) = Inr (mc_path c)))"

lemma session_inv_empty: "session_inv projectId sess emptySessionState"
  by (simp add: session_inv_def emptySessionState_def chunked_ids_def)

lemma sessionState_put [simp]: "sessionState (put_session bc s) = s"
  by (simp add: sessionState_def put_session_def default_to_def update_conv')

lemma put_session_keeps [simp]:
  "bc_projectId (put_session bc s) = bc_projectId bc" "bc_sessionId (put_session bc s) = bc_sessionId bc"
  "bc_scope (put_session bc s) = bc_scope bc" "bc_branchId (put_session bc s) = bc_branchId bc"
  by (simp_all add: put_session_def)

lemma payload_put_session [simp]:
  "chunk_payload (put_session bc s) d = chunk_payload bc d" "manifest_payload (put_session bc s) m = manifest_payload bc m"
  by (simp_all add: chunk_payload_def manifest_payload_def)

lemma sessionState_lastError [simp]: "sessionState (bc\<lparr>bc_lastError := e\<rparr>) = sessionState bc"
  by (simp add: sessionState_def)

lemma view_ids_nonempty: "v \<in> set (toBackupViews items) \<Longrightarrow> v_id v \<noteq> ''''"
  using backup_view_keeps by (fastforce simp: toBackupViews_def List.map_filter_def)

section \<open>The chunk records of one capture\<close>

lemma map2_chunk_record:
  assumes "list_all2 P ps ds"
  shows "map mc_seq (map2 chunk_record ps ds) = map cd_seq ds"
    "chunked_ids (map2 chunk_record ps ds) = concat (map cd_entryIds ds)"
    "map mc_path (map2 chunk_record ps ds) = ps"
  using assms by (induction rule: list_all2_induct) (auto simp: chunk_record_def chunked_ids_def)

lemma map2_chunk_record_paths:
  assumes "list_all2 (\<lambda>p d. backupChunkPath pid sess (cd_seq d) = Inr p) ps ds"
  shows "\<forall>c \<in> set (map2 chunk_record ps ds). backupChunkPath pid sess (mc_seq c) = Inr (mc_path c)"
  using assms by (induction rule: list_all2_induct) (auto simp: chunk_record_def)

text \<open>What a successful capture of fresh views did, step by step.\<close>

definition captured ::
  "capture_env \<Rightarrow> BackupView list \<Rightarrow> SessionBackupState \<Rightarrow> capture_world \<Rightarrow> BackupCaptureResult \<Rightarrow> capture_world
   \<Rightarrow> policy \<Rightarrow> BackupView list list \<Rightarrow> ChunkDraft list \<Rightarrow> string list \<Rightarrow> OutboxJob list \<Rightarrow> bool" where
  "captured env fresh s w res w' p gs ds ps js =
     (let bc = cw_bc w; s' = sessionState (cw_bc w') in
      policy_inv env fresh p
      \<and> list_all2 (draft_ok (cap_sha256 env) (bc_sessionId bc) (default_to DEFAULT_MAX_CHUNK_BYTES (cap_maxBytes env))) ds gs
      \<and> concat gs = pl_candidates p
      \<and> map cd_seq ds = map (\<lambda>i. bs_nextSeq s + int i) [0..<length ds]
      \<and> list_all2 (\<lambda>q d. backupChunkPath (bc_projectId bc) (bc_sessionId bc) (cd_seq d) = Inr q) ps ds
      \<and> bs_chunks s' = bs_chunks s @ map2 chunk_record ps ds
      \<and> bs_covered s' = bs_covered s @ pl_covered p \<and> bs_omissions s' = bs_omissions s @ pl_omissions p
      \<and> bs_nextSeq s' = bs_nextSeq s + int (length ds)
      \<and> bc_projectId (cw_bc w') = bc_projectId bc \<and> bc_sessionId (cw_bc w') = bc_sessionId bc
      \<and> bc_scope (cw_bc w') = bc_scope bc
      \<and> bcr_chunks res = length ds \<and> bcr_manifest res = (ds \<noteq> []) \<and> bcr_skipped res = None
      \<and> bcr_held res = length fresh - length (pl_covered p)
      \<and> length js = length ds
      \<and> list_all2 (\<lambda>j d. payload j = Some (chunk_payload bc d) \<and> status j = Pending) js ds
      \<and> (\<exists>m. jobs (cw_outbox w') = jobs (cw_outbox w) @ js @ m
           \<and> (if ds = [] then m = []
              else \<exists>j bm. m = [j] \<and> status j = Pending \<and> payload j = Some (manifest_payload bc bm)
                \<and> buildBackupManifest (cap_iso env) (bc_sessionId bc) (bc_projectId bc) (bc_scope bc) (bs_chunks s')
                    (bs_counts s') (bs_omissions s') (bs_covered s') (cap_now env) = Inr bm))
      \<and> cw_file w' = Some (BfState (bc_sessions (cw_bc w'))))"

lemma finish_capture_facts:
  assumes "finish_capture env bc p n m ob fs bf = (Inr res, w')"
  shows "cw_bc w' = bc\<lparr>bc_lastError := pl_lastError p\<rparr>" "cw_outbox w' = ob"
    "cw_file w' = Some (BfState (bc_sessions bc))"
    "res = \<lparr>bcr_chunks = n, bcr_manifest = (n > 0), bcr_held = m - length (pl_covered p), bcr_skipped = None,
       bcr_lastError = pl_lastError p\<rparr>"
proof -
  obtain ok bf1 where a: "atomic_write (cap_ioState env) (BfState (bc_sessions bc)) bf = (ok, bf1)" by fastforce
  show "cw_bc w' = bc\<lparr>bc_lastError := pl_lastError p\<rparr>" "cw_outbox w' = ob" "cw_file w' = Some (BfState (bc_sessions bc))"
    "res = \<lparr>bcr_chunks = n, bcr_manifest = (n > 0), bcr_held = m - length (pl_covered p), bcr_skipped = None,
       bcr_lastError = pl_lastError p\<rparr>"
    using assms a atomic_write_cases(2) [OF a] by (cases ok; auto simp: finish_capture_def)+
qed

lemma enqueue_manifest_facts:
  assumes "enqueue_manifest env bc k s ob fs = (None, ob1, fs1)"
  shows "\<exists>j bm. jobs ob1 = jobs ob @ [j] \<and> status j = Pending \<and> payload j = Some (manifest_payload bc bm)
    \<and> buildBackupManifest (cap_iso env) (bc_sessionId bc) (bc_projectId bc) (bc_scope bc) (bs_chunks s) (bs_counts s)
        (bs_omissions s) (bs_covered s) (cap_now env) = Inr bm"
proof -
  obtain bm where bm: "buildBackupManifest (cap_iso env) (bc_sessionId bc) (bc_projectId bc) (bc_scope bc) (bs_chunks s)
      (bs_counts s) (bs_omissions s) (bs_covered s) (cap_now env) = Inr bm"
    using assms by (auto simp: enqueue_manifest_def split: sum.splits)
  obtain er ob2 fs2 where e: "cap_enqueue env k (manifest_input env bc (bs_covered s) bm) ob fs = (er, ob2, fs2)"
    by (metis prod_cases3)
  from assms bm e obtain j where j: "er = Inr j" "ob2 = ob1" by (cases er) (auto simp: enqueue_manifest_def)
  note c = enqueue_cases(2) [OF e [unfolded cap_enqueue_def] j(1)]
  have "jobs ob1 = jobs ob @ [j]" using c j(2)
    by (metis (no_types, lifting) DurableOutbox.simps(1,5,6) DurableOutbox.surjective DurableOutbox.update_convs(1,2,4))
  moreover have "payload j = Some (manifest_payload bc bm)" "status j = Pending"
    using c by (auto simp: new_job_def manifest_input_def)
  ultimately show ?thesis using bm by blast
qed

lemma capture_fresh_facts:
  assumes "capture_fresh env compiled fresh w = (Inr res, w')"
  shows "\<exists>p gs ds ps js. captured env fresh (sessionState (cw_bc w)) w res w' p gs ds ps js"
proof -
  let ?bc = "cw_bc w" and ?s = "sessionState (cw_bc w)"
  let ?p = "classify_all env (bc_scope ?bc) compiled fresh"
  let ?counts = "count_redactions (bs_counts ?s) (pl_candidates ?p)"
  obtain ds where ds: "chunkEntries (cap_sha256 env) (bc_sessionId ?bc) (bs_nextSeq ?s) (cap_maxBytes env) (pl_candidates ?p) = Inr ds"
    using assms by (auto simp: capture_fresh_def Let_def split: sum.splits)
  obtain gs where gs: "list_all2 (draft_ok (cap_sha256 env) (bc_sessionId ?bc) (default_to DEFAULT_MAX_CHUNK_BYTES (cap_maxBytes env))) ds gs"
    "concat gs = pl_candidates ?p" "map cd_seq ds = map (\<lambda>i. bs_nextSeq ?s + int i) [0..<length ds]"
    using chunkEntries_facts [OF ds] by blast
  obtain r s1 ob1 fs1 where e: "enqueue_chunks env ?bc 0 ds ?s (cw_outbox w) (cw_fs w) = (r, s1, ob1, fs1)" by (metis prod_cases4)
  have r: "r = None" using assms ds e by (auto simp: capture_fresh_def Let_def split: option.splits)
  from enqueue_chunks_facts [OF e] obtain js ps where c:
    "s1 = ?s\<lparr>bs_chunks := bs_chunks s1\<rparr>" "bs_chunks s1 = bs_chunks ?s @ map2 chunk_record ps ds"
    "list_all2 (\<lambda>q d. backupChunkPath (bc_projectId ?bc) (bc_sessionId ?bc) (cd_seq d) = Inr q) ps ds"
    "jobs ob1 = jobs (cw_outbox w) @ js" "length js = length ds"
    "list_all2 (\<lambda>j d. payload j = Some (chunk_payload ?bc d) \<and> status j = Pending) js ds"
    by (elim exE conjE) (rule that; simp add: r)
  let ?s2 = "advance ?p (length ds) ?counts s1"
  have s2: "bs_chunks ?s2 = bs_chunks ?s @ map2 chunk_record ps ds" "bs_covered ?s2 = bs_covered ?s @ pl_covered ?p"
    "bs_omissions ?s2 = bs_omissions ?s @ pl_omissions ?p" "bs_nextSeq ?s2 = bs_nextSeq ?s + int (length ds)"
  proof -
    obtain cs where cs: "s1 = ?s\<lparr>bs_chunks := cs\<rparr>" using c(1) by blast
    then show "bs_chunks ?s2 = bs_chunks ?s @ map2 chunk_record ps ds" "bs_covered ?s2 = bs_covered ?s @ pl_covered ?p"
      "bs_omissions ?s2 = bs_omissions ?s @ pl_omissions ?p" "bs_nextSeq ?s2 = bs_nextSeq ?s + int (length ds)"
      using c(2) by (simp_all add: advance_def)
  qed
  have pol: "policy_inv env fresh ?p" by (rule classify_all_inv)
  obtain ob2 fs2 m where f: "finish_capture env (put_session ?bc ?s2) ?p (length ds) (length fresh) ob2 fs2 (cw_file w) = (Inr res, w')"
    and m: "jobs ob2 = jobs ob1 @ m"
    "if ds = [] then m = [] else \<exists>j bm. m = [j] \<and> status j = Pending \<and> payload j = Some (manifest_payload ?bc bm)
      \<and> buildBackupManifest (cap_iso env) (bc_sessionId ?bc) (bc_projectId ?bc) (bc_scope ?bc) (bs_chunks ?s2)
          (bs_counts ?s2) (bs_omissions ?s2) (bs_covered ?s2) (cap_now env) = Inr bm"
  proof (cases "ds = []")
    case True
    then have "finish_capture env (put_session ?bc ?s2) ?p (length ds) (length fresh) ob1 fs1 (cw_file w) = (Inr res, w')"
      using assms ds e r by (simp add: capture_fresh_def Let_def)
    then show ?thesis using that [of ob1 fs1 "[]"] True by simp
  next
    case False
    obtain er ob2 fs2 where em: "enqueue_manifest env ?bc (length ds) ?s2 ob1 fs1 = (er, ob2, fs2)" by (metis prod_cases3)
    then have en: "er = None" and fin: "finish_capture env (put_session ?bc ?s2) ?p (length ds) (length fresh) ob2 fs2 (cw_file w) = (Inr res, w')"
      using assms ds e r False by (auto simp: capture_fresh_def Let_def split: option.splits)
    from enqueue_manifest_facts [OF em [unfolded en]] show ?thesis
      by (elim exE conjE) (rule that [OF fin], assumption, simp add: False)
  qed
  note fin = finish_capture_facts [OF f]
  have s': "sessionState (cw_bc w') = ?s2" by (simp add: fin(1))
  have "captured env fresh ?s w res w' ?p gs ds ps js"
    unfolding captured_def Let_def s'
    using pol gs c(3,5,6) s2 fin m c(4) by simp
  then show ?thesis by blast
qed

section \<open>Every entry once, nothing lost\<close>

lemma captured_keeps_inv:
  assumes "captured env fresh s w res w' p gs ds ps js"
    and "session_inv (bc_projectId (cw_bc w)) (bc_sessionId (cw_bc w)) s"
    and "distinct (map v_id fresh)" "v_id ` set fresh \<inter> set (bs_covered s) = {}" "'''' \<notin> v_id ` set fresh"
  shows "session_inv (bc_projectId (cw_bc w)) (bc_sessionId (cw_bc w)) (sessionState (cw_bc w'))"
proof -
  let ?s' = "sessionState (cw_bc w')" and ?cs = "map2 chunk_record ps ds"
  have pol: "policy_inv env fresh p"
    and gs: "list_all2 (draft_ok (cap_sha256 env) (bc_sessionId (cw_bc w)) (default_to DEFAULT_MAX_CHUNK_BYTES (cap_maxBytes env))) ds gs"
      "concat gs = pl_candidates p" "map cd_seq ds = map (\<lambda>i. bs_nextSeq s + int i) [0..<length ds]"
    and ps: "list_all2 (\<lambda>q d. backupChunkPath (bc_projectId (cw_bc w)) (bc_sessionId (cw_bc w)) (cd_seq d) = Inr q) ps ds"
    and s': "bs_chunks ?s' = bs_chunks s @ ?cs" "bs_covered ?s' = bs_covered s @ pl_covered p"
      "bs_omissions ?s' = bs_omissions s @ pl_omissions p" "bs_nextSeq ?s' = bs_nextSeq s + int (length ds)"
    using assms(1) by (simp_all add: captured_def Let_def)
  have p: "subseq (pl_covered p) (map v_id fresh)" "subseq (map v_id (pl_candidates p)) (pl_covered p)"
    "set (pl_covered p) \<subseteq> v_id ` set (pl_candidates p) \<union> mo_entryId ` set (pl_omissions p)"
    "mo_entryId ` set (pl_omissions p) \<subseteq> set (pl_covered p)"
    using pol by (simp_all add: policy_inv_def)
  have i: "distinct (bs_covered s)" "'''' \<notin> set (bs_covered s)" "bs_nextSeq s = int (length (bs_chunks s))"
    "map mc_seq (bs_chunks s) = map int [0..<length (bs_chunks s)]" "subseq (chunked_ids (bs_chunks s)) (bs_covered s)"
    "set (bs_covered s) \<subseteq> set (chunked_ids (bs_chunks s)) \<union> mo_entryId ` set (bs_omissions s)"
    "mo_entryId ` set (bs_omissions s) \<subseteq> set (bs_covered s)"
    "\<forall>c \<in> set (bs_chunks s). backupChunkPath (bc_projectId (cw_bc w)) (bc_sessionId (cw_bc w)) (mc_seq c) = Inr (mc_path c)"
    using assms(2) by (simp_all add: session_inv_def)
  have "map cd_entryIds ds = map (map v_id) gs"
    using gs(1) by (induction ds gs rule: list_all2_induct) (simp_all add: draft_ok_ids)
  then have ids: "chunked_ids ?cs = map v_id (pl_candidates p)"
    by (simp add: map2_chunk_record(2) [OF ps] gs(2) [symmetric] map_concat)
  have len: "length ?cs = length ds" using ps by (simp add: list_all2_lengthD)
  have pset: "set (pl_covered p) \<subseteq> v_id ` set fresh" using subseq_facts [OF p(1)] by simp
  have all: "chunked_ids (bs_chunks s @ ?cs) = chunked_ids (bs_chunks s) @ map v_id (pl_candidates p)"
    using ids by (simp add: chunked_ids_def)
  show ?thesis
    unfolding session_inv_def s'
  proof (intro conjI)
    show "distinct (bs_covered s @ pl_covered p)"
      using i(1) subseq_facts [OF p(1)] assms(3) pset assms(4) by auto
    show "'''' \<notin> set (bs_covered s @ pl_covered p)" using i(2) pset assms(5) by auto
    show "bs_nextSeq s + int (length ds) = int (length (bs_chunks s @ ?cs))" using i(3) len by simp
    have "map mc_seq ?cs = map (\<lambda>k. int (length (bs_chunks s)) + int k) [0..<length ds]"
      using map2_chunk_record(1) [OF ps] gs(3) i(3) by simp
    also have "\<dots> = map int [length (bs_chunks s)..<length (bs_chunks s) + length ds]"
      by (rule nth_equalityI) simp_all
    finally show "map mc_seq (bs_chunks s @ ?cs) = map int [0..<length (bs_chunks s @ ?cs)]"
      using i(4) len by (simp add: upt_add_eq_append [of 0])
    show "subseq (chunked_ids (bs_chunks s @ ?cs)) (bs_covered s @ pl_covered p)"
      unfolding all by (rule list_emb_append_mono [OF i(5) p(2)])
    show "set (bs_covered s @ pl_covered p)
        \<subseteq> set (chunked_ids (bs_chunks s @ ?cs)) \<union> mo_entryId ` set (bs_omissions s @ pl_omissions p)"
      unfolding all using i(6) p(3) by auto
    show "mo_entryId ` set (bs_omissions s @ pl_omissions p) \<subseteq> set (bs_covered s @ pl_covered p)"
      using i(7) p(4) by auto
    show "\<forall>c \<in> set (bs_chunks s @ ?cs). backupChunkPath (bc_projectId (cw_bc w)) (bc_sessionId (cw_bc w)) (mc_seq c) = Inr (mc_path c)"
      using i(8) map2_chunk_record_paths [OF ps] by auto
  qed
qed

text \<open>The three ways a capture returns a result: held back, nothing fresh, or the fresh views captured.\<close>

lemma capture_cases:
  assumes "capture env items w = (Inr res, w')"
  obtains (held) "cap_private env \<or> \<not> is_ok (cap_compiled env)" "w' = w" "bcr_skipped res \<noteq> None" "bcr_chunks res = 0"
    | (idle) "fresh_views (bs_covered (sessionState (cw_bc w))) (toBackupViews items) = []"
        "w' = w\<lparr>cw_bc := put_session (cw_bc w) (sessionState (cw_bc w))\<rparr>" "bcr_skipped res \<noteq> None" "bcr_chunks res = 0"
    | (fresh) p gs ds ps js where
        "captured env (fresh_views (bs_covered (sessionState (cw_bc w))) (toBackupViews items)) (sessionState (cw_bc w))
           w res w' p gs ds ps js"
proof -
  let ?s = "sessionState (cw_bc w)" and ?w0 = "w\<lparr>cw_bc := put_session (cw_bc w) (sessionState (cw_bc w))\<rparr>"
  let ?fresh = "fresh_views (bs_covered ?s) (toBackupViews items)"
  consider "cap_private env \<or> \<not> is_ok (cap_compiled env)" | compiled where "\<not> cap_private env" "cap_compiled env = Inr compiled"
    by (cases "cap_compiled env") (auto simp: is_ok_def)
  then show thesis
  proof cases
    case 1
    then show ?thesis
      using assms held by (cases "cap_compiled env") (auto simp: capture_def skipped_capture_def is_ok_def split: if_splits)
  next
    case (2 compiled)
    show ?thesis
    proof (cases "?fresh = []")
      case True
      have "res = skipped_capture CapNoCandidates None" "w' = ?w0" using assms 2 True by (simp_all add: capture_def Let_def)
      then show ?thesis using idle True by (simp add: skipped_capture_def)
    next
      case False
      then have "capture_fresh env compiled ?fresh ?w0 = (Inr res, w')" using assms 2 by (simp add: capture_def Let_def)
      from capture_fresh_facts [OF this] obtain p gs ds ps js where
        "captured env ?fresh (sessionState (cw_bc ?w0)) ?w0 res w' p gs ds ps js" by blast
      moreover have "captured env ?fresh ?s ?w0 res w' p gs ds ps js = captured env ?fresh ?s w res w' p gs ds ps js"
        by (simp add: captured_def Let_def)
      ultimately show ?thesis using fresh by simp
    qed
  qed
qed

text \<open>
  C16. Every entry once, nothing lost: a capture that returns a result keeps the coverage state
  consistent (no entry is covered twice; the chunk sequence numbers run from zero without a
  gap and each chunk has its own immutable path; the chunked entries are covered entries in
  capture order; every covered entry is in a chunk or recorded as an omission), only appends to
  what was covered and chunked before, and, unless it was held back by private mode or invalid
  exclusion rules, covers every delivered entry except those whose redaction failed.
\<close>
theorem capture_keeps_coverage:
  assumes "session_inv (bc_projectId (cw_bc w)) (bc_sessionId (cw_bc w)) (sessionState (cw_bc w))"
    and "capture env items w = (Inr res, w')"
  shows "session_inv (bc_projectId (cw_bc w)) (bc_sessionId (cw_bc w)) (sessionState (cw_bc w'))
    \<and> prefix (bs_covered (sessionState (cw_bc w))) (bs_covered (sessionState (cw_bc w')))
    \<and> prefix (bs_chunks (sessionState (cw_bc w))) (bs_chunks (sessionState (cw_bc w')))
    \<and> (cap_private env \<or> \<not> is_ok (cap_compiled env)
       \<or> (\<forall>v \<in> set (toBackupViews items). v_id v \<in> set (bs_covered (sessionState (cw_bc w')))
            \<or> (\<exists>u \<in> set (toBackupViews items). v_id u = v_id v \<and> (\<exists>t e. v_text u = Some t \<and> cap_redact env t = Inl e))))"
  using assms(2)
proof (cases rule: capture_cases)
  case held
  then show ?thesis using assms(1) by auto
next
  case idle
  have "v_id ` set (toBackupViews items) \<subseteq> set (bs_covered (sessionState (cw_bc w)))"
    using fresh_views_facts [of "bs_covered (sessionState (cw_bc w))" "toBackupViews items"] idle(1) by simp
  then show ?thesis using assms(1) idle(2) by auto
next
  case (fresh p gs ds ps js)
  let ?s = "sessionState (cw_bc w)" and ?fresh = "fresh_views (bs_covered (sessionState (cw_bc w))) (toBackupViews items)"
  note f = fresh_views_facts [of "bs_covered ?s" "toBackupViews items"]
  have inv: "session_inv (bc_projectId (cw_bc w)) (bc_sessionId (cw_bc w)) (sessionState (cw_bc w'))"
  proof (rule captured_keeps_inv [OF fresh assms(1)])
    show "'''' \<notin> v_id ` set ?fresh" using f view_ids_nonempty by (metis (no_types, lifting) imageE subsetD)
  qed (use f in auto)
  have c: "bs_chunks (sessionState (cw_bc w')) = bs_chunks ?s @ map2 chunk_record ps ds"
    "bs_covered (sessionState (cw_bc w')) = bs_covered ?s @ pl_covered p" "policy_inv env ?fresh p"
    using fresh by (simp_all add: captured_def Let_def)
  have "\<forall>v \<in> set (toBackupViews items). v_id v \<in> set (bs_covered (sessionState (cw_bc w')))
      \<or> (\<exists>u \<in> set (toBackupViews items). v_id u = v_id v \<and> (\<exists>t e. v_text u = Some t \<and> cap_redact env t = Inl e))"
  proof
  fix v
  assume v: "v \<in> set (toBackupViews items)"
  show "v_id v \<in> set (bs_covered (sessionState (cw_bc w')))
      \<or> (\<exists>u \<in> set (toBackupViews items). v_id u = v_id v \<and> (\<exists>t e. v_text u = Some t \<and> cap_redact env t = Inl e))"
  proof (cases "v_id v \<in> set (bs_covered ?s)")
    case False
    have "v_id v \<in> v_id ` set ?fresh \<union> set (bs_covered ?s)" using f v by (metis imageI subsetD)
    with False have "v_id v \<in> v_id ` set ?fresh" by simp
    then obtain u where u: "u \<in> set ?fresh" "v_id u = v_id v" by (metis imageE)
    then have "u \<in> set (toBackupViews items)" using f by blast
    moreover have "v_id u \<in> set (pl_covered p) \<or> (\<exists>t e. v_text u = Some t \<and> cap_redact env t = Inl e)"
      using c(3) u(1) by (simp add: policy_inv_def)
    ultimately show ?thesis using c(2) u(2) by auto
  qed (simp add: c(2))
  qed
  note cov = this
  have "prefix (bs_covered ?s) (bs_covered (sessionState (cw_bc w')))" "prefix (bs_chunks ?s) (bs_chunks (sessionState (cw_bc w')))"
    using c(1,2) by simp_all
  then show ?thesis by (intro conjI disjI2 inv cov)
qed

section \<open>The jobs of a capture\<close>

lemma backupManifestPath_of_chunk:
  assumes "backupChunkPath pid sess sq = Inr p"
  shows "\<exists>q. backupManifestPath pid sess = Inr q" and "sess \<noteq> ''''" and "0 \<le> sq"
proof -
  note f = backupChunkPath_Inr [OF assms]
  show "\<exists>q. backupManifestPath pid sess = Inr q"
    using assms by (auto simp: backupChunkPath_def backupManifestPath_def split: sum.splits)
  show "sess \<noteq> ''''" using f(2) by (auto simp: ID_GRAMMAR_def)
  show "0 \<le> sq" by (rule f(3))
qed

lemma manifest_job_sent:
  assumes "payload j = Some (manifest_payload bc m)" "backupManifestPath pid (bc_sessionId bc) = Inr q" "bc_sessionId bc \<noteq> ''''"
  shows "sendBackupJob sha256 pid j = Inr (WriteManifest q (serializeBackupManifest m))"
proof -
  have "serializeBackupManifest m \<noteq> ''''" by (simp add: serializeBackupManifest_def)
  then have "parseBackupPayload sha256 j = Inr (ManifestPayload (bc_sessionId bc) (serializeBackupManifest m))"
    using assms by (simp add: parseBackupPayload_def manifest_payload_def nonempty_str_def)
  then show ?thesis using assms(2) by (simp add: sendBackupJob_def)
qed

text \<open>A pending job whose delivery writes exactly the recorded chunk, made of redacted entries only.\<close>

definition delivers_chunk ::
  "capture_env \<Rightarrow> string \<Rightarrow> string \<Rightarrow> BackupView list \<Rightarrow> OutboxJob \<Rightarrow> ManifestChunk \<Rightarrow> bool" where
  "delivers_chunk env projectId sess views j c =
     (status j = Pending
      \<and> (\<exists>vs. sendBackupJob (cap_sha256 env) projectId j = Inr (WriteChunk (mc_path c) (serialize_views sess (mc_seq c) vs))
          \<and> mc_checksum c = cap_sha256 env (serialize_views sess (mc_seq c) vs)
          \<and> mc_byteLength c = int (byteLength (serialize_views sess (mc_seq c) vs))
          \<and> mc_entryIds c = map v_id vs \<and> vs \<noteq> [] \<and> (\<forall>v \<in> set vs. redacted_from env views v)))"

lemma captured_chunk_jobs:
  assumes "list_all2 (draft_ok (cap_sha256 env) (bc_sessionId bc) mb) ds gs"
    and "list_all2 (\<lambda>q d. backupChunkPath (bc_projectId bc) (bc_sessionId bc) (cd_seq d) = Inr q) ps ds"
    and "list_all2 (\<lambda>j d. payload j = Some (chunk_payload bc d) \<and> status j = Pending) js ds"
    and "\<forall>v \<in> set (concat gs). redacted_from env views v \<and> v_id v \<noteq> ''''"
  shows "list_all2 (delivers_chunk env (bc_projectId bc) (bc_sessionId bc) views) js (map2 chunk_record ps ds)"
  using assms
proof (induction ds gs arbitrary: ps js rule: list_all2_induct)
  case Nil
  then show ?case by simp
next
  case (Cons d ds g gs)
  obtain q qs where q: "ps = q # qs" "backupChunkPath (bc_projectId bc) (bc_sessionId bc) (cd_seq d) = Inr q"
    "list_all2 (\<lambda>q d. backupChunkPath (bc_projectId bc) (bc_sessionId bc) (cd_seq d) = Inr q) qs ds"
    using Cons.prems(1) by (auto simp: list_all2_Cons2)
  obtain j jr where j: "js = j # jr" "payload j = Some (chunk_payload bc d)" "status j = Pending"
    "list_all2 (\<lambda>j d. payload j = Some (chunk_payload bc d) \<and> status j = Pending) jr ds"
    using Cons.prems(2) by (auto simp: list_all2_Cons2)
  have g: "\<forall>v \<in> set g. redacted_from env views v" "\<forall>v \<in> set g. v_id v \<noteq> ''''" using Cons.prems(3) by auto
  have d: "g \<noteq> []" "d = draft_of (cap_sha256 env) (bc_sessionId bc) (cd_seq d) (cd_oversized d) g"
    using Cons.hyps(1) by (simp_all add: draft_ok_def)
  have "sendBackupJob (cap_sha256 env) (bc_projectId bc) j = Inr (WriteChunk q (cd_content d))"
    by (rule chunk_job_sent [OF Cons.hyps(1) g(2) backupManifestPath_of_chunk(3) [OF q(2)] q(2)
          backupManifestPath_of_chunk(2) [OF q(2)] j(2)])
  moreover have "cd_content d = serialize_views (bc_sessionId bc) (cd_seq d) g" "cd_checksum d = cap_sha256 env (cd_content d)"
    "cd_byteLength d = byteLength (cd_content d)" "cd_entryIds d = map v_id g"
    using d(2) by (metis (no_types, lifting) ChunkDraft.select_convs draft_of_def chunkChecksum_def)+
  ultimately have "delivers_chunk env (bc_projectId bc) (bc_sessionId bc) views j (chunk_record q d)"
    unfolding delivers_chunk_def chunk_record_def using j(3) d(1) g(1) by auto
  moreover have "list_all2 (delivers_chunk env (bc_projectId bc) (bc_sessionId bc) views) jr (map2 chunk_record qs ds)"
    by (rule Cons.IH [OF q(3) j(4)]) (use Cons.prems(3) in auto)
  ultimately show ?case by (simp add: q(1) j(1))
qed


text \<open>
  A capture that fails between two chunk jobs leaves the records of the accepted ones in memory
  although the cursor did not move: the state is no longer consistent, and the retry records the
  same sequence numbers again.
\<close>

lemma failed_enqueue_breaks_coverage:
  assumes "enqueue_chunks env bc k ds s ob fs = (Some e, s1, ob1, fs1)" "session_inv pid sess s" "bs_chunks s1 \<noteq> bs_chunks s"
  shows "bs_covered s1 = bs_covered s \<and> bs_nextSeq s1 = bs_nextSeq s \<and> \<not> session_inv pid sess s1"
proof -
  from enqueue_chunks_facts [OF assms(1)] obtain n ps where c: "s1 = s\<lparr>bs_chunks := bs_chunks s1\<rparr>"
    "bs_chunks s1 = bs_chunks s @ map2 chunk_record ps (take n ds)" by (elim exE conjE) (rule that)
  have "length (bs_chunks s1) \<noteq> length (bs_chunks s)" using c(2) assms(3) by auto
  moreover have "bs_covered s1 = bs_covered s" "bs_nextSeq s1 = bs_nextSeq s"
    using arg_cong [OF c(1), of bs_covered] arg_cong [OF c(1), of bs_nextSeq] by simp_all
  ultimately show ?thesis using assms(2) by (simp add: session_inv_def)
qed

section \<open>A concrete capture\<close>

definition demo_env :: capture_env where
  "demo_env = \<lparr>cap_sha256 = (\<lambda>s. ''0123456789abcdef''), cap_iso = (\<lambda>t. ''T''), cap_private = False, cap_compiled = Inr [],
     cap_redact = (\<lambda>s. if s = ''bad'' then Inl ''e'' else Inr ''x''), cap_maxBytes = None, cap_now = 5, cap_secret = (\<lambda>s. False),
     cap_targetFor = (\<lambda>s. None), cap_enqNow = (\<lambda>k. 5), cap_uuid = (\<lambda>k. ''u''), cap_io = (\<lambda>k. IoOk), cap_ioState = IoOk\<rparr>"

definition demo_entry :: "string \<Rightarrow> string \<Rightarrow> json" where
  "demo_entry i t = JObj [(''id'', JStr i), (''parentId'', JNull), (''type'', JStr ''message''), (''timestamp'', JStr ''t''),
     (''message'', JObj [(''content'', JStr t)])]"

definition demo_capture :: BackupCapture where
  "demo_capture = \<lparr>bc_scope = ''project/h/r'', bc_projectId = ''h/r'', bc_sessionId = ''s1'', bc_branchId = None,
     bc_sessions = [], bc_lastError = None\<rparr>"

definition demo_world :: capture_world where
  "demo_world = \<lparr>cw_bc = demo_capture, cw_outbox = new_store DEFAULT_LIMITS, cw_fs = \<lparr>journal = None, fmode = 0, lockMtime = None\<rparr>, cw_file = None\<rparr>"

definition demo_items :: "json list" where
  "demo_items = [demo_entry ''a'' ''hello'', demo_entry ''b'' ''bad'', demo_entry ''c'' '' '']"

definition demo_result :: "(capture_error + BackupCaptureResult) \<times> capture_world" where
  "demo_result = capture demo_env demo_items demo_world"

definition demo_views :: "BackupView list" where
  "demo_views = map (\<lambda>(i, t). \<lparr>v_id = i, v_parentId = None, v_type = ''message'', v_timestamp = ''t'', v_role = None,
     v_text = t, v_omissions = []\<rparr>) [(''a'', Some ''hello''), (''b'', Some ''bad''), (''c'', None)]"

definition demo_policy :: policy where
  "demo_policy = \<lparr>pl_candidates = [(hd demo_views)\<lparr>v_text := Some ''x''\<rparr>], pl_omissions = [omit ''c'' ''contentless-entry''],
     pl_covered = [''a'', ''c''], pl_lastError = Some ''redaction-held (e)''\<rparr>"

definition demo_draft :: ChunkDraft where
  "demo_draft = draft_of (\<lambda>s. ''0123456789abcdef'') ''s1'' 0 False (pl_candidates demo_policy)"

definition demo_job :: OutboxJob where
  "demo_job = new_job (\<lambda>s. None) 5 ''u'' (chunk_input demo_env demo_capture demo_draft) 1"

lemma demo_steps:
  "fresh_views [] (toBackupViews demo_items) = demo_views"
  "classify_all demo_env ''project/h/r'' [] demo_views = demo_policy"
  "chunkEntries (\<lambda>s. ''0123456789abcdef'') ''s1'' 0 None (pl_candidates demo_policy) = Inr [demo_draft]"
  "key_ok (in_key (chunk_input demo_env demo_capture demo_draft))"
  "length (job_line demo_job) < 2000"
  "backupChunkPath ''h/r'' ''s1'' 0 = Inr ''backup/h/r/s1/000000.md''"
  by code_simp+

lemma enqueue_accepts:
  assumes "\<not> closed st" "readOnlyVersion st = None" "\<not> capturePaused st" "key_ok (in_key inp)" "\<not> persistFault st"
  shows "\<exists>fs'. enqueue (\<lambda>_. False) tf now uuid inp IoOk st fs
    = (Inr (new_job tf now uuid inp (nextSeq st)), st\<lparr>nextSeq := nextSeq st + 1, jobs := jobs st @ [new_job tf now uuid inp (nextSeq st)]\<rparr>, fs')"
  using assms by (simp add: enqueue_def Let_def persist_def)

definition demo_done :: SessionBackupState where
  "demo_done = \<lparr>bs_covered = [''a'', ''c''], bs_nextSeq = 1,
     bs_chunks = [chunk_record ''backup/h/r/s1/000000.md'' demo_draft],
     bs_omissions = [omit ''c'' ''contentless-entry''], bs_counts = []\<rparr>"

lemma demo_run: "\<exists>ob fs bf e. capture demo_env demo_items demo_world
  = (Inr \<lparr>bcr_chunks = 1, bcr_manifest = True, bcr_held = 1, bcr_skipped = None, bcr_lastError = e\<rparr>,
     \<lparr>cw_bc = (put_session demo_capture demo_done)\<lparr>bc_lastError := e\<rparr>, cw_outbox = ob, cw_fs = fs, cw_file = bf\<rparr>)"
proof -
  have env: "cap_private demo_env = False" "cap_compiled demo_env = Inr []" "cap_maxBytes demo_env = None"
    "cap_sha256 demo_env = (\<lambda>s. ''0123456789abcdef'')" "cap_secret demo_env = (\<lambda>_. False)" "cap_io demo_env k = IoOk"
    "cap_ioState demo_env = IoOk" "cap_now demo_env = 5" "cap_enqNow demo_env k = 5" "cap_uuid demo_env k = ''u''"
    "cap_targetFor demo_env = (\<lambda>s. None)" for k by (simp_all add: demo_env_def)
  have bc: "bc_scope demo_capture = ''project/h/r''" "bc_projectId demo_capture = ''h/r''" "bc_sessionId demo_capture = ''s1''"
    "sessionState demo_capture = emptySessionState"
    by (simp_all add: demo_capture_def sessionState_def default_to_def)
  let ?bc0 = "put_session demo_capture emptySessionState" and ?ob0 = "new_store DEFAULT_LIMITS"
  have ci: "chunk_input demo_env ?bc0 demo_draft = chunk_input demo_env demo_capture demo_draft"
    by (simp add: chunk_input_def)
  have counts: "count_redactions [] (pl_candidates demo_policy) = []" by code_simp
  let ?fs0 = "\<lparr>journal = None, fmode = 0, lockMtime = None\<rparr>"
  obtain fs1 where e1: "enqueue (\<lambda>_. False) (\<lambda>s. None) 5 ''u'' (chunk_input demo_env demo_capture demo_draft) IoOk ?ob0 ?fs0
      = (Inr demo_job, ?ob0\<lparr>nextSeq := 2, jobs := [demo_job]\<rparr>, fs1)"
    using enqueue_accepts [of ?ob0 "chunk_input demo_env demo_capture demo_draft" "\<lambda>s. None" 5 "''u''" ?fs0] demo_steps(4)
    by (auto simp: new_store_def demo_job_def capturePaused_def retainedBytes_def DEFAULT_LIMITS_def)
  let ?ob1 = "?ob0\<lparr>nextSeq := 2, jobs := [demo_job]\<rparr>"
  let ?s2 = "advance demo_policy 1 [] (emptySessionState\<lparr>bs_chunks := [chunk_record ''backup/h/r/s1/000000.md'' demo_draft]\<rparr>)"
  have s2: "?s2 = demo_done" by (simp add: advance_def demo_done_def emptySessionState_def demo_policy_def)
  obtain bm where bm: "buildBackupManifest (cap_iso demo_env) ''s1'' ''h/r'' ''project/h/r'' (bs_chunks demo_done) (bs_counts demo_done)
      (bs_omissions demo_done) (bs_covered demo_done) 5 = Inr bm" by (simp add: buildBackupManifest_def)
  have k2: "key_ok (in_key (manifest_input demo_env ?bc0 (bs_covered demo_done) bm))"
    by (simp add: manifest_input_def Idempotency.idempotencyKey_def env) code_simp
  have "\<not> capturePaused ?ob1" using demo_steps(5) by (simp add: capturePaused_def new_store_def retainedBytes_def DEFAULT_LIMITS_def)
  then obtain j2 ob2 fs2 where e2: "enqueue (\<lambda>_. False) (\<lambda>s. None) 5 ''u'' (manifest_input demo_env ?bc0 (bs_covered demo_done) bm) IoOk ?ob1 fs1
      = (Inr j2, ob2, fs2)"
    using enqueue_accepts [of ?ob1 "manifest_input demo_env ?bc0 (bs_covered demo_done) bm" "\<lambda>s. None" 5 "''u''" fs1] k2
    by (fastforce simp: new_store_def)
  have d0: "cd_seq demo_draft = 0" by (simp add: demo_draft_def draft_of_def Let_def)
  have len: "length demo_views = 3" "pl_covered demo_policy = [''a'', ''c'']" by (simp_all add: demo_views_def demo_policy_def)
  have ne: "demo_views \<noteq> []" by (simp add: demo_views_def)
  have empty: "bs_covered emptySessionState = []" "bs_nextSeq emptySessionState = 0" "bs_counts emptySessionState = []"
    "bs_chunks emptySessionState = []" by (simp_all add: emptySessionState_def)
  have "capture demo_env demo_items demo_world
    = capture_fresh demo_env [] demo_views \<lparr>cw_bc = ?bc0, cw_outbox = ?ob0, cw_fs = ?fs0, cw_file = None\<rparr>"
    using demo_steps(1) ne by (simp add: capture_def env demo_world_def bc Let_def empty)
  also have "\<dots> = finish_capture demo_env (put_session ?bc0 demo_done) demo_policy 1 3 ob2 fs2 None"
    by (simp add: capture_fresh_def Let_def env bc demo_steps(2,3) cap_enqueue_def ci e1 d0 demo_steps(6) enqueue_manifest_def
        s2 [unfolded One_nat_def] bm e2 len(1) counts empty)
  finally show ?thesis
    by (auto simp: finish_capture_def env atomic_write_def len put_session_def demo_capture_def)
qed

lemma demo_start: "session_inv (bc_projectId (cw_bc demo_world)) (bc_sessionId (cw_bc demo_world)) (sessionState (cw_bc demo_world))"
proof -
  have "sessionState (cw_bc demo_world) = emptySessionState"
    by (simp add: demo_world_def demo_capture_def sessionState_def default_to_def)
  then show ?thesis by (simp add: session_inv_empty)
qed

theorem capture_keeps_coverage_witness:
  "session_inv ''h/r'' ''s1'' demo_done \<and> bs_covered demo_done = [''a'', ''c'']"
proof -
  obtain ob fs bf e where r: "capture demo_env demo_items demo_world
    = (Inr \<lparr>bcr_chunks = 1, bcr_manifest = True, bcr_held = 1, bcr_skipped = None, bcr_lastError = e\<rparr>,
       \<lparr>cw_bc = (put_session demo_capture demo_done)\<lparr>bc_lastError := e\<rparr>, cw_outbox = ob, cw_fs = fs, cw_file = bf\<rparr>)"
    using demo_run by blast
  show ?thesis
    using capture_keeps_coverage [OF demo_start r] by (simp add: demo_world_def demo_capture_def demo_done_def)
qed


end
