(* ===== verification/BackupVerify.thy ===== *)
theory BackupVerify
  imports BackupCoverage
begin

text \<open>
  Verification of a delivered backup (src/backup/verify.ts up to verifyBackup, and
  src/backup/recovery.ts): the defensive readers of chunk and manifest texts, the completeness,
  checksum and link checks, and the read-only fetch over the adapter. An issue is its code; the
  detail texts, made of ids and counts, are left out. A fetched or given chunk map is an
  association list from sequence numbers to texts.
\<close>

section \<open>Readers\<close>

datatype VerifyIssueCode =
    ManifestInvalid | SchemaUnsupported | MissingChunk | UnexpectedChunk | ChecksumMismatch | SeqMismatch | SessionMismatch
  | ByteLengthMismatch | DuplicateCoverage | EntryCountMismatch | RangeMismatch | IdentityMismatch | UnlinkedParent

text \<open>Member access on any parsed value but null: a value that is no object has no such member.\<close>

fun members_of :: "json \<Rightarrow> (string \<times> json) list" where
  "members_of (JObj ms) = ms" | "members_of _ = []"

record ChunkEntry =
  en_id :: string
  en_parent :: "json option"

record ParsedChunkFile =
  pc_seq :: int
  pc_entries :: "ChunkEntry list"

fun chunk_file_entries :: "json list \<Rightarrow> VerifyIssueCode + ChunkEntry list" where
  "chunk_file_entries [] = Inr []"
| "chunk_file_entries (raw # rs) =
     (case as_object (Some raw) of
        None \<Rightarrow> Inl ManifestInvalid
      | Some e \<Rightarrow>
          (case nonempty_str (map_of e ''id'') of
             None \<Rightarrow> Inl ManifestInvalid
           | Some i \<Rightarrow> map_sum id (\<lambda>es. \<lparr>en_id = i, en_parent = map_of e ''parentId''\<rparr> # es) (chunk_file_entries rs)))"

definition schema_issue :: "json option \<Rightarrow> bool" where
  "schema_issue j = (case j of Some (JNum v) \<Rightarrow> v < 1 \<or> v > BACKUP_SCHEMA_VERSION | _ \<Rightarrow> True)"

definition parseBackupChunkText :: "string \<Rightarrow> string \<Rightarrow> VerifyIssueCode + ParsedChunkFile" where
  "parseBackupChunkText sess content =
     (case json_parse content of
        None \<Rightarrow> Inl ChecksumMismatch
      | Some parsed \<Rightarrow>
          (let obj = members_of parsed in
           if map_of obj ''kind'' \<noteq> Some (JStr ''kiwifs-backup-chunk'') then Inl SchemaUnsupported
           else if schema_issue (map_of obj ''schemaVersion'') then Inl SchemaUnsupported
           else if map_of obj ''sessionId'' \<noteq> Some (JStr sess) then Inl SessionMismatch
           else (case map_of obj ''seq'' of
               Some (JNum sq) \<Rightarrow>
                 if sq < 0 then Inl SeqMismatch
                 else (case map_of obj ''entries'' of
                     Some (JArr es) \<Rightarrow> map_sum id (\<lambda>xs. \<lparr>pc_seq = sq, pc_entries = xs\<rparr>) (chunk_file_entries es)
                   | _ \<Rightarrow> Inl ManifestInvalid)
             | _ \<Rightarrow> Inl SeqMismatch)))"

text \<open>The fields of a read manifest that are used later; its endpoints are not validated by the reader.\<close>

record ReadManifest =
  rm_json :: json
  rm_schemaVersion :: int
  rm_sessionId :: string
  rm_projectId :: string
  rm_scope :: string
  rm_chunks :: "ManifestChunk list"
  rm_entryCount :: int
  rm_first :: "json option"
  rm_last :: "json option"

fun any_str_list :: "json list \<Rightarrow> string list option" where
  "any_str_list [] = Some []"
| "any_str_list (JStr s # js) = map_option ((#) s) (any_str_list js)"
| "any_str_list (_ # js) = None"

definition read_manifest_chunk :: "json \<Rightarrow> ManifestChunk option" where
  "read_manifest_chunk j =
     (let m = members_of j in
      case (map_of m ''seq'', str_of (map_of m ''path''), str_of (map_of m ''checksum''), map_of m ''byteLength'', map_of m ''entryIds'') of
        (Some (JNum sq), Some path, Some checksum, Some (JNum len), Some (JArr ids)) \<Rightarrow>
          map_option (\<lambda>is. \<lparr>mc_seq = sq, mc_path = path, mc_checksum = checksum, mc_byteLength = len, mc_entryIds = is,
            mc_oversized = (map_of m ''oversized'' = Some (JBool True))\<rparr>) (any_str_list ids)
      | _ \<Rightarrow> None)"

fun read_manifest_chunks :: "json list \<Rightarrow> ManifestChunk list option" where
  "read_manifest_chunks [] = Some []"
| "read_manifest_chunks (j # js) =
     (case read_manifest_chunk j of None \<Rightarrow> None | Some c \<Rightarrow> map_option ((#) c) (read_manifest_chunks js))"

definition parseBackupManifestText :: "string \<Rightarrow> VerifyIssueCode + ReadManifest" where
  "parseBackupManifestText content =
     (case json_parse content of
        None \<Rightarrow> Inl ManifestInvalid
      | Some parsed \<Rightarrow>
          (let obj = members_of parsed in
           if map_of obj ''kind'' \<noteq> Some (JStr ''kiwifs-backup-manifest'') then Inl SchemaUnsupported
           else if schema_issue (map_of obj ''schemaVersion'') then Inl SchemaUnsupported
           else (case (map_of obj ''schemaVersion'', nonempty_str (map_of obj ''sessionId''), nonempty_str (map_of obj ''projectId''),
                       nonempty_str (map_of obj ''scope'')) of
               (Some (JNum v), Some sess, Some proj, Some scp) \<Rightarrow>
                 if map_of obj ''redacted'' \<noteq> Some (JBool True) then Inl ManifestInvalid
                 else (case map_of obj ''chunks'' of
                     Some (JArr cs) \<Rightarrow>
                       (case (read_manifest_chunks cs, as_object (map_of obj ''coveredRange'')) of
                          (Some chunks, Some covered) \<Rightarrow>
                            (case map_of covered ''entryCount'' of
                               Some (JNum n) \<Rightarrow>
                                 (case map_of obj ''omissions'' of
                                    None \<Rightarrow> Inr \<lparr>rm_json = parsed, rm_schemaVersion = v, rm_sessionId = sess, rm_projectId = proj,
                                      rm_scope = scp, rm_chunks = chunks, rm_entryCount = n,
                                      rm_first = map_of covered ''firstEntryId'', rm_last = map_of covered ''lastEntryId''\<rparr>
                                  | Some (JArr _) \<Rightarrow> Inr \<lparr>rm_json = parsed, rm_schemaVersion = v, rm_sessionId = sess, rm_projectId = proj,
                                      rm_scope = scp, rm_chunks = chunks, rm_entryCount = n,
                                      rm_first = map_of covered ''firstEntryId'', rm_last = map_of covered ''lastEntryId''\<rparr>
                                  | _ \<Rightarrow> Inl ManifestInvalid)
                             | _ \<Rightarrow> Inl ManifestInvalid)
                        | _ \<Rightarrow> Inl ManifestInvalid)
                   | _ \<Rightarrow> Inl ManifestInvalid)
             | _ \<Rightarrow> Inl ManifestInvalid)))"

section \<open>Verification\<close>

record VerifyInput =
  vi_manifest :: ReadManifest
  vi_chunks :: "(int \<times> string) list"
  vi_sessionId :: string
  vi_projectId :: string
  vi_scope :: "string option"

record verifying =
  vf_issues :: "VerifyIssueCode list"
  vf_covered :: "string list"
  vf_orderedOk :: bool

definition issue :: "bool \<Rightarrow> VerifyIssueCode \<Rightarrow> verifying \<Rightarrow> verifying" where
  "issue bad why st = (if bad then st\<lparr>vf_issues := vf_issues st @ [why]\<rparr> else st)"

definition cover_entry :: "verifying \<Rightarrow> string \<Rightarrow> verifying" where
  "cover_entry st i =
     (let st1 = issue (i \<in> set (vf_covered st)) DuplicateCoverage st in st1\<lparr>vf_covered := vf_covered st1 @ [i]\<rparr>)"

definition verify_record :: "(string \<Rightarrow> string) \<Rightarrow> (int \<times> string) list \<Rightarrow> string \<Rightarrow> verifying \<Rightarrow> ManifestChunk \<Rightarrow> verifying" where
  "verify_record sha256 chunks sess st rec =
     (case map_of chunks (mc_seq rec) of
        None \<Rightarrow> issue True MissingChunk st
      | Some content \<Rightarrow>
          (let st1 = issue (chunkChecksum sha256 content \<noteq> mc_checksum rec) ChecksumMismatch st in
           case parseBackupChunkText sess content of
             Inl why \<Rightarrow> issue True why st1
           | Inr parsed \<Rightarrow>
               (let misfiled = pc_seq parsed \<noteq> mc_seq rec;
                    st2 = (issue misfiled SeqMismatch st1)\<lparr>vf_orderedOk := vf_orderedOk st1 \<and> \<not> misfiled\<rparr>;
                    st3 = issue (int (byteLength content) \<noteq> mc_byteLength rec) ByteLengthMismatch st2;
                    ids = map en_id (pc_entries parsed);
                    st4 = issue (ids \<noteq> mc_entryIds rec) ManifestInvalid st3
                in foldl cover_entry st4 ids)))"

definition endpoint_missing :: "json option \<Rightarrow> bool" where
  "endpoint_missing e = (e = Some JNull)"

text \<open>An endpoint that is not null must be the delivered id; one that is absent differs from every id.\<close>

definition endpoint_differs :: "json option \<Rightarrow> string \<Rightarrow> bool" where
  "endpoint_differs e i = (e \<noteq> Some JNull \<and> e \<noteq> Some (JStr i))"

text \<open>\<open>parent !== null && parent !== undefined && !seen.has(parent)\<close>\<close>

definition unlinked :: "string set \<Rightarrow> json option \<Rightarrow> bool" where
  "unlinked seen parent = (parent \<noteq> None \<and> parent \<noteq> Some JNull \<and> parent \<notin> Some ` JStr ` seen)"

fun link_issues :: "string set \<Rightarrow> ChunkEntry list \<Rightarrow> VerifyIssueCode list" where
  "link_issues seen [] = []"
| "link_issues seen (e # es) =
     (if unlinked seen (en_parent e) then [UnlinkedParent] else []) @ link_issues (insert (en_id e) seen) es"

definition readable_entries :: "(int \<times> string) list \<Rightarrow> string \<Rightarrow> ManifestChunk \<Rightarrow> ChunkEntry list" where
  "readable_entries chunks sess rec =
     (case map_of chunks (mc_seq rec) of
        None \<Rightarrow> []
      | Some content \<Rightarrow> (case parseBackupChunkText sess content of Inl _ \<Rightarrow> [] | Inr p \<Rightarrow> pc_entries p))"

record BackupVerification =
  bv_ok :: bool
  bv_issues :: "VerifyIssueCode list"
  bv_manifest :: ReadManifest
  bv_covered :: "string list"

definition verifyBackup :: "(string \<Rightarrow> string) \<Rightarrow> VerifyInput \<Rightarrow> BackupVerification" where
  "verifyBackup sha256 inp =
     (let m = vi_manifest inp; chunks = vi_chunks inp; seqs = map mc_seq (rm_chunks m);
          st0 = \<lparr>vf_issues = [], vf_covered = [], vf_orderedOk = True\<rparr>;
          st1 = issue (rm_schemaVersion m > BACKUP_SCHEMA_VERSION) SchemaUnsupported st0;
          st2 = issue (rm_sessionId m \<noteq> vi_sessionId inp) SessionMismatch st1;
          st3 = issue (rm_projectId m \<noteq> vi_projectId inp) IdentityMismatch st2;
          st4 = issue (vi_scope inp \<noteq> None \<and> vi_scope inp \<noteq> Some (rm_scope m)) IdentityMismatch st3;
          st5 = foldl (\<lambda>st sq. issue (sq \<notin> set seqs) UnexpectedChunk st) st4 (sort (remdups (map fst chunks)));
          st6 = foldl (verify_record sha256 chunks (rm_sessionId m)) st5 (rm_chunks m);
          covered = vf_covered st6;
          st7 = issue (rm_entryCount m \<noteq> int (length covered) \<and> vf_orderedOk st6) EntryCountMismatch st6;
          st8 = issue (rm_entryCount m > 0 \<and> endpoint_missing (rm_first m)) RangeMismatch st7;
          st9 = issue (rm_entryCount m > 0 \<and> endpoint_missing (rm_last m)) RangeMismatch st8;
          st10 = issue (covered \<noteq> [] \<and> endpoint_differs (rm_first m) (hd covered)) RangeMismatch st9;
          st11 = issue (covered \<noteq> [] \<and> endpoint_differs (rm_last m) (last covered)) RangeMismatch st10;
          issues = vf_issues st11 @ link_issues {} (concat (map (readable_entries chunks (rm_sessionId m)) (rm_chunks m)))
      in \<lparr>bv_ok = (issues = []), bv_issues = issues, bv_manifest = m, bv_covered = covered\<rparr>)"

section \<open>Fetching\<close>

datatype FetchBackupOutcome =
    FbMissing
  | FbInvalid VerifyIssueCode
  | FbFetched string ReadManifest "(int \<times> string) list" "int list"

definition MAX_CHUNK_SEQ :: int where "MAX_CHUNK_SEQ = 999999"

text \<open>A chunk path that is refused throws before any call; \<open>Map.set\<close> keeps the first position of a key.\<close>

definition read_chunk ::
  "'s transport \<Rightarrow> bool \<Rightarrow> string \<Rightarrow> string \<Rightarrow> int \<Rightarrow> (int \<times> string) list \<Rightarrow> 's \<Rightarrow> (bool \<times> (int \<times> string) list, 's) outcome" where
  "read_chunk transport aborted projectId sess sq chunks s =
     (case backupChunkPath projectId sess sq of
        Inl _ \<Rightarrow> (Inl (Backend PathEscapeError, ''path''), [], s)
      | Inr path \<Rightarrow>
          (case adapter_read transport aborted path None s of
             (Inl e, tr, s') \<Rightarrow> (Inl e, tr, s')
           | (Inr rd, tr, s') \<Rightarrow>
               (Inr (if rd_state rd = RdOk then (True, AList.update sq (rd_body rd) chunks) else (False, chunks)), tr, s')))"

fun read_chunks ::
  "'s transport \<Rightarrow> bool \<Rightarrow> string \<Rightarrow> string \<Rightarrow> int list \<Rightarrow> (int \<times> string) list \<Rightarrow> 's \<Rightarrow> ((int \<times> string) list, 's) outcome" where
  "read_chunks transport aborted projectId sess [] chunks s = (Inr chunks, [], s)"
| "read_chunks transport aborted projectId sess (sq # sqs) chunks s =
     (case read_chunk transport aborted projectId sess sq chunks s of
        (Inl e, tr, s1) \<Rightarrow> (Inl e, tr, s1)
      | (Inr (_, chunks1), tr, s1) \<Rightarrow>
          (case read_chunks transport aborted projectId sess sqs chunks1 s1 of (r, tr', s2) \<Rightarrow> (r, tr @ tr', s2)))"

definition max_seq :: "int list \<Rightarrow> int" where
  "max_seq sqs = (if sqs = [] then -1 else Max (set sqs))"

definition fetch_chunks ::
  "'s transport \<Rightarrow> bool \<Rightarrow> string \<Rightarrow> string \<Rightarrow> string \<Rightarrow> ReadManifest \<Rightarrow> 's \<Rightarrow> (FetchBackupOutcome, 's) outcome" where
  "fetch_chunks transport aborted projectId sess manifestText m s =
     (let sqs = map mc_seq (rm_chunks m); probe = max_seq sqs + 1 in
      case read_chunks transport aborted projectId sess sqs [] s of
        (Inl e, tr, s1) \<Rightarrow> (Inl e, tr, s1)
      | (Inr chunks, tr, s1) \<Rightarrow>
          if max_seq sqs \<ge> 0 \<and> probe \<le> MAX_CHUNK_SEQ then
            (case read_chunk transport aborted projectId sess probe chunks s1 of
               (Inl e, tr', s2) \<Rightarrow> (Inl e, tr @ tr', s2)
             | (Inr (found, chunks1), tr', s2) \<Rightarrow>
                 (Inr (FbFetched manifestText m chunks1 (if found then [probe] else [])), tr @ tr', s2))
          else (Inr (FbFetched manifestText m chunks []), tr, s1))"

definition fetchRemoteBackup ::
  "'s transport \<Rightarrow> bool \<Rightarrow> string \<Rightarrow> string \<Rightarrow> 's \<Rightarrow> (FetchBackupOutcome, 's) outcome" where
  "fetchRemoteBackup transport aborted projectId sess s =
     (case backupManifestPath projectId sess of
        Inl _ \<Rightarrow> (Inl (Backend PathEscapeError, ''path''), [], s)
      | Inr path \<Rightarrow>
          (case adapter_read transport aborted path None s of
             (Inl e, tr, s1) \<Rightarrow> (Inl e, tr, s1)
           | (Inr rd, tr, s1) \<Rightarrow>
               if rd_state rd = RdMissing then (Inr FbMissing, tr, s1)
               else if rd_state rd \<noteq> RdOk then (Inr (FbInvalid ManifestInvalid), tr, s1)
               else (case parseBackupManifestText (rd_body rd) of
                   Inl why \<Rightarrow> (Inr (FbInvalid why), tr, s1)
                 | Inr m \<Rightarrow>
                     (case fetch_chunks transport aborted projectId sess (rd_body rd) m s1 of (r, tr', s2) \<Rightarrow> (r, tr @ tr', s2)))))"

datatype RemoteVerification =
    RvMissing | RvInvalid VerifyIssueCode | RvVerified BackupVerification "(int \<times> string) list" string

definition verifyRemoteBackup ::
  "(string \<Rightarrow> string) \<Rightarrow> 's transport \<Rightarrow> bool \<Rightarrow> string \<Rightarrow> string \<Rightarrow> string option \<Rightarrow> 's \<Rightarrow> (RemoteVerification, 's) outcome" where
  "verifyRemoteBackup sha256 transport aborted projectId sess expectedScope s =
     (case fetchRemoteBackup transport aborted projectId sess s of
        (Inl e, tr, s') \<Rightarrow> (Inl e, tr, s')
      | (Inr FbMissing, tr, s') \<Rightarrow> (Inr RvMissing, tr, s')
      | (Inr (FbInvalid why), tr, s') \<Rightarrow> (Inr (RvInvalid why), tr, s')
      | (Inr (FbFetched manifestText m chunks extra), tr, s') \<Rightarrow>
          (Inr (RvVerified (verifyBackup sha256 \<lparr>vi_manifest = m, vi_chunks = chunks, vi_sessionId = sess,
             vi_projectId = projectId, vi_scope = expectedScope\<rparr>) chunks manifestText), tr, s'))"

section \<open>What a verified backup is\<close>

text \<open>A declared chunk whose delivered bytes are the recorded ones, read as the entries \<open>es\<close>.\<close>

definition faithful_record ::
  "(string \<Rightarrow> string) \<Rightarrow> (int \<times> string) list \<Rightarrow> string \<Rightarrow> ManifestChunk \<Rightarrow> ChunkEntry list \<Rightarrow> bool" where
  "faithful_record sha256 chunks sess rec es =
     (\<exists>content. map_of chunks (mc_seq rec) = Some content \<and> sha256 content = mc_checksum rec
        \<and> int (byteLength content) = mc_byteLength rec
        \<and> parseBackupChunkText sess content = Inr \<lparr>pc_seq = mc_seq rec, pc_entries = es\<rparr> \<and> map en_id es = mc_entryIds rec)"

text \<open>Every entry's parent is absent, null, or an entry before it.\<close>

definition linked :: "string set \<Rightarrow> ChunkEntry list \<Rightarrow> bool" where
  "linked seen es = (\<forall>k < length es. \<not> unlinked (seen \<union> en_id ` set (take k es)) (en_parent (es ! k)))"

definition complete_backup :: "(string \<Rightarrow> string) \<Rightarrow> VerifyInput \<Rightarrow> ChunkEntry list list \<Rightarrow> bool" where
  "complete_backup sha256 inp ess =
     (let m = vi_manifest inp; ids = map en_id (concat ess) in
      rm_schemaVersion m \<le> BACKUP_SCHEMA_VERSION \<and> rm_sessionId m = vi_sessionId inp \<and> rm_projectId m = vi_projectId inp
      \<and> (vi_scope inp = None \<or> vi_scope inp = Some (rm_scope m))
      \<and> fst ` set (vi_chunks inp) \<subseteq> mc_seq ` set (rm_chunks m)
      \<and> list_all2 (faithful_record sha256 (vi_chunks inp) (rm_sessionId m)) (rm_chunks m) ess
      \<and> distinct ids \<and> rm_entryCount m = int (length ids)
      \<and> (ids \<noteq> [] \<longrightarrow> rm_first m = Some (JStr (hd ids)) \<and> rm_last m = Some (JStr (last ids)))
      \<and> linked {} (concat ess))"

lemma issue_simps [simp]:
  "vf_issues (issue b c st) = vf_issues st @ (if b then [c] else [])" "vf_covered (issue b c st) = vf_covered st"
  "vf_orderedOk (issue b c st) = vf_orderedOk st"
  by (simp_all add: issue_def)

lemma cover_entries:
  "vf_covered (foldl cover_entry st ids) = vf_covered st @ ids"
  "vf_orderedOk (foldl cover_entry st ids) = vf_orderedOk st"
  "vf_issues (foldl cover_entry st ids) = [] \<longleftrightarrow> vf_issues st = [] \<and> distinct ids \<and> set ids \<inter> set (vf_covered st) = {}"
  by (induction ids arbitrary: st) (auto simp: cover_entry_def Let_def)

lemma verify_record_clean:
  "vf_issues (verify_record sha256 chunks sess st rec) = [] \<longleftrightarrow>
   vf_issues st = [] \<and> (\<exists>es. faithful_record sha256 chunks sess rec es \<and> distinct (map en_id es)
     \<and> en_id ` set es \<inter> set (vf_covered st) = {})"
proof (cases "map_of chunks (mc_seq rec)")
  case None
  then show ?thesis by (simp add: verify_record_def faithful_record_def)
next
  case (Some content)
  show ?thesis
  proof (cases "parseBackupChunkText sess content")
    case (Inl why)
    then show ?thesis using Some by (simp add: verify_record_def faithful_record_def)
  next
    case (Inr p)
    have "faithful_record sha256 chunks sess rec es \<longleftrightarrow> sha256 content = mc_checksum rec
        \<and> int (byteLength content) = mc_byteLength rec \<and> pc_seq p = mc_seq rec \<and> es = pc_entries p
        \<and> map en_id (pc_entries p) = mc_entryIds rec" for es
      using Some Inr by (cases p) (auto simp: faithful_record_def)
    then show ?thesis using Some Inr by (auto simp: verify_record_def Let_def cover_entries chunkChecksum_def)
  qed
qed

lemma verify_record_effect:
  assumes "faithful_record sha256 chunks sess rec es"
  shows "vf_covered (verify_record sha256 chunks sess st rec) = vf_covered st @ map en_id es"
    "vf_orderedOk (verify_record sha256 chunks sess st rec) = vf_orderedOk st"
  using assms by (auto simp: faithful_record_def verify_record_def Let_def cover_entries)

lemma verify_records_effect:
  assumes "list_all2 (faithful_record sha256 chunks sess) recs ess"
  shows "vf_covered (foldl (verify_record sha256 chunks sess) st recs) = vf_covered st @ map en_id (concat ess)
    \<and> vf_orderedOk (foldl (verify_record sha256 chunks sess) st recs) = vf_orderedOk st"
  using assms
  by (induction recs ess arbitrary: st rule: list_all2_induct) (simp_all add: verify_record_effect)

lemma verify_record_keeps_issues: "vf_issues st \<noteq> [] \<Longrightarrow> vf_issues (verify_record sha256 chunks sess st rec) \<noteq> []"
  by (simp add: verify_record_clean)

lemma verify_records_keep_issues:
  "vf_issues (foldl (verify_record sha256 chunks sess) st recs) = [] \<Longrightarrow> vf_issues st = []"
  by (induction recs arbitrary: st) (simp, metis foldl_Cons verify_record_keeps_issues)

lemma verify_records_clean:
  "vf_issues (foldl (verify_record sha256 chunks sess) st recs) = [] \<longleftrightarrow>
   vf_issues st = [] \<and> (\<exists>ess. list_all2 (faithful_record sha256 chunks sess) recs ess \<and> distinct (map en_id (concat ess))
     \<and> en_id ` set (concat ess) \<inter> set (vf_covered st) = {})"
proof (induction recs arbitrary: st)
  case Nil
  then show ?case by simp
next
  case (Cons r rs)
  let ?st = "verify_record sha256 chunks sess st r"
  show ?case
  proof
    assume a: "vf_issues (foldl (verify_record sha256 chunks sess) st (r # rs)) = []"
    then have b: "vf_issues (foldl (verify_record sha256 chunks sess) ?st rs) = []" by simp
    then have clean: "vf_issues ?st = []" by (rule verify_records_keep_issues)
    obtain es where es: "vf_issues st = []" "faithful_record sha256 chunks sess r es" "distinct (map en_id es)"
      "en_id ` set es \<inter> set (vf_covered st) = {}"
      using iffD1 [OF verify_record_clean clean] by (elim conjE exE) (rule that)
    from iffD1 [OF Cons.IH b] obtain ess where ess: "list_all2 (faithful_record sha256 chunks sess) rs ess"
      "distinct (map en_id (concat ess))" "en_id ` set (concat ess) \<inter> set (vf_covered ?st) = {}" by auto
    have "list_all2 (faithful_record sha256 chunks sess) (r # rs) (es # ess)" using es(2) ess(1) by simp
    moreover have "distinct (map en_id (concat (es # ess))) \<and> en_id ` set (concat (es # ess)) \<inter> set (vf_covered st) = {}"
    proof -
      have "en_id ` set (concat ess) \<inter> (set (vf_covered st) \<union> en_id ` set es) = {}"
        using ess(3) verify_record_effect(1) [OF es(2), of st] by simp
      then have d: "en_id ` set (concat ess) \<inter> set (vf_covered st) = {}" "set (map en_id es) \<inter> set (map en_id (concat ess)) = {}"
        by (simp_all only: Int_Un_distrib Un_empty set_map Int_commute)
      have "distinct (map en_id es @ map en_id (concat ess))" using es(3) ess(2) d(2) by (simp only: distinct_append)
      moreover have "(en_id ` set es \<union> en_id ` set (concat ess)) \<inter> set (vf_covered st) = {}"
        using es(4) d(1) by (simp only: Int_Un_distrib2 Un_empty_left)
      ultimately show ?thesis by (simp only: concat.simps map_append set_append image_Un)
    qed
    ultimately show "vf_issues st = [] \<and> (\<exists>ess. list_all2 (faithful_record sha256 chunks sess) (r # rs) ess
        \<and> distinct (map en_id (concat ess)) \<and> en_id ` set (concat ess) \<inter> set (vf_covered st) = {})"
      using es(1) by blast
  next
    assume "vf_issues st = [] \<and> (\<exists>ess. list_all2 (faithful_record sha256 chunks sess) (r # rs) ess
        \<and> distinct (map en_id (concat ess)) \<and> en_id ` set (concat ess) \<inter> set (vf_covered st) = {})"
    then obtain es ess where e: "vf_issues st = []" "faithful_record sha256 chunks sess r es"
      "list_all2 (faithful_record sha256 chunks sess) rs ess" "distinct (map en_id (es @ concat ess))"
      "en_id ` set (es @ concat ess) \<inter> set (vf_covered st) = {}"
      by (auto simp: list_all2_Cons1)
    have "vf_issues ?st = []" unfolding verify_record_clean using e by auto
    moreover have "en_id ` set (concat ess) \<inter> set (vf_covered ?st) = {}"
      using e(4,5) verify_record_effect(1) [OF e(2), of st] by auto
    ultimately show "vf_issues (foldl (verify_record sha256 chunks sess) st (r # rs)) = []"
      using Cons.IH [of ?st] e(3,4) by auto
  qed
qed

lemma unexpected_clean:
  "vf_issues (foldl (\<lambda>st sq. issue (sq \<notin> S) UnexpectedChunk st) st sqs) = [] \<longleftrightarrow> vf_issues st = [] \<and> set sqs \<subseteq> S"
  "vf_covered (foldl (\<lambda>st sq. issue (sq \<notin> S) UnexpectedChunk st) st sqs) = vf_covered st"
  "vf_orderedOk (foldl (\<lambda>st sq. issue (sq \<notin> S) UnexpectedChunk st) st sqs) = vf_orderedOk st"
  by (induction sqs arbitrary: st) auto

lemma link_issues_clean: "link_issues seen es = [] \<longleftrightarrow> linked seen es"
proof (induction es arbitrary: seen)
  case (Cons e es)
  have "linked seen (e # es) \<longleftrightarrow> \<not> unlinked seen (en_parent e) \<and> linked (insert (en_id e) seen) es"
    unfolding linked_def by (simp add: All_less_Suc2)
  then show ?case using Cons.IH by simp
qed (simp add: linked_def)

lemma readable_faithful:
  "list_all2 (faithful_record sha256 chunks sess) recs ess \<Longrightarrow> map (readable_entries chunks sess) recs = ess"
  by (induction rule: list_all2_induct) (auto simp: readable_entries_def faithful_record_def)

lemma map_concat_ids: "map en_id (concat ess) = concat (map (map en_id) ess)"
  by (simp add: map_concat)

text \<open>
  C21. Verification is exact: a backup is reported as complete exactly when the manifest is of a
  supported schema and of the requested session, project and scope, every delivered chunk is
  declared, every declared chunk is delivered with the recorded checksum, length, sequence
  number and entry ids, no entry is covered twice, the declared count and end points are those
  of the delivered entries, and every entry's parent is null or an entry before it.
\<close>
theorem verification_is_exact:
  "bv_ok (verifyBackup sha256 inp) = (\<exists>ess. complete_backup sha256 inp ess)"
proof -
  define m where "m = vi_manifest inp"
  define chunks where "chunks = vi_chunks inp"
  define F where "F = faithful_record sha256 chunks (rm_sessionId m)"
  define st0 where "st0 = \<lparr>vf_issues = [], vf_covered = [], vf_orderedOk = True\<rparr>"
  define st4 where "st4 = issue (vi_scope inp \<noteq> None \<and> vi_scope inp \<noteq> Some (rm_scope m)) IdentityMismatch
     (issue (rm_projectId m \<noteq> vi_projectId inp) IdentityMismatch (issue (rm_sessionId m \<noteq> vi_sessionId inp) SessionMismatch
       (issue (rm_schemaVersion m > BACKUP_SCHEMA_VERSION) SchemaUnsupported st0)))"
  define st5 where "st5 = foldl (\<lambda>st sq. issue (sq \<notin> set (map mc_seq (rm_chunks m))) UnexpectedChunk st) st4 (sort (remdups (map fst chunks)))"
  define st6 where "st6 = foldl (verify_record sha256 chunks (rm_sessionId m)) st5 (rm_chunks m)"
  define covered where "covered = vf_covered st6"
  define tail where "tail \<longleftrightarrow> \<not> (rm_entryCount m \<noteq> int (length covered) \<and> vf_orderedOk st6)
     \<and> \<not> (rm_entryCount m > 0 \<and> endpoint_missing (rm_first m)) \<and> \<not> (rm_entryCount m > 0 \<and> endpoint_missing (rm_last m))
     \<and> \<not> (covered \<noteq> [] \<and> endpoint_differs (rm_first m) (hd covered)) \<and> \<not> (covered \<noteq> [] \<and> endpoint_differs (rm_last m) (last covered))"
  have st5: "vf_issues st5 = [] \<longleftrightarrow> rm_schemaVersion m \<le> BACKUP_SCHEMA_VERSION \<and> rm_sessionId m = vi_sessionId inp
      \<and> rm_projectId m = vi_projectId inp \<and> (vi_scope inp = None \<or> vi_scope inp = Some (rm_scope m))
      \<and> fst ` set chunks \<subseteq> mc_seq ` set (rm_chunks m)"
    "vf_covered st5 = []" "vf_orderedOk st5"
    unfolding st5_def unexpected_clean by (auto simp: st4_def st0_def)
  have ok: "bv_ok (verifyBackup sha256 inp) \<longleftrightarrow> vf_issues st6 = [] \<and> tail
      \<and> link_issues {} (concat (map (readable_entries chunks (rm_sessionId m)) (rm_chunks m))) = []"
    unfolding verifyBackup_def Let_def m_def [symmetric] chunks_def [symmetric] st0_def [symmetric] st4_def [symmetric]
      st5_def [symmetric] st6_def [symmetric] covered_def [symmetric] tail_def
    by simp
  have st6: "vf_issues st6 = [] \<longleftrightarrow> vf_issues st5 = [] \<and> (\<exists>ess. list_all2 F (rm_chunks m) ess \<and> distinct (map en_id (concat ess)))"
    unfolding st6_def verify_records_clean st5(2) F_def by simp
  have rest: "tail \<and> link_issues {} (concat (map (readable_entries chunks (rm_sessionId m)) (rm_chunks m))) = [] \<longleftrightarrow>
      rm_entryCount m = int (length (map en_id (concat ess)))
      \<and> (map en_id (concat ess) \<noteq> [] \<longrightarrow> rm_first m = Some (JStr (hd (map en_id (concat ess)))) \<and> rm_last m = Some (JStr (last (map en_id (concat ess)))))
      \<and> linked {} (concat ess)" if f: "list_all2 F (rm_chunks m) ess" for ess
  proof -
    have c: "covered = map en_id (concat ess)" "vf_orderedOk st6"
      using verify_records_effect [OF f [unfolded F_def], of st5] st5(2,3) by (simp_all add: covered_def st6_def)
    have r: "map (readable_entries chunks (rm_sessionId m)) (rm_chunks m) = ess"
      using readable_faithful f unfolding F_def by blast
    have "tail \<longleftrightarrow> rm_entryCount m = int (length covered)
        \<and> (covered \<noteq> [] \<longrightarrow> rm_first m = Some (JStr (hd covered)) \<and> rm_last m = Some (JStr (last covered)))"
      unfolding tail_def endpoint_missing_def endpoint_differs_def using c(2) by (cases "covered = []") auto
    then show ?thesis unfolding r link_issues_clean c(1) by blast
  qed
  have cb: "complete_backup sha256 inp ess \<longleftrightarrow> vf_issues st5 = [] \<and> list_all2 F (rm_chunks m) ess \<and> distinct (map en_id (concat ess))
      \<and> rm_entryCount m = int (length (map en_id (concat ess)))
      \<and> (map en_id (concat ess) \<noteq> [] \<longrightarrow> rm_first m = Some (JStr (hd (map en_id (concat ess)))) \<and> rm_last m = Some (JStr (last (map en_id (concat ess)))))
      \<and> linked {} (concat ess)" for ess
    unfolding complete_backup_def Let_def st5(1) m_def [symmetric] chunks_def [symmetric] F_def [symmetric] by (simp only: conj_assoc)
  show ?thesis
  proof
    assume "bv_ok (verifyBackup sha256 inp)"
    then have o: "vf_issues st6 = []" "tail \<and> link_issues {} (concat (map (readable_entries chunks (rm_sessionId m)) (rm_chunks m))) = []"
      using ok by simp_all
    from o(1) st6 obtain ess where e: "vf_issues st5 = []" "list_all2 F (rm_chunks m) ess" "distinct (map en_id (concat ess))" by blast
    then show "\<exists>ess. complete_backup sha256 inp ess" using cb [of ess] iffD1 [OF rest [OF e(2)] o(2)] by blast
  next
    assume "\<exists>ess. complete_backup sha256 inp ess"
    then obtain ess where e: "complete_backup sha256 inp ess" by blast
    then have f: "list_all2 F (rm_chunks m) ess" using cb by blast
    have "vf_issues st6 = []" using st6 e cb [of ess] by blast
    moreover have "tail \<and> link_issues {} (concat (map (readable_entries chunks (rm_sessionId m)) (rm_chunks m))) = []"
      using rest [OF f] e cb [of ess] by blast
    ultimately show "bv_ok (verifyBackup sha256 inp)" using ok by blast
  qed
qed

end
