(* ===== verification/BackupRoundtrip.thy ===== *)
theory BackupRoundtrip
  imports BackupVerify
begin

text \<open>
  Capture against verification: the manifest and the chunks a capture writes are read back as
  what they were, and a backup that was delivered exactly as captured verifies exactly when
  nothing was left out of it (src/backup/capture.ts, src/backup/manifest.ts,
  src/backup/chunker.ts, src/backup/verify.ts).
\<close>

section \<open>Reading the manifest back\<close>

definition read_of :: "BackupManifest \<Rightarrow> ReadManifest" where
  "read_of m =
     \<lparr>rm_json = manifest_json m, rm_schemaVersion = bm_schemaVersion m, rm_sessionId = bm_sessionId m,
      rm_projectId = bm_projectId m, rm_scope = bm_scope m, rm_chunks = bm_chunks m, rm_entryCount = bm_entryCount m,
      rm_first = Some (str_or_null (bm_firstEntryId m)), rm_last = Some (str_or_null (bm_lastEntryId m))\<rparr>"

lemma any_str_list_map [simp]: "any_str_list (map JStr ids) = Some ids"
  by (induction ids) auto

lemma read_manifest_chunk_json [simp]: "read_manifest_chunk (manifest_chunk_json c) = Some c"
  by (cases c) (simp add: read_manifest_chunk_def manifest_chunk_json_def)

lemma read_manifest_chunks_json [simp]: "read_manifest_chunks (map manifest_chunk_json cs) = Some cs"
  by (induction cs) auto

lemma json_wf_numbers: "distinct (map fst d) \<Longrightarrow> json_wf (JObj (map (\<lambda>(k, n). (k, JNum n)) d))"
  by (auto simp: comp_def case_prod_beta)

lemma manifest_json_wf:
  assumes "distinct (map fst (bm_redactionSummary m))"
  shows "json_wf (manifest_json m)"
proof -
  have c: "json_wf (manifest_chunk_json c)" for c by (auto simp: manifest_chunk_json_def)
  have o: "json_wf (JObj [(''entryId'', JStr (mo_entryId x)), (''reason'', JStr (mo_reason x))])" for x by simp
  have e: "json_wf (str_or_null e)" for e by (simp add: str_or_null_def split: option.split)
  show ?thesis
    unfolding manifest_json_def json_wf.simps(2)
    using json_wf_numbers [OF assms] c o e by auto
qed

text \<open>A manifest that the program wrote is read back as it was.\<close>

lemma manifest_read_back:
  assumes "bm_schemaVersion m = BACKUP_SCHEMA_VERSION" "bm_sessionId m \<noteq> ''''" "bm_projectId m \<noteq> ''''" "bm_scope m \<noteq> ''''"
    and "distinct (map fst (bm_redactionSummary m))"
  shows "parseBackupManifestText (serializeBackupManifest m) = Inr (read_of m)"
proof -
  have "blank [nl]" by (simp add: blank_def is_ws_def)
  then have p: "json_parse (serializeBackupManifest m) = Some (manifest_json m)"
    unfolding serializeBackupManifest_def by (rule parse_pretty [OF manifest_json_wf [OF assms(5)]])
  show ?thesis
    unfolding parseBackupManifestText_def p
    using assms(1-4)
    by (simp add: manifest_json_def schema_issue_def BACKUP_SCHEMA_VERSION_def nonempty_str_def read_of_def Let_def)
qed

section \<open>Reading a chunk back\<close>

definition entry_of :: "BackupView \<Rightarrow> ChunkEntry" where
  "entry_of v = \<lparr>en_id = v_id v, en_parent = Some (str_or_null (v_parentId v))\<rparr>"

lemma chunk_entries_read_back:
  "\<forall>v \<in> set vs. v_id v \<noteq> '''' \<Longrightarrow> chunk_file_entries (map view_json vs) = Inr (map entry_of vs)"
  by (induction vs)
    (simp_all add: view_json_def opt_str_def nonempty_str_def entry_of_def str_or_null_def id_def split: option.split)

lemma chunk_read_back:
  assumes "\<forall>v \<in> set vs. v_id v \<noteq> ''''" "0 \<le> sq"
  shows "parseBackupChunkText sess (serialize_views sess sq vs) = Inr \<lparr>pc_seq = sq, pc_entries = map entry_of vs\<rparr>"
  unfolding parseBackupChunkText_def parse_views
  using assms by (simp add: chunk_json_def schema_issue_def BACKUP_SCHEMA_VERSION_def chunk_entries_read_back id_def)

section \<open>A backup delivered as captured\<close>

text \<open>The chunk was written from the views \<open>vs\<close> (what the delivery of its job writes).\<close>

definition written_from :: "(string \<Rightarrow> string) \<Rightarrow> string \<Rightarrow> ManifestChunk \<Rightarrow> BackupView list \<Rightarrow> bool" where
  "written_from sha256 sess c vs =
     (mc_checksum c = sha256 (serialize_views sess (mc_seq c) vs)
      \<and> mc_byteLength c = int (byteLength (serialize_views sess (mc_seq c) vs)) \<and> mc_entryIds c = map v_id vs)"

definition delivered_texts :: "string \<Rightarrow> ManifestChunk list \<Rightarrow> BackupView list list \<Rightarrow> (int \<times> string) list" where
  "delivered_texts sess cs vss = map2 (\<lambda>c vs. (mc_seq c, serialize_views sess (mc_seq c) vs)) cs vss"

definition delivered_input :: "SessionBackupState \<Rightarrow> string \<Rightarrow> BackupManifest \<Rightarrow> BackupView list list \<Rightarrow> VerifyInput" where
  "delivered_input s sess bm vss =
     \<lparr>vi_manifest = read_of bm, vi_chunks = delivered_texts sess (bs_chunks s) vss, vi_sessionId = sess,
      vi_projectId = bm_projectId bm, vi_scope = Some (bm_scope bm)\<rparr>"

lemma delivered_keys: "length cs = length vss \<Longrightarrow> map fst (delivered_texts sess cs vss) = map mc_seq cs"
  unfolding delivered_texts_def by (induction cs vss rule: list_induct2) auto

lemma delivered_lookup:
  assumes "list_all2 P cs vss" "distinct (map mc_seq cs)"
  shows "list_all2 (\<lambda>c vs. P c vs \<and> map_of (delivered_texts sess cs vss) (mc_seq c) = Some (serialize_views sess (mc_seq c) vs)) cs vss"
proof -
  have l: "length cs = length vss" using assms(1) by (rule list_all2_lengthD)
  have "map_of (delivered_texts sess cs vss) (mc_seq (cs ! k)) = Some (serialize_views sess (mc_seq (cs ! k)) (vss ! k))"
    if k: "k < length cs" for k
  proof (rule map_of_is_SomeI)
    show "distinct (map fst (delivered_texts sess cs vss))" using delivered_keys [OF l] assms(2) by simp
    show "(mc_seq (cs ! k), serialize_views sess (mc_seq (cs ! k)) (vss ! k)) \<in> set (delivered_texts sess cs vss)"
      using k l by (auto simp: delivered_texts_def set_zip intro!: rev_image_eqI [of "(cs ! k, vss ! k)"])
  qed
  then show ?thesis using assms(1) by (simp add: list_all2_conv_all_nth)
qed

lemma delivered_faithful:
  assumes "list_all2 (written_from sha256 sess) cs vss" "distinct (map mc_seq cs)" "\<forall>c \<in> set cs. 0 \<le> mc_seq c"
    and "\<forall>vs \<in> set vss. \<forall>v \<in> set vs. v_id v \<noteq> ''''"
  shows "list_all2 (faithful_record sha256 (delivered_texts sess cs vss) sess) cs (map (map entry_of) vss)"
proof -
  have f: "faithful_record sha256 (delivered_texts sess cs vss) sess c (map entry_of vs)"
    if "written_from sha256 sess c vs \<and> map_of (delivered_texts sess cs vss) (mc_seq c) = Some (serialize_views sess (mc_seq c) vs)"
      "c \<in> set cs" "vs \<in> set vss" for c vs
  proof -
    have "parseBackupChunkText sess (serialize_views sess (mc_seq c) vs) = Inr \<lparr>pc_seq = mc_seq c, pc_entries = map entry_of vs\<rparr>"
      by (rule chunk_read_back) (use assms(3,4) that in auto)
    then show ?thesis using that(1) by (simp add: faithful_record_def written_from_def comp_def entry_of_def)
  qed
  show ?thesis
    unfolding list.rel_map
    by (rule list.rel_mono_strong [OF delivered_lookup [OF assms(1,2), where sess = sess]]) (rule f)
qed

lemma faithful_unique:
  "list_all2 (faithful_record sha256 chunks sess) cs ess \<Longrightarrow> list_all2 (faithful_record sha256 chunks sess) cs ess' \<Longrightarrow> ess = ess'"
  using readable_faithful by metis

text \<open>
  A backup that was delivered exactly as captured, every chunk and the manifest intact, is
  reported as complete exactly when no covered entry was left out of the chunks and every
  chunked entry's parent was chunked before it. An entry that was only recorded as an omission
  (excluded by policy, without content, or internal) therefore makes the whole backup fail its
  verification.
\<close>
theorem delivered_backup_verifies_iff_nothing_omitted:
  assumes "session_inv projectId sess s"
    and "buildBackupManifest isoString sess projectId scp (bs_chunks s) (bs_counts s) (bs_omissions s) (bs_covered s) now = Inr bm"
    and "list_all2 (written_from sha256 sess) (bs_chunks s) vss"
  shows "bv_ok (verifyBackup sha256 (delivered_input s sess bm vss))
    = (bs_covered s = chunked_ids (bs_chunks s) \<and> linked {} (map entry_of (concat vss)))"
proof -
  let ?cs = "bs_chunks s" and ?inp = "delivered_input s sess bm vss"
  have i: "distinct (bs_covered s)" "'''' \<notin> set (bs_covered s)" "map mc_seq ?cs = map int [0..<length ?cs]"
    "subseq (chunked_ids ?cs) (bs_covered s)" using assms(1) by (simp_all add: session_inv_def)
  have bm: "bm_schemaVersion bm = BACKUP_SCHEMA_VERSION" "bm_sessionId bm = sess" "bm_chunks bm = ?cs"
    "bm_entryCount bm = int (length (bs_covered s))"
    "bm_firstEntryId bm = (case bs_covered s of [] \<Rightarrow> None | e # _ \<Rightarrow> Some e)"
    "bm_lastEntryId bm = (if bs_covered s = [] then None else Some (last (bs_covered s)))"
    using assms(2) by (auto simp: buildBackupManifest_def split: if_splits)
  have ids: "chunked_ids ?cs = map v_id (concat vss)"
  proof -
    have "map mc_entryIds ?cs = map (map v_id) vss"
      using assms(3) by (induction rule: list_all2_induct) (simp_all add: written_from_def)
    then show ?thesis by (simp add: chunked_ids_def map_concat)
  qed
  have sub: "set (chunked_ids ?cs) \<subseteq> set (bs_covered s)" "distinct (chunked_ids ?cs)"
    using subseq_facts [OF i(4)] i(1) by simp_all
  have seqs: "distinct (map mc_seq ?cs)" "\<forall>c \<in> set ?cs. 0 \<le> mc_seq c"
  proof -
    show "distinct (map mc_seq ?cs)" unfolding i(3) by (simp add: distinct_map)
    have "mc_seq ` set ?cs = int ` {0..<length ?cs}" using arg_cong [OF i(3), of set] by simp
    then show "\<forall>c \<in> set ?cs. 0 \<le> mc_seq c" by (metis imageE imageI of_nat_0_le_iff)
  qed
  have f: "list_all2 (faithful_record sha256 (delivered_texts sess ?cs vss) sess) ?cs (map (map entry_of) vss)"
    by (rule delivered_faithful [OF assms(3) seqs]) (use sub(1) i(2) ids in fastforce)
  have en: "map en_id (concat (map (map entry_of) vss)) = chunked_ids ?cs"
    by (simp add: ids map_concat comp_def entry_of_def)
  have l: "length ?cs = length vss" using assms(3) by (rule list_all2_lengthD)
  have k: "fst ` set (delivered_texts sess ?cs vss) = mc_seq ` set ?cs"
    using arg_cong [OF delivered_keys [OF l, of sess], of set] by simp
  have cb: "complete_backup sha256 ?inp ess \<longleftrightarrow> ess = map (map entry_of) vss \<and> length (bs_covered s) = length (chunked_ids ?cs)
      \<and> (chunked_ids ?cs \<noteq> [] \<longrightarrow> bm_firstEntryId bm = Some (hd (chunked_ids ?cs)) \<and> bm_lastEntryId bm = Some (last (chunked_ids ?cs)))
      \<and> linked {} (concat ess)" for ess
  proof -
    have "list_all2 (faithful_record sha256 (delivered_texts sess ?cs vss) sess) ?cs ess \<longleftrightarrow> ess = map (map entry_of) vss"
      using faithful_unique [OF f] f by blast
    moreover have "(Some (str_or_null e) = Some (JStr x)) = (e = Some x)" for e x
      by (simp add: str_or_null_def split: option.split)
    ultimately show ?thesis
      unfolding complete_backup_def delivered_input_def Let_def read_of_def using en sub(2) k bm(1,2,3,4)
      by (simp cong: conj_cong)
  qed
  have len: "length (bs_covered s) = length (chunked_ids ?cs) \<longleftrightarrow> bs_covered s = chunked_ids ?cs"
    using subseq_same_length [OF i(4)] by auto
  have ends: "bs_covered s = chunked_ids ?cs \<Longrightarrow> chunked_ids ?cs \<noteq> [] \<Longrightarrow>
      bm_firstEntryId bm = Some (hd (chunked_ids ?cs)) \<and> bm_lastEntryId bm = Some (last (chunked_ids ?cs))"
    unfolding bm by (cases "chunked_ids ?cs") auto
  show ?thesis
    unfolding verification_is_exact map_concat
  proof
    assume "\<exists>ess. complete_backup sha256 ?inp ess"
    then obtain ess where "complete_backup sha256 ?inp ess" ..
    from iffD1 [OF cb this] show "bs_covered s = chunked_ids ?cs \<and> linked {} (concat (map (map entry_of) vss))"
      unfolding len by (elim conjE) (simp only: simp_thms)
  next
    assume a: "bs_covered s = chunked_ids ?cs \<and> linked {} (concat (map (map entry_of) vss))"
    have "complete_backup sha256 ?inp (map (map entry_of) vss)"
      by (rule iffD2 [OF cb], intro conjI impI refl) (use a ends in \<open>simp_all only: len simp_thms\<close>)
    then show "\<exists>ess. complete_backup sha256 ?inp ess" ..
  qed
qed

text \<open>The capture of the example leaves out the entry without content, and so never verifies.\<close>

definition demo_manifest :: BackupManifest where
  "demo_manifest = \<lparr>bm_schemaVersion = 1, bm_sessionId = ''s1'', bm_projectId = ''h/r'', bm_scope = ''project/h/r'',
     bm_firstEntryId = Some ''a'', bm_lastEntryId = Some ''c'', bm_entryCount = 2, bm_chunks = bs_chunks demo_done,
     bm_redactionSummary = [], bm_omissions = bs_omissions demo_done, bm_updatedAt = ''T''\<rparr>"

lemma demo_manifest_built:
  "buildBackupManifest (\<lambda>_. ''T'') ''s1'' ''h/r'' ''project/h/r'' (bs_chunks demo_done) (bs_counts demo_done)
     (bs_omissions demo_done) (bs_covered demo_done) 5 = Inr demo_manifest"
  by (simp add: buildBackupManifest_def demo_manifest_def demo_done_def BACKUP_SCHEMA_VERSION_def)

lemma demo_written: "list_all2 (written_from (\<lambda>_. ''0123456789abcdef'') ''s1'') (bs_chunks demo_done) [pl_candidates demo_policy]"
  by (simp add: demo_done_def written_from_def chunk_record_def demo_draft_def draft_of_def chunkChecksum_def Let_def)

lemma demo_inv: "session_inv ''h/r'' ''s1'' demo_done"
  using demo_steps(6)
  by (auto simp: session_inv_def demo_done_def chunked_ids_def chunk_record_def demo_draft_def draft_of_def Let_def
      demo_policy_def demo_views_def omit_def)

theorem delivered_backup_verifies_iff_nothing_omitted_witness:
  "\<not> bv_ok (verifyBackup (\<lambda>_. ''0123456789abcdef'') (delivered_input demo_done ''s1'' demo_manifest [pl_candidates demo_policy]))"
  using delivered_backup_verifies_iff_nothing_omitted [OF demo_inv demo_manifest_built demo_written]
  by (simp add: demo_done_def chunked_ids_def chunk_record_def demo_draft_def draft_of_def Let_def demo_policy_def demo_views_def)

end
