(* ===== verification/BackupRecovery.thy ===== *)
theory BackupRecovery
  imports BackupRoundtrip
begin

text \<open>
  Capture, backend and recovery together: the read-only fetch (src/backup/recovery.ts) over a
  backend that serves the pages the deliveries wrote gives back the manifest and every chunk,
  and their verification.
\<close>

section \<open>A backend that serves pages\<close>

definition serves :: "'s transport \<Rightarrow> (string \<Rightarrow> string option) \<Rightarrow> bool" where
  "serves transport pages =
     (\<forall>path s. transport KiwiRead [(''path'', JStr path)] s =
        (case pages path of
           Some t \<Rightarrow> (Inr \<lparr>isError = False, res_text = t, res_meta = []\<rparr>, s)
         | None \<Rightarrow> (Inr \<lparr>isError = True, res_text = ''file not found'', res_meta = []\<rparr>, s)))"

lemma served_page:
  assumes "serves transport pages" "length path \<le> PATH_MAX_CHARS" "pages path = Some t" "\<not> prefix (fence @ [nl]) t"
  shows "\<exists>tr rd. adapter_read transport ab path None s = (Inr rd, tr, s) \<and> rd_state rd = RdOk \<and> rd_body rd = t"
  using assms
  by (simp add: adapter_read_def assertValidPath_def call_def callTool_def serves_def read_result_def parseFrontmatter_def)

lemma not_found_text: "says_not_found (''backend rejected '' @ tool_name KiwiRead @ '': '' @ sanitizeMessage ''file not found'')"
  by code_simp

lemma served_missing:
  assumes "serves transport pages" "length path \<le> PATH_MAX_CHARS" "pages path = None"
  shows "\<exists>tr. adapter_read transport ab path None s = (Inr missing_read, tr, s)"
  using assms not_found_text
  by (simp add: adapter_read_def assertValidPath_def call_def callTool_def serves_def validation_def isRetryable_iff is_validation_def)

lemma json_text_no_fence: "\<not> prefix (fence @ [nl]) (pretty (JObj ms) @ w)"
  by (cases ms) (simp_all add: pretty_def)

section \<open>Path lengths\<close>

lemma show_nat_length: "n < 10 ^ k \<Longrightarrow> 0 < k \<Longrightarrow> length (show_nat n) \<le> k"
proof (induction k arbitrary: n)
  case (Suc k)
  show ?case
  proof (cases "n < 10")
    case True
    then show ?thesis by (simp add: show_nat.simps)
  next
    case False
    then have k: "0 < k" using Suc.prems by (cases k) auto
    have "n div 10 < 10 ^ k" using Suc.prems(1) by (simp add: less_mult_imp_div_less mult.commute)
    then have "length (show_nat (n div 10)) \<le> k" using Suc.IH k by blast
    then show ?thesis using False by (subst show_nat.simps) simp
  qed
qed simp

lemma chunk_path_length:
  assumes "backupChunkPath pid sess sq = Inr p"
  shows "length p \<le> length pid + length sess + 18"
proof -
  note f = backupChunkPath_Inr [OF assms]
  have p: "p = ''backup/'' @ pid @ ''/'' @ sess @ ''/'' @ pad_start 6 (CHR ''0'') (show_nat (nat sq)) @ ''.md''"
    using assms by (auto simp: backupChunkPath_def split: sum.splits if_splits)
  have "nat sq < 10 ^ 6" using f(4) by simp
  then have "length (show_nat (nat sq)) \<le> 6" by (rule show_nat_length) simp
  then show ?thesis by (simp add: p pad_start_def)
qed

lemma manifest_path_length:
  "backupManifestPath pid sess = Inr p \<Longrightarrow> length p \<le> length pid + length sess + 21"
  by (auto simp: backupManifestPath_def split: sum.splits)

section \<open>Fetching what was delivered\<close>

lemma chunk_text_no_fence: "\<not> prefix (fence @ [nl]) (serialize_views sess sq vs)"
  unfolding serialize_views_def serializeChunk_def chunk_json_def by (rule json_text_no_fence)

lemma read_chunk_served:
  assumes "serves transport pages" "length pid + length sess \<le> 400" "backupChunkPath pid sess sq = Inr p"
    and "pages p = Some t" "\<not> prefix (fence @ [nl]) t" "sq \<notin> fst ` set chunks"
  shows "\<exists>tr. read_chunk transport ab pid sess sq chunks s = (Inr (True, chunks @ [(sq, t)]), tr, s)"
proof -
  have "length p \<le> PATH_MAX_CHARS" using chunk_path_length [OF assms(3)] assms(2) by (simp add: PATH_MAX_CHARS_def)
  from served_page [OF assms(1) this assms(4,5)] obtain tr rd where
    "adapter_read transport ab p None s = (Inr rd, tr, s)" "rd_state rd = RdOk" "rd_body rd = t" by blast
  moreover have "AList.update sq t chunks = chunks @ [(sq, t)]" using assms(6) by (induction chunks) auto
  ultimately show ?thesis using assms(3) by (simp add: read_chunk_def)
qed

lemma read_chunks_served:
  assumes "serves transport pages" "length pid + length sess \<le> 400"
    and "list_all2 (\<lambda>c vs. backupChunkPath pid sess (mc_seq c) = Inr (mc_path c) \<and> pages (mc_path c) = Some (serialize_views sess (mc_seq c) vs)) cs vss"
    and "distinct (map mc_seq cs)" "fst ` set chunks \<inter> mc_seq ` set cs = {}"
  shows "\<exists>tr. read_chunks transport ab pid sess (map mc_seq cs) chunks s = (Inr (chunks @ delivered_texts sess cs vss), tr, s)"
  using assms(3-5)
proof (induction cs vss arbitrary: chunks rule: list_all2_induct)
  case Nil
  then show ?case by (simp add: delivered_texts_def)
next
  case (Cons c cs vs vss)
  let ?t = "serialize_views sess (mc_seq c) vs"
  obtain t1 where r: "read_chunk transport ab pid sess (mc_seq c) chunks s = (Inr (True, chunks @ [(mc_seq c, ?t)]), t1, s)"
    using read_chunk_served [OF assms(1,2), where t = ?t] Cons.hyps(1) Cons.prems chunk_text_no_fence by fastforce
  have "fst ` set (chunks @ [(mc_seq c, ?t)]) \<inter> mc_seq ` set cs = {}" using Cons.prems by auto
  moreover have "distinct (map mc_seq cs)" using Cons.prems by simp
  ultimately obtain t2 where "read_chunks transport ab pid sess (map mc_seq cs) (chunks @ [(mc_seq c, ?t)]) s
      = (Inr ((chunks @ [(mc_seq c, ?t)]) @ delivered_texts sess cs vss), t2, s)"
    using Cons.IH by blast
  then show ?case using r by (simp add: delivered_texts_def)
qed

lemma max_seq_upto: "max_seq (map int [0..<n]) = int n - 1"
proof (cases n)
  case (Suc k)
  have "Max (set (map int [0..<Suc k])) = int k" by (rule Max_eqI) auto
  then show ?thesis using Suc by (simp only: max_seq_def) simp
qed (simp add: max_seq_def)

lemma fetch_served:
  assumes "serves transport pages" "length pid + length sess \<le> 400"
    and "list_all2 (\<lambda>c vs. backupChunkPath pid sess (mc_seq c) = Inr (mc_path c) \<and> pages (mc_path c) = Some (serialize_views sess (mc_seq c) vs)) (rm_chunks m) vss"
    and "map mc_seq (rm_chunks m) = map int [0..<length (rm_chunks m)]"
    and "\<forall>p. backupChunkPath pid sess (int (length (rm_chunks m))) = Inr p \<longrightarrow> pages p = None"
  shows "\<exists>tr. fetch_chunks transport ab pid sess txt' m s = (Inr (FbFetched txt' m (delivered_texts sess (rm_chunks m) vss) []), tr, s)"
proof -
  let ?cs = "rm_chunks m" and ?n = "length (rm_chunks m)"
  have "distinct (map mc_seq ?cs)" unfolding assms(4) by (simp add: distinct_map)
  from read_chunks_served [OF assms(1,2,3) this, of "[]"] obtain t1 where
    r: "read_chunks transport ab pid sess (map mc_seq ?cs) [] s = (Inr (delivered_texts sess ?cs vss), t1, s)" by auto
  have ms: "max_seq (map mc_seq ?cs) = int ?n - 1" unfolding assms(4) by (rule max_seq_upto)
  show ?thesis
  proof (cases "0 \<le> int ?n - 1 \<and> int ?n \<le> MAX_CHUNK_SEQ")
    case False
    then have "\<not> (0 \<le> max_seq (map mc_seq ?cs) \<and> max_seq (map mc_seq ?cs) + 1 \<le> MAX_CHUNK_SEQ)" using ms by simp
    then show ?thesis using r unfolding fetch_chunks_def Let_def by (simp only: prod.case sum.case if_False) blast
  next
    case True
    then obtain c where c: "c \<in> set ?cs" by (cases ?cs) auto
    then have "\<exists>q. backupChunkPath pid sess (mc_seq c) = Inr q" using assms(3) by (auto simp: list_all2_conv_all_nth in_set_conv_nth)
    then obtain q where q: "backupChunkPath pid sess (int ?n) = Inr q"
      using True by (auto simp: backupChunkPath_def MAX_CHUNK_SEQ_def split: sum.splits if_splits)
    have "length q \<le> PATH_MAX_CHARS" using chunk_path_length [OF q] assms(2) by (simp add: PATH_MAX_CHARS_def)
    from served_missing [OF assms(1) this] obtain t2 where
      "adapter_read transport ab q None s = (Inr missing_read, t2, s)" using assms(5) q by blast
    then have "read_chunk transport ab pid sess (int ?n) (delivered_texts sess ?cs vss) s
        = (Inr (False, delivered_texts sess ?cs vss), t2, s)"
      using q by (simp add: read_chunk_def missing_read_def)
    then show ?thesis using r ms True by (simp add: fetch_chunks_def Let_def)
  qed
qed

text \<open>
  C22. What was captured is what recovery gets back: when the backend serves the delivered manifest
  and chunk pages of a session and nothing beyond them, fetching and verifying the remote backup
  gives the verification of exactly the delivered texts, without changing the backend, and the
  backup is complete exactly when no covered entry was left out of the chunks and every parent
  was chunked before its entry.
\<close>
theorem captured_backup_is_recovered:
  assumes "session_inv pid sess s" "distinct (map fst (bs_counts s))" "scp \<noteq> ''''" "length pid + length sess \<le> 400"
    and "buildBackupManifest isoString sess pid scp (bs_chunks s) (bs_counts s) (bs_omissions s) (bs_covered s) now = Inr bm"
    and "list_all2 (written_from sha256 sess) (bs_chunks s) vss"
    and "serves transport pages" "backupManifestPath pid sess = Inr mp" "pages mp = Some (serializeBackupManifest bm)"
    and "list_all2 (\<lambda>c vs. pages (mc_path c) = Some (serialize_views sess (mc_seq c) vs)) (bs_chunks s) vss"
    and "\<forall>p. backupChunkPath pid sess (bs_nextSeq s) = Inr p \<longrightarrow> pages p = None"
  shows "\<exists>bv tr. verifyRemoteBackup sha256 transport ab pid sess (Some scp) st
      = (Inr (RvVerified bv (delivered_texts sess (bs_chunks s) vss) (serializeBackupManifest bm)), tr, st)
    \<and> bv_ok bv = (bs_covered s = chunked_ids (bs_chunks s) \<and> linked {} (map entry_of (concat vss)))"
proof -
  have bm: "bm_schemaVersion bm = BACKUP_SCHEMA_VERSION" "bm_sessionId bm = sess" "bm_projectId bm = pid" "bm_scope bm = scp"
    "bm_chunks bm = bs_chunks s" "bm_redactionSummary bm = bs_counts s"
    using assms(5) by (auto simp: buildBackupManifest_def split: if_splits)
  have ne: "sess \<noteq> ''''" "pid \<noteq> ''''"
    using assms(8) by (auto simp: backupManifestPath_def validateId_def ID_GRAMMAR_def validateProjectId_def trim_def
        split: sum.splits if_splits)
  have parse: "parseBackupManifestText (serializeBackupManifest bm) = Inr (read_of bm)"
    by (rule manifest_read_back) (use bm ne assms(2,3) in simp_all)
  have i: "map mc_seq (bs_chunks s) = map int [0..<length (bs_chunks s)]" "bs_nextSeq s = int (length (bs_chunks s))"
    "\<forall>c \<in> set (bs_chunks s). backupChunkPath pid sess (mc_seq c) = Inr (mc_path c)"
    using assms(1) by (simp_all add: session_inv_def)
  have pages: "list_all2 (\<lambda>c vs. backupChunkPath pid sess (mc_seq c) = Inr (mc_path c)
      \<and> pages (mc_path c) = Some (serialize_views sess (mc_seq c) vs)) (bs_chunks s) vss"
    using assms(10) i(3) by (auto simp: list_all2_conv_all_nth)
  have rmc: "rm_chunks (read_of bm) = bs_chunks s" by (simp add: read_of_def bm(5))
  obtain tr2 where f: "fetch_chunks transport ab pid sess (serializeBackupManifest bm) (read_of bm) st
      = (Inr (FbFetched (serializeBackupManifest bm) (read_of bm) (delivered_texts sess (bs_chunks s) vss) []), tr2, st)"
    using fetch_served [OF assms(7,4), of "read_of bm" vss ab "serializeBackupManifest bm" st] pages i(1,2) assms(11)
    unfolding rmc by auto
  have "length mp \<le> PATH_MAX_CHARS" using manifest_path_length [OF assms(8)] assms(4) by (simp add: PATH_MAX_CHARS_def)
  moreover have "\<not> prefix (fence @ [nl]) (serializeBackupManifest bm)"
    unfolding serializeBackupManifest_def manifest_json_def by (rule json_text_no_fence)
  ultimately obtain tr1 rd where r: "adapter_read transport ab mp None st = (Inr rd, tr1, st)" "rd_state rd = RdOk"
    "rd_body rd = serializeBackupManifest bm"
    using served_page [OF assms(7) _ assms(9)] by blast
  have "fetchRemoteBackup transport ab pid sess st
      = (Inr (FbFetched (serializeBackupManifest bm) (read_of bm) (delivered_texts sess (bs_chunks s) vss) []), tr1 @ tr2, st)"
    by (simp add: fetchRemoteBackup_def assms(8) r parse f)
  then have "verifyRemoteBackup sha256 transport ab pid sess (Some scp) st
      = (Inr (RvVerified (verifyBackup sha256 (delivered_input s sess bm vss)) (delivered_texts sess (bs_chunks s) vss)
          (serializeBackupManifest bm)), tr1 @ tr2, st)"
    by (simp add: verifyRemoteBackup_def delivered_input_def bm(3,4))
  then show ?thesis
    using delivered_backup_verifies_iff_nothing_omitted [OF assms(1,5,6)] by blast
qed

section \<open>A backup that verifies\<close>

definition full_done :: SessionBackupState where
  "full_done = demo_done\<lparr>bs_covered := [''a''], bs_omissions := []\<rparr>"

definition full_manifest :: BackupManifest where
  "full_manifest = demo_manifest\<lparr>bm_lastEntryId := Some ''a'', bm_entryCount := 1, bm_omissions := []\<rparr>"

definition full_pages :: "string \<Rightarrow> string option" where
  "full_pages p =
     (if p = ''backup/h/r/s1/manifest.md'' then Some (serializeBackupManifest full_manifest)
      else if p = ''backup/h/r/s1/000000.md'' then Some (serialize_views ''s1'' 0 (pl_candidates demo_policy))
      else None)"

definition page_transport :: "(string \<Rightarrow> string option) \<Rightarrow> unit transport" where
  "page_transport pages tool args s =
     (case args of
        [(k, JStr path)] \<Rightarrow>
          (case pages path of
             Some t \<Rightarrow> (Inr \<lparr>isError = False, res_text = t, res_meta = []\<rparr>, s)
           | None \<Rightarrow> (Inr \<lparr>isError = True, res_text = ''file not found'', res_meta = []\<rparr>, s))
      | _ \<Rightarrow> (Inl (validation ''''), s))"

lemma page_transport_serves: "serves (page_transport pages) pages"
  by (simp add: serves_def page_transport_def split: option.split)

lemma full_inv: "session_inv ''h/r'' ''s1'' full_done"
  using demo_steps(6)
  by (auto simp: session_inv_def full_done_def demo_done_def chunked_ids_def chunk_record_def demo_draft_def draft_of_def Let_def
      demo_policy_def demo_views_def omit_def)

lemma full_manifest_built:
  "buildBackupManifest (\<lambda>_. ''T'') ''s1'' ''h/r'' ''project/h/r'' (bs_chunks full_done) (bs_counts full_done)
     (bs_omissions full_done) (bs_covered full_done) 5 = Inr full_manifest"
  by (simp add: buildBackupManifest_def full_manifest_def demo_manifest_def full_done_def demo_done_def BACKUP_SCHEMA_VERSION_def)

lemma full_written: "list_all2 (written_from (\<lambda>_. ''0123456789abcdef'') ''s1'') (bs_chunks full_done) [pl_candidates demo_policy]"
  using demo_written by (simp add: full_done_def)

lemma full_paths:
  "backupManifestPath ''h/r'' ''s1'' = Inr ''backup/h/r/s1/manifest.md''"
  "backupChunkPath ''h/r'' ''s1'' 1 = Inr ''backup/h/r/s1/000001.md''"
  by code_simp+

theorem captured_backup_is_recovered_witness:
  "\<exists>bv tr. verifyRemoteBackup (\<lambda>_. ''0123456789abcdef'') (page_transport full_pages) False ''h/r'' ''s1'' (Some ''project/h/r'') ()
      = (Inr (RvVerified bv (delivered_texts ''s1'' (bs_chunks full_done) [pl_candidates demo_policy])
           (serializeBackupManifest full_manifest)), tr, ())
    \<and> bv_ok bv"
proof -
  have d: "cd_seq demo_draft = 0" "cd_entryIds demo_draft = [''a'']"
    by (simp_all add: demo_draft_def draft_of_def Let_def demo_policy_def demo_views_def)
  have served: "list_all2 (\<lambda>c vs. full_pages (mc_path c) = Some (serialize_views ''s1'' (mc_seq c) vs)) (bs_chunks full_done)
      [pl_candidates demo_policy]"
    by (simp add: full_done_def demo_done_def chunk_record_def full_pages_def d)
  have beyond: "\<forall>p. backupChunkPath ''h/r'' ''s1'' (bs_nextSeq full_done) = Inr p \<longrightarrow> full_pages p = None"
    using full_paths(2) by (simp add: full_done_def demo_done_def full_pages_def)
  have start: "distinct (map fst (bs_counts full_done))" "length ''h/r'' + length ''s1'' \<le> 400"
    "full_pages ''backup/h/r/s1/manifest.md'' = Some (serializeBackupManifest full_manifest)" "''project/h/r'' \<noteq> ''''"
    by (simp_all add: full_done_def demo_done_def full_pages_def)
  have "bs_covered full_done = chunked_ids (bs_chunks full_done) \<and> linked {} (map entry_of (concat [pl_candidates demo_policy]))"
    by (simp add: full_done_def demo_done_def chunked_ids_def chunk_record_def d linked_def unlinked_def entry_of_def
        str_or_null_def demo_policy_def demo_views_def)
  then show ?thesis
    using captured_backup_is_recovered [OF full_inv start(1,4,2) full_manifest_built full_written page_transport_serves
        full_paths(1) start(3) served beyond] by simp
qed

end
