(* ===== verification/BackupRestore.thy ===== *)
theory BackupRestore
  imports BackupVerify
begin

text \<open>
  Non-destructive export of a verified backup (exportBackup and its helpers of
  src/backup/verify.ts). The file tree is an association list from paths to nodes. Before its
  \<open>k\<close>-th write another process may plant nodes anywhere that is free; every operation may fail
  (\<open>export_env\<close>). Permissions are left out, and the fixed lines of the summary that use characters
  outside the model's alphabet are arguments (\<open>xp_fixed\<close>). The destination is the resolved one.
\<close>

section \<open>The file tree\<close>

datatype node = DirNode | FileNode string | LinkNode

type_synonym tree = "(string \<times> node) list"

datatype write_fault = WfOk | WfOpen | WfWrite string

datatype mkdir_fault = MkNoParent | MkOther

record export_env =
  xp_plant :: "nat \<Rightarrow> tree"
  xp_fault :: "nat \<Rightarrow> write_fault"
  xp_mkdir :: "nat \<Rightarrow> mkdir_fault option"
  xp_chmod :: "nat \<Rightarrow> bool"
  xp_swapped :: bool
  xp_rm :: "string \<Rightarrow> bool"
  xp_fixed :: "nat \<Rightarrow> string"

definition plant_node :: "tree \<Rightarrow> string \<times> node \<Rightarrow> tree" where
  "plant_node fs pn = (if map_of fs (fst pn) = None then pn # fs else fs)"

definition plant :: "export_env \<Rightarrow> nat \<Rightarrow> tree \<Rightarrow> tree" where
  "plant env k fs = foldl plant_node fs (xp_plant env k)"

datatype export_error = ExportRefused | ExportIo | ExportTypeError

text \<open>\<open>writePrivateFile\<close>: exclusive creation; the path is on the ledger once the open succeeded.\<close>

definition writePrivateFile ::
  "export_env \<Rightarrow> nat \<Rightarrow> string \<Rightarrow> string \<Rightarrow> tree \<Rightarrow> string list \<Rightarrow> bool \<times> tree \<times> string list" where
  "writePrivateFile env k path content fs owned =
     (let fs1 = plant env k fs in
      if map_of fs1 path \<noteq> None then (False, fs1, owned)
      else (case xp_fault env k of
          WfOpen \<Rightarrow> (False, fs1, owned)
        | WfWrite part \<Rightarrow> (False, (path, FileNode part) # fs1, owned @ [path])
        | WfOk \<Rightarrow> (True, (path, FileNode content) # fs1, owned @ [path])))"

definition make_dir :: "export_env \<Rightarrow> nat \<Rightarrow> string \<Rightarrow> tree \<Rightarrow> bool \<times> tree" where
  "make_dir env k path fs =
     (let fs1 = plant env k fs in
      if map_of fs1 path \<noteq> None \<or> xp_mkdir env k \<noteq> None then (False, fs1) else (True, (path, DirNode) # fs1))"

definition remove_file :: "export_env \<Rightarrow> tree \<Rightarrow> string \<Rightarrow> tree" where
  "remove_file env fs p = (if xp_rm env p then AList.delete p fs else fs)"

definition remove_dir :: "export_env \<Rightarrow> tree \<Rightarrow> string \<Rightarrow> tree" where
  "remove_dir env fs d =
     (if xp_rm env d \<and> map_of fs d = Some DirNode \<and> list_all (\<lambda>pn. \<not> prefix (d @ ''/'') (fst pn)) fs
      then AList.delete d fs else fs)"

definition cleanupOwned :: "export_env \<Rightarrow> string \<Rightarrow> string list \<Rightarrow> tree \<Rightarrow> tree" where
  "cleanupOwned env dest owned fs =
     foldl (remove_dir env) (foldl (remove_file env) fs owned) [dest @ ''/chunks'', dest]"

section \<open>The summary\<close>

definition js_text :: "json option \<Rightarrow> string" where
  "js_text j = (case j of None \<Rightarrow> ''undefined'' | Some v \<Rightarrow> js_string v)"

text \<open>\<open>Object.entries\<close>; on undefined and null it throws.\<close>

definition object_entries :: "json option \<Rightarrow> (string \<times> json) list option" where
  "object_entries j =
     (case j of
        None \<Rightarrow> None
      | Some JNull \<Rightarrow> None
      | Some (JObj ms) \<Rightarrow> Some ms
      | Some (JArr xs) \<Rightarrow> Some (zip (map (show_int \<circ> int) [0..<length xs]) xs)
      | Some (JStr s) \<Rightarrow> Some (zip (map (show_int \<circ> int) [0..<length s]) (map (\<lambda>c. JStr [c]) s))
      | _ \<Rightarrow> Some [])"

definition redaction_lines :: "json option \<Rightarrow> string list option" where
  "redaction_lines j =
     (case object_entries j of
        None \<Rightarrow> None
      | Some [] \<Rightarrow> Some [''(none recorded)'']
      | Some es \<Rightarrow> Some (map (\<lambda>(k, v). ''- '' @ k @ '': '' @ js_string v) es))"

fun omission_lines :: "json list \<Rightarrow> string list option" where
  "omission_lines [] = Some []"
| "omission_lines (x # xs) =
     (if x = JNull then None
      else map_option ((#) (''- '' @ js_text (map_of (members_of x) ''entryId'') @ '': '' @ js_text (map_of (members_of x) ''reason'')))
             (omission_lines xs))"

text \<open>The manifest's omissions: \<open>v.manifest.omissions.length\<close> throws when the member is absent.\<close>

definition omission_section :: "json option \<Rightarrow> string list option" where
  "omission_section j =
     (case j of
        Some (JArr []) \<Rightarrow> Some [''(none recorded)'']
      | Some (JArr xs) \<Rightarrow> omission_lines xs
      | _ \<Rightarrow> None)"

definition summary_text :: "export_env \<Rightarrow> BackupVerification \<Rightarrow> string option" where
  "summary_text env v =
     (let m = bv_manifest v; obj = members_of (rm_json m) in
      case (redaction_lines (map_of obj ''redactionSummary''), omission_section (map_of obj ''omissions'')) of
        (Some rs, Some os) \<Rightarrow>
          Some (join_with [nl] (filter (\<lambda>l. l \<noteq> '''')
            ([''# KiwiFS backup export'', '''', ''session: '' @ rm_sessionId m, ''scope: '' @ rm_scope m,
              ''entries covered: '' @ show_int (int (length (bv_covered v))) @ '' (manifest declares '' @ show_int (rm_entryCount m) @ '')'',
              ''chunks: '' @ show_int (int (length (rm_chunks m))), xp_fixed env 0,
              ''fidelity: '' @ (if bv_ok v then ''complete with recorded redactions and omissions (not byte-identical)''
                                else ''incomplete or corrupted''),
              '''', xp_fixed env 1, ''''] @ rs
             @ ['''', ''## Omissions (content absent from this backup, with reasons)'', ''''] @ os @ ['''', xp_fixed env 2, ''''])))
      | _ \<Rightarrow> None)"

section \<open>Export\<close>

definition chunk_file :: "string \<Rightarrow> int \<Rightarrow> string" where
  "chunk_file dir sq = dir @ ''/'' @ pad_start 6 (CHR ''0'') (show_int sq) @ ''.md''"

fun write_chunk_files ::
  "export_env \<Rightarrow> nat \<Rightarrow> string \<Rightarrow> (int \<times> string) list \<Rightarrow> ManifestChunk list \<Rightarrow> tree \<Rightarrow> string list \<Rightarrow> bool \<times> nat \<times> tree \<times> string list" where
  "write_chunk_files env k dir chunks [] fs owned = (True, k, fs, owned)"
| "write_chunk_files env k dir chunks (rec # recs) fs owned =
     (case map_of chunks (mc_seq rec) of
        None \<Rightarrow> write_chunk_files env k dir chunks recs fs owned
      | Some content \<Rightarrow>
          (case writePrivateFile env k (chunk_file dir (mc_seq rec)) content fs owned of
             (False, fs1, owned1) \<Rightarrow> (False, Suc k, fs1, owned1)
           | (True, fs1, owned1) \<Rightarrow> write_chunk_files env (Suc k) dir chunks recs fs1 owned1))"

text \<open>What is written once the destination is claimed: manifest, chunk directory, chunks, summary.\<close>

definition write_export ::
  "export_env \<Rightarrow> BackupVerification \<Rightarrow> (int \<times> string) list \<Rightarrow> string \<Rightarrow> tree \<Rightarrow> (export_error + string list) \<times> tree" where
  "write_export env v chunks dest fs =
     (case writePrivateFile env 1 (dest @ ''/manifest.md'') (pretty (rm_json (bv_manifest v)) @ [nl]) fs [] of
        (False, fs1, own1) \<Rightarrow> (Inl ExportIo, cleanupOwned env dest own1 fs1)
      | (True, fs1, own1) \<Rightarrow>
          (case make_dir env 2 (dest @ ''/chunks'') fs1 of
             (False, fs2) \<Rightarrow> (Inl ExportIo, cleanupOwned env dest own1 fs2)
           | (True, fs2) \<Rightarrow>
               if \<not> xp_chmod env 2 then (Inl ExportIo, cleanupOwned env dest own1 fs2)
               else (case write_chunk_files env 3 (dest @ ''/chunks'') chunks (rm_chunks (bv_manifest v)) fs2 own1 of
                   (False, k, fs3, own3) \<Rightarrow> (Inl ExportIo, cleanupOwned env dest own3 fs3)
                 | (True, k, fs3, own3) \<Rightarrow>
                     (case summary_text env v of
                        None \<Rightarrow> (Inl ExportTypeError, fs3)
                      | Some txt' \<Rightarrow>
                          (case writePrivateFile env k (dest @ ''/export-summary.md'') txt' fs3 own3 of
                             (False, fs4, own4) \<Rightarrow> (Inl ExportIo, cleanupOwned env dest own4 fs4)
                           | (True, fs4, own4) \<Rightarrow> (Inr own4, fs4))))))"

definition exportBackup ::
  "export_env \<Rightarrow> BackupVerification \<Rightarrow> (int \<times> string) list \<Rightarrow> string \<Rightarrow> tree \<Rightarrow> (export_error + string list) \<times> tree" where
  "exportBackup env v chunks dest fs =
     (if \<not> bv_ok v then (Inl ExportRefused, fs)
      else if rm_schemaVersion (bv_manifest v) > BACKUP_SCHEMA_VERSION then (Inl ExportRefused, fs)
      else if dest = '''' \<or> dest = ''/'' \<or> length dest < 2 then (Inl ExportRefused, fs)
      else (case make_dir env 0 dest fs of
          (False, fs1) \<Rightarrow> (Inl (if map_of fs1 dest \<noteq> None \<or> xp_mkdir env 0 = Some MkNoParent then ExportRefused else ExportIo), fs1)
        | (True, fs1) \<Rightarrow>
            if xp_swapped env then (Inl ExportRefused, fs1)
            else if \<not> xp_chmod env 0 then (Inl ExportIo, fs1)
            else write_export env v chunks dest fs1))"

section \<open>Only what the export created\<close>

text \<open>The tree as it would be had the export not run: only the other processes' nodes are added.\<close>

definition others :: "export_env \<Rightarrow> nat list \<Rightarrow> tree \<Rightarrow> tree" where
  "others env ks fs = foldl (\<lambda>t k. plant env k t) fs ks"

definition apart :: "string set \<Rightarrow> tree \<Rightarrow> tree \<Rightarrow> bool" where
  "apart own g fs = (\<forall>p. p \<notin> own \<longrightarrow> map_of fs p = map_of g p)"

lemma others_snoc: "others env (ks @ [k]) fs = plant env k (others env ks fs)"
  by (simp add: others_def)

lemma plant_apart: "apart own g fs \<Longrightarrow> apart own (plant env k g) (plant env k fs)"
  unfolding plant_def
proof (induction "xp_plant env k" arbitrary: g fs rule: rev_induct)
  case (snoc pn ns)
  have "apart own (foldl plant_node g ms) (foldl plant_node fs ms)" for ms
    using snoc.prems by (induction ms rule: rev_induct) (auto simp: apart_def plant_node_def)
  then show ?case .
qed simp

lemma plant_keeps: "map_of fs p = Some n \<Longrightarrow> map_of (plant env k fs) p = Some n"
proof -
  have "map_of (foldl plant_node fs ms) p = Some n" if "map_of fs p = Some n" for ms
    using that by (induction ms rule: rev_induct) (auto simp: plant_node_def)
  then show "map_of fs p = Some n \<Longrightarrow> map_of (plant env k fs) p = Some n" by (simp add: plant_def)
qed

lemma others_keep: "map_of fs p = Some n \<Longrightarrow> map_of (others env ks fs) p = Some n"
  by (induction ks arbitrary: fs) (auto simp: others_def plant_keeps)

text \<open>
  The invariant of the export: outside the paths it created the tree is the other processes',
  and none of the paths it created existed before.
\<close>

definition export_inv :: "export_env \<Rightarrow> tree \<Rightarrow> string \<Rightarrow> nat list \<Rightarrow> string set \<Rightarrow> tree \<Rightarrow> bool" where
  "export_inv env fs0 dest ks own fs =
     (apart own (others env ks fs0) fs \<and> own \<inter> dom (map_of fs0) = {} \<and> own \<subseteq> {p. p = dest \<or> prefix (dest @ ''/'') p})"

lemma export_inv_create:
  assumes "export_inv env fs0 dest ks own fs" "map_of (plant env k fs) path = None" "path = dest \<or> prefix (dest @ ''/'') path"
  shows "export_inv env fs0 dest (ks @ [k]) (insert path own) ((path, x) # plant env k fs)"
proof -
  have a: "apart own (others env (ks @ [k]) fs0) (plant env k fs)"
    using assms(1) plant_apart unfolding export_inv_def others_snoc by blast
  then have "apart (insert path own) (others env (ks @ [k]) fs0) ((path, x) # plant env k fs)"
    by (auto simp: apart_def)
  moreover have "map_of fs0 path = None"
  proof (cases "path \<in> own")
    case True
    then show ?thesis using assms(1) by (auto simp: export_inv_def domIff)
  next
    case False
    then show ?thesis
      using a assms(2) others_keep [of fs0 path _ env "ks @ [k]"] by (cases "map_of fs0 path") (auto simp: apart_def)
  qed
  ultimately show ?thesis using assms(1,3) by (auto simp: export_inv_def)
qed

lemma export_inv_plant: "export_inv env fs0 dest ks own fs \<Longrightarrow> export_inv env fs0 dest (ks @ [k]) own (plant env k fs)"
  unfolding export_inv_def others_snoc using plant_apart by blast

lemma export_inv_delete:
  assumes "export_inv env fs0 dest ks own fs" "p \<in> own"
  shows "export_inv env fs0 dest ks own (AList.delete p fs)"
proof -
  have "map_of (AList.delete p fs) q = map_of fs q" if "q \<notin> own" for q using that assms(2) by (auto simp: delete_conv')
  then show ?thesis using assms(1) by (simp add: export_inv_def apart_def)
qed

lemma write_inv:
  assumes "export_inv env fs0 dest ks own fs" "writePrivateFile env k path content fs owned = (ok, fs1, owned1)"
    and "prefix (dest @ ''/'') path" "set owned \<subseteq> own"
  shows "\<exists>own1. export_inv env fs0 dest (ks @ [k]) own1 fs1 \<and> own \<subseteq> own1 \<and> set owned1 \<subseteq> own1
    \<and> (ok \<longrightarrow> map_of fs1 path = Some (FileNode content)) \<and> (\<forall>q n. map_of fs q = Some n \<longrightarrow> map_of fs1 q = Some n)
    \<and> (ok \<longrightarrow> owned1 = owned @ [path])"
proof (cases "map_of (plant env k fs) path")
  case (Some n)
  then have "\<not> ok" "fs1 = plant env k fs" "owned1 = owned" using assms(2) by (simp_all add: writePrivateFile_def Let_def)
  then show ?thesis using assms(4) export_inv_plant [OF assms(1)] plant_keeps by blast
next
  case None
  note c = export_inv_create [OF assms(1) None disjI2 [OF assms(3)]]
  have keep: "map_of fs q = Some n \<Longrightarrow> map_of ((path, x) # plant env k fs) q = Some n" for q n x
    using plant_keeps [of fs q n env k] None by auto
  show ?thesis
  proof (cases "xp_fault env k")
    case WfOpen
    then have "\<not> ok" "fs1 = plant env k fs" "owned1 = owned" using assms(2) None by (simp_all add: writePrivateFile_def Let_def)
    then show ?thesis using assms(4) export_inv_plant [OF assms(1)] plant_keeps by blast
  next
    case (WfWrite part)
    then have w: "fs1 = (path, FileNode part) # plant env k fs" "owned1 = owned @ [path]" "\<not> ok"
      using assms(2) None by (simp_all add: writePrivateFile_def Let_def)
    show ?thesis unfolding w(1,2)
      by (rule exI [of _ "insert path own"], intro conjI c allI impI) (use keep assms(4) w(3) in \<open>simp_all, blast+\<close>)
  next
    case WfOk
    then have w: "fs1 = (path, FileNode content) # plant env k fs" "owned1 = owned @ [path]"
      using assms(2) None by (simp_all add: writePrivateFile_def Let_def)
    show ?thesis unfolding w
      by (rule exI [of _ "insert path own"], intro conjI c allI impI) (use keep assms(4) in \<open>simp_all, blast+\<close>)
  qed
qed

lemma remove_files_inv:
  assumes "export_inv env fs0 dest ks own fs" "set ps \<subseteq> own"
  shows "export_inv env fs0 dest ks own (foldl (remove_file env) fs ps)"
  using assms by (induction ps arbitrary: fs) (auto simp: remove_file_def export_inv_delete)

lemma cleanup_inv:
  assumes "export_inv env fs0 dest ks own fs" "set owned \<subseteq> own" "{dest, dest @ ''/chunks''} \<subseteq> own"
  shows "export_inv env fs0 dest ks own (cleanupOwned env dest owned fs)"
  using export_inv_delete remove_files_inv [OF assms(1,2)] assms(3)
  by (auto simp: cleanupOwned_def remove_dir_def)

lemma export_inv_allow:
  assumes "export_inv env fs0 dest ks own fs" "map_of fs0 p = None" "prefix (dest @ ''/'') p"
  shows "export_inv env fs0 dest ks (insert p own) fs"
  using assms by (auto simp: export_inv_def apart_def)

lemma make_dir_inv:
  assumes "export_inv env fs0 dest ks own fs" "make_dir env k path fs = (ok, fs1)" "path = dest \<or> prefix (dest @ ''/'') path"
  shows "\<exists>own1. export_inv env fs0 dest (ks @ [k]) own1 fs1 \<and> own \<subseteq> own1 \<and> (ok \<longrightarrow> path \<in> own1)
    \<and> (\<forall>q n. map_of fs q = Some n \<longrightarrow> map_of fs1 q = Some n)"
proof (cases ok)
  case False
  then have "fs1 = plant env k fs" using assms(2) by (simp add: make_dir_def Let_def split: if_splits)
  then show ?thesis using False export_inv_plant [OF assms(1)] plant_keeps by blast
next
  case True
  then have m: "map_of (plant env k fs) path = None" "fs1 = (path, DirNode) # plant env k fs"
    using assms(2) by (simp_all add: make_dir_def Let_def split: if_splits)
  have "map_of fs q = Some n \<Longrightarrow> map_of fs1 q = Some n" for q n
    using plant_keeps [of fs q n env k] m by auto
  then show ?thesis using export_inv_create [OF assms(1) m(1) assms(3), of DirNode] m(2) by blast
qed

lemma write_chunk_files_inv:
  assumes "write_chunk_files env k dir chunks recs fs owned = (ok, k1, fs1, owned1)"
    and "export_inv env fs0 dest ks own fs" "set owned \<subseteq> own" "prefix (dest @ ''/'') dir"
  shows "\<exists>ks1 own1. export_inv env fs0 dest ks1 own1 fs1 \<and> own \<subseteq> own1 \<and> set owned1 \<subseteq> own1
    \<and> (\<forall>q n. map_of fs q = Some n \<longrightarrow> map_of fs1 q = Some n)
    \<and> (ok \<longrightarrow> (\<forall>rec \<in> set recs. \<forall>content. map_of chunks (mc_seq rec) = Some content
         \<longrightarrow> map_of fs1 (chunk_file dir (mc_seq rec)) = Some (FileNode content)))
    \<and> (ok \<longrightarrow> owned1 = owned @ map (\<lambda>rec. chunk_file dir (mc_seq rec)) (filter (\<lambda>rec. map_of chunks (mc_seq rec) \<noteq> None) recs))"
  using assms
proof (induction recs arbitrary: k fs owned ks own)
  case Nil
  then show ?case by (auto intro!: exI [of _ ks] exI [of _ own])
next
  case (Cons r rs)
  show ?case
  proof (cases "map_of chunks (mc_seq r)")
    case None
    then show ?thesis using Cons.IH [of k fs owned ks own] Cons.prems by simp
  next
    case (Some content)
    let ?path = "chunk_file dir (mc_seq r)"
    obtain ok0 fs2 owned2 where w: "writePrivateFile env k ?path content fs owned = (ok0, fs2, owned2)" by (metis prod_cases3)
    have "prefix (dest @ ''/'') ?path" using Cons.prems(4) by (auto simp: chunk_file_def prefix_def)
    from write_inv [OF Cons.prems(2) w this Cons.prems(3)] obtain own2 where o:
      "export_inv env fs0 dest (ks @ [k]) own2 fs2" "own \<subseteq> own2" "set owned2 \<subseteq> own2"
      "ok0 \<Longrightarrow> map_of fs2 ?path = Some (FileNode content)" "\<forall>q n. map_of fs q = Some n \<longrightarrow> map_of fs2 q = Some n"
      "ok0 \<Longrightarrow> owned2 = owned @ [?path]" by (elim exE conjE) (rule that; simp)
    show ?thesis
    proof (cases ok0)
      case False
      then have "\<not> ok" "fs1 = fs2" "owned1 = owned2" using Cons.prems(1) Some w by simp_all
      then show ?thesis using o(1-3,5) by blast
    next
      case True
      then have "write_chunk_files env (Suc k) dir chunks rs fs2 owned2 = (ok, k1, fs1, owned1)" using Cons.prems(1) Some w by simp
      from Cons.IH [OF this o(1,3) Cons.prems(4)] obtain ks1 own1 where i:
        "export_inv env fs0 dest ks1 own1 fs1" "own2 \<subseteq> own1" "set owned1 \<subseteq> own1"
        "\<forall>q n. map_of fs2 q = Some n \<longrightarrow> map_of fs1 q = Some n"
        "ok \<longrightarrow> (\<forall>rec \<in> set rs. \<forall>content. map_of chunks (mc_seq rec) = Some content
           \<longrightarrow> map_of fs1 (chunk_file dir (mc_seq rec)) = Some (FileNode content))"
        "ok \<longrightarrow> owned1 = owned2 @ map (\<lambda>rec. chunk_file dir (mc_seq rec)) (filter (\<lambda>rec. map_of chunks (mc_seq rec) \<noteq> None) rs)"
        by (elim exE conjE) (rule that; assumption)
      have "map_of fs1 ?path = Some (FileNode content)" using i(4) o(4) [OF True] by blast
      then show ?thesis
        using i o(2,5,6) True Some by (intro exI [of _ ks1] exI [of _ own1]) (auto simp: subset_iff)
    qed
  qed
qed

text \<open>What the export did to the tree, by where it stopped.\<close>

definition exported ::
  "export_env \<Rightarrow> BackupVerification \<Rightarrow> (int \<times> string) list \<Rightarrow> string \<Rightarrow> tree \<Rightarrow> string list \<Rightarrow> bool" where
  "exported env v chunks dest fs' files =
     (files = [dest @ ''/manifest.md'']
        @ map (\<lambda>rec. chunk_file (dest @ ''/chunks'') (mc_seq rec))
            (filter (\<lambda>rec. map_of chunks (mc_seq rec) \<noteq> None) (rm_chunks (bv_manifest v)))
        @ [dest @ ''/export-summary.md'']
      \<and> map_of fs' (dest @ ''/manifest.md'') = Some (FileNode (pretty (rm_json (bv_manifest v)) @ [nl]))
      \<and> (\<forall>rec \<in> set (rm_chunks (bv_manifest v)). \<forall>content. map_of chunks (mc_seq rec) = Some content
           \<longrightarrow> map_of fs' (chunk_file (dest @ ''/chunks'') (mc_seq rec)) = Some (FileNode content)))"

lemma write_export_inv:
  assumes "write_export env v chunks dest fs = (r, fs')" "export_inv env fs0 dest ks own fs" "dest \<in> own"
    and "map_of fs0 (dest @ ''/chunks'') = None"
  shows "(\<exists>ks' own'. export_inv env fs0 dest ks' own' fs') \<and> (\<forall>files. r = Inr files \<longrightarrow> exported env v chunks dest fs' files)"
proof -
  let ?man = "dest @ ''/manifest.md''" and ?dir = "dest @ ''/chunks''" and ?sum = "dest @ ''/export-summary.md''"
  let ?txt = "pretty (rm_json (bv_manifest v)) @ [nl]"
  have pre: "prefix (dest @ ''/'') ?man" "prefix (dest @ ''/'') ?dir" "prefix (dest @ ''/'') ?sum" by (auto simp: prefix_def)
  have clean: "\<exists>ks' own'. export_inv env fs0 dest ks' own' (cleanupOwned env dest ps t)"
    if "export_inv env fs0 dest ks1 own1 t" "set ps \<subseteq> own1" "dest \<in> own1" for ks1 own1 t ps
    using cleanup_inv [OF export_inv_allow [OF that(1) assms(4) pre(2)], of ps] that(2,3) by blast
  obtain ok1 fs1 w1 where a: "writePrivateFile env 1 ?man ?txt fs [] = (ok1, fs1, w1)" by (metis prod_cases3)
  have e: "set [] \<subseteq> own" by simp
  from write_inv [OF assms(2) a pre(1) e] obtain own1 where o1: "export_inv env fs0 dest (ks @ [1]) own1 fs1" "own \<subseteq> own1"
    "set w1 \<subseteq> own1" "ok1 \<longrightarrow> map_of fs1 ?man = Some (FileNode ?txt)" "ok1 \<longrightarrow> w1 = [?man]"
    by (elim exE conjE) (rule that; simp)
  have d1: "dest \<in> own1" using o1(2) assms(3) by blast
  show ?thesis
  proof (cases ok1)
    case False
    then have "r = Inl ExportIo" "fs' = cleanupOwned env dest w1 fs1" using assms(1) a by (simp_all add: write_export_def)
    then show ?thesis using clean [OF o1(1,3) d1] by simp
  next
    case ok1: True
    obtain ok2 fs2 where b: "make_dir env 2 ?dir fs1 = (ok2, fs2)" by fastforce
    from make_dir_inv [OF o1(1) b disjI2 [OF pre(2)]] obtain own2 where o2: "export_inv env fs0 dest ((ks @ [1]) @ [2]) own2 fs2"
      "own1 \<subseteq> own2" "\<forall>q n. map_of fs1 q = Some n \<longrightarrow> map_of fs2 q = Some n"
      by (elim exE conjE) (rule that)
    have s2: "set w1 \<subseteq> own2" "dest \<in> own2" using o1(3) o2(2) d1 by auto
    show ?thesis
    proof (cases "ok2 \<and> xp_chmod env 2")
      case False
      then have "r = Inl ExportIo \<and> fs' = cleanupOwned env dest w1 fs2"
        using assms(1) a ok1 b by (cases ok2) (simp_all add: write_export_def)
      then show ?thesis using clean [OF o2(1) s2] by simp
    next
      case ok2: True
      obtain ok3 k fs3 w3 where c: "write_chunk_files env 3 ?dir chunks (rm_chunks (bv_manifest v)) fs2 w1 = (ok3, k, fs3, w3)"
        by (metis prod_cases4)
      from write_chunk_files_inv [OF c o2(1) s2(1) pre(2)] obtain ks3 own3 where o3:
        "export_inv env fs0 dest ks3 own3 fs3" "own2 \<subseteq> own3" "set w3 \<subseteq> own3"
        "\<forall>q n. map_of fs2 q = Some n \<longrightarrow> map_of fs3 q = Some n"
        "ok3 \<longrightarrow> (\<forall>rec \<in> set (rm_chunks (bv_manifest v)). \<forall>content. map_of chunks (mc_seq rec) = Some content
           \<longrightarrow> map_of fs3 (chunk_file ?dir (mc_seq rec)) = Some (FileNode content))"
        "ok3 \<longrightarrow> w3 = w1 @ map (\<lambda>rec. chunk_file ?dir (mc_seq rec)) (filter (\<lambda>rec. map_of chunks (mc_seq rec) \<noteq> None) (rm_chunks (bv_manifest v)))"
        by (elim exE conjE) (rule that; assumption)
      have d3: "dest \<in> own3" using s2(2) o3(2) by blast
      have r3: "write_export env v chunks dest fs =
         (if \<not> ok3 then (Inl ExportIo, cleanupOwned env dest w3 fs3)
          else (case summary_text env v of
                  None \<Rightarrow> (Inl ExportTypeError, fs3)
                | Some t \<Rightarrow>
                    (case writePrivateFile env k ?sum t fs3 w3 of
                       (False, fs4, own4) \<Rightarrow> (Inl ExportIo, cleanupOwned env dest own4 fs4)
                     | (True, fs4, own4) \<Rightarrow> (Inr own4, fs4))))"
        using a ok1 b ok2 c by (simp add: write_export_def)
      show ?thesis
      proof (cases "ok3 \<and> summary_text env v \<noteq> None")
        case False
        then consider "r = Inl ExportIo" "fs' = cleanupOwned env dest w3 fs3" | "r = Inl ExportTypeError" "fs' = fs3"
          using assms(1) unfolding r3 by (auto split: if_splits)
        then show ?thesis using clean [OF o3(1,3) d3] o3(1) by cases auto
      next
        case ok3: True
        then obtain t where t: "summary_text env v = Some t" by blast
        obtain ok4 fs4 w4 where d: "writePrivateFile env k ?sum t fs3 w3 = (ok4, fs4, w4)" by (metis prod_cases3)
        from write_inv [OF o3(1) d pre(3) o3(3)] obtain own4 where o4: "export_inv env fs0 dest (ks3 @ [k]) own4 fs4"
          "own3 \<subseteq> own4" "set w4 \<subseteq> own4" "\<forall>q n. map_of fs3 q = Some n \<longrightarrow> map_of fs4 q = Some n" "ok4 \<longrightarrow> w4 = w3 @ [?sum]"
          by (elim exE conjE) (rule that; assumption)
        have d4: "dest \<in> own4" using d3 o4(2) by blast
        show ?thesis
        proof (cases ok4)
          case False
          then have "r = Inl ExportIo" "fs' = cleanupOwned env dest w4 fs4" using assms(1) ok3 t d unfolding r3 by simp_all
          then show ?thesis using clean [OF o4(1,3) d4] by simp
        next
          case True
          then have r: "r = Inr w4" "fs' = fs4" using assms(1) ok3 t d unfolding r3 by simp_all
          have "map_of fs4 ?man = Some (FileNode ?txt)" using o1(4) ok1 o2(3) o3(4) o4(4) by blast
          moreover have "\<forall>rec \<in> set (rm_chunks (bv_manifest v)). \<forall>content. map_of chunks (mc_seq rec) = Some content
              \<longrightarrow> map_of fs4 (chunk_file ?dir (mc_seq rec)) = Some (FileNode content)" using o3(5) ok3 o4(4) by blast
          moreover have "w4 = [?man] @ map (\<lambda>rec. chunk_file ?dir (mc_seq rec))
              (filter (\<lambda>rec. map_of chunks (mc_seq rec) \<noteq> None) (rm_chunks (bv_manifest v))) @ [?sum]"
            using o4(5) True o3(6) ok3 o1(5) ok1 by simp
          ultimately have "exported env v chunks dest fs4 w4" unfolding exported_def by blast
          then show ?thesis using o4(1) r by blast
        qed
      qed
    qed
  qed
qed


section \<open>Examples\<close>

definition quiet_env :: export_env where
  "quiet_env = \<lparr>xp_plant = (\<lambda>k. []), xp_fault = (\<lambda>k. WfOk), xp_mkdir = (\<lambda>k. None), xp_chmod = (\<lambda>k. True),
     xp_swapped = False, xp_rm = (\<lambda>p. True), xp_fixed = (\<lambda>k. ''x'')\<rparr>"

definition bare_manifest :: "(string \<times> json) list \<Rightarrow> json" where
  "bare_manifest extra =
     JObj ([(''schemaVersion'', JNum 1), (''kind'', JStr ''kiwifs-backup-manifest''), (''sessionId'', JStr ''s''),
       (''projectId'', JStr ''p''), (''scope'', JStr ''c''), (''coveredRange'', JObj [(''entryCount'', JNum 0)]),
       (''chunks'', JArr []), (''redactionSummary'', JObj []), (''redacted'', JBool True)] @ extra)"

definition bare_read :: "(string \<times> json) list \<Rightarrow> ReadManifest" where
  "bare_read extra = \<lparr>rm_json = bare_manifest extra, rm_schemaVersion = 1, rm_sessionId = ''s'', rm_projectId = ''p'',
     rm_scope = ''c'', rm_chunks = [], rm_entryCount = 0, rm_first = None, rm_last = None\<rparr>"

definition bare_verification :: "(string \<times> json) list \<Rightarrow> BackupVerification" where
  "bare_verification extra = verifyBackup (\<lambda>s. s) \<lparr>vi_manifest = bare_read extra, vi_chunks = [], vi_sessionId = ''s'',
     vi_projectId = ''p'', vi_scope = None\<rparr>"

lemma bare_verified: "bv_ok (bare_verification extra)" "bv_manifest (bare_verification extra) = bare_read extra"
proof -
  have "complete_backup (\<lambda>s. s) \<lparr>vi_manifest = bare_read extra, vi_chunks = [], vi_sessionId = ''s'', vi_projectId = ''p'',
      vi_scope = None\<rparr> []"
    by (simp add: complete_backup_def bare_read_def BACKUP_SCHEMA_VERSION_def linked_def)
  then show "bv_ok (bare_verification extra)" unfolding bare_verification_def verification_is_exact by blast
  show "bv_manifest (bare_verification extra) = bare_read extra" by (simp add: bare_verification_def verifyBackup_def Let_def)
qed

lemma bare_export_run:
  "exportBackup quiet_env (bare_verification [(''omissions'', JArr [])]) [] ''/a'' [(''/'', DirNode)]
   = (Inr [''/a/manifest.md'', ''/a/export-summary.md''],
      [(''/a/export-summary.md'', FileNode (the (summary_text quiet_env (bare_verification [(''omissions'', JArr [])])))),
       (''/a/chunks'', DirNode), (''/a/manifest.md'', FileNode (pretty (bare_manifest [(''omissions'', JArr [])]) @ [nl])),
       (''/a'', DirNode), (''/'', DirNode)])"
  by (simp add: exportBackup_def bare_verified bare_read_def make_dir_def plant_def quiet_env_def write_export_def Let_def
      writePrivateFile_def BACKUP_SCHEMA_VERSION_def summary_text_def bare_manifest_def redaction_lines_def object_entries_def
      omission_section_def)


text \<open>
  A manifest without an omission list is read and verified as complete, but its export throws
  while the summary is composed, after the manifest and the chunks were written and outside the
  cleanup: the partial destination stays.
\<close>
theorem export_without_omissions_leaves_files:
  "parseBackupManifestText (stringify (bare_manifest [])) = Inr (bare_read []) \<and> bv_ok (bare_verification [])
   \<and> exportBackup quiet_env (bare_verification []) [] ''/a'' [(''/'', DirNode)]
     = (Inl ExportTypeError, [(''/a/chunks'', DirNode), (''/a/manifest.md'', FileNode (pretty (bare_manifest []) @ [nl])),
          (''/a'', DirNode), (''/'', DirNode)])"
proof (intro conjI)
  have "json_wf (bare_manifest [])" by (simp add: bare_manifest_def)
  then have p: "json_parse (stringify (bare_manifest [])) = Some (bare_manifest [])" by (rule parse_stringify)
  show "parseBackupManifestText (stringify (bare_manifest [])) = Inr (bare_read [])"
    unfolding parseBackupManifestText_def p
    by (simp add: bare_manifest_def schema_issue_def BACKUP_SCHEMA_VERSION_def nonempty_str_def bare_read_def Let_def)
  show "bv_ok (bare_verification [])" by (simp add: bare_verified)
  show "exportBackup quiet_env (bare_verification []) [] ''/a'' [(''/'', DirNode)]
     = (Inl ExportTypeError, [(''/a/chunks'', DirNode), (''/a/manifest.md'', FileNode (pretty (bare_manifest []) @ [nl])),
          (''/a'', DirNode), (''/'', DirNode)])"
    by (simp add: exportBackup_def bare_verified bare_read_def make_dir_def plant_def quiet_env_def write_export_def Let_def
      writePrivateFile_def BACKUP_SCHEMA_VERSION_def summary_text_def bare_manifest_def redaction_lines_def object_entries_def
      omission_section_def)
qed

text \<open>
  The cleanup removes an empty chunk directory by its name, also when it was another process
  that created it.
\<close>
lemma cleanup_removes_planted_dir:
  "exportBackup (quiet_env\<lparr>xp_plant := (\<lambda>k. if k = 2 then [(''/a/chunks'', DirNode)] else [])\<rparr>)
     (bare_verification []) [] ''/a'' [(''/'', DirNode)] = (Inl ExportIo, [(''/'', DirNode)])"
  by (simp add: exportBackup_def bare_verified bare_read_def make_dir_def plant_def plant_node_def quiet_env_def write_export_def
      Let_def writePrivateFile_def BACKUP_SCHEMA_VERSION_def cleanupOwned_def remove_dir_def remove_file_def)

end
