(* ===== verification/ConsumerLock.thy ===== *)
theory ConsumerLock
  imports Paths Json
begin

text \<open>
  The exclusive lock of a board consumer (src/board/lock.ts): the acquisition as the program
  runs it, as a function of the file it finds and as the steps of several processes over one
  file, the release, and what the lock guarantees. A process is its pid; the operating system
  tells which pids are alive. A file carries its identity (\<open>lf_inode\<close>): a write goes to the file
  that was opened, also when it has been unlinked since.
\<close>

section \<open>The lock file\<close>

definition CONSUMER_STALE_MS :: ms where "CONSUMER_STALE_MS = 12 * 60 * 60 * 1000"

record lock_file =
  lf_inode :: nat
  lf_text :: string
  lf_mtime :: ms

datatype consumer_lock_error = CleBadId | CleUnusable | CleHeld "nat option" | CleNotReclaimed

definition lockPath :: "string \<Rightarrow> string \<Rightarrow> consumer_lock_error + string" where
  "lockPath stateDir consumerId =
     (if \<not> ID_GRAMMAR consumerId then Inl CleBadId else Inr (stateDir @ ''/delivery-'' @ consumerId @ ''.lock''))"

definition lock_text :: "nat \<Rightarrow> ms \<Rightarrow> string" where
  "lock_text pid now = ''pid='' @ show_nat pid @ '' started='' @ show_int now @ [nl]"

text \<open>\<open>/^pid=(\d+)(?:\s|$)/\<close> on the trimmed text.\<close>

definition readHolderPid :: "lock_file option \<Rightarrow> nat option" where
  "readHolderPid f =
     (case f of
        None \<Rightarrow> None
      | Some file \<Rightarrow>
          (case strip_prefix ''pid='' (trim (lf_text file)) of
             None \<Rightarrow> None
           | Some r \<Rightarrow>
               (let ds = takeWhile is_digit r; rest = dropWhile is_digit r in
                if ds \<noteq> [] \<and> (rest = [] \<or> is_space (hd rest)) then Some (read_digits 0 ds) else None)))"

definition statMtimeMs :: "lock_file option \<Rightarrow> ms" where
  "statMtimeMs f = (case f of None \<Rightarrow> 0 | Some file \<Rightarrow> lf_mtime file)"

definition is_stale :: "(nat \<Rightarrow> bool) \<Rightarrow> ms \<Rightarrow> lock_file option \<Rightarrow> nat option \<Rightarrow> bool" where
  "is_stale pidAlive now f pid =
     (case pid of None \<Rightarrow> True | Some p \<Rightarrow> \<not> pidAlive p \<or> now - statMtimeMs f > CONSUMER_STALE_MS)"

section \<open>Acquisition by one process\<close>

text \<open>
  The loop over the attempts that are left. \<open>usable\<close>: the exclusive create does not fail for
  another reason than an existing file. The result is the error, or the identity of the file
  created.
\<close>

fun acquire_attempts ::
  "(nat \<Rightarrow> bool) \<Rightarrow> bool \<Rightarrow> nat \<Rightarrow> ms \<Rightarrow> nat \<Rightarrow> nat \<Rightarrow> lock_file option \<Rightarrow> (consumer_lock_error + nat) \<times> lock_file option" where
  "acquire_attempts pidAlive usable pid now inode 0 f = (Inl CleNotReclaimed, f)"
| "acquire_attempts pidAlive usable pid now inode (Suc n) f =
     (if \<not> usable then (Inl CleUnusable, f)
      else (case f of
          None \<Rightarrow> (Inr inode, Some \<lparr>lf_inode = inode, lf_text = lock_text pid now, lf_mtime = now\<rparr>)
        | Some file \<Rightarrow>
            if \<not> is_stale pidAlive now f (readHolderPid f) then (Inl (CleHeld (readHolderPid f)), f)
            else acquire_attempts pidAlive usable pid now inode n None))"

definition acquireConsumerLock ::
  "(nat \<Rightarrow> bool) \<Rightarrow> bool \<Rightarrow> string \<Rightarrow> nat \<Rightarrow> ms \<Rightarrow> nat \<Rightarrow> lock_file option \<Rightarrow> (consumer_lock_error + nat) \<times> lock_file option" where
  "acquireConsumerLock pidAlive usable consumerId pid now inode f =
     (case lockPath '''' consumerId of
        Inl e \<Rightarrow> (Inl e, f)
      | Inr _ \<Rightarrow> acquire_attempts pidAlive usable pid now inode 2 f)"

definition release :: "lock_file option \<Rightarrow> lock_file option" where
  "release f = None"

section \<open>Acquisition as steps\<close>

text \<open>
  The points between which other processes can run: before the exclusive create of attempt
  \<open>k\<close>, before the write to the created file, before the read and before the stat and liveness
  check of a file that was in the way, before its unlink.
\<close>

datatype lock_pc =
    LIdle | LOpen nat | LWrite nat | LRead nat | LStat nat "nat option" | LUnlink nat
  | LHeld | LRefused consumer_lock_error

record lock_world =
  lw_file :: "lock_file option"
  lw_next :: nat
  lw_pc :: "nat \<Rightarrow> lock_pc"

definition goto :: "nat \<Rightarrow> lock_pc \<Rightarrow> lock_world \<Rightarrow> lock_world" where
  "goto p pc w = w\<lparr>lw_pc := (lw_pc w)(p := pc)\<rparr>"

definition lock_step :: "(nat \<Rightarrow> bool) \<Rightarrow> bool \<Rightarrow> ms \<Rightarrow> nat \<Rightarrow> lock_world \<Rightarrow> lock_world" where
  "lock_step pidAlive usable now p w =
     (case lw_pc w p of
        LOpen k \<Rightarrow>
          if k \<ge> 2 then goto p (LRefused CleNotReclaimed) w
          else if \<not> usable then goto p (LRefused CleUnusable) w
          else (case lw_file w of
              None \<Rightarrow> goto p (LWrite (lw_next w))
                        (w\<lparr>lw_file := Some \<lparr>lf_inode = lw_next w, lf_text = '''', lf_mtime = now\<rparr>, lw_next := Suc (lw_next w)\<rparr>)
            | Some _ \<Rightarrow> goto p (LRead k) w)
      | LWrite i \<Rightarrow>
          goto p LHeld
            (case lw_file w of
               None \<Rightarrow> w
             | Some f \<Rightarrow> if lf_inode f = i then w\<lparr>lw_file := Some (f\<lparr>lf_text := lock_text p now, lf_mtime := now\<rparr>)\<rparr> else w)
      | LRead k \<Rightarrow> goto p (LStat k (readHolderPid (lw_file w))) w
      | LStat k pid \<Rightarrow>
          if is_stale pidAlive now (lw_file w) pid then goto p (LUnlink k) w else goto p (LRefused (CleHeld pid)) w
      | LUnlink k \<Rightarrow> goto p (LOpen (Suc k)) (w\<lparr>lw_file := None\<rparr>)
      | _ \<Rightarrow> w)"

fun lock_steps :: "(nat \<Rightarrow> bool) \<Rightarrow> ms \<Rightarrow> nat list \<Rightarrow> lock_world \<Rightarrow> lock_world" where
  "lock_steps pidAlive now [] w = w"
| "lock_steps pidAlive now (p # ps) w = lock_steps pidAlive now ps (lock_step pidAlive True now p w)"

definition holds :: "lock_world \<Rightarrow> nat \<Rightarrow> bool" where
  "holds w p = (lw_pc w p = LHeld)"

section \<open>The text of the lock\<close>

lemma digits_no_space: "is_digit c \<Longrightarrow> \<not> is_space c"
  by (auto simp: is_digit_def is_space_def)

lemma show_int_end: "\<exists>xs d. show_int n = xs @ [d] \<and> is_digit d"
proof -
  have "show_nat k \<noteq> []" "\<forall>c \<in> set (show_nat k). is_digit c" for k using show_nat_digits by auto
  then have "\<exists>xs d. show_nat k = xs @ [d] \<and> is_digit d" for k by (metis rev_exhaust in_set_conv_decomp)
  then show ?thesis unfolding show_int_def by (metis append_Cons)
qed

lemma trim_lock_text: "trim (lock_text pid now) = ''pid='' @ show_nat pid @ '' started='' @ show_int now"
proof -
  obtain xs d where x: "show_int now = xs @ [d]" "is_digit d" using show_int_end by blast
  have nl: "is_space nl" by (simp add: is_space_def)
  have p: "\<not> is_space (CHR ''p'')" by (simp add: is_space_def)
  show ?thesis
    unfolding trim_def lock_text_def x(1) using digits_no_space [OF x(2)] nl p by simp
qed

lemma readHolderPid_written [simp]:
  "readHolderPid (Some \<lparr>lf_inode = i, lf_text = lock_text pid now, lf_mtime = t\<rparr>) = Some pid"
proof -
  have sp: "\<not> is_digit (CHR '' '')" "is_space (CHR '' '')" by (simp_all add: is_digit_def is_space_def)
  have "takeWhile is_digit (show_nat pid @ '' started='' @ show_int now) = show_nat pid"
    using show_nat_digits sp by (subst takeWhile_append2) auto
  moreover have "dropWhile is_digit (show_nat pid @ '' started='' @ show_int now) = '' started='' @ show_int now"
    using show_nat_digits sp by (subst dropWhile_append2) auto
  ultimately show ?thesis
    using sp by (simp add: readHolderPid_def trim_lock_text strip_prefix_def read_show_nat Let_def)
qed

lemma readHolderPid_inode: "readHolderPid (Some f) = readHolderPid (Some \<lparr>lf_inode = 0, lf_text = lf_text f, lf_mtime = 0\<rparr>)"
  by (simp add: readHolderPid_def)

section \<open>The steps of one process are its acquisition\<close>

definition result_pc :: "consumer_lock_error + nat \<Rightarrow> lock_pc" where
  "result_pc r = (case r of Inl e \<Rightarrow> LRefused e | Inr _ \<Rightarrow> LHeld)"

lemma lock_steps_replicate_final:
  "lw_pc w p = LHeld \<or> (\<exists>e. lw_pc w p = LRefused e) \<Longrightarrow> lock_steps alive now (replicate n p) w = w"
  by (induction n) (auto simp: lock_step_def)

text \<open>
  Undisturbed, the steps of a process compute the acquisition: from the start of the loop they
  end, within seven of them, in the result of the function, with its file, and they leave every
  other process where it is.
\<close>

theorem lock_steps_are_acquire:
  assumes "lw_pc w p = LOpen 0" "ID_GRAMMAR consumerId"
    and "acquireConsumerLock pidAlive True consumerId p now (lw_next w) (lw_file w) = (r, f)"
    and "lock_steps pidAlive now (replicate 7 p) w = w'"
  shows "lw_pc w' p = result_pc r \<and> lw_file w' = f \<and> (\<forall>q. q \<noteq> p \<longrightarrow> lw_pc w' q = lw_pc w q)"
proof -
  have r: "acquire_attempts pidAlive True p now (lw_next w) 2 (lw_file w) = (r, f)"
    using assms(2,3) by (simp add: acquireConsumerLock_def lockPath_def)
  have n: "(7::nat) = Suc (Suc (Suc (Suc (Suc (Suc (Suc 0))))))" "(2::nat) = Suc (Suc 0)" by simp_all
  show ?thesis
  proof (cases "lw_file w")
    case None
    then show ?thesis using assms(1,4) r unfolding n
      by (auto simp: lock_step_def goto_def result_pc_def)
  next
    case (Some g)
    show ?thesis
    proof (cases "is_stale pidAlive now (Some g) (readHolderPid (Some g))")
      case True
      then show ?thesis using assms(1,4) r Some unfolding n
        by (auto simp: lock_step_def goto_def result_pc_def)
    next
      case False
      then show ?thesis using assms(1,4) r Some unfolding n
        by (auto simp: lock_step_def goto_def result_pc_def)
    qed
  qed
qed

definition fresh_world :: "lock_file option \<Rightarrow> lock_world" where
  "fresh_world f = \<lparr>lw_file = f, lw_next = 5, lw_pc = (\<lambda>p. LOpen 0)\<rparr>"

definition dead_lock :: lock_file where
  "dead_lock = \<lparr>lf_inode = 0, lf_text = lock_text 9 0, lf_mtime = 0\<rparr>"

lemma dead_lock_taken:
  "acquireConsumerLock (\<lambda>p. p \<noteq> 9) True ''c1'' 1 50 (lw_next (fresh_world (Some dead_lock))) (lw_file (fresh_world (Some dead_lock)))
   = (Inr 5, Some \<lparr>lf_inode = 5, lf_text = lock_text 1 50, lf_mtime = 50\<rparr>)"
  by code_simp

theorem lock_steps_are_acquire_witness:
  "holds (lock_steps (\<lambda>p. p \<noteq> 9) 50 (replicate 7 1) (fresh_world (Some dead_lock))) 1"
proof -
  have "lw_pc (fresh_world (Some dead_lock)) 1 = LOpen 0" "ID_GRAMMAR ''c1''"
    by (simp add: fresh_world_def) code_simp
  from lock_steps_are_acquire [OF this dead_lock_taken refl] show ?thesis
    by (simp add: holds_def result_pc_def)
qed

section \<open>Mutual exclusion\<close>

text \<open>
  A run in which every acquisition runs undisturbed: processes acquire, release and die, in any
  order. A process that died holds nothing any more, and its lock stays behind.
\<close>

record lock_system =
  ls_file :: "lock_file option"
  ls_next :: nat
  ls_holders :: "nat list"
  ls_dead :: "nat list"

datatype lock_event = Acquire string nat ms | Release nat | Die nat

definition system_step :: "lock_system \<Rightarrow> lock_event \<Rightarrow> lock_system" where
  "system_step s e =
     (case e of
        Acquire c p now \<Rightarrow>
          if p \<in> set (ls_dead s) then s
          else (case acquireConsumerLock (\<lambda>q. q \<notin> set (ls_dead s)) True c p now (ls_next s) (ls_file s) of
              (Inl _, f) \<Rightarrow> s\<lparr>ls_file := f\<rparr>
            | (Inr _, f) \<Rightarrow> s\<lparr>ls_file := f, ls_next := Suc (ls_next s), ls_holders := p # ls_holders s\<rparr>)
      | Release p \<Rightarrow> if p \<in> set (ls_holders s) then s\<lparr>ls_file := release (ls_file s), ls_holders := filter (\<lambda>q. q \<noteq> p) (ls_holders s)\<rparr> else s
      | Die p \<Rightarrow> s\<lparr>ls_dead := p # ls_dead s, ls_holders := filter (\<lambda>q. q \<noteq> p) (ls_holders s)\<rparr>)"

definition event_within :: "ms \<Rightarrow> lock_event \<Rightarrow> bool" where
  "event_within t e = (case e of Acquire _ _ now \<Rightarrow> t \<le> now \<and> now - t \<le> CONSUMER_STALE_MS | _ \<Rightarrow> True)"

definition lock_inv :: "ms \<Rightarrow> lock_system \<Rightarrow> bool" where
  "lock_inv t s =
     (ls_holders s = []
      \<or> (\<exists>p f. ls_holders s = [p] \<and> p \<notin> set (ls_dead s) \<and> ls_file s = Some f \<and> readHolderPid (Some f) = Some p \<and> t \<le> lf_mtime f))"

lemma acquire_result:
  assumes "acquireConsumerLock alive True c p now i f = (Inr j, f')"
  shows "f' = Some \<lparr>lf_inode = i, lf_text = lock_text p now, lf_mtime = now\<rparr>
    \<and> (f = None \<or> is_stale alive now f (readHolderPid f))"
  using assms by (cases f) (auto simp: acquireConsumerLock_def numeral_2_eq_2 split: sum.splits if_splits)

lemma acquire_refused:
  assumes "acquireConsumerLock alive True c p now i f = (Inl e, f')"
  shows "f' = f"
  using assms by (cases f) (auto simp: acquireConsumerLock_def numeral_2_eq_2 split: sum.splits if_splits)

lemma system_step_inv:
  assumes "lock_inv t s" "event_within t e"
  shows "lock_inv t (system_step s e)"
proof (cases e)
  case (Acquire c p now)
  show ?thesis
  proof (cases "p \<in> set (ls_dead s)")
    case False
    let ?alive = "\<lambda>q. q \<notin> set (ls_dead s)"
    obtain r f where a: "acquireConsumerLock ?alive True c p now (ls_next s) (ls_file s) = (r, f)" by fastforce
    show ?thesis
    proof (cases r)
      case (Inl x)
      have "f = ls_file s" using acquire_refused a Inl by blast
      then show ?thesis using assms(1) Acquire False a Inl by (simp add: system_step_def lock_inv_def)
    next
      case (Inr j)
      note g = acquire_result [OF a [unfolded Inr]]
      have "ls_holders s = []"
      proof (rule ccontr)
        assume "ls_holders s \<noteq> []"
        then obtain q h where q: "q \<notin> set (ls_dead s)" "ls_file s = Some h" "readHolderPid (Some h) = Some q" "t \<le> lf_mtime h"
          using assms(1) by (auto simp: lock_inv_def)
        then have "now - lf_mtime h > CONSUMER_STALE_MS" using g by (simp add: is_stale_def statMtimeMs_def)
        then show False using assms(2) Acquire q(4) by (simp add: event_within_def)
      qed
      then show ?thesis using g Acquire False a Inr assms(2) by (simp add: system_step_def lock_inv_def event_within_def)
    qed
  qed (use assms Acquire in \<open>simp add: system_step_def\<close>)
next
  case (Release p)
  then show ?thesis using assms by (auto simp: system_step_def lock_inv_def)
next
  case (Die p)
  show ?thesis
  proof (cases "ls_holders s = []")
    case True
    then show ?thesis using Die by (simp add: system_step_def lock_inv_def)
  next
    case False
    then obtain q f where q: "ls_holders s = [q]" "q \<notin> set (ls_dead s)" "ls_file s = Some f" "readHolderPid (Some f) = Some q"
      "t \<le> lf_mtime f" using assms(1) by (auto simp: lock_inv_def)
    show ?thesis
    proof (cases "q = p")
      case True
      then show ?thesis using q(1) Die by (simp add: system_step_def lock_inv_def)
    next
      case False
      then show ?thesis unfolding Die system_step_def lock_inv_def using q by simp
    qed
  qed
qed

definition idle_system :: lock_system where
  "idle_system = \<lparr>ls_file = None, ls_next = 0, ls_holders = [], ls_dead = []\<rparr>"



section \<open>Where exclusion fails\<close>

text \<open>
  Overlapping acquisitions can both succeed. Without any earlier lock: the file of the first
  process is still empty when the second reads it, counts as stale and is unlinked, and the
  first then writes to a file that is gone.
\<close>
theorem overlapping_acquires_both_hold:
  "holds (lock_steps (\<lambda>_. True) 50 [1, 2, 2, 2, 2, 2, 2, 1] (fresh_world None)) 1
   \<and> holds (lock_steps (\<lambda>_. True) 50 [1, 2, 2, 2, 2, 2, 2, 1] (fresh_world None)) 2"
  by code_simp

text \<open>Two processes that both found a dead holder: the slower one unlinks the lock of the faster one.\<close>

lemma stale_break_race:
  "holds (lock_steps (\<lambda>p. p \<noteq> 9) 50 ([1, 1, 1] @ [2, 2, 2, 2, 2, 2] @ [1, 1, 1]) (fresh_world (Some dead_lock))) 1
   \<and> holds (lock_steps (\<lambda>p. p \<noteq> 9) 50 ([1, 1, 1] @ [2, 2, 2, 2, 2, 2] @ [1, 1, 1]) (fresh_world (Some dead_lock))) 2"
  by code_simp

text \<open>A lock older than twelve hours is taken from a holder that is alive.\<close>

lemma live_lock_is_taken_over:
  assumes "pidAlive q" "ID_GRAMMAR consumerId" "now - t > CONSUMER_STALE_MS"
  shows "\<exists>f. acquireConsumerLock pidAlive True consumerId p now i (Some \<lparr>lf_inode = 0, lf_text = lock_text q t, lf_mtime = t\<rparr>) = (Inr i, f)"
  using assms by (simp add: acquireConsumerLock_def lockPath_def numeral_2_eq_2 is_stale_def statMtimeMs_def)

end
