(* ===== verification/Regex.thy ===== *)
theory Regex
  imports Prelude
begin

text \<open>
  The part of the JavaScript regular expressions that the redactor uses: character classes,
  word boundaries, sequences, alternatives and (greedy or lazy) repetitions, matched by
  backtracking. \<open>ends r s i\<close> lists the end positions of the matches of \<open>r\<close> in \<open>s\<close> from \<open>i\<close> in the
  order in which the engine tries them, so that the match it reports is the first one.
\<close>

datatype re =
    Cls "char \<Rightarrow> bool"
  | Bnd
  | Seq re re
  | Alt re re
  | Rep bool nat "nat option" re

definition word_char :: "char \<Rightarrow> bool" where
  "word_char c = (is_lower c \<or> is_upper c \<or> is_digit c \<or> c = CHR ''_'')"

definition word_at :: "string \<Rightarrow> nat \<Rightarrow> bool" where
  "word_at s i = (i < length s \<and> word_char (s ! i))"

definition boundary :: "string \<Rightarrow> nat \<Rightarrow> bool" where
  "boundary s i = ((i > 0 \<and> word_at s (i - 1)) \<noteq> word_at s i)"

text \<open>
  Repetition: at least \<open>lo\<close> and at most \<open>hi\<close> times. After the required ones an iteration that
  consumes nothing ends the repetition. The bound \<open>n\<close> is on the iterations.
\<close>

fun rep_ends :: "(nat \<Rightarrow> nat list) \<Rightarrow> bool \<Rightarrow> nat \<Rightarrow> nat option \<Rightarrow> nat \<Rightarrow> nat \<Rightarrow> nat list" where
  "rep_ends step lazy lo hi 0 i = (if lo = 0 then [i] else [])"
| "rep_ends step lazy lo hi (Suc n) i =
     (if lo > 0 then concat (map (rep_ends step lazy (lo - 1) (map_option (\<lambda>h. h - 1) hi) n) (step i))
      else
        (let more = (if hi = Some 0 then []
                     else concat (map (rep_ends step lazy 0 (map_option (\<lambda>h. h - 1) hi) n) (filter (\<lambda>j. j \<noteq> i) (step i))))
         in if lazy then i # more else more @ [i]))"

fun ends :: "re \<Rightarrow> string \<Rightarrow> nat \<Rightarrow> nat list" where
  "ends (Cls p) s i = (if i < length s \<and> p (s ! i) then [Suc i] else [])"
| "ends Bnd s i = (if boundary s i then [i] else [])"
| "ends (Seq a b) s i = concat (map (ends b s) (ends a s i))"
| "ends (Alt a b) s i = ends a s i @ ends b s i"
| "ends (Rep lazy lo hi a) s i = rep_ends (ends a s) lazy lo hi (lo + length s + 1) i"

section \<open>Building expressions\<close>

definition chr_re :: "char \<Rightarrow> re" where "chr_re c = Cls (\<lambda>x. x = c)"

fun seq_re :: "re list \<Rightarrow> re" where
  "seq_re [] = Rep False 0 (Some 0) Bnd"
| "seq_re [r] = r"
| "seq_re (r # rs) = Seq r (seq_re rs)"

fun alt_re :: "re list \<Rightarrow> re" where
  "alt_re [] = Cls (\<lambda>_. False)"
| "alt_re [r] = r"
| "alt_re (r # rs) = Alt r (alt_re rs)"

definition lit_re :: "string \<Rightarrow> re" where "lit_re s = seq_re (map chr_re s)"

abbreviation opt_re :: "re \<Rightarrow> re" where "opt_re r \<equiv> Rep False 0 (Some 1) r"
abbreviation star_re :: "re \<Rightarrow> re" where "star_re r \<equiv> Rep False 0 None r"
abbreviation plus_re :: "re \<Rightarrow> re" where "plus_re r \<equiv> Rep False 1 None r"
abbreviation least_re :: "nat \<Rightarrow> re \<Rightarrow> re" where "least_re n r \<equiv> Rep False n None r"

text \<open>The flag \<open>i\<close> on ASCII letters.\<close>

definition swap_case :: "char \<Rightarrow> char" where
  "swap_case c = (if is_upper c then char_of (code c + 32) else if is_lower c then char_of (code c - 32) else c)"

fun ignore_case :: "re \<Rightarrow> re" where
  "ignore_case (Cls p) = Cls (\<lambda>c. p c \<or> p (swap_case c))"
| "ignore_case Bnd = Bnd"
| "ignore_case (Seq a b) = Seq (ignore_case a) (ignore_case b)"
| "ignore_case (Alt a b) = Alt (ignore_case a) (ignore_case b)"
| "ignore_case (Rep l lo hi a) = Rep l lo hi (ignore_case a)"

section \<open>Global matching\<close>

definition exec :: "re \<Rightarrow> string \<Rightarrow> nat \<Rightarrow> (nat \<times> nat) option" where
  "exec r s lastIndex =
     (case filter (\<lambda>i. ends r s i \<noteq> []) [lastIndex..<Suc (length s)] of [] \<Rightarrow> None | i # _ \<Rightarrow> Some (i, hd (ends r s i)))"

text \<open>
  \<open>for (m = re.exec(s); m !== null; m = re.exec(s))\<close> with the zero-width guard: the nonempty
  matches. Each round moves \<open>lastIndex\<close>, so \<open>length s + 1\<close> rounds are enough.
\<close>

fun match_loop :: "re \<Rightarrow> string \<Rightarrow> nat \<Rightarrow> nat \<Rightarrow> (nat \<times> nat) list" where
  "match_loop r s 0 lastIndex = []"
| "match_loop r s (Suc n) lastIndex =
     (case exec r s lastIndex of
        None \<Rightarrow> []
      | Some (i, j) \<Rightarrow> (if i < j then [(i, j)] else []) @ match_loop r s n (if i = j then Suc j else j))"

definition matches :: "re \<Rightarrow> string \<Rightarrow> (nat \<times> nat) list" where
  "matches r s = match_loop r s (Suc (length s)) 0"

definition test_re :: "re \<Rightarrow> string \<Rightarrow> bool" where
  "test_re r s = (exec r s 0 \<noteq> None)"

section \<open>Matches are parts of the text\<close>

lemma rep_ends_range:
  assumes "\<And>i j. j \<in> set (step i) \<Longrightarrow> i \<le> j \<and> (i \<le> L \<longrightarrow> j \<le> L)" "j \<in> set (rep_ends step lazy lo hi n i)"
  shows "i \<le> j \<and> (i \<le> L \<longrightarrow> j \<le> L)"
  using assms(2)
proof (induction n arbitrary: lo hi i)
  case 0
  then show ?case by (simp split: if_splits)
next
  case (Suc n)
  have "j = i \<or> (\<exists>k lo' hi'. k \<in> set (step i) \<and> j \<in> set (rep_ends step lazy lo' hi' n k))"
    using Suc.prems by (auto simp: Let_def split: if_splits)
  then show ?case
  proof
    assume "\<exists>k lo' hi'. k \<in> set (step i) \<and> j \<in> set (rep_ends step lazy lo' hi' n k)"
    then obtain k lo' hi' where k: "k \<in> set (step i)" "j \<in> set (rep_ends step lazy lo' hi' n k)" by blast
    show ?thesis using assms(1) [OF k(1)] Suc.IH [OF k(2)] by auto
  qed simp
qed

lemma ends_range: "j \<in> set (ends r s i) \<Longrightarrow> i \<le> j \<and> (i \<le> length s \<longrightarrow> j \<le> length s)"
proof (induction r arbitrary: i j)
  case (Seq a b)
  from Seq.prems obtain k where k: "k \<in> set (ends a s i)" "j \<in> set (ends b s k)" by auto
  show ?case using Seq.IH(1) [OF k(1)] Seq.IH(2) [OF k(2)] by auto
next
  case (Rep lazy lo hi a)
  show ?case by (rule rep_ends_range [OF Rep.IH Rep.prems [unfolded ends.simps]])
qed (auto split: if_splits)

lemma exec_range:
  assumes "exec r s lastIndex = Some (i, j)"
  shows "lastIndex \<le> i" "i \<le> j" "j \<le> length s"
proof -
  obtain rest where f: "filter (\<lambda>i. ends r s i \<noteq> []) [lastIndex..<Suc (length s)] = i # rest" "j = hd (ends r s i)"
    using assms by (auto simp: exec_def split: list.splits)
  have "i \<in> set (filter (\<lambda>i. ends r s i \<noteq> []) [lastIndex..<Suc (length s)])" unfolding f(1) by simp
  then have i: "lastIndex \<le> i" "i \<le> length s" "ends r s i \<noteq> []" by auto
  then have "j \<in> set (ends r s i)" using f(2) by simp
  then show "lastIndex \<le> i" "i \<le> j" "j \<le> length s" using i ends_range by auto
qed

lemma match_loop_range:
  "(i, j) \<in> set (match_loop r s n lastIndex) \<Longrightarrow> lastIndex \<le> i \<and> i < j \<and> j \<le> length s"
proof (induction n arbitrary: lastIndex)
  case (Suc n)
  have "exec r s lastIndex \<noteq> None" using Suc.prems by (intro notI) simp
  then obtain a b where e: "exec r s lastIndex = Some (a, b)" by auto
  note x = exec_range [OF e]
  from Suc.prems e have "(i, j) = (a, b) \<and> a < b \<or> (i, j) \<in> set (match_loop r s n (if a = b then Suc b else b))"
    by (auto split: if_splits)
  then show ?case
  proof
    assume "(i, j) \<in> set (match_loop r s n (if a = b then Suc b else b))"
    then show ?thesis using Suc.IH [of "if a = b then Suc b else b"] x by (auto split: if_splits)
  qed (use x in auto)
qed simp

lemma matches_range: "(i, j) \<in> set (matches r s) \<Longrightarrow> i < j \<and> j \<le> length s"
  unfolding matches_def using match_loop_range by blast

text \<open>More iterations than the text has characters change nothing, for a body that consumes.\<close>

lemma rep_ends_enough:
  assumes "\<And>i j. j \<in> set (step i) \<Longrightarrow> i < j \<and> j \<le> L" "Suc L \<le> i + n" "n \<le> k"
  shows "rep_ends step lazy lo hi k i = rep_ends step lazy lo hi n i"
  using assms(2,3)
proof (induction n arbitrary: lo hi i k)
  case 0
  then have "step i = []" using assms(1) [of _ i] by (cases "step i") (auto, force)
  then show ?case by (cases k) auto
next
  case (Suc n)
  then obtain k' where k: "k = Suc k'" "n \<le> k'" by (cases k) auto
  have IH: "rep_ends step lazy lo' hi' k' j = rep_ends step lazy lo' hi' n j" if "j \<in> set (step i)" for lo' hi' j
    using Suc.IH [of j k'] Suc.prems(1) assms(1) [OF that] k(2) by auto
  have m: "map (rep_ends step lazy lo' hi' k') js = map (rep_ends step lazy lo' hi' n) js" if "set js \<subseteq> set (step i)" for lo' hi' js
    unfolding map_eq_conv using IH that by blast
  have "set (step i) \<subseteq> set (step i)" "set (filter (\<lambda>j. j \<noteq> i) (step i)) \<subseteq> set (step i)" by auto
  note m [OF this(1)] m [OF this(2)]
  then show ?case unfolding k(1) rep_ends.simps by (simp only:)
qed

section \<open>The declarative reading\<close>

text \<open>
  \<open>re_match r s i j\<close>: the part of the text from \<open>i\<close> to \<open>j\<close> is in the language of \<open>r\<close> there,
  whatever the engine tries first. \<open>consuming\<close>: no repeated part matches the empty text,
  and the bounds of a repetition are in order; \<open>nonempty\<close>: nor does the whole match the empty text.
\<close>

fun re_match :: "re \<Rightarrow> string \<Rightarrow> nat \<Rightarrow> nat \<Rightarrow> bool" where
  "re_match (Cls p) s i j = (i < length s \<and> p (s ! i) \<and> j = Suc i)"
| "re_match Bnd s i j = (boundary s i \<and> j = i)"
| "re_match (Seq a b) s i j = (\<exists>k. re_match a s i k \<and> re_match b s k j)"
| "re_match (Alt a b) s i j = (re_match a s i j \<or> re_match b s i j)"
| "re_match (Rep lazy lo hi a) s i j = (\<exists>n\<ge>lo. (\<forall>h. hi = Some h \<longrightarrow> n \<le> h) \<and> (re_match a s ^^ n) i j)"

fun nonempty :: "re \<Rightarrow> bool" where
  "nonempty (Cls p) = True"
| "nonempty Bnd = False"
| "nonempty (Seq a b) = (nonempty a \<or> nonempty b)"
| "nonempty (Alt a b) = (nonempty a \<and> nonempty b)"
| "nonempty (Rep lazy lo hi a) = (lo > 0 \<and> nonempty a)"

fun consuming :: "re \<Rightarrow> bool" where
  "consuming (Cls p) = True"
| "consuming Bnd = True"
| "consuming (Seq a b) = (consuming a \<and> consuming b)"
| "consuming (Alt a b) = (consuming a \<and> consuming b)"
| "consuming (Rep lazy lo hi a) = (consuming a \<and> nonempty a \<and> (\<forall>h. hi = Some h \<longrightarrow> lo \<le> h))"

lemma relpowp_le:
  assumes "\<And>i j :: nat. R i j \<Longrightarrow> i \<le> j \<and> (i \<le> L \<longrightarrow> j \<le> L)"
  shows "(R ^^ n) i j \<Longrightarrow> i \<le> j \<and> (i \<le> L \<longrightarrow> j \<le> L)"
proof (induction n arbitrary: j)
  case (Suc n)
  then obtain k where "(R ^^ n) i k" "R k j" by auto
  then show ?case using Suc.IH [of k] assms [of k j] by auto
qed simp

lemma re_match_range: "re_match r s i j \<Longrightarrow> i \<le> j \<and> (i \<le> length s \<longrightarrow> j \<le> length s)"
proof (induction r arbitrary: i j)
  case (Seq a b)
  then obtain k where "re_match a s i k" "re_match b s k j" by auto
  then show ?case using Seq.IH(1) [of i k] Seq.IH(2) [of k j] by auto
next
  case (Rep lazy lo hi a)
  then obtain n where "(re_match a s ^^ n) i j" by auto
  from relpowp_le [OF Rep.IH this] show ?case by blast
qed auto

lemma relpowp_length:
  assumes "\<And>i j :: nat. R i j \<Longrightarrow> i < j"
  shows "(R ^^ n) i j \<Longrightarrow> i + n \<le> j"
proof (induction n arbitrary: j)
  case (Suc n)
  then obtain k where "(R ^^ n) i k" "R k j" by auto
  then show ?case using Suc.IH [of k] assms [of k j] by auto
qed simp

lemma nonempty_match: "re_match r s i j \<Longrightarrow> nonempty r \<Longrightarrow> i < j"
proof (induction r arbitrary: i j)
  case (Seq a b)
  then obtain k where k: "re_match a s i k" "re_match b s k j" by auto
  show ?case using Seq.IH(1) [OF k(1)] Seq.IH(2) [OF k(2)] re_match_range [OF k(1)] re_match_range [OF k(2)] Seq.prems(2)
    by auto
next
  case (Rep lazy lo hi a)
  then obtain n where n: "n \<ge> lo" "(re_match a s ^^ n) i j" "lo > 0" "nonempty a" by auto
  have "i + n \<le> j" by (rule relpowp_length [OF _ n(2)]) (use Rep.IH n(4) in blast)
  then show ?case using n by simp
qed auto

lemma re_match_end: "re_match r s i j \<Longrightarrow> i < j \<Longrightarrow> j \<le> length s"
proof (induction r arbitrary: i j)
  case (Seq a b)
  then obtain k where k: "re_match a s i k" "re_match b s k j" by auto
  show ?case
    using Seq.IH(1) [OF k(1)] Seq.IH(2) [OF k(2)] re_match_range [OF k(1)] re_match_range [OF k(2)] Seq.prems(2)
    by (cases "i = k"; cases "k = j") auto
next
  case (Rep lazy lo hi a)
  then obtain n where n: "(re_match a s ^^ n) i j" by auto
  have "i < j \<longrightarrow> j \<le> length s" using n
  proof (induction n arbitrary: j)
    case (Suc n)
    then obtain k where k: "(re_match a s ^^ n) i k" "re_match a s k j" by auto
    show ?case using Suc.IH [OF k(1)] Rep.IH [OF k(2)] re_match_range [OF k(2)] by (cases "k = j") auto
  qed simp
  then show ?case using Rep.prems(2) by simp
qed auto

lemma rep_ends_sound:
  assumes "\<And>i j. j \<in> set (step i) \<Longrightarrow> R i j"
  shows "j \<in> set (rep_ends step lazy lo hi n i) \<Longrightarrow> \<exists>m\<ge>lo. (\<forall>h. hi = Some h \<longrightarrow> lo \<le> h \<longrightarrow> m \<le> h) \<and> (R ^^ m) i j"
proof (induction n arbitrary: lo hi i)
  case 0
  then have "lo = 0" "j = i" by (auto split: if_splits)
  then show ?case by (intro exI [of _ 0]) auto
next
  case (Suc n)
  show ?case
  proof (cases "lo = 0 \<and> j = i")
    case False
    have "\<exists>k\<in>set (step i). (lo = 0 \<longrightarrow> hi \<noteq> Some 0) \<and> j \<in> set (rep_ends step lazy (lo - 1) (map_option (\<lambda>h. h - 1) hi) n k)"
      using Suc.prems False by (auto simp: Let_def split: if_splits)
    then obtain k where k: "k \<in> set (step i)" "lo = 0 \<longrightarrow> hi \<noteq> Some 0"
      "j \<in> set (rep_ends step lazy (lo - 1) (map_option (\<lambda>h. h - 1) hi) n k)" by blast
    from Suc.IH [OF k(3)] obtain m where m: "m \<ge> lo - 1" "(R ^^ m) k j"
      "\<forall>h. map_option (\<lambda>h. h - 1) hi = Some h \<longrightarrow> lo - 1 \<le> h \<longrightarrow> m \<le> h" by blast
    have "(R ^^ Suc m) i j" using assms [OF k(1)] m(2) by (rule relpowp_Suc_I2)
    moreover have "\<forall>h. hi = Some h \<longrightarrow> lo \<le> h \<longrightarrow> Suc m \<le> h" using m(3) k(2) by (cases "lo = 0"; fastforce)
    ultimately show ?thesis using m(1) by (intro exI [of _ "Suc m"]) auto
  qed (auto intro: exI [of _ 0])
qed

lemma rep_ends_complete:
  assumes "\<And>i j. R i j \<Longrightarrow> j \<in> set (step i) \<and> i < j"
  shows "(R ^^ m) i j \<Longrightarrow> lo \<le> m \<Longrightarrow> \<forall>h. hi = Some h \<longrightarrow> m \<le> h \<Longrightarrow> m \<le> n \<Longrightarrow> j \<in> set (rep_ends step lazy lo hi n i)"
proof (induction n arbitrary: lo hi i m)
  case 0
  then show ?case by simp
next
  case (Suc n)
  show ?case
  proof (cases m)
    case 0
    then show ?thesis using Suc.prems by (simp add: Let_def)
  next
    case (Suc m')
    from Suc.prems(1) Suc obtain k where k: "R i k" "(R ^^ m') k j" by (blast elim: relpowp_Suc_E2)
    have "j \<in> set (rep_ends step lazy (lo - 1) (map_option (\<lambda>h. h - 1) hi) n k)"
      by (rule Suc.IH [OF k(2)]) (use Suc.prems Suc in auto)
    moreover have "hi \<noteq> Some 0" using Suc.prems(3) Suc by auto
    ultimately show ?thesis using assms [OF k(1)] by (auto simp: Let_def intro!: bexI [of _ k])
  qed
qed

text \<open>The engine finds exactly the matches of the declarative reading, from every position.\<close>

theorem ends_iff:
  "consuming r \<Longrightarrow> j \<in> set (ends r s i) \<longleftrightarrow> re_match r s i j"
proof (induction r arbitrary: i j)
  case (Rep lazy lo hi a)
  then have a: "consuming a" "nonempty a" "\<forall>h. hi = Some h \<longrightarrow> lo \<le> h" by auto
  note IH = Rep.IH [OF a(1)]
  show ?case
  proof
    assume "j \<in> set (ends (Rep lazy lo hi a) s i)"
    then have "j \<in> set (rep_ends (ends a s) lazy lo hi (lo + length s + 1) i)" by simp
    from rep_ends_sound [of "ends a s" "re_match a s", OF _ this] IH a(3)
    show "re_match (Rep lazy lo hi a) s i j" by auto
  next
    assume "re_match (Rep lazy lo hi a) s i j"
    then obtain n where n: "lo \<le> n" "\<forall>h. hi = Some h \<longrightarrow> n \<le> h" "(re_match a s ^^ n) i j" by auto
    have step: "y \<in> set (ends a s x) \<and> x < y" if "re_match a s x y" for x y
      using IH that nonempty_match [OF that a(2)] by blast
    have "i + n \<le> j" by (rule relpowp_length [OF _ n(3)]) (use step in blast)
    moreover have "n \<noteq> 0 \<Longrightarrow> j \<le> length s"
      using re_match_end [OF \<open>re_match (Rep lazy lo hi a) s i j\<close>] calculation by simp
    ultimately have "n \<le> lo + length s + 1" by (cases "n = 0") auto
    from rep_ends_complete [OF step n(3) n(1,2) this, of lazy]
    show "j \<in> set (ends (Rep lazy lo hi a) s i)" by simp
  qed
qed (auto)

section \<open>What a scan finds\<close>

lemma exec_leftmost:
  assumes "consuming r" "re_match r s k j" "k < j" "j \<le> length s" "lastIndex \<le> k"
  obtains i e where "exec r s lastIndex = Some (i, e)" "i \<le> k"
proof -
  let ?P = "\<lambda>i. ends r s i \<noteq> []"
  have k: "ends r s k \<noteq> []" using ends_iff [OF assms(1)] assms(2) by (metis empty_iff list.set(1))
  have split: "[lastIndex..<Suc (length s)] = [lastIndex..<k] @ k # [Suc k..<Suc (length s)]"
    using assms(3-5) by (metis Suc_leI le_SucI less_SucI less_imp_le order_less_le_trans upt_add_eq_append upt_conv_Cons le_add_diff_inverse)
  show thesis
  proof (cases "filter ?P [lastIndex..<k]")
    case Nil
    then have "exec r s lastIndex = Some (k, hd (ends r s k))" using k unfolding exec_def split by (simp del: upt_Suc)
    then show thesis by (rule that) simp
  next
    case (Cons i rest)
    then have "exec r s lastIndex = Some (i, hd (ends r s i))" unfolding exec_def split by (simp del: upt_Suc)
    moreover have "i \<in> set (filter ?P [lastIndex..<k])" unfolding Cons by simp
    ultimately show thesis using that [of i "hd (ends r s i)"] by auto
  qed
qed

lemma exec_nonempty:
  assumes "exec r s lastIndex = Some (a, b)" "consuming r" "nonempty r"
  shows "a < b"
proof -
  obtain rest where f: "filter (\<lambda>i. ends r s i \<noteq> []) [lastIndex..<Suc (length s)] = a # rest" "b = hd (ends r s a)"
    using assms(1) by (auto simp: exec_def split: list.splits)
  have "a \<in> set (filter (\<lambda>i. ends r s i \<noteq> []) [lastIndex..<Suc (length s)])" unfolding f(1) by simp
  then have "b \<in> set (ends r s a)" using f(2) by simp
  then show ?thesis using ends_iff [OF assms(2)] nonempty_match [OF _ assms(3)] by blast
qed

text \<open>
  Every place where the expression matches is met by a match that the scan reports, one that
  starts no later. Hence no occurrence is left untouched.
\<close>

theorem scan_meets_every_match:
  assumes "consuming r" "nonempty r" "re_match r s i j" "j \<le> length s"
  shows "\<exists>a b. (a, b) \<in> set (matches r s) \<and> a \<le> i \<and> i < b"
proof -
  note ij = nonempty_match [OF assms(3,2)]
  have "\<exists>a b. (a, b) \<in> set (match_loop r s n lastIndex) \<and> a \<le> i \<and> i < b"
    if "lastIndex \<le> i" "i < lastIndex + n" for n lastIndex
    using that
  proof (induction n arbitrary: lastIndex)
    case (Suc n)
    obtain a b where e: "exec r s lastIndex = Some (a, b)" "a \<le> i"
      by (rule exec_leftmost [OF assms(1,3) ij assms(4) Suc.prems(1)])
    have ab: "a < b" "lastIndex \<le> a" using exec_nonempty [OF e(1) assms(1,2)] exec_range [OF e(1)] by auto
    show ?case
    proof (cases "i < b")
      case True
      then show ?thesis using e ab by (intro exI [of _ a] exI [of _ b]) simp
    next
      case False
      then obtain c d where "(c, d) \<in> set (match_loop r s n b)" "c \<le> i" "i < d"
        using Suc.IH [of b] Suc.prems(2) ab by auto
      then show ?thesis using e ab by (intro exI [of _ c] exI [of _ d]) simp
    qed
  qed simp
  from this [of 0 "Suc (length s)"] ij assms(4) show ?thesis unfolding matches_def by simp
qed

end
