(* ===== verification/Redaction.thy ===== *)
theory Redaction
  imports Regex
begin

text \<open>
  The redactor (privacy/redaction.ts): the default secret patterns, the entropy heuristic, the
  merge of the spans, the replacement, the guard's redactor and the audit post-check. Entropy is
  the real number; the rounding of the floating-point sum is not modelled. The input is a
  string by its type, and no step of the model can throw, so the catch branch has no case.
\<close>

section \<open>Patterns\<close>

definition ic :: "string \<Rightarrow> re" where "ic s = Cls (\<lambda>c. c \<in> set s)"
definition nc :: "string \<Rightarrow> re" where "nc s = Cls (\<lambda>c. \<not> is_space c \<and> c \<notin> set s)"
definition alnum :: "string \<Rightarrow> re" where
  "alnum more = Cls (\<lambda>c. is_lower c \<or> is_upper c \<or> is_digit c \<or> c \<in> set more)"
definition upper_or :: "string \<Rightarrow> re" where "upper_or more = Cls (\<lambda>c. is_upper c \<or> c \<in> set more)"
definition space_re :: re where "space_re = Cls is_space"
definition any_re :: re where "any_re = Cls (\<lambda>_. True)"

definition pem_re :: "string \<Rightarrow> re" where
  "pem_re word = seq_re [lit_re (''-----'' @ word), star_re (upper_or '' ''), lit_re ''PRIVATE KEY-----'']"

definition defaultPatterns :: "(string \<times> re) list" where
  "defaultPatterns =
     [(''aws-access-key'', seq_re [lit_re ''AKIA'', Rep False 16 (Some 16) (Cls (\<lambda>c. is_digit c \<or> is_upper c))]),
      (''api-key'', seq_re [Bnd, lit_re ''sk-'', least_re 20 (alnum ''_-''), Bnd]),
      (''github-token'', seq_re [Bnd, lit_re ''gh'', ic ''pousr'', lit_re ''_'', least_re 36 (alnum []), Bnd]),
      (''slack-token'', seq_re [Bnd, lit_re ''xox'', ic ''baprs'', lit_re ''-'', least_re 10 (alnum ''-''), Bnd]),
      (''jwt'', seq_re [Bnd, lit_re ''eyJ'', least_re 10 (alnum ''_-''), lit_re ''.'', least_re 10 (alnum ''_-''), lit_re ''.'',
         least_re 10 (alnum ''_-''), Bnd]),
      (''bearer-token'', ignore_case (seq_re [Bnd,
         alt_re [lit_re ''Bearer'',
           seq_re [lit_re ''authorization:'', star_re space_re, alt_re [lit_re ''Bearer'', lit_re ''token'', lit_re ''Basic'']]],
         plus_re space_re, least_re 16 (alnum ''._~+/=-'')])),
      (''private-key-block'', seq_re [pem_re ''BEGIN'', Rep True 0 None any_re, pem_re ''END'']),
      (''credential-url'', ignore_case (seq_re [Bnd, Cls is_lower, star_re (Cls (\<lambda>c. is_lower c \<or> is_digit c \<or> c \<in> set ''+.-'')),
         lit_re ''://'', plus_re (nc ''/:@''), lit_re '':'', plus_re (nc ''/@''), lit_re ''@'', plus_re (nc [])])),
      (''key-value-assignment'', ignore_case (seq_re [Bnd,
         alt_re [seq_re [lit_re ''api'', opt_re (ic ''_-''), lit_re ''key''], lit_re ''apikey'',
           seq_re [lit_re ''auth'', opt_re (ic ''_-''), lit_re ''token''],
           seq_re [lit_re ''access'', opt_re (ic ''_-''), lit_re ''token''],
           lit_re ''secret'', lit_re ''password'', lit_re ''passwd'', lit_re ''token''],
         Bnd, opt_re (ic [CHR 0x22, CHR 0x27]), star_re space_re, ic '':='', star_re space_re,
         opt_re (ic [CHR 0x22, CHR 0x27]), least_re 8 (nc [CHR 0x22, CHR 0x27, CHR '','', CHR '';''])]))]"

definition ENTROPY_TOKEN :: re where "ENTROPY_TOKEN = least_re 20 (alnum ''+/_=-'')"

definition HIGH_ENTROPY_TYPE :: string where "HIGH_ENTROPY_TYPE = ''high-entropy''"

definition redactionPlaceholder :: "string \<Rightarrow> nat \<Rightarrow> string" where
  "redactionPlaceholder ty n = ''[REDACTED:'' @ ty @ '':'' @ show_nat n @ '']''"

definition char_counts :: "string \<Rightarrow> (char \<times> nat) list" where
  "char_counts s = foldl (\<lambda>m c. AList.update c (default_to 0 (map_of m c) + 1) m) [] s"

definition shannonEntropy :: "string \<Rightarrow> real" where
  "shannonEntropy s =
     (if s = [] then 0
      else foldl (\<lambda>bits (c, n). let p = real n / real (length s) in bits - p * log 2 p) 0 (char_counts s))"

section \<open>Spans\<close>

record span =
  sp_start :: nat
  sp_end :: nat
  sp_type :: string

record RedactionFinding =
  fi_type :: string
  fi_start :: nat
  fi_length :: nat

record RedactionOptions =
  patterns :: "(string \<times> re) list"
  entropyThreshold :: real
  entropyMinLength :: nat

definition default_redaction :: RedactionOptions where
  "default_redaction = \<lparr>patterns = defaultPatterns, entropyThreshold = 4, entropyMinLength = 20\<rparr>"

definition control_char :: "char \<Rightarrow> bool" where
  "control_char c = (code c \<le> 8 \<or> (14 \<le> code c \<and> code c \<le> 31))"

definition pattern_spans :: "(string \<times> re) list \<Rightarrow> string \<Rightarrow> span list" where
  "pattern_spans ps content =
     concat (map (\<lambda>(ty, r). map (\<lambda>(i, j). \<lparr>sp_start = i, sp_end = j, sp_type = ty\<rparr>) (matches r content)) ps)"

definition entropy_span :: "RedactionOptions \<Rightarrow> string \<Rightarrow> span list \<Rightarrow> nat \<times> nat \<Rightarrow> span list" where
  "entropy_span opt content spans m =
     (let tok = take (snd m - fst m) (drop (fst m) content);
          covered = (\<exists>s\<in>set spans. fst m < sp_end s \<and> snd m > sp_start s)
      in if \<not> covered \<and> length tok \<ge> entropyMinLength opt \<and> shannonEntropy tok \<ge> entropyThreshold opt
         then spans @ [\<lparr>sp_start = fst m, sp_end = snd m, sp_type = HIGH_ENTROPY_TYPE\<rparr>] else spans)"

definition detect_spans :: "RedactionOptions \<Rightarrow> string \<Rightarrow> span list" where
  "detect_spans opt content =
     foldl (entropy_span opt content) (pattern_spans (patterns opt) content) (matches ENTROPY_TOKEN content)"

text \<open>The stable sort by start, then by descending end.\<close>

definition span_le :: "span \<Rightarrow> span \<Rightarrow> bool" where
  "span_le a b = (sp_start a < sp_start b \<or> (sp_start a = sp_start b \<and> sp_end a \<ge> sp_end b))"

fun insert_span :: "span \<Rightarrow> span list \<Rightarrow> span list" where
  "insert_span x [] = [x]"
| "insert_span x (y # ys) = (if span_le x y then x # y # ys else y # insert_span x ys)"

definition sort_spans :: "span list \<Rightarrow> span list" where
  "sort_spans xs = foldr insert_span xs []"

text \<open>\<open>e\<close> is the end of the span kept last, 0 when there is none: no span starts before it then.\<close>

fun merge_spans :: "nat \<Rightarrow> span list \<Rightarrow> span list" where
  "merge_spans e [] = []"
| "merge_spans e (s # ss) = (if sp_start s < e then merge_spans e ss else s # merge_spans (sp_end s) ss)"

fun render :: "string \<Rightarrow> nat \<Rightarrow> span list \<Rightarrow> string" where
  "render content pos [] = drop pos content"
| "render content pos (s # ss) =
     take (sp_start s - pos) (drop pos content) @ redactionPlaceholder (sp_type s) (sp_end s - sp_start s)
       @ render content (sp_end s) ss"

definition finding_of :: "span \<Rightarrow> RedactionFinding" where
  "finding_of s = \<lparr>fi_type = sp_type s, fi_start = sp_start s, fi_length = sp_end s - sp_start s\<rparr>"

definition redactText :: "RedactionOptions \<Rightarrow> string \<Rightarrow> string + string \<times> RedactionFinding list" where
  "redactText opt content =
     (if \<exists>c\<in>set content. control_char c
      then Inl ''content contains control characters and cannot be classified safely; held (fail closed)''
      else (let merged = merge_spans 0 (sort_spans (detect_spans opt content))
            in Inr (render content 0 merged, map finding_of merged)))"

definition createRedactor :: "RedactionOptions \<Rightarrow> string \<Rightarrow> string + string" where
  "createRedactor opt content = (case redactText opt content of Inl why \<Rightarrow> Inl why | Inr (out, _) \<Rightarrow> Inr out)"

text \<open>The markers of the audit post-check. \<open>\w\<close> is the class of \<open>word_char\<close>.\<close>

definition secret_marker :: re where
  "secret_marker = alt_re [lit_re ''sk-'', seq_re [lit_re ''gh'', ic ''pousr'', lit_re ''_''],
     seq_re [lit_re ''xox'', ic ''baprs'', lit_re ''-''], lit_re ''AKIA'',
     seq_re [lit_re ''eyJ'', least_re 10 (Cls (\<lambda>c. word_char c \<or> c = CHR ''-'')), lit_re ''.''],
     seq_re [lit_re ''BEGIN '', star_re (upper_or '' ''), lit_re ''PRIVATE KEY'']]"

definition opaque_run :: re where "opaque_run = least_re 32 (alnum ''+/_=-'')"

definition looksSecretBearing :: "string \<Rightarrow> bool" where
  "looksSecretBearing s =
     (test_re secret_marker s \<or>
      (\<exists>(i, j)\<in>set (matches opaque_run s). shannonEntropy (take (j - i) (drop i s)) \<ge> 4))"

section \<open>The spans\<close>

fun laid_out :: "nat \<Rightarrow> nat \<Rightarrow> span list \<Rightarrow> bool" where
  "laid_out n e [] = True"
| "laid_out n e (s # ss) = (e \<le> sp_start s \<and> sp_start s < sp_end s \<and> sp_end s \<le> n \<and> laid_out n (sp_end s) ss)"

lemma set_insert_span [simp]: "set (insert_span x ys) = insert x (set ys)"
  by (induction ys) auto

lemma set_sort_spans [simp]: "set (sort_spans xs) = set xs"
  unfolding sort_spans_def by (induction xs) auto

lemma sort_spans_sorted: "sorted_wrt span_le (sort_spans xs)"
proof -
  have "sorted_wrt span_le (insert_span x ys)" if "sorted_wrt span_le ys" for x ys
    using that
  proof (induction ys)
    case (Cons y ys)
    then show ?case by (auto simp: span_le_def)
  qed simp
  then show ?thesis unfolding sort_spans_def by (induction xs) auto
qed

lemma merge_subset: "set (merge_spans e ss) \<subseteq> set ss"
  by (induction ss arbitrary: e) auto

lemma merge_laid_out:
  "\<forall>s\<in>set ss. sp_start s < sp_end s \<and> sp_end s \<le> n \<Longrightarrow> laid_out n e (merge_spans e ss)"
  by (induction ss arbitrary: e) auto

text \<open>The start of every span lies in a kept one.\<close>

lemma merge_covers:
  "sorted_wrt span_le ss \<Longrightarrow> s \<in> set ss \<Longrightarrow> \<forall>t\<in>set ss. sp_start t < sp_end t \<Longrightarrow>
   sp_start s < e \<or> (\<exists>t\<in>set (merge_spans e ss). sp_start t \<le> sp_start s \<and> sp_start s < sp_end t)"
proof (induction ss arbitrary: e)
  case (Cons a ss)
  show ?case
  proof (cases "sp_start a < e")
    case True
    then show ?thesis using Cons by auto
  next
    case False
    have le: "sp_start a \<le> sp_start s" using Cons.prems(1,2) by (auto simp: span_le_def)
    show ?thesis
    proof (cases "s = a")
      case True
      then show ?thesis using False Cons.prems(3) by auto
    next
      case ne: False
      with Cons.prems Cons.IH [of "sp_end a"]
      have "sp_start s < sp_end a \<or> (\<exists>t\<in>set (merge_spans (sp_end a) ss). sp_start t \<le> sp_start s \<and> sp_start s < sp_end t)"
        by auto
      then show ?thesis using False le by auto
    qed
  qed
qed simp

lemma pattern_span_iff:
  "s \<in> set (pattern_spans ps content) \<longleftrightarrow>
   (\<exists>r. (sp_type s, r) \<in> set ps \<and> (sp_start s, sp_end s) \<in> set (matches r content))"
  by (cases s) (force simp: pattern_spans_def)

lemma entropy_fold_keeps: "set spans \<subseteq> set (foldl (entropy_span opt c) spans ms)"
proof (induction ms arbitrary: spans)
  case (Cons m ms)
  have "set spans \<subseteq> set (entropy_span opt c spans m)" by (auto simp: entropy_span_def Let_def)
  then show ?case using Cons [of "entropy_span opt c spans m"] by auto
qed simp

lemma entropy_fold_from:
  "s \<in> set (foldl (entropy_span opt c) spans ms) \<Longrightarrow> s \<in> set spans \<or> (sp_start s, sp_end s) \<in> set ms"
proof (induction ms arbitrary: spans)
  case (Cons m ms)
  from Cons.IH [of "entropy_span opt c spans m"] Cons.prems show ?case
    by (auto simp: entropy_span_def Let_def split: if_splits)
qed simp

lemma detect_spans_range:
  assumes "s \<in> set (detect_spans opt c)"
  shows "sp_start s < sp_end s \<and> sp_end s \<le> length c"
proof -
  from entropy_fold_from [OF assms [unfolded detect_spans_def]]
  obtain r where "(sp_start s, sp_end s) \<in> set (matches r c)" unfolding pattern_span_iff by blast
  then show ?thesis by (rule matches_range)
qed

lemma detects_pattern:
  assumes "(ty, r) \<in> set (patterns opt)" "(i, j) \<in> set (matches r c)"
  shows "\<lparr>sp_start = i, sp_end = j, sp_type = ty\<rparr> \<in> set (detect_spans opt c)"
proof -
  have "\<lparr>sp_start = i, sp_end = j, sp_type = ty\<rparr> \<in> set (pattern_spans (patterns opt) c)"
    unfolding pattern_span_iff using assms by auto
  then show ?thesis unfolding detect_spans_def using entropy_fold_keeps by (rule subsetD [rotated])
qed

definition merged_spans :: "RedactionOptions \<Rightarrow> string \<Rightarrow> span list" where
  "merged_spans opt c = merge_spans 0 (sort_spans (detect_spans opt c))"

lemma merged_laid_out: "laid_out (length c) 0 (merged_spans opt c)"
  unfolding merged_spans_def by (rule merge_laid_out) (use detect_spans_range in auto)

lemma merged_covers:
  assumes "s \<in> set (detect_spans opt c)"
  shows "\<exists>t\<in>set (merged_spans opt c). sp_start t \<le> sp_start s \<and> sp_start s < sp_end t"
  using merge_covers [OF sort_spans_sorted, of s "detect_spans opt c" 0] assms detect_spans_range
  unfolding merged_spans_def by auto

lemma redactText_iff:
  "redactText opt c = Inr (out, fs) \<longleftrightarrow>
   (\<forall>x\<in>set c. \<not> control_char x) \<and> out = render c 0 (merged_spans opt c) \<and> fs = map finding_of (merged_spans opt c)"
  by (auto simp: redactText_def merged_spans_def Let_def)

section \<open>The output, position by position\<close>

text \<open>
  The reference: what each position of the content contributes. A finding that starts there
  contributes its placeholder, a position inside a finding nothing else, any other its
  character.
\<close>

definition covered :: "RedactionFinding list \<Rightarrow> nat \<Rightarrow> bool" where
  "covered fs i = (\<exists>f\<in>set fs. fi_start f \<le> i \<and> i < fi_start f + fi_length f)"

definition redact_at :: "string \<Rightarrow> RedactionFinding list \<Rightarrow> nat \<Rightarrow> string" where
  "redact_at c fs i =
     concat (map (\<lambda>f. redactionPlaceholder (fi_type f) (fi_length f)) (filter (\<lambda>f. fi_start f = i) fs))
       @ (if covered fs i then [] else [c ! i])"

lemma laid_out_ge: "laid_out n e ss \<Longrightarrow> s \<in> set ss \<Longrightarrow> e \<le> sp_start s"
proof (induction ss arbitrary: e)
  case (Cons a ss)
  then have "s = a \<or> sp_end a \<le> sp_start s" by (cases "s = a") (simp_all add: Cons.IH)
  then show ?case using Cons.prems by auto
qed simp

lemma laid_out_length: "laid_out n e ss \<Longrightarrow> s \<in> set ss \<Longrightarrow> sp_start s < sp_end s \<and> sp_end s \<le> n"
  by (induction ss arbitrary: e) auto

lemma redact_at_before:
  assumes "laid_out n (sp_end s) ss" "sp_start s < sp_end s" "i < sp_start s"
  shows "redact_at c (map finding_of (s # ss)) i = [c ! i]"
proof -
  have "i < sp_start t" if "t \<in> set (s # ss)" for t
    using laid_out_ge [OF assms(1), of t] that assms(2,3) by auto
  then show ?thesis by (auto simp: redact_at_def covered_def finding_of_def filter_empty_conv) force+
qed

lemma redact_at_inside:
  assumes "laid_out n (sp_end s) ss" "sp_start s \<le> i" "i < sp_end s"
  shows "redact_at c (map finding_of (s # ss)) i =
    (if i = sp_start s then redactionPlaceholder (sp_type s) (sp_end s - sp_start s) else [])"
proof -
  have "i < sp_start t" if "t \<in> set ss" for t using laid_out_ge [OF assms(1) that] assms(3) by auto
  then have "filter (\<lambda>f. fi_start f = i) (map finding_of ss) = []"
    by (auto simp: filter_empty_conv finding_of_def)
  moreover have "covered (map finding_of (s # ss)) i" using assms by (auto simp: covered_def finding_of_def)
  ultimately show ?thesis by (simp add: redact_at_def) (simp add: finding_of_def)
qed

lemma redact_at_after:
  assumes "sp_start s < sp_end s" "sp_end s \<le> i"
  shows "redact_at c (map finding_of (s # ss)) i = redact_at c (map finding_of ss) i"
  using assms by (simp add: redact_at_def covered_def finding_of_def)

lemma render_positional:
  "laid_out (length c) pos ss \<Longrightarrow> pos \<le> length c \<Longrightarrow>
   render c pos ss = concat (map (redact_at c (map finding_of ss)) [pos..<length c])"
proof (induction ss arbitrary: pos)
  case Nil
  have "redact_at c [] = (\<lambda>i. [c ! i])" by (simp add: redact_at_def covered_def fun_eq_iff)
  then have "concat (map (redact_at c []) [pos..<length c]) = map ((!) c) [pos..<length c]"
    by (simp add: concat_map_singleton)
  also have "\<dots> = drop pos c" by (intro nth_equalityI) auto
  finally show ?case by simp
next
  case (Cons s ss)
  let ?f = "redact_at c (map finding_of (s # ss))"
  from Cons.prems have s: "pos \<le> sp_start s" "sp_start s < sp_end s" "sp_end s \<le> length c" "laid_out (length c) (sp_end s) ss"
    by auto
  have parts: "[pos..<length c] = [pos..<sp_start s] @ [sp_start s..<sp_end s] @ [sp_end s..<length c]"
    using s by (metis le_add_diff_inverse less_imp_le order.trans upt_add_eq_append)
  have "map ?f [pos..<sp_start s] = map (\<lambda>i. [c ! i]) [pos..<sp_start s]"
    by (rule map_cong [OF refl], rule redact_at_before [OF s(4,2)]) simp
  then have "concat (map ?f [pos..<sp_start s]) = map ((!) c) [pos..<sp_start s]"
    by (simp only: concat_map_singleton)
  also have "\<dots> = take (sp_start s - pos) (drop pos c)"
    using s by (intro nth_equalityI) auto
  finally have 1: "concat (map ?f [pos..<sp_start s]) = take (sp_start s - pos) (drop pos c)" .
  have "concat (map ?f [Suc (sp_start s)..<sp_end s]) = []"
    using redact_at_inside [OF s(4)] by (simp add: concat_eq_Nil_conv)
  then have 2: "concat (map ?f [sp_start s..<sp_end s]) = redactionPlaceholder (sp_type s) (sp_end s - sp_start s)"
    using redact_at_inside [OF s(4) order.refl s(2)] s(2) by (simp add: upt_conv_Cons)
  have 3: "concat (map ?f [sp_end s..<length c]) = render c (sp_end s) ss"
    unfolding Cons.IH [OF s(4,3)] using redact_at_after [OF s(2)] by (intro arg_cong [of _ _ concat] map_cong) auto
  show ?case unfolding parts by (simp only: map_append concat_append 1 2 3 render.simps)
qed

lemma redaction_positions:
  assumes "redactText opt c = Inr (out, fs)"
  shows "out = concat (map (redact_at c fs) [0..<length c])"
  using assms render_positional [OF merged_laid_out] unfolding redactText_iff by auto

definition leak_text :: string where "leak_text = ''Bearer aaaaaaaaaa-token:hunter2x1''"

lemma leak_scans:
  "pattern_spans defaultPatterns leak_text =
     [\<lparr>sp_start = 0, sp_end = 23, sp_type = ''bearer-token''\<rparr>, \<lparr>sp_start = 18, sp_end = 33, sp_type = ''key-value-assignment''\<rparr>]"
  "matches ENTROPY_TOKEN leak_text = []"
  by code_simp+

lemma leak_detected:
  "detect_spans default_redaction leak_text =
     [\<lparr>sp_start = 0, sp_end = 23, sp_type = ''bearer-token''\<rparr>, \<lparr>sp_start = 18, sp_end = 33, sp_type = ''key-value-assignment''\<rparr>]"
  by (simp add: detect_spans_def default_redaction_def leak_scans)

lemma leak_result:
  "redactText default_redaction leak_text
     = Inr (''[REDACTED:bearer-token:23]:hunter2x1'', [\<lparr>fi_type = ''bearer-token'', fi_start = 0, fi_length = 23\<rparr>])"
proof -
  have "merged_spans default_redaction leak_text = [\<lparr>sp_start = 0, sp_end = 23, sp_type = ''bearer-token''\<rparr>]"
    unfolding merged_spans_def leak_detected by code_simp
  moreover have "\<forall>x\<in>set leak_text. \<not> control_char x" by code_simp
  moreover have "render leak_text 0 [\<lparr>sp_start = 0, sp_end = 23, sp_type = ''bearer-token''\<rparr>] = ''[REDACTED:bearer-token:23]:hunter2x1''"
    by code_simp
  ultimately show ?thesis unfolding redactText_iff by (simp add: finding_of_def)
qed

text \<open>The same text with another secret.\<close>

definition other_text :: string where "other_text = ''Bearer bbbbbbbbbb-token:hunter2x1''"

lemma other_result:
  "redactText default_redaction other_text
     = Inr (''[REDACTED:bearer-token:23]:hunter2x1'', [\<lparr>fi_type = ''bearer-token'', fi_start = 0, fi_length = 23\<rparr>])"
proof -
  have d: "detect_spans default_redaction other_text =
     [\<lparr>sp_start = 0, sp_end = 23, sp_type = ''bearer-token''\<rparr>, \<lparr>sp_start = 18, sp_end = 33, sp_type = ''key-value-assignment''\<rparr>]"
  proof -
    have "pattern_spans defaultPatterns other_text =
       [\<lparr>sp_start = 0, sp_end = 23, sp_type = ''bearer-token''\<rparr>, \<lparr>sp_start = 18, sp_end = 33, sp_type = ''key-value-assignment''\<rparr>]"
      "matches ENTROPY_TOKEN other_text = []"
      by code_simp+
    then show ?thesis by (simp add: detect_spans_def default_redaction_def)
  qed
  have "merged_spans default_redaction other_text = [\<lparr>sp_start = 0, sp_end = 23, sp_type = ''bearer-token''\<rparr>]"
    unfolding merged_spans_def d by code_simp
  moreover have "\<forall>x\<in>set other_text. \<not> control_char x" by code_simp
  moreover have "render other_text 0 [\<lparr>sp_start = 0, sp_end = 23, sp_type = ''bearer-token''\<rparr>] = ''[REDACTED:bearer-token:23]:hunter2x1''"
    by code_simp
  ultimately show ?thesis unfolding redactText_iff by (simp add: finding_of_def)
qed

text \<open>
  C25. The redacted text is the one that the reference computes position by position from the
  findings: each finding becomes its placeholder, every other character stays where it is.
\<close>

theorem redaction_is_positional:
  assumes "redactText opt c = Inr (out, fs)"
  shows "out = concat (map (redact_at c fs) [0..<length c])"
  by (rule redaction_positions [OF assms])

theorem redaction_is_positional_witness:
  "concat (map (redact_at leak_text [\<lparr>fi_type = ''bearer-token'', fi_start = 0, fi_length = 23\<rparr>]) [0..<length leak_text])
     = ''[REDACTED:bearer-token:23]:hunter2x1''"
  using redaction_is_positional [OF leak_result] by simp

text \<open>
  Nothing of what is redacted shows: two contents with the same findings that agree outside
  them have the same output.
\<close>

theorem redaction_hides_findings:
  assumes "redactText opt c = Inr (out, fs)" "redactText opt d = Inr (out', fs)"
    and "length c = length d" "\<And>i. i < length c \<Longrightarrow> \<not> covered fs i \<Longrightarrow> c ! i = d ! i"
  shows "out = out'"
proof -
  have "redact_at c fs i = redact_at d fs i" if "i < length c" for i
    using assms(4) that by (simp add: redact_at_def)
  then have "map (redact_at c fs) [0..<length c] = map (redact_at d fs) [0..<length d]"
    using assms(3) by (intro map_cong) auto
  then show ?thesis
    unfolding redaction_positions [OF assms(1)] redaction_positions [OF assms(2)] by (simp only:)
qed

theorem redaction_hides_findings_witness:
  "leak_text \<noteq> other_text \<and> map_sum id fst (redactText default_redaction leak_text) = map_sum id fst (redactText default_redaction other_text)"
proof -
  have "leak_text ! i = other_text ! i"
    if "i < length leak_text" "\<not> covered [\<lparr>fi_type = ''bearer-token'', fi_start = 0, fi_length = 23\<rparr>] i" for i
  proof -
    have "23 \<le> i" using that(2) by (simp add: covered_def)
    then obtain k where k: "i = 23 + k" using le_Suc_ex by blast
    have "drop 23 leak_text = drop 23 other_text" "23 \<le> length leak_text" "23 \<le> length other_text" by code_simp+
    then show ?thesis unfolding k by (metis nth_drop)
  qed
  then have "map_sum id fst (redactText default_redaction leak_text) = map_sum id fst (redactText default_redaction other_text)"
    using redaction_hides_findings [OF leak_result other_result] unfolding leak_result other_result
    by (simp add: leak_text_def other_text_def)
  moreover have "leak_text \<noteq> other_text" by code_simp
  ultimately show ?thesis by blast
qed

section \<open>What is detected\<close>

lemma nonempty_seq_re: "rs \<noteq> [] \<Longrightarrow> nonempty (seq_re rs) \<longleftrightarrow> (\<exists>r\<in>set rs. nonempty r)"
  by (induction rs rule: seq_re.induct) auto

lemma nonempty_alt_re: "nonempty (alt_re rs) \<longleftrightarrow> (\<forall>r\<in>set rs. nonempty r)"
  by (induction rs rule: alt_re.induct) auto

lemma consuming_seq_re: "rs \<noteq> [] \<Longrightarrow> consuming (seq_re rs) \<longleftrightarrow> (\<forall>r\<in>set rs. consuming r)"
  by (induction rs rule: seq_re.induct) auto

lemma consuming_alt_re: "consuming (alt_re rs) \<longleftrightarrow> (\<forall>r\<in>set rs. consuming r)"
  by (induction rs rule: alt_re.induct) auto

lemma ignore_case_proper: "nonempty (ignore_case r) = nonempty r" "consuming (ignore_case r) = consuming r"
proof -
  show n: "nonempty (ignore_case r) = nonempty r" for r by (induction r) auto
  show "consuming (ignore_case r) = consuming r" by (induction r) (auto simp: n)
qed

lemma proper_parts [simp]:
  "nonempty (ic s)" "consuming (ic s)" "nonempty (nc s)" "consuming (nc s)" "nonempty (alnum s)" "consuming (alnum s)"
  "nonempty (upper_or s)" "consuming (upper_or s)" "nonempty space_re" "consuming space_re" "nonempty any_re" "consuming any_re"
  "s \<noteq> [] \<Longrightarrow> nonempty (lit_re s)" "s \<noteq> [] \<Longrightarrow> consuming (lit_re s)"
  by (auto simp: ic_def nc_def alnum_def upper_or_def space_re_def any_re_def lit_re_def chr_re_def nonempty_seq_re
      consuming_seq_re neq_Nil_conv)

lemma proper_default_patterns: "list_all (\<lambda>(ty, r). nonempty r \<and> consuming r) defaultPatterns"
  unfolding defaultPatterns_def list.pred_inject prod.case
  by (intro conjI; simp add: nonempty_seq_re consuming_seq_re nonempty_alt_re consuming_alt_re ignore_case_proper pem_re_def)

lemma proper_default: "(ty, r) \<in> set defaultPatterns \<Longrightarrow> nonempty r \<and> consuming r"
  using proper_default_patterns by (auto simp: list_all_iff)

text \<open>
  No span reaches past the end of an earlier one that it starts in.
\<close>

definition nested_spans :: "span list \<Rightarrow> bool" where
  "nested_spans ss =
     (\<forall>s\<in>set ss. \<forall>t\<in>set ss. sp_start s \<le> sp_start t \<and> sp_start t < sp_end s \<longrightarrow> sp_end t \<le> sp_end s)"


definition bearer_text :: string where "bearer_text = ''x Bearer aaaaaaaaaaaaaaaa''"

definition bearer_re :: re where "bearer_re = snd (defaultPatterns ! 5)"


text \<open>
  Where two detected spans overlap in part, the tail of the later one is sent: in this text the
  assignment pattern finds \<open>token:hunter2x1\<close>, but its span starts in that of the bearer token and is
  dropped by the merge, so the value itself stays in the output.
\<close>

theorem overlapping_secret_is_sent:
  "redactText default_redaction leak_text
     = Inr (''[REDACTED:bearer-token:23]:hunter2x1'', [\<lparr>fi_type = ''bearer-token'', fi_start = 0, fi_length = 23\<rparr>])"
  by (rule leak_result)

end
