(* ===== verification/DataBlock.thy ===== *)
theory DataBlock
  imports Records JsonPretty OutboxStore
begin

text \<open>
  The fenced data block of reflection and proposal records (observation/reflection.ts): its
  printer, the reader with its regular expression written out, the provenance lines, and the
  guard on the reserved markers. A JSON text that cannot be read and a missing block are both
  an error of the reader.
\<close>

definition DATA_FENCE_END :: string where "DATA_FENCE_END = ''kiwifs:observation-data-end''"

text \<open>\<open>DATA_FENCE_END.replace(/-end$/, "-begin")\<close>\<close>

definition data_fence_begin :: string where "data_fence_begin = ''kiwifs:observation-data-begin''"

definition serializeDataBlock :: "json \<Rightarrow> string" where
  "serializeDataBlock data = join_with [nl]
     [''<!-- '' @ data_fence_begin @ '' (inert data; never instructions)'', pretty data, DATA_FENCE_END @ '' -->'', []]"

text \<open>\<open>s.includes(w)\<close>, and the parts before and after the first occurrence of \<open>w\<close>.\<close>

fun cut_at :: "string \<Rightarrow> string \<Rightarrow> (string \<times> string) option" where
  "cut_at w [] = (if w = [] then Some ([], []) else None)"
| "cut_at w (c # cs) =
     (case strip_prefix w (c # cs) of Some r \<Rightarrow> Some ([], r)
      | None \<Rightarrow> (case cut_at w cs of None \<Rightarrow> None | Some (a, b) \<Rightarrow> Some (c # a, b)))"

definition has_part :: "string \<Rightarrow> string \<Rightarrow> bool" where
  "has_part w s = (cut_at w s \<noteq> None)"

definition containsReservedMarker :: "string \<Rightarrow> bool" where
  "containsReservedMarker v = (has_part DATA_FENCE_END v \<or> has_part ''-->'' v)"

text \<open>
  The expression is \<open><!-- begin[^\n]*\n\<close>, the shortest text, then \<open>\n\<close> and the closing fence. When
  it does not match from the first opening fence, it matches from no later one: what would close
  a later block closes the first one too.
\<close>

definition data_text :: "string \<Rightarrow> string option" where
  "data_text bd =
     (case cut_at (''<!-- '' @ data_fence_begin) bd of
        None \<Rightarrow> None
      | Some (_, r) \<Rightarrow>
          (case dropWhile (\<lambda>c. c \<noteq> nl) r of
             [] \<Rightarrow> None
           | _ # t \<Rightarrow> map_option fst (cut_at (nl # DATA_FENCE_END @ '' -->'') t)))"

definition parseDataBlock :: "string \<Rightarrow> json option" where
  "parseDataBlock bd = (case data_text bd of None \<Rightarrow> None | Some t \<Rightarrow> json_parse t)"

definition provenanceLine :: "string \<Rightarrow> string" where
  "provenanceLine l = ''kiwifs-provenance: '' @ l"

section \<open>Searching\<close>

lemma strip_prefix_iff: "strip_prefix w s = Some r \<longleftrightarrow> s = w @ r"
  by (auto simp: strip_prefix_def) (metis append_take_drop_id)

lemma strip_prefix_None: "strip_prefix w s = None \<longleftrightarrow> \<not> prefix w s"
  by (auto simp: strip_prefix_def prefix_def) (metis append_take_drop_id)

lemma strip_prefix_append [simp]: "strip_prefix w (w @ r) = Some r"
  by (simp add: strip_prefix_def)

lemma cut_at_sound: "cut_at w s = Some (a, b) \<Longrightarrow> s = a @ w @ b"
proof (induction s arbitrary: a)
  case (Cons c cs)
  then show ?case by (auto simp: strip_prefix_iff split: option.splits)
qed (auto split: if_splits)

lemma cut_at_here: "w \<noteq> [] \<Longrightarrow> cut_at w (w @ r) = Some ([], r)"
proof -
  assume "w \<noteq> []"
  then obtain c cs where "w @ r = c # cs" by (cases w) auto
  moreover have "strip_prefix w (w @ r) = Some r" by simp
  ultimately show ?thesis by simp
qed

lemma cut_at_first:
  assumes "\<And>u v. p @ w @ r = u @ w @ v \<Longrightarrow> length p \<le> length u"
  shows "w \<noteq> [] \<Longrightarrow> cut_at w (p @ w @ r) = Some (p, r)"
  using assms
proof (induction p)
  case (Cons c p)
  have "\<not> prefix w (c # p @ w @ r)" using Cons.prems(2) [of "[]"] by (auto simp: prefix_def)
  moreover have "cut_at w (p @ w @ r) = Some (p, r)"
  proof (rule Cons.IH [OF Cons.prems(1)])
    fix u v
    assume "p @ w @ r = u @ w @ v"
    then show "length p \<le> length u" using Cons.prems(2) [of "c # u" v] by simp
  qed
  ultimately show ?case by (simp add: strip_prefix_None [symmetric])
qed (simp add: cut_at_here)

text \<open>A text whose lines, after the first, do not start with the first character of the word.\<close>

fun no_line :: "char \<Rightarrow> string \<Rightarrow> bool" where
  "no_line d [] = True"
| "no_line d (c # cs) = ((c = nl \<longrightarrow> cs = [] \<or> hd cs \<noteq> d) \<and> no_line d cs)"

lemma cut_at_line:
  assumes "no_line d p" "w = nl # d # z" "d \<noteq> nl"
  shows "cut_at w (p @ w @ r) = Some (p, r)"
  using assms
proof (induction p)
  case (Cons c p)
  have "\<not> prefix w (c # p @ w @ r)" using Cons.prems(1) assms(2,3) by (cases p) auto
  then have "strip_prefix w (c # p @ w @ r) = None" by (simp only: strip_prefix_None not_False_eq_True)
  moreover have "cut_at w (p @ w @ r) = Some (p, r)" using Cons assms(2,3) by simp
  ultimately show ?case by simp
next
  case Nil
  have "w \<noteq> []" using assms(2) by simp
  then show ?case by (simp add: cut_at_here)
qed

section \<open>The block is read back\<close>

lemma no_line_append:
  "no_line d (a @ b) \<longleftrightarrow> no_line d a \<and> no_line d b \<and> (a \<noteq> [] \<longrightarrow> last a = nl \<longrightarrow> b = [] \<or> hd b \<noteq> d)"
  by (induction a) (auto simp: hd_append)

lemma no_line_flat: "nl \<notin> set s \<Longrightarrow> no_line d s"
  by (induction s) auto

lemma indent_line: "d \<noteq> CHR '' '' \<Longrightarrow> no_line d (line_indent n @ b) \<longleftrightarrow> no_line d b \<and> (n = 0 \<longrightarrow> b = [] \<or> hd b \<noteq> d)"
proof -
  assume d: "d \<noteq> CHR '' ''"
  have "no_line d (replicate n (CHR '' '') @ b) \<longleftrightarrow> no_line d b" by (induction n) auto
  then show ?thesis using d by (cases n) (auto simp: line_indent_def)
qed

lemma join_no_line:
  assumes "\<forall>s\<in>set ss. no_line d s \<and> s \<noteq> [] \<and> last s \<noteq> nl"
  shows "no_line d (join_with '','' ss) \<and> (ss \<noteq> [] \<longrightarrow> join_with '','' ss \<noteq> [] \<and> last (join_with '','' ss) \<noteq> nl)"
  using assms
proof (induction ss)
  case (Cons s ss)
  then show ?case by (cases "ss = []") (auto simp: no_line_append join_with_Cons)
qed simp

text \<open>A line of the indented form starts with a space or a closing bracket.\<close>

lemma flat_line: "nl \<notin> set s \<Longrightarrow> s \<noteq> [] \<Longrightarrow> no_line d s \<and> s \<noteq> [] \<and> last s \<noteq> nl"
  using last_in_set no_line_flat by metis

lemma stringify_line: "no_line d (stringify v) \<and> stringify v \<noteq> [] \<and> last (stringify v) \<noteq> nl"
  by (rule flat_line [OF stringify_no_nl]) (use stringify_first [of v] in auto)

lemma pretty_lines:
  assumes "d \<notin> set '' ]}'' "
  shows "no_line d (pretty_at n v) \<and> pretty_at n v \<noteq> [] \<and> last (pretty_at n v) \<noteq> nl"
proof (induction v arbitrary: n)
  case (JArr xs)
  let ?f = "\<lambda>x. line_indent (n + 2) @ pretty_at (n + 2) x"
  have "\<forall>s\<in>set (map ?f xs). no_line d s \<and> s \<noteq> [] \<and> last s \<noteq> nl"
    using JArr.IH assms by (auto simp: indent_line)
  from join_no_line [OF this] show ?case using assms
    by (auto simp: no_line_append indent_line indent_line [where b = "[]", simplified])
next
  case (JObj ms)
  let ?f = "\<lambda>(k, v). line_indent (n + 2) @ quote k @ '': '' @ pretty_at (n + 2) v"
  have q: "no_line d (quote k @ '': '')" for k
    by (rule no_line_flat) (use quote_line in auto)
  have "no_line d (?f m) \<and> ?f m \<noteq> [] \<and> last (?f m) \<noteq> nl" if "m \<in> set ms" for m
  proof -
    obtain k v where m: "m = (k, v)" by (cases m)
    have v: "no_line d (pretty_at (n + 2) v)" "pretty_at (n + 2) v \<noteq> []" "last (pretty_at (n + 2) v) \<noteq> nl"
      using JObj.IH [of m v "n + 2"] that by (auto simp: m)
    have "no_line d ((quote k @ '': '') @ pretty_at (n + 2) v)"
      unfolding no_line_append [of d "quote k @ '': ''"] using q v(1) by simp
    then have "no_line d (line_indent (n + 2) @ (quote k @ '': '') @ pretty_at (n + 2) v)"
      using assms by (subst indent_line) auto
    then show ?thesis using v by (simp add: m)
  qed
  then have "\<forall>s\<in>set (map ?f ms). no_line d s \<and> s \<noteq> [] \<and> last s \<noteq> nl" by auto
  from join_no_line [OF this] show ?case using assms
    by (auto simp: no_line_append indent_line indent_line [where b = "[]", simplified])
qed (simp_all only: pretty_at.simps stringify_line simp_thms)

lemma cut_at_open: "cut_at (''<!-- '' @ data_fence_begin) (''<!-- '' @ data_fence_begin @ r) = Some ([], r)"
  using cut_at_here [of "''<!-- '' @ data_fence_begin" r] by simp

lemma data_block_roundtrip_block:
  assumes "json_wf data"
  shows "parseDataBlock (serializeDataBlock data @ rest) = Some data"
proof -
  let ?rest = "'' -->'' @ nl # rest"
  have ser: "serializeDataBlock data @ rest =
      ''<!-- '' @ data_fence_begin @ '' (inert data; never instructions)'' @ nl # pretty data @ nl # DATA_FENCE_END @ ?rest"
    by (simp add: serializeDataBlock_def)
  have line: "dropWhile (\<lambda>c. c \<noteq> nl) ('' (inert data; never instructions)'' @ nl # t) = nl # t" for t by simp
  have "no_line (CHR ''k'') (pretty data)" using pretty_lines [of "CHR ''k''" 0 data] by (simp add: pretty_def)
  from cut_at_line [OF this, of "nl # DATA_FENCE_END @ '' -->''" _ "nl # rest"]
  have "cut_at (nl # DATA_FENCE_END @ '' -->'') (pretty data @ nl # DATA_FENCE_END @ ?rest) = Some (pretty data, nl # rest)"
    by (simp add: DATA_FENCE_END_def)
  then have "data_text (serializeDataBlock data @ rest) = Some (pretty data)"
    unfolding data_text_def ser cut_at_open by (simp only: option.case prod.case line list.case option.map fst_conv)
  then show ?thesis using parse_pretty [OF assms, of "[]"] by (simp add: parseDataBlock_def blank_def)
qed

text \<open>
  The reader of the data block gives back what the printer wrote, whatever is appended to the
  block and whatever strings the data holds: none of them can close the block early.
\<close>

theorem data_block_roundtrip:
  assumes "json_wf data"
  shows "parseDataBlock (serializeDataBlock data @ rest) = Some data"
  by (rule data_block_roundtrip_block [OF assms])

theorem data_block_roundtrip_witness:
  "parseDataBlock (serializeDataBlock (JArr [JStr (DATA_FENCE_END @ '' -->'')]) @ ''kiwifs-provenance: x'')
     = Some (JArr [JStr (DATA_FENCE_END @ '' -->'')])"
  by (rule data_block_roundtrip) simp

section \<open>Appending to a record\<close>

text \<open>\<open>raw.replace(/\n*$/, "\n")\<close> followed by a provenance line, on a record and on its body.\<close>

definition strip_nls :: "string \<Rightarrow> string" where
  "strip_nls s = rev (dropWhile (\<lambda>c. c = nl) (rev s))"

definition appendProvenance :: "string \<Rightarrow> string \<Rightarrow> string" where
  "appendProvenance raw l = strip_nls raw @ [nl] @ provenanceLine l @ [nl]"

definition body_with :: "string \<Rightarrow> string \<Rightarrow> string" where
  "body_with bd l = (if strip_nls bd = [] then [] else strip_nls bd @ [nl]) @ provenanceLine l @ [nl]"

definition record_head :: "RecordFrontmatter \<Rightarrow> string" where
  "record_head fm = fence @ nl # join_with [nl] (map fm_text (fm_pairs fm)) @ nl # fence"

lemma serialize_wf:
  assumes "record_wf date_parse r"
  shows "serializeStoredRecord r = Inr (record_head (frontmatter r) @ nl # body r)"
  using fm_pairs_wf(1) [OF assms] record_wfD(1) [OF assms refl]
  by (simp add: serializeStoredRecord_def SCHEMA_VERSION_def fm_lines_ok record_head_def)

lemma parse_record_text:
  assumes "record_wf date_parse r"
  shows "parseStoredRecord date_parse (record_head (frontmatter r) @ nl # body r) = ReadOk r"
  using print_read_record [OF assms] serialize_wf [OF assms] by auto

lemma parsed_wf: "parseStoredRecord date_parse doc = ReadOk r \<Longrightarrow> record_wf date_parse r"
  using parseFrontmatter_value [of doc]
  by (auto simp: parseStoredRecord_def split: prod.splits option.splits if_splits intro!: read_fields_ok)

lemma strip_nls_append: "strip_nls (a @ b) = (if strip_nls b = [] then strip_nls a else a @ strip_nls b)"
  by (simp add: strip_nls_def dropWhile_append)

lemma strip_nls_nl [simp]: "strip_nls (nl # b) = (if strip_nls b = [] then [] else nl # strip_nls b)"
  using strip_nls_append [of "[nl]" b] by (simp add: strip_nls_def)

lemma strip_nls_end: "s \<noteq> [] \<Longrightarrow> last s \<noteq> nl \<Longrightarrow> strip_nls s = s"
  by (cases s rule: rev_cases) (simp_all add: strip_nls_def)

lemma strip_nls_prefix: "prefix (strip_nls s) s"
proof
  have "rev (takeWhile (\<lambda>c. c = nl) (rev s) @ dropWhile (\<lambda>c. c = nl) (rev s)) = s" by simp
  then show "s = strip_nls s @ rev (takeWhile (\<lambda>c. c = nl) (rev s))" unfolding strip_nls_def rev_append by simp
qed

lemma head_end: "strip_nls (record_head fm) = record_head fm"
  by (rule strip_nls_end) (simp_all add: record_head_def)

lemma append_to_record:
  "appendProvenance (record_head fm @ nl # bd) l = record_head fm @ nl # body_with bd l"
  by (simp add: appendProvenance_def body_with_def strip_nls_append head_end)

text \<open>What is found stays found, at the same place, when text is appended.\<close>

lemma cut_at_tail: "cut_at w (a @ w @ b) = Some (a, b) \<Longrightarrow> w \<noteq> [] \<Longrightarrow> cut_at w (a @ w @ c) = Some (a, c)"
proof (induction a)
  case (Cons x a)
  have eq: "strip_prefix w (x # a @ w @ b) = None" "cut_at w (a @ w @ b) = Some (a, b)"
    using Cons.prems by (auto split: option.splits)
  then have "\<not> prefix w (x # a @ w @ b)" by (simp add: strip_prefix_None)
  moreover have "prefix w (x # a @ w @ b)" if "prefix w (x # a @ w @ c)"
  proof -
    have "prefix w (x # a @ w)" by (rule prefix_length_prefix [of w "(x # a @ w) @ c"]) (use that in auto)
    then have "prefix w ((x # a @ w) @ b)" by (rule prefix_prefix)
    then show ?thesis by simp
  qed
  ultimately have "\<not> prefix w (x # a @ w @ c)" by blast
  then have "strip_prefix w (x # a @ w @ c) = None" by (simp only: strip_prefix_None not_False_eq_True)
  then show ?case using Cons.IH [OF eq(2) Cons.prems(2)] by simp
qed (simp add: cut_at_here)

lemma cut_at_strip:
  assumes "cut_at w s = Some (a, b)" "w \<noteq> []" "last w \<noteq> nl"
  shows "cut_at w (strip_nls s @ t) = Some (a, strip_nls b @ t)"
proof -
  have s: "s = a @ w @ b" using cut_at_sound [OF assms(1)] .
  have "strip_nls (a @ w) = a @ w" using assms(2,3) by (intro strip_nls_end) auto
  then have "strip_nls s = a @ w @ strip_nls b" unfolding s using strip_nls_append [of "a @ w" b] by simp
  then show ?thesis using cut_at_tail [OF _ assms(2), of a b] assms(1) unfolding s by simp
qed

lemma has_part_strip:
  assumes "has_part w s" "w \<noteq> []" "last w \<noteq> nl"
  shows "has_part w (strip_nls s @ t)"
  using assms cut_at_strip [OF _ assms(2,3)] by (fastforce simp: has_part_def)

lemma has_part_iff: "w \<noteq> [] \<Longrightarrow> has_part w s \<longleftrightarrow> (\<exists>a b. s = a @ w @ b)"
proof
  assume "w \<noteq> []" "\<exists>a b. s = a @ w @ b"
  then obtain a b where "s = a @ w @ b" by blast
  then show "has_part w s" using \<open>w \<noteq> []\<close>
  proof (induction a arbitrary: s)
    case (Cons x a)
    then show ?case by (auto simp: has_part_def split: option.splits)
  qed (simp add: has_part_def cut_at_here)
qed (use cut_at_sound in \<open>fastforce simp: has_part_def\<close>)

lemma data_text_strip:
  assumes "data_text bd = Some t"
  shows "data_text (strip_nls bd @ rest) = Some t \<and> strip_nls bd \<noteq> []"
proof -
  let ?o = "''<!-- '' @ data_fence_begin" and ?e = "nl # DATA_FENCE_END @ '' -->''"
  obtain a r x u v where cut: "cut_at ?o bd = Some (a, r)" "dropWhile (\<lambda>c. c \<noteq> nl) r = x # u" "cut_at ?e u = Some (t, v)"
    using assms by (auto simp: data_text_def split: option.splits list.splits)
  have x: "x = nl" using cut(2) hd_dropWhile [of "\<lambda>c. c \<noteq> nl" r] by simp
  have u: "u = t @ ?e @ v" using cut_at_sound [OF cut(3)] .
  have r: "r = takeWhile (\<lambda>c. c \<noteq> nl) r @ nl # t @ ?e @ v" using cut(2) x u by (metis takeWhile_dropWhile_id)
  have o: "?o \<noteq> []" "last ?o \<noteq> nl" "?e \<noteq> []" "last ?e \<noteq> nl" by (simp_all add: data_fence_begin_def)
  let ?q = "takeWhile (\<lambda>c. c \<noteq> nl) r @ nl # t @ ?e"
  have "strip_nls ?q = ?q" by (rule strip_nls_end) simp_all
  then have "strip_nls r = ?q @ strip_nls v" using r strip_nls_append [of ?q v] by (metis append.assoc append_Cons append_Nil2)
  then have "dropWhile (\<lambda>c. c \<noteq> nl) (strip_nls r @ rest) = nl # t @ ?e @ strip_nls v @ rest"
    using set_takeWhileD [of _ "\<lambda>c. c \<noteq> nl" r] by (simp add: dropWhile_append3)
  moreover have "cut_at ?e (t @ ?e @ strip_nls v @ rest) = Some (t, strip_nls v @ rest)"
    using cut_at_tail [OF _ o(3)] cut(3) unfolding u .
  moreover have "strip_nls bd \<noteq> []"
    using cut_at_sound [OF cut(1)] strip_nls_append [of "a @ ?o" r] strip_nls_end [of "a @ ?o"] o by auto
  ultimately show ?thesis using cut_at_strip [OF cut(1) o(1,2), of rest] by (simp add: data_text_def)
qed

lemma data_block_stays:
  assumes "parseDataBlock bd = Some d"
  shows "parseDataBlock (body_with bd l) = Some d"
proof -
  obtain t where t: "data_text bd = Some t" "json_parse t = Some d"
    using assms by (auto simp: parseDataBlock_def split: option.splits)
  from data_text_strip [OF t(1)] t(2) show ?thesis by (simp add: parseDataBlock_def body_with_def)
qed

end
