(* ===== verification/Proposals.thy ===== *)
theory Proposals
  imports DataBlock Adapter
begin

text \<open>
  The lifecycle of merge proposals (observation/proposals.ts): the operation log, the reading of
  a proposal and its targets, the verified write, and the transitions approve, reject and undo.
  The backend store is an argument: what opening, reading and writing do in a state of the
  outside world, which other actors may change too. A path found in a data block is the JSON
  value it is, since the code does not check it. The texts of errors are left out, their case is
  kept; audit events change no state and are left out too. \<open>serialized\<close> runs the transitions one
  after another, so each is one function here.
\<close>

section \<open>Errors\<close>

datatype stale_reason =
    NotConfigured | NotReadable | Malformed fail_reason | WrongType | BadDataBlock | BadTargets
  | TargetNotReadable | TargetMalformed fail_reason | ConcurrentModification | NotSupersededByThis
  | WrongStatus LifecycleStatus | TargetStatus LifecycleStatus | Disappeared | BecameUnparseable
  | NoApproval | PartlyApplied nat nat

datatype lifecycle_error =
    StaleProposalError stale_reason
  | OpLogError
  | StoreError string
  | NotSerializable write_error

text \<open>A step that may throw, and the next step on its result.\<close>

definition then_do :: "('e + 'a) \<times> 's \<Rightarrow> ('a \<Rightarrow> 's \<Rightarrow> ('e + 'b) \<times> 's) \<Rightarrow> ('e + 'b) \<times> 's" where
  "then_do r f = (case r of (Inl e, s) \<Rightarrow> (Inl e, s) | (Inr x, s) \<Rightarrow> f x s)"

lemma then_do_simps [simp]: "then_do (Inl e, s) f = (Inl e, s)" "then_do (Inr x, s) f = f x s"
  by (simp_all add: then_do_def)

section \<open>The operation log\<close>

datatype lifecycle_action = Approve | Reject | Undo

fun action_text :: "lifecycle_action \<Rightarrow> string" where
  "action_text Approve = ''approve''" | "action_text Reject = ''reject''" | "action_text Undo = ''undo''"

record LifecycleOpEntry =
  oe_opId :: string
  oe_action :: lifecycle_action
  oe_proposalPath :: string
  oe_targets :: "json list"
  oe_actor :: string
  oe_reason :: "string option"
  oe_at :: string

record ProposalOpLog =
  ol_file :: "string option"
  ol_known :: "string list"

definition op_line :: "LifecycleOpEntry \<Rightarrow> json" where
  "op_line e = JObj
     ([(''schemaVersion'', JNum 1), (''opId'', JStr (oe_opId e)), (''action'', JStr (action_text (oe_action e))),
       (''proposalPath'', JStr (oe_proposalPath e)), (''targets'', JArr (oe_targets e)), (''actor'', JStr (oe_actor e))]
      @ (case oe_reason e of None \<Rightarrow> [] | Some r \<Rightarrow> [(''reason'', JStr r)]) @ [(''at'', JStr (oe_at e))])"

text \<open>The constructor: every line must be readable and carry an operation id.\<close>

fun op_ids :: "string list \<Rightarrow> string list option" where
  "op_ids [] = Some []"
| "op_ids (l # ls) =
     (if trim l = '''' then op_ids ls
      else (case json_parse l of
              Some (JObj ms) \<Rightarrow>
                (case str_field (map_of ms ''opId'') of
                   Some i \<Rightarrow> map_option (\<lambda>is. i # is) (op_ids ls)
                 | None \<Rightarrow> None)
            | _ \<Rightarrow> None))"

definition open_log :: "string option \<Rightarrow> lifecycle_error + ProposalOpLog" where
  "open_log file =
     (case file of
        None \<Rightarrow> Inr \<lparr>ol_file = None, ol_known = []\<rparr>
      | Some raw \<Rightarrow>
          (case op_ids (split_on nl raw) of
             None \<Rightarrow> Inl OpLogError
           | Some ids \<Rightarrow> Inr \<lparr>ol_file = file, ol_known = ids\<rparr>))"

text \<open>
  Append, then sync. A failure before the append changes nothing; one after it leaves the line in
  the file, but the id is not known and the transition stops.
\<close>

definition record_op :: "io \<Rightarrow> LifecycleOpEntry \<Rightarrow> ProposalOpLog \<Rightarrow> (lifecycle_error + unit) \<times> ProposalOpLog" where
  "record_op io e lg =
     (let appended = Some (default_to [] (ol_file lg) @ stringify (op_line e) @ [nl])
      in case io of
           IoFailBefore \<Rightarrow> (Inl OpLogError, lg)
         | IoFailAfter \<Rightarrow> (Inl OpLogError, lg\<lparr>ol_file := appended\<rparr>)
         | IoOk \<Rightarrow> (Inr (), lg\<lparr>ol_file := appended, ol_known := oe_opId e # ol_known lg\<rparr>))"

definition has_op :: "ProposalOpLog \<Rightarrow> string \<Rightarrow> bool" where
  "has_op lg i = (i \<in> set (ol_known lg))"

section \<open>Store and targets\<close>

type_synonym page_read = "read_state \<times> string option"

record 's store_api =
  openStore :: "'s \<Rightarrow> bool \<times> 's"
  st_read :: "json \<Rightarrow> 's \<Rightarrow> (string + page_read) \<times> 's"
  st_write :: "json \<Rightarrow> string \<Rightarrow> string \<Rightarrow> string \<Rightarrow> 's \<Rightarrow> (string + unit) \<times> 's"

record 's world =
  pw_log :: ProposalOpLog
  pw_store :: 's

type_synonym ('a, 's) step = "'s world \<Rightarrow> (lifecycle_error + 'a) \<times> 's world"

abbreviation stale :: "stale_reason \<Rightarrow> 's world \<Rightarrow> (lifecycle_error + 'a) \<times> 's world" where
  "stale why w \<equiv> (Inl (StaleProposalError why), w)"

definition store_call :: "'s store_api \<Rightarrow> ('s \<Rightarrow> (string + 'a) \<times> 's) \<Rightarrow> ('a, 's) step" where
  "store_call api f w =
     (case openStore api (pw_store w) of
        (False, s) \<Rightarrow> stale NotConfigured (w\<lparr>pw_store := s\<rparr>)
      | (True, s) \<Rightarrow>
          (case f s of
             (Inl e, s1) \<Rightarrow> (Inl (StoreError e), w\<lparr>pw_store := s1\<rparr>)
           | (Inr x, s1) \<Rightarrow> (Inr x, w\<lparr>pw_store := s1\<rparr>)))"

definition read_page :: "'s store_api \<Rightarrow> json \<Rightarrow> stale_reason \<Rightarrow> (string, 's) step" where
  "read_page api path missing w =
     then_do (store_call api (st_read api path) w)
       (\<lambda>(state, content) w1.
          case content of Some c \<Rightarrow> if state = RdOk then (Inr c, w1) else stale missing w1 | None \<Rightarrow> stale missing w1)"

record ProposalTargets =
  pt_id :: string
  pt_status :: LifecycleStatus
  pt_action :: string
  targetRecordIds :: "json list"
  targetPaths :: "json list"

definition targets_of :: "json \<Rightarrow> (string \<times> json list \<times> json list) option" where
  "targets_of d =
     (case d of
        JObj ms \<Rightarrow>
          (case (map_of ms ''action'', map_of ms ''targetRecordIds'', map_of ms ''targetPaths'') of
             (Some (JStr a), Some (JArr ids), Some (JArr ps)) \<Rightarrow>
               if length ids \<noteq> length ps \<or> length ids < 2 then None else Some (a, ids, ps)
           | _ \<Rightarrow> None)
      | _ \<Rightarrow> None)"

definition proposal_of :: "(string \<Rightarrow> ms option) \<Rightarrow> string \<Rightarrow> stale_reason + ProposalTargets" where
  "proposal_of date_parse content =
     (case parseStoredRecord date_parse content of
        ReadFail why \<Rightarrow> Inl (Malformed why)
      | ReadOk r \<Rightarrow>
          if fm_type (frontmatter r) \<noteq> TProposal then Inl WrongType
          else (case parseDataBlock (body r) of
             None \<Rightarrow> Inl BadDataBlock
           | Some d \<Rightarrow>
               (case targets_of d of
                  None \<Rightarrow> Inl BadTargets
                | Some (a, ids, ps) \<Rightarrow>
                    Inr \<lparr>pt_id = fm_id (frontmatter r), pt_status = fm_status (frontmatter r), pt_action = a,
                         targetRecordIds = ids, targetPaths = ps\<rparr>)))"

definition readProposalTargets ::
  "'s store_api \<Rightarrow> (string \<Rightarrow> ms option) \<Rightarrow> string \<Rightarrow> (ProposalTargets, 's) step" where
  "readProposalTargets api date_parse path w =
     then_do (read_page api (JStr path) NotReadable w)
       (\<lambda>c w1. case proposal_of date_parse c of Inl why \<Rightarrow> stale why w1 | Inr p \<Rightarrow> (Inr p, w1))"

definition readTarget :: "'s store_api \<Rightarrow> (string \<Rightarrow> ms option) \<Rightarrow> json \<Rightarrow> (LifecycleStatus \<times> string, 's) step" where
  "readTarget api date_parse path w =
     then_do (read_page api path TargetNotReadable w)
       (\<lambda>c w1. case parseStoredRecord date_parse c of
                 ReadFail why \<Rightarrow> stale (TargetMalformed why) w1
               | ReadOk r \<Rightarrow> (Inr (fm_status (frontmatter r), c), w1))"

section \<open>Writing\<close>

definition withStatus ::
  "(string \<Rightarrow> ms option) \<Rightarrow> string \<Rightarrow> LifecycleStatus \<Rightarrow> lifecycle_error + string option" where
  "withStatus date_parse raw st =
     (case parseStoredRecord date_parse raw of
        ReadFail _ \<Rightarrow> Inr None
      | ReadOk r \<Rightarrow>
          (case serializeStoredRecord (r\<lparr>frontmatter := frontmatter r\<lparr>fm_status := st\<rparr>\<rparr>) of
             Inl e \<Rightarrow> Inl (NotSerializable e)
           | Inr doc \<Rightarrow> Inr (Some doc)))"

definition new_doc ::
  "(string \<Rightarrow> ms option) \<Rightarrow> string \<Rightarrow> LifecycleStatus \<Rightarrow> string \<Rightarrow> (string, 's) step" where
  "new_doc date_parse raw st l w =
     (case withStatus date_parse raw st of
        Inl e \<Rightarrow> (Inl e, w)
      | Inr None \<Rightarrow> stale BecameUnparseable w
      | Inr (Some doc) \<Rightarrow> (Inr (appendProvenance doc l), w))"

definition verifiedWrite :: "'s store_api \<Rightarrow> json \<Rightarrow> string \<Rightarrow> string \<Rightarrow> string \<Rightarrow> (unit, 's) step" where
  "verifiedWrite api path content op actor w =
     then_do (store_call api (st_write api path content op actor) w)
       (\<lambda>_ w1. then_do (store_call api (st_read api path) w1)
          (\<lambda>(state, after) w2. if state \<noteq> RdOk \<or> after \<noteq> Some content then stale ConcurrentModification w2 else (Inr (), w2)))"

definition log_op :: "io \<Rightarrow> LifecycleOpEntry \<Rightarrow> (unit, 's) step" where
  "log_op io e w = (case record_op io e (pw_log w) of (r, lg) \<Rightarrow> (r, w\<lparr>pw_log := lg\<rparr>))"

section \<open>Transitions\<close>

datatype transition_kind = Applied | Replay

record ProposalTransitionResult =
  tr_kind :: transition_kind
  tr_path :: string
  tr_targets :: "json list"

text \<open>What one call gets from outside: the operation id, the instant, the actor and the outcome of the log write.\<close>

record 's life_env =
  le_api :: "'s store_api"
  le_dates :: "string \<Rightarrow> ms option"
  le_io :: io
  le_op :: string
  le_at :: string
  le_actor :: string
  le_reason :: "string option"

definition superseded_mark :: "string \<Rightarrow> string" where
  "superseded_mark i = ''superseded by proposal '' @ i @ '' ''"

definition by_op :: "'s life_env \<Rightarrow> string" where
  "by_op env = '' (op '' @ le_op env @ '', by '' @ le_actor env @ '')''"

text \<open>\<open>opts.reason\<close> is shown when it is a non-empty string.\<close>

definition reason_text :: "'s life_env \<Rightarrow> string" where
  "reason_text env = (case le_reason env of Some r \<Rightarrow> if r = '''' then '''' else '' reason: '' @ r | None \<Rightarrow> '''')"

definition approve_line :: "'s life_env \<Rightarrow> string" where
  "approve_line env = ''approved by '' @ le_actor env @ '' at '' @ le_at env @ by_op env"

definition supersede_line :: "'s life_env \<Rightarrow> string \<Rightarrow> string" where
  "supersede_line env i = superseded_mark i @ ''at '' @ le_at env @ by_op env"

definition reject_line :: "'s life_env \<Rightarrow> string" where
  "reject_line env = ''rejected by '' @ le_actor env @ '' at '' @ le_at env @ '' (op '' @ le_op env @ '')'' @ reason_text env"

definition restore_line :: "'s life_env \<Rightarrow> string \<Rightarrow> string" where
  "restore_line env i = ''restored by undo of proposal '' @ i @ '' at '' @ le_at env @ by_op env @ reason_text env"

definition undo_line :: "'s life_env \<Rightarrow> string" where
  "undo_line env = ''approval undone by '' @ le_actor env @ '' at '' @ le_at env @ '' (op '' @ le_op env @ '')'' @ reason_text env"

fun check_superseded :: "'s life_env \<Rightarrow> string \<Rightarrow> json list \<Rightarrow> (unit, 's) step" where
  "check_superseded env i [] w = (Inr (), w)"
| "check_superseded env i (p # ps) w =
     then_do (readTarget (le_api env) (le_dates env) p w)
       (\<lambda>(_, raw) w1. if has_part (superseded_mark i) raw then check_superseded env i ps w1 else stale NotSupersededByThis w1)"

definition supersede_target :: "'s life_env \<Rightarrow> string \<Rightarrow> json \<Rightarrow> (unit, 's) step" where
  "supersede_target env i path w =
     then_do (readTarget (le_api env) (le_dates env) path w)
       (\<lambda>(st, raw) w1. if st \<noteq> Active then stale (TargetStatus st) w1
          else then_do (new_doc (le_dates env) raw Superseded (supersede_line env i) w1)
            (\<lambda>doc w2. verifiedWrite (le_api env) path doc (le_op env) (le_actor env) w2))"

text \<open>The loop; an error comes with the number of targets done, and every error is wrapped.\<close>

fun supersede_all :: "'s life_env \<Rightarrow> string \<Rightarrow> nat \<Rightarrow> nat \<Rightarrow> json list \<Rightarrow> (unit, 's) step" where
  "supersede_all env i k n [] w = (Inr (), w)"
| "supersede_all env i k n (p # ps) w =
     (case supersede_target env i p w of
        (Inl _, w1) \<Rightarrow> stale (PartlyApplied k n) w1
      | (Inr _, w1) \<Rightarrow> supersede_all env i (Suc k) n ps w1)"

definition entry_for :: "'s life_env \<Rightarrow> lifecycle_action \<Rightarrow> string \<Rightarrow> json list \<Rightarrow> LifecycleOpEntry" where
  "entry_for env a path ts =
     \<lparr>oe_opId = le_op env, oe_action = a, oe_proposalPath = path, oe_targets = ts, oe_actor = le_actor env,
      oe_reason = (if a = Approve then None else le_reason env), oe_at = le_at env\<rparr>"

definition approveInner :: "'s life_env \<Rightarrow> string \<Rightarrow> (ProposalTransitionResult, 's) step" where
  "approveInner env path w =
     then_do (readProposalTargets (le_api env) (le_dates env) path w) (\<lambda>p w1.
       if pt_status p = Active then
         then_do (check_superseded env (pt_id p) (targetPaths p) w1)
           (\<lambda>_ w2. (Inr \<lparr>tr_kind = Replay, tr_path = path, tr_targets = []\<rparr>, w2))
       else if pt_status p \<noteq> PendingApproval then stale (WrongStatus (pt_status p)) w1
       else
         then_do (log_op (le_io env) (entry_for env Approve path (targetPaths p)) w1) (\<lambda>_ w2.
         then_do (read_page (le_api env) (JStr path) Disappeared w2) (\<lambda>c w3.
         then_do (new_doc (le_dates env) c Active (approve_line env) w3) (\<lambda>doc w4.
         then_do (verifiedWrite (le_api env) (JStr path) doc (le_op env) (le_actor env) w4) (\<lambda>_ w5.
         then_do (supersede_all env (pt_id p) 0 (length (targetPaths p)) (targetPaths p) w5) (\<lambda>_ w6.
           (Inr \<lparr>tr_kind = Applied, tr_path = path, tr_targets = targetPaths p\<rparr>, w6)))))))"

definition rejectInner :: "'s life_env \<Rightarrow> string \<Rightarrow> (ProposalTransitionResult, 's) step" where
  "rejectInner env path w =
     then_do (readProposalTargets (le_api env) (le_dates env) path w) (\<lambda>p w1.
     then_do (read_page (le_api env) (JStr path) NotReadable w1) (\<lambda>c w2.
       if pt_status p = Superseded \<and> has_part ''rejected by '' c
       then (Inr \<lparr>tr_kind = Replay, tr_path = path, tr_targets = []\<rparr>, w2)
       else if pt_status p \<noteq> PendingApproval then stale (WrongStatus (pt_status p)) w2
       else
         then_do (log_op (le_io env) (entry_for env Reject path []) w2) (\<lambda>_ w3.
         then_do (new_doc (le_dates env) c Superseded (reject_line env) w3) (\<lambda>doc w4.
         then_do (verifiedWrite (le_api env) (JStr path) doc (le_op env) (le_actor env) w4) (\<lambda>_ w5.
           (Inr \<lparr>tr_kind = Applied, tr_path = path, tr_targets = []\<rparr>, w5))))))"

text \<open>The restoring of one target: \<open>False\<close> when it was visible already.\<close>

definition restore_target :: "'s life_env \<Rightarrow> string \<Rightarrow> json \<Rightarrow> (bool, 's) step" where
  "restore_target env i path w =
     then_do (readTarget (le_api env) (le_dates env) path w) (\<lambda>(st, raw) w1.
       if st = Active then (Inr False, w1)
       else if st \<noteq> Superseded \<or> \<not> has_part (superseded_mark i) raw then stale (TargetStatus st) w1
       else
         then_do (new_doc (le_dates env) raw Active (restore_line env i) w1) (\<lambda>doc w2.
         then_do (verifiedWrite (le_api env) path doc (le_op env) (le_actor env) w2) (\<lambda>_ w3. (Inr True, w3))))"

fun restore_all :: "'s life_env \<Rightarrow> string \<Rightarrow> nat \<Rightarrow> json list \<Rightarrow> json list \<Rightarrow> (json list, 's) step" where
  "restore_all env i n restored [] w = (Inr restored, w)"
| "restore_all env i n restored (p # ps) w =
     (case restore_target env i p w of
        (Inl _, w1) \<Rightarrow> stale (PartlyApplied (length restored) n) w1
      | (Inr b, w1) \<Rightarrow> restore_all env i n (if b then restored @ [p] else restored) ps w1)"

definition undoInner :: "'s life_env \<Rightarrow> string \<Rightarrow> (ProposalTransitionResult, 's) step" where
  "undoInner env path w =
     then_do (readProposalTargets (le_api env) (le_dates env) path w) (\<lambda>p w1.
     then_do (read_page (le_api env) (JStr path) NotReadable w1) (\<lambda>c w2.
       if pt_status p = Superseded \<and> has_part ''approval undone by '' c \<and> has_part ''(op '' c
       then (Inr \<lparr>tr_kind = Replay, tr_path = path, tr_targets = []\<rparr>, w2)
       else if pt_status p \<noteq> Active then stale (WrongStatus (pt_status p)) w2
       else if \<not> has_part ''approved by '' c then stale NoApproval w2
       else
         then_do (log_op (le_io env) (entry_for env Undo path (targetPaths p)) w2) (\<lambda>_ w3.
         then_do (restore_all env (pt_id p) (length (targetPaths p)) [] (targetPaths p) w3) (\<lambda>ps w4.
         then_do (read_page (le_api env) (JStr path) Disappeared w4) (\<lambda>c1 w5.
         then_do (new_doc (le_dates env) c1 Superseded (undo_line env) w5) (\<lambda>doc w6.
         then_do (verifiedWrite (le_api env) (JStr path) doc (le_op env) (le_actor env) w6) (\<lambda>_ w7.
           (Inr \<lparr>tr_kind = Applied, tr_path = path, tr_targets = ps\<rparr>, w7))))))))"

text \<open>\<open>createHash("sha256").update(path/opId).digest("hex").slice(0, 12)\<close>\<close>

definition proposalDecisionFingerprint :: "(string \<Rightarrow> string) \<Rightarrow> string \<Rightarrow> string \<Rightarrow> string" where
  "proposalDecisionFingerprint sha256 path op = take 12 (sha256 (path @ ''/'' @ op))"

definition auditTargetForProposalPath :: "string \<Rightarrow> string" where
  "auditTargetForProposalPath path =
     (let base = last (split_on slash (rev (dropWhile (\<lambda>c. c = slash) (rev path))))
      in if base \<in> {[], ''.'', ''..''} then ''proposal'' else base)"

section \<open>Reading what a transition writes\<close>

text \<open>
  A store on which nothing else acts: opening succeeds, a read gives the page of the path, a
  write replaces it, or fails on the paths of \<open>fails\<close>.
\<close>

definition quiet_store :: "(json \<Rightarrow> bool) \<Rightarrow> 's store_api \<Rightarrow> ('s \<Rightarrow> json \<Rightarrow> string option) \<Rightarrow> bool" where
  "quiet_store fails api page =
     ((\<forall>s. openStore api s = (True, s)) \<and>
      (\<forall>s p. st_read api p s = (Inr (case page s p of Some c \<Rightarrow> (RdOk, Some c) | None \<Rightarrow> (RdMissing, None)), s)) \<and>
      (\<forall>s p c op a. if fails p then \<exists>e. st_write api p c op a s = (Inl e, s)
         else \<exists>s'. st_write api p c op a s = (Inr (), s') \<and> page s' = (page s)(p := Some c)))"

text \<open>A readable page, as a record.\<close>

definition record_at :: "(string \<Rightarrow> ms option) \<Rightarrow> (json \<Rightarrow> string option) \<Rightarrow> json \<Rightarrow> StoredRecord option" where
  "record_at dates pg p =
     (case pg p of None \<Rightarrow> None | Some c \<Rightarrow> (case parseStoredRecord dates c of ReadFail _ \<Rightarrow> None | ReadOk r \<Rightarrow> Some r))"

text \<open>What a transition makes of a record: another status, one more line.\<close>

definition moved :: "LifecycleStatus \<Rightarrow> string \<Rightarrow> StoredRecord \<Rightarrow> StoredRecord" where
  "moved st l r = \<lparr>frontmatter = (frontmatter r)\<lparr>fm_status := st\<rparr>, body = body_with (body r) l\<rparr>"

lemma moved_simps [simp]:
  "frontmatter (moved st l r) = (frontmatter r)\<lparr>fm_status := st\<rparr>" "body (moved st l r) = body_with (body r) l"
  by (simp_all add: moved_def)

lemma wf_status: "record_wf dates r \<Longrightarrow> record_wf dates \<lparr>frontmatter = (frontmatter r)\<lparr>fm_status := st\<rparr>, body = bd\<rparr>"
  by (simp add: record_wf_def Let_def)

text \<open>The document that a transition writes reads back as the record it moved.\<close>

lemma new_doc_reads:
  assumes "parseStoredRecord dates raw = ReadOk r"
  shows "\<exists>doc. new_doc dates raw st l w = (Inr doc, w) \<and> parseStoredRecord dates doc = ReadOk (moved st l r)
           \<and> (has_part m (body_with (body r) l) \<longrightarrow> m \<noteq> [] \<longrightarrow> has_part m doc)"
proof -
  have wf: "record_wf dates r" using parsed_wf [OF assms] .
  let ?fm = "(frontmatter r)\<lparr>fm_status := st\<rparr>"
  let ?doc = "record_head ?fm @ nl # body_with (body r) l"
  have ser: "serializeStoredRecord (r\<lparr>frontmatter := ?fm\<rparr>) = Inr (record_head ?fm @ nl # body r)"
    using serialize_wf [OF wf_status [OF wf, of st "body r"]] by (cases r) simp
  have "new_doc dates raw st l w = (Inr ?doc, w)"
    using assms ser by (simp add: new_doc_def withStatus_def append_to_record)
  moreover have "parseStoredRecord dates ?doc = ReadOk (moved st l r)"
    using parse_record_text [OF wf_status [OF wf, of st "body_with (body r) l"]] by (simp add: moved_def)
  moreover have "has_part m ?doc" if "has_part m (body_with (body r) l)" "m \<noteq> []"
    using that unfolding has_part_iff [OF that(2)] by (metis append.assoc append_Cons)
  ultimately show ?thesis by blast
qed

lemma line_in_body: "has_part m l \<Longrightarrow> m \<noteq> [] \<Longrightarrow> has_part m (body_with bd l)"
  unfolding has_part_iff body_with_def provenanceLine_def by (metis append.assoc)

lemma new_doc_marks:
  assumes "new_doc dates raw st l w = (Inr doc, w)" "parseStoredRecord dates raw = ReadOk r" "has_part m l" "m \<noteq> []"
  shows "has_part m doc"
proof -
  have "has_part m (body_with (body r) l)" by (rule line_in_body [OF assms(3,4)])
  then show ?thesis using new_doc_reads [OF assms(2), of st l w m] assms(1,4) by auto
qed

section \<open>Transitions on a quiet store\<close>

lemma store_same [simp]: "w\<lparr>pw_store := pw_store w\<rparr> = w"
  by simp

lemma read_page_quiet:
  "quiet_store fails api page \<Longrightarrow>
   read_page api p why w = (case page (pw_store w) p of Some c \<Rightarrow> (Inr c, w) | None \<Rightarrow> stale why w)"
  by (simp add: quiet_store_def read_page_def store_call_def split: option.split)

lemma verified_quiet:
  assumes "quiet_store fails api page" "\<not> fails p"
  shows "\<exists>s'. verifiedWrite api p c op a w = (Inr (), w\<lparr>pw_store := s'\<rparr>) \<and> page s' = (page (pw_store w))(p := Some c)"
proof -
  obtain s' where s': "st_write api p c op a (pw_store w) = (Inr (), s')" "page s' = (page (pw_store w))(p := Some c)"
    using assms unfolding quiet_store_def by metis
  have "verifiedWrite api p c op a w = (Inr (), w\<lparr>pw_store := s'\<rparr>)"
    using assms s' unfolding quiet_store_def by (simp add: verifiedWrite_def store_call_def)
  with s'(2) show ?thesis by blast
qed

lemma readTarget_quiet:
  assumes "quiet_store fails api page" "record_at dates (page (pw_store w)) p = Some r"
  obtains raw where "readTarget api dates p w = (Inr (fm_status (frontmatter r), raw), w)"
    "page (pw_store w) p = Some raw" "parseStoredRecord dates raw = ReadOk r"
proof -
  obtain raw where raw: "page (pw_store w) p = Some raw" "parseStoredRecord dates raw = ReadOk r"
    using assms(2) by (auto simp: record_at_def split: option.splits RecordReadResult.splits)
  then show thesis using that by (simp add: readTarget_def read_page_quiet [OF assms(1)])
qed

text \<open>
  One rewriting of a page: it becomes the moved record, with the line, and no other page changes.
\<close>

definition rewritten ::
  "(string \<Rightarrow> ms option) \<Rightarrow> json \<Rightarrow> LifecycleStatus \<Rightarrow> string \<Rightarrow> StoredRecord \<Rightarrow> (json \<Rightarrow> string option) \<Rightarrow> (json \<Rightarrow> string option) \<Rightarrow> bool" where
  "rewritten dates p st l r pg pg' =
     (\<exists>doc. pg' = pg(p := Some doc) \<and> parseStoredRecord dates doc = ReadOk (moved st l r)
        \<and> (\<forall>m. m \<noteq> [] \<longrightarrow> has_part m l \<longrightarrow> has_part m doc))"

lemma rewrite_quiet:
  assumes "quiet_store fails api page" "parseStoredRecord dates raw = ReadOk r" "\<not> fails p"
  shows "\<exists>s'. then_do (new_doc dates raw st l w) (\<lambda>doc. verifiedWrite api p doc op a) = (Inr (), w\<lparr>pw_store := s'\<rparr>)
           \<and> rewritten dates p st l r (page (pw_store w)) (page s')"
proof -
  obtain doc where doc: "new_doc dates raw st l w = (Inr doc, w)" "parseStoredRecord dates doc = ReadOk (moved st l r)"
    using new_doc_reads [OF assms(2)] by blast
  have m: "has_part m doc" if "has_part m l" "m \<noteq> []" for m
    by (rule new_doc_marks [OF doc(1) assms(2) that])
  obtain s' where s': "verifiedWrite api p doc op a w = (Inr (), w\<lparr>pw_store := s'\<rparr>)" "page s' = (page (pw_store w))(p := Some doc)"
    using verified_quiet [OF assms(1,3)] by blast
  have "rewritten dates p st l r (page (pw_store w)) (page s')"
    unfolding rewritten_def s'(2) using doc(2) m by blast
  then show ?thesis using doc(1) s'(1) by (intro exI [of _ s']) simp
qed

lemma rewritten_at:
  assumes "rewritten dates p st l r pg pg'"
  shows "record_at dates pg' p = Some (moved st l r)" "q \<noteq> p \<Longrightarrow> pg' q = pg q"
    "m \<noteq> [] \<Longrightarrow> has_part m l \<Longrightarrow> \<exists>doc. pg' p = Some doc \<and> has_part m doc"
  using assms by (auto simp: rewritten_def record_at_def)

lemma supersede_target_quiet:
  assumes "quiet_store fails (le_api env) page" "record_at (le_dates env) (page (pw_store w)) p = Some r" "fm_status (frontmatter r) = Active"
    and "\<not> fails p"
  shows "\<exists>s'. supersede_target env i p w = (Inr (), w\<lparr>pw_store := s'\<rparr>)
           \<and> rewritten (le_dates env) p Superseded (supersede_line env i) r (page (pw_store w)) (page s')"
proof -
  obtain raw where "readTarget (le_api env) (le_dates env) p w = (Inr (Active, raw), w)" "parseStoredRecord (le_dates env) raw = ReadOk r"
    using readTarget_quiet [OF assms(1,2)] assms(3) by metis
  then show ?thesis
    using rewrite_quiet [OF assms(1) _ assms(4), of "le_dates env" raw r Superseded "supersede_line env i" w "le_op env" "le_actor env"]
    by (simp add: supersede_target_def)
qed

lemma mark_in_line: "has_part (superseded_mark i) (supersede_line env i)"
  by (subst has_part_iff) (auto simp: superseded_mark_def supersede_line_def)

lemma supersede_all_quiet:
  assumes "quiet_store fails (le_api env) page" "distinct ps"
    and "\<And>p. p \<in> set ps \<Longrightarrow> record_at (le_dates env) (page (pw_store w)) p = Some (rec p) \<and> fm_status (frontmatter (rec p)) = Active \<and> \<not> fails p"
  shows "\<exists>s'. supersede_all env i k n ps w = (Inr (), w\<lparr>pw_store := s'\<rparr>)
           \<and> (\<forall>p\<in>set ps. record_at (le_dates env) (page s') p = Some (moved Superseded (supersede_line env i) (rec p))
                \<and> (\<exists>doc. page s' p = Some doc \<and> has_part (superseded_mark i) doc))
           \<and> (\<forall>q. q \<notin> set ps \<longrightarrow> page s' q = page (pw_store w) q)"
  using assms(2,3)
proof (induction ps arbitrary: k w)
  case (Cons p ps)
  have p: "record_at (le_dates env) (page (pw_store w)) p = Some (rec p)" "fm_status (frontmatter (rec p)) = Active" "\<not> fails p"
    using Cons.prems(2) by auto
  obtain s1 where s1: "supersede_target env i p w = (Inr (), w\<lparr>pw_store := s1\<rparr>)"
    "rewritten (le_dates env) p Superseded (supersede_line env i) (rec p) (page (pw_store w)) (page s1)"
    using supersede_target_quiet [OF assms(1) p] by blast
  note r1 = rewritten_at [OF s1(2)]
  let ?w = "w\<lparr>pw_store := s1\<rparr>"
  have "record_at (le_dates env) (page (pw_store ?w)) q = Some (rec q) \<and> fm_status (frontmatter (rec q)) = Active \<and> \<not> fails q" if "q \<in> set ps" for q
  proof -
    have "q \<noteq> p" using Cons.prems(1) that by auto
    then have "page s1 q = page (pw_store w) q" by (rule r1(2))
    then show ?thesis using Cons.prems(2) [of q] that by (simp add: record_at_def)
  qed
  from Cons.IH [OF _ this, of "Suc k"] Cons.prems(1)
  obtain s2 where s2: "supersede_all env i (Suc k) n ps ?w = (Inr (), w\<lparr>pw_store := s2\<rparr>)"
    "\<forall>p\<in>set ps. record_at (le_dates env) (page s2) p = Some (moved Superseded (supersede_line env i) (rec p))
                \<and> (\<exists>doc. page s2 p = Some doc \<and> has_part (superseded_mark i) doc)"
    "\<forall>q. q \<notin> set ps \<longrightarrow> page s2 q = page s1 q" by auto
  have "page s2 p = page s1 p" using s2(3) Cons.prems(1) by simp
  moreover obtain doc where "page s1 p = Some doc" "has_part (superseded_mark i) doc"
    using r1(3) [OF _ mark_in_line] by (auto simp: superseded_mark_def)
  ultimately have "record_at (le_dates env) (page s2) p = Some (moved Superseded (supersede_line env i) (rec p))
      \<and> (\<exists>doc. page s2 p = Some doc \<and> has_part (superseded_mark i) doc)"
    using r1(1) by (simp add: record_at_def)
  moreover have "\<forall>q. q \<notin> set (p # ps) \<longrightarrow> page s2 q = page (pw_store w) q" using s2(3) r1(2) by simp
  ultimately show ?case using s1(1) s2(1,2) by (intro exI [of _ s2]) simp
next
  case Nil
  show ?case by (rule exI [of _ "pw_store w"]) simp
qed

section \<open>Approval\<close>

lemma proposal_of_moved:
  assumes "proposal_of dates raw = Inr p" "parseStoredRecord dates raw = ReadOk r"
    and "parseStoredRecord dates doc = ReadOk (moved st l r)"
  shows "proposal_of dates doc = Inr (p\<lparr>pt_status := st\<rparr>)"
proof -
  obtain d where d: "parseDataBlock (body r) = Some d" "fm_type (frontmatter r) = TProposal"
    using assms(1,2) by (auto simp: proposal_of_def split: if_splits option.splits)
  then show ?thesis
    using assms data_block_stays [OF d(1), of l]
    by (auto simp: proposal_of_def split: option.splits)
qed

lemma readProposalTargets_quiet:
  assumes "quiet_store fails api page" "page (pw_store w) (JStr path) = Some raw" "proposal_of dates raw = Inr p"
  shows "readProposalTargets api dates path w = (Inr p, w)"
  using assms by (simp add: readProposalTargets_def read_page_quiet)

lemma proposal_record: "proposal_of dates raw = Inr p \<Longrightarrow> \<exists>r. parseStoredRecord dates raw = ReadOk r"
  by (auto simp: proposal_of_def split: RecordReadResult.splits)

definition logged :: "'s life_env \<Rightarrow> lifecycle_action \<Rightarrow> string \<Rightarrow> json list \<Rightarrow> ProposalOpLog \<Rightarrow> ProposalOpLog" where
  "logged env a path ts lg = snd (record_op IoOk (entry_for env a path ts) lg)"

lemma log_op_ok [simp]:
  "log_op IoOk (entry_for env a path ts) w = (Inr (), w\<lparr>pw_log := logged env a path ts (pw_log w)\<rparr>)"
  by (simp add: log_op_def logged_def record_op_def Let_def)

text \<open>What an approval needs: a pending proposal and distinct targets that are active records.\<close>

definition approvable ::
  "(string \<Rightarrow> ms option) \<Rightarrow> (json \<Rightarrow> string option) \<Rightarrow> string \<Rightarrow> ProposalTargets \<Rightarrow> (json \<Rightarrow> StoredRecord) \<Rightarrow> bool" where
  "approvable dates pg path p rec =
     ((\<exists>raw. pg (JStr path) = Some raw \<and> proposal_of dates raw = Inr p) \<and> pt_status p = PendingApproval
      \<and> distinct (JStr path # targetPaths p)
      \<and> (\<forall>t\<in>set (targetPaths p). record_at dates pg t = Some (rec t) \<and> fm_status (frontmatter (rec t)) = Active))"

text \<open>The pages after an approval.\<close>

definition approved ::
  "'s life_env \<Rightarrow> (json \<Rightarrow> string option) \<Rightarrow> string \<Rightarrow> ProposalTargets \<Rightarrow> (json \<Rightarrow> StoredRecord) \<Rightarrow> (json \<Rightarrow> string option) \<Rightarrow> bool" where
  "approved env pg path p rec pg' =
     ((\<exists>doc. pg' (JStr path) = Some doc \<and> proposal_of (le_dates env) doc = Inr (p\<lparr>pt_status := Active\<rparr>) \<and> has_part ''approved by '' doc)
      \<and> (\<forall>t\<in>set (targetPaths p).
           record_at (le_dates env) pg' t = Some (moved Superseded (supersede_line env (pt_id p)) (rec t))
           \<and> (\<exists>doc. pg' t = Some doc \<and> has_part (superseded_mark (pt_id p)) doc))
      \<and> (\<forall>q. q \<notin> insert (JStr path) (set (targetPaths p)) \<longrightarrow> pg' q = pg q))"

lemma has_line: "w \<noteq> [] \<Longrightarrow> has_part w (w @ t)"
  by (simp add: has_part_def cut_at_here)

lemma world_update: "w\<lparr>pw_log := l, pw_store := s\<rparr> = \<lparr>pw_log = l, pw_store = s\<rparr>"
  by (cases w) simp

text \<open>The approval up to its loop.\<close>

lemma approve_start:
  assumes Q: "quiet_store fails (le_api env) page" and io: "le_io env = IoOk" and sane: "\<not> fails (JStr path)"
    and ok: "approvable (le_dates env) (page (pw_store w)) path p rec"
  shows "\<exists>s1 doc. page s1 = (page (pw_store w))(JStr path := Some doc)
     \<and> proposal_of (le_dates env) doc = Inr (p\<lparr>pt_status := Active\<rparr>) \<and> has_part ''approved by '' doc
     \<and> approveInner env path w =
         then_do (supersede_all env (pt_id p) 0 (length (targetPaths p)) (targetPaths p)
                   \<lparr>pw_log = logged env Approve path (targetPaths p) (pw_log w), pw_store = s1\<rparr>)
           (\<lambda>_ w6. (Inr \<lparr>tr_kind = Applied, tr_path = path, tr_targets = targetPaths p\<rparr>, w6))"
proof -
  obtain raw where raw: "page (pw_store w) (JStr path) = Some raw" "proposal_of (le_dates env) raw = Inr p"
    using ok by (auto simp: approvable_def)
  obtain r where r: "parseStoredRecord (le_dates env) raw = ReadOk r" using proposal_record [OF raw(2)] by blast
  let ?w = "w\<lparr>pw_log := logged env Approve path (targetPaths p) (pw_log w)\<rparr>"
  obtain s1 where s1: "then_do (new_doc (le_dates env) raw Active (approve_line env) ?w)
      (\<lambda>doc. verifiedWrite (le_api env) (JStr path) doc (le_op env) (le_actor env)) = (Inr (), ?w\<lparr>pw_store := s1\<rparr>)"
    "rewritten (le_dates env) (JStr path) Active (approve_line env) r (page (pw_store w)) (page s1)"
    using rewrite_quiet [OF Q r sane, of Active "approve_line env" ?w "le_op env" "le_actor env"] by auto
  obtain doc where doc: "page s1 = (page (pw_store w))(JStr path := Some doc)"
      "parseStoredRecord (le_dates env) doc = ReadOk (moved Active (approve_line env) r)" "has_part ''approved by '' doc"
    using s1(2) has_line [of "''approved by ''"] unfolding rewritten_def approve_line_def by blast
  have p': "proposal_of (le_dates env) doc = Inr (p\<lparr>pt_status := Active\<rparr>)"
    by (rule proposal_of_moved [OF raw(2) r doc(2)])
  have steps: "then_do (new_doc (le_dates env) raw Active (approve_line env) ?w) (\<lambda>doc w4.
       then_do (verifiedWrite (le_api env) (JStr path) doc (le_op env) (le_actor env) w4) f) = f () (?w\<lparr>pw_store := s1\<rparr>)" for f
    using s1(1) by (auto simp: then_do_def split: prod.splits sum.splits)
  have st: "pt_status p = PendingApproval" using ok by (simp add: approvable_def)
  have "approveInner env path w =
         then_do (supersede_all env (pt_id p) 0 (length (targetPaths p)) (targetPaths p)
                   \<lparr>pw_log = logged env Approve path (targetPaths p) (pw_log w), pw_store = s1\<rparr>)
           (\<lambda>_ w6. (Inr \<lparr>tr_kind = Applied, tr_path = path, tr_targets = targetPaths p\<rparr>, w6))"
    unfolding approveInner_def readProposalTargets_quiet [OF Q raw]
    using st io raw(1) by (simp add: read_page_quiet [OF Q] steps world_update)
  with doc(1,3) p' show ?thesis by blast
qed

lemma approvable_kept:
  assumes "approvable dates pg path p rec" "pg' = pg(JStr path := Some doc)" "t \<in> set (targetPaths p)"
  shows "record_at dates pg' t = Some (rec t)" "fm_status (frontmatter (rec t)) = Active" "pg' t = pg t"
  using assms by (auto simp: approvable_def record_at_def)

lemma approve_quiet:
  assumes Q: "quiet_store fails (le_api env) page" and io: "le_io env = IoOk"
    and ok: "approvable (le_dates env) (page (pw_store w)) path p rec" and sane: "\<forall>q\<in>insert (JStr path) (set (targetPaths p)). \<not> fails q"
  shows "\<exists>s'. approveInner env path w
       = (Inr \<lparr>tr_kind = Applied, tr_path = path, tr_targets = targetPaths p\<rparr>,
          \<lparr>pw_log = logged env Approve path (targetPaths p) (pw_log w), pw_store = s'\<rparr>)
     \<and> approved env (page (pw_store w)) path p rec (page s')"
proof -
  obtain s1 doc where s1: "page s1 = (page (pw_store w))(JStr path := Some doc)"
      "proposal_of (le_dates env) doc = Inr (p\<lparr>pt_status := Active\<rparr>)" "has_part ''approved by '' doc"
      "approveInner env path w =
         then_do (supersede_all env (pt_id p) 0 (length (targetPaths p)) (targetPaths p)
                   \<lparr>pw_log = logged env Approve path (targetPaths p) (pw_log w), pw_store = s1\<rparr>)
           (\<lambda>_ w6. (Inr \<lparr>tr_kind = Applied, tr_path = path, tr_targets = targetPaths p\<rparr>, w6))"
    using approve_start [OF Q io _ ok] sane by auto
  let ?w1 = "\<lparr>pw_log = logged env Approve path (targetPaths p) (pw_log w), pw_store = s1\<rparr>"
  note kept = approvable_kept [OF ok s1(1)]
  have dist: "distinct (targetPaths p)" "JStr path \<notin> set (targetPaths p)" using ok by (auto simp: approvable_def)
  have "record_at (le_dates env) (page (pw_store ?w1)) t = Some (rec t) \<and> fm_status (frontmatter (rec t)) = Active \<and> \<not> fails t"
    if "t \<in> set (targetPaths p)" for t
    using kept [OF that] sane that by simp
  from supersede_all_quiet [OF Q dist(1) this, of "pt_id p" 0 "length (targetPaths p)"]
  obtain s2 where s2: "supersede_all env (pt_id p) 0 (length (targetPaths p)) (targetPaths p) ?w1 = (Inr (), ?w1\<lparr>pw_store := s2\<rparr>)"
    "\<forall>t\<in>set (targetPaths p). record_at (le_dates env) (page s2) t = Some (moved Superseded (supersede_line env (pt_id p)) (rec t))
       \<and> (\<exists>doc. page s2 t = Some doc \<and> has_part (superseded_mark (pt_id p)) doc)"
    "\<forall>q. q \<notin> set (targetPaths p) \<longrightarrow> page s2 q = page s1 q"
    by auto
  have "page s2 (JStr path) = Some doc" using s2(3) dist(2) s1(1) by simp
  then have "approved env (page (pw_store w)) path p rec (page s2)"
    unfolding approved_def using s1(1-3) s2(2,3) by auto
  then show ?thesis using s1(4) s2(1) by (intro exI [of _ s2]) simp
qed

section \<open>Undo\<close>

lemma restore_target_quiet:
  assumes "quiet_store fails (le_api env) page" "record_at (le_dates env) (page (pw_store w)) p = Some r"
    and "fm_status (frontmatter r) = Superseded" "page (pw_store w) p = Some doc" "has_part (superseded_mark i) doc" "\<not> fails p"
  shows "\<exists>s'. restore_target env i p w = (Inr True, w\<lparr>pw_store := s'\<rparr>)
           \<and> rewritten (le_dates env) p Active (restore_line env i) r (page (pw_store w)) (page s')"
proof -
  have t: "readTarget (le_api env) (le_dates env) p w = (Inr (Superseded, doc), w)" "parseStoredRecord (le_dates env) doc = ReadOk r"
    using readTarget_quiet [OF assms(1,2)] assms(3,4) by (metis option.inject)+
  obtain s' where s': "then_do (new_doc (le_dates env) doc Active (restore_line env i) w)
      (\<lambda>doc. verifiedWrite (le_api env) p doc (le_op env) (le_actor env)) = (Inr (), w\<lparr>pw_store := s'\<rparr>)"
    "rewritten (le_dates env) p Active (restore_line env i) r (page (pw_store w)) (page s')"
    using rewrite_quiet [OF assms(1) t(2) assms(6)] by blast
  have "then_do (new_doc (le_dates env) doc Active (restore_line env i) w) (\<lambda>doc w2.
       then_do (verifiedWrite (le_api env) p doc (le_op env) (le_actor env) w2) f) = f () (w\<lparr>pw_store := s'\<rparr>)" for f
    using s'(1) by (auto simp: then_do_def split: prod.splits sum.splits)
  then show ?thesis using t(1) assms(5) s'(2) by (intro exI [of _ s']) (simp add: restore_target_def)
qed

lemma restore_all_quiet:
  assumes "quiet_store fails (le_api env) page" "distinct ps"
    and "\<And>p. p \<in> set ps \<Longrightarrow> record_at (le_dates env) (page (pw_store w)) p = Some (rec p) \<and> fm_status (frontmatter (rec p)) = Superseded
           \<and> (\<exists>doc. page (pw_store w) p = Some doc \<and> has_part (superseded_mark i) doc) \<and> \<not> fails p"
  shows "\<exists>s'. restore_all env i n done_ones ps w = (Inr (done_ones @ ps), w\<lparr>pw_store := s'\<rparr>)
           \<and> (\<forall>p\<in>set ps. record_at (le_dates env) (page s') p = Some (moved Active (restore_line env i) (rec p)))
           \<and> (\<forall>q. q \<notin> set ps \<longrightarrow> page s' q = page (pw_store w) q)"
  using assms(2,3)
proof (induction ps arbitrary: done_ones w)
  case (Cons p ps)
  obtain doc where p: "record_at (le_dates env) (page (pw_store w)) p = Some (rec p)" "fm_status (frontmatter (rec p)) = Superseded"
    "page (pw_store w) p = Some doc" "has_part (superseded_mark i) doc" "\<not> fails p"
    using Cons.prems(2) by auto
  obtain s1 where s1: "restore_target env i p w = (Inr True, w\<lparr>pw_store := s1\<rparr>)"
    "rewritten (le_dates env) p Active (restore_line env i) (rec p) (page (pw_store w)) (page s1)"
    using restore_target_quiet [OF assms(1) p] by blast
  note r1 = rewritten_at [OF s1(2)]
  let ?w = "w\<lparr>pw_store := s1\<rparr>"
  have "record_at (le_dates env) (page (pw_store ?w)) q = Some (rec q) \<and> fm_status (frontmatter (rec q)) = Superseded
      \<and> (\<exists>doc. page (pw_store ?w) q = Some doc \<and> has_part (superseded_mark i) doc) \<and> \<not> fails q" if "q \<in> set ps" for q
  proof -
    have "q \<noteq> p" using Cons.prems(1) that by auto
    then have "page s1 q = page (pw_store w) q" by (rule r1(2))
    then show ?thesis using Cons.prems(2) [of q] that by (simp add: record_at_def)
  qed
  from Cons.IH [OF _ this, of "done_ones @ [p]"] Cons.prems(1)
  obtain s2 where s2: "restore_all env i n (done_ones @ [p]) ps ?w = (Inr (done_ones @ p # ps), w\<lparr>pw_store := s2\<rparr>)"
    "\<forall>p\<in>set ps. record_at (le_dates env) (page s2) p = Some (moved Active (restore_line env i) (rec p))"
    "\<forall>q. q \<notin> set ps \<longrightarrow> page s2 q = page s1 q" by auto
  have "page s2 p = page s1 p" using s2(3) Cons.prems(1) by simp
  then have "record_at (le_dates env) (page s2) p = Some (moved Active (restore_line env i) (rec p))"
    using r1(1) by (simp add: record_at_def)
  moreover have "\<forall>q. q \<notin> set (p # ps) \<longrightarrow> page s2 q = page (pw_store w) q" using s2(3) r1(2) by simp
  ultimately show ?case using s1(1) s2(1,2) by (intro exI [of _ s2]) simp
next
  case Nil
  show ?case by (rule exI [of _ "pw_store w"]) simp
qed

text \<open>The pages after an undo.\<close>

definition undone ::
  "'s life_env \<Rightarrow> (json \<Rightarrow> string option) \<Rightarrow> string \<Rightarrow> ProposalTargets \<Rightarrow> (json \<Rightarrow> StoredRecord) \<Rightarrow> (json \<Rightarrow> string option) \<Rightarrow> bool" where
  "undone env pg path p rec pg' =
     ((\<exists>doc. pg' (JStr path) = Some doc \<and> proposal_of (le_dates env) doc = Inr (p\<lparr>pt_status := Superseded\<rparr>))
      \<and> (\<forall>t\<in>set (targetPaths p). record_at (le_dates env) pg' t = Some (moved Active (restore_line env (pt_id p)) (rec t)))
      \<and> (\<forall>q. q \<notin> insert (JStr path) (set (targetPaths p)) \<longrightarrow> pg' q = pg q))"

lemma undo_quiet:
  assumes Q: "quiet_store fails (le_api env) page" and io: "le_io env = IoOk"
    and raw: "page (pw_store w) (JStr path) = Some raw" "proposal_of (le_dates env) raw = Inr p" "has_part ''approved by '' raw"
    and st: "pt_status p = Active" and dist: "distinct (JStr path # targetPaths p)"
    and targets: "\<And>t. t \<in> set (targetPaths p) \<Longrightarrow> record_at (le_dates env) (page (pw_store w)) t = Some (rec t)
        \<and> fm_status (frontmatter (rec t)) = Superseded \<and> (\<exists>doc. page (pw_store w) t = Some doc \<and> has_part (superseded_mark (pt_id p)) doc)"
    and sane: "\<forall>q\<in>insert (JStr path) (set (targetPaths p)). \<not> fails q"
  shows "\<exists>s'. undoInner env path w
       = (Inr \<lparr>tr_kind = Applied, tr_path = path, tr_targets = targetPaths p\<rparr>,
          \<lparr>pw_log = logged env Undo path (targetPaths p) (pw_log w), pw_store = s'\<rparr>)
     \<and> undone env (page (pw_store w)) path p rec (page s')"
proof -
  obtain r where r: "parseStoredRecord (le_dates env) raw = ReadOk r" using proposal_record [OF raw(2)] by blast
  let ?w = "w\<lparr>pw_log := logged env Undo path (targetPaths p) (pw_log w)\<rparr>"
  obtain s1 where s1: "restore_all env (pt_id p) (length (targetPaths p)) [] (targetPaths p) ?w = (Inr (targetPaths p), ?w\<lparr>pw_store := s1\<rparr>)"
    "\<forall>t\<in>set (targetPaths p). record_at (le_dates env) (page s1) t = Some (moved Active (restore_line env (pt_id p)) (rec t))"
    "\<forall>q. q \<notin> set (targetPaths p) \<longrightarrow> page s1 q = page (pw_store w) q"
    using restore_all_quiet [OF Q, of "targetPaths p" ?w rec "pt_id p" "length (targetPaths p)" "[]"] dist targets sane by auto
  let ?w1 = "?w\<lparr>pw_store := s1\<rparr>"
  have raw1: "page s1 (JStr path) = Some raw" using s1(3) dist raw(1) by simp
  obtain s2 where s2: "then_do (new_doc (le_dates env) raw Superseded (undo_line env) ?w1)
      (\<lambda>doc. verifiedWrite (le_api env) (JStr path) doc (le_op env) (le_actor env)) = (Inr (), ?w1\<lparr>pw_store := s2\<rparr>)"
    "rewritten (le_dates env) (JStr path) Superseded (undo_line env) r (page s1) (page s2)"
    using rewrite_quiet [OF Q r, of "JStr path" Superseded "undo_line env" ?w1 "le_op env" "le_actor env"] sane by auto
  obtain doc where doc: "page s2 = (page s1)(JStr path := Some doc)" "parseStoredRecord (le_dates env) doc = ReadOk (moved Superseded (undo_line env) r)"
    using s2(2) unfolding rewritten_def by blast
  have steps: "then_do (new_doc (le_dates env) raw Superseded (undo_line env) ?w1) (\<lambda>doc w4.
       then_do (verifiedWrite (le_api env) (JStr path) doc (le_op env) (le_actor env) w4) f) = f () (?w1\<lparr>pw_store := s2\<rparr>)" for f
    using s2(1) by (auto simp: then_do_def split: prod.splits sum.splits)
  have "undoInner env path w
       = (Inr \<lparr>tr_kind = Applied, tr_path = path, tr_targets = targetPaths p\<rparr>, ?w1\<lparr>pw_store := s2\<rparr>)"
    unfolding undoInner_def readProposalTargets_quiet [OF Q raw(1,2)]
    using st io raw(1,3) s1(1) raw1 by (simp add: read_page_quiet [OF Q] steps)
  moreover have "undone env (page (pw_store w)) path p rec (page s2)"
    unfolding undone_def using s1(2,3) dist proposal_of_moved [OF raw(2) r doc(2)] by (auto simp: doc(1) record_at_def)
  ultimately show ?thesis by (intro exI [of _ s2]) simp
qed


section \<open>Interrupted transitions\<close>

lemma failing_write:
  assumes "quiet_store fails api page" "fails p"
  shows "\<exists>e. verifiedWrite api p c op a w = (Inl (StoreError e), w)"
proof -
  obtain e where "st_write api p c op a (pw_store w) = (Inl e, pw_store w)" using assms unfolding quiet_store_def by metis
  then show ?thesis using assms by (simp add: quiet_store_def verifiedWrite_def store_call_def)
qed

lemma failing_rewrite:
  assumes "quiet_store fails api page" "parseStoredRecord dates raw = ReadOk r" "fails p"
  shows "\<exists>e. then_do (new_doc dates raw st l w) (\<lambda>doc w1. then_do (verifiedWrite api p doc op a w1) f) = (Inl (StoreError e), w)"
proof -
  obtain doc where "new_doc dates raw st l w = (Inr doc, w)" using new_doc_reads [OF assms(2)] by blast
  then show ?thesis using failing_write [OF assms(1,3), of doc op a w] by auto
qed

lemma then_do_unit: "then_do r (\<lambda>u w. (Inr (), w)) = r" for r :: "(lifecycle_error + unit) \<times> 's world"
  by (simp add: then_do_def split: prod.split sum.split)

text \<open>The loop reaches the failing target, with the ones before it done.\<close>

lemma supersede_all_append:
  "supersede_all env i k n (ps @ qs) w =
     (case supersede_all env i k n ps w of (Inl e, w1) \<Rightarrow> (Inl e, w1) | (Inr _, w1) \<Rightarrow> supersede_all env i (k + length ps) n qs w1)"
  by (induction ps arbitrary: k w) (auto split: prod.split sum.split)

lemma supersede_fails:
  assumes Q: "quiet_store fails (le_api env) page" and ps: "distinct ps" "t \<in> set ps" "fails t"
    and rec: "\<And>p. p \<in> set ps \<Longrightarrow> record_at (le_dates env) (page (pw_store w)) p = Some (rec p) \<and> fm_status (frontmatter (rec p)) = Active"
    and only: "\<And>p. p \<noteq> t \<Longrightarrow> \<not> fails p"
  shows "\<exists>k s'. supersede_all env i 0 n ps w = (Inl (StaleProposalError (PartlyApplied k n)), w\<lparr>pw_store := s'\<rparr>)
           \<and> page s' t = page (pw_store w) t \<and> (\<forall>q. q \<notin> set ps \<longrightarrow> page s' q = page (pw_store w) q)"
proof -
  obtain as bs where split: "ps = as @ t # bs" using ps(2) by (meson split_list)
  obtain s1 where s1: "supersede_all env i 0 n as w = (Inr (), w\<lparr>pw_store := s1\<rparr>)"
    "\<forall>q. q \<notin> set as \<longrightarrow> page s1 q = page (pw_store w) q"
    using supersede_all_quiet [OF Q, of as w rec i 0 n] ps(1) rec only split by fastforce
  have t: "page s1 t = page (pw_store w) t" using s1(2) ps(1) split by simp
  have rt: "record_at (le_dates env) (page (pw_store (w\<lparr>pw_store := s1\<rparr>))) t = Some (rec t)" "fm_status (frontmatter (rec t)) = Active"
    using rec [OF ps(2)] t by (simp_all add: record_at_def)
  obtain raw where raw: "readTarget (le_api env) (le_dates env) t (w\<lparr>pw_store := s1\<rparr>) = (Inr (Active, raw), w\<lparr>pw_store := s1\<rparr>)"
    "parseStoredRecord (le_dates env) raw = ReadOk (rec t)"
    using readTarget_quiet [OF Q rt(1)] rt(2) by metis
  have "\<exists>e. supersede_target env i t (w\<lparr>pw_store := s1\<rparr>) = (Inl (StoreError e), w\<lparr>pw_store := s1\<rparr>)"
    using failing_rewrite [OF Q raw(2) ps(3), of Superseded "supersede_line env i" _ "le_op env" "le_actor env" "\<lambda>_ w. (Inr (), w)"] raw(1)
    unfolding supersede_target_def then_do_unit by simp
  then have "supersede_all env i 0 n ps w = (Inl (StaleProposalError (PartlyApplied (length as) n)), w\<lparr>pw_store := s1\<rparr>)"
    using s1(1) unfolding split by (auto simp: supersede_all_append)
  then show ?thesis using t s1(2) split by (intro exI [of _ "length as"] exI [of _ s1]) simp
qed

lemma check_stuck:
  assumes "quiet_store fails (le_api env) page" "t \<in> set ps" "page (pw_store w) t = Some c" "\<not> has_part (superseded_mark i) c"
  shows "\<exists>e. check_superseded env i ps w = (Inl e, w)"
  using assms(2)
proof (induction ps)
  case (Cons p ps)
  have "readTarget (le_api env) (le_dates env) p w =
      (case page (pw_store w) p of None \<Rightarrow> stale TargetNotReadable w
       | Some c \<Rightarrow> (case parseStoredRecord (le_dates env) c of ReadFail why \<Rightarrow> stale (TargetMalformed why) w
           | ReadOk r \<Rightarrow> (Inr (fm_status (frontmatter r), c), w)))"
    by (simp add: readTarget_def read_page_quiet [OF assms(1)] split: option.split)
  then show ?case
    using Cons assms(3,4) by (auto split: option.split RecordReadResult.split)
qed simp

lemma active_proposal_is_not_completed:
  assumes "quiet_store fails (le_api env) page" "page (pw_store w) (JStr path) = Some raw" "proposal_of (le_dates env) raw = Inr p"
    and "pt_status p = Active" "t \<in> set (targetPaths p)" "page (pw_store w) t = Some c" "\<not> has_part (superseded_mark (pt_id p)) c"
  shows "\<exists>e. approveInner env path w = (Inl e, w)"
proof -
  obtain e where "check_superseded env (pt_id p) (targetPaths p) w = (Inl e, w)"
    using check_stuck [OF assms(1,5,6,7)] by blast
  then show ?thesis unfolding approveInner_def readProposalTargets_quiet [OF assms(1,2,3)] using assms(4) by simp
qed


text \<open>The body of a record is the end of its page.\<close>

lemma until_fence_text: "until_fence s = Some (a, b) \<Longrightarrow> \<exists>h. s = h @ b"
proof (induction s arbitrary: a b)
  case Nil
  then show ?case by (simp add: until_fence.simps)
next
  case (Cons c s)
  show ?case
  proof (cases "prefix (nl # fence) (c # s)")
    case True
    then have "b = drop 4 (c # s)" using Cons.prems by (subst (asm) until_fence.simps) simp
    then show ?thesis by (metis append_take_drop_id)
  next
    case False
    then obtain a' where "until_fence s = Some (a', b)" using Cons.prems by (subst (asm) until_fence.simps) auto
    from Cons.IH [OF this] obtain h where "s = h @ b" by blast
    then show ?thesis by (intro exI [of _ "c # h"]) simp
  qed
qed

lemma parseFrontmatter_text: "\<exists>h. doc = h @ snd (parseFrontmatter doc)"
proof (cases "prefix (fence @ [nl]) doc \<and> until_fence (drop 4 doc) \<noteq> None")
  case True
  then obtain fm r where r: "until_fence (drop 4 doc) = Some (fm, r)" by auto
  obtain h where "drop 4 doc = h @ r" using until_fence_text [OF r] by blast
  then have "doc = (take 4 doc @ h) @ r" by (metis append.assoc append_take_drop_id)
  moreover have "snd (parseFrontmatter doc) = r \<or> r = nl # snd (parseFrontmatter doc)"
    using True r by (cases r) (auto simp: parseFrontmatter_def)
  ultimately show ?thesis by (metis append.assoc append_Cons append_Nil)
next
  case False
  then have "snd (parseFrontmatter doc) = doc" by (auto simp: parseFrontmatter_def split: option.split)
  then show ?thesis by simp
qed

lemma body_text: "parseStoredRecord dates doc = ReadOk r \<Longrightarrow> \<exists>h. doc = h @ body r"
  using parseFrontmatter_text [of doc]
  by (auto simp: parseStoredRecord_def read_fields_def Let_def split: prod.splits option.splits if_splits)

lemma marked_page:
  assumes "record_at dates pg t = Some r" "has_part m (body r)" "m \<noteq> []"
  shows "\<exists>doc. pg t = Some doc \<and> has_part m doc"
proof -
  obtain doc where doc: "pg t = Some doc" "parseStoredRecord dates doc = ReadOk r"
    using assms(1) by (auto simp: record_at_def split: option.splits RecordReadResult.splits)
  from body_text [OF doc(2)] obtain h where "doc = h @ body r" by blast
  then show ?thesis using doc(1) assms(2) unfolding has_part_iff [OF assms(3)] by (metis append.assoc)
qed

lemma mark_stays:
  assumes "has_part m bd" "m \<noteq> []" "last m \<noteq> nl"
  shows "has_part m (body_with bd l)"
  using has_part_strip [OF assms, of "[nl] @ provenanceLine l @ [nl]"] has_part_strip [OF assms, of "[]"] assms(2)
  by (auto simp: body_with_def has_part_iff)

lemma check_all_marked:
  assumes "quiet_store fails (le_api env) page"
    and "\<And>t. t \<in> set ps \<Longrightarrow> \<exists>r. record_at (le_dates env) (page (pw_store w)) t = Some r \<and> has_part (superseded_mark i) (body r)"
  shows "check_superseded env i ps w = (Inr (), w)"
  using assms(2)
proof (induction ps)
  case (Cons p ps)
  obtain r where r: "record_at (le_dates env) (page (pw_store w)) p = Some r" "has_part (superseded_mark i) (body r)"
    using Cons.prems [of p] by auto
  obtain raw where raw: "readTarget (le_api env) (le_dates env) p w = (Inr (fm_status (frontmatter r), raw), w)"
    "page (pw_store w) p = Some raw"
    using readTarget_quiet [OF assms(1) r(1)] by blast
  have "has_part (superseded_mark i) raw" using marked_page [OF r] raw(2) by (auto simp: superseded_mark_def)
  then show ?case using raw(1) Cons by simp
qed simp

text \<open>
  An undo whose last write fails leaves every target active, and approving then reports the replay
  of a completed approval: the check reads the appended history of a target, not its status.
\<close>

theorem interrupted_undo_reads_as_approved:
  assumes Q: "quiet_store (\<lambda>q. q = JStr path) (le_api env) page" "le_io env = IoOk"
    and raw: "page (pw_store w) (JStr path) = Some raw" "proposal_of (le_dates env) raw = Inr p" "has_part ''approved by '' raw"
    and st: "pt_status p = Active" and dist: "distinct (JStr path # targetPaths p)"
    and targets: "\<And>t. t \<in> set (targetPaths p) \<Longrightarrow> record_at (le_dates env) (page (pw_store w)) t = Some (rec t)
        \<and> fm_status (frontmatter (rec t)) = Superseded \<and> has_part (superseded_mark (pt_id p)) (body (rec t))"
    and again: "quiet_store (\<lambda>_. False) (le_api env') page" "le_dates env' = le_dates env"
  shows "\<exists>e w1. undoInner env path w = (Inl (StoreError e), w1)
     \<and> (\<forall>t\<in>set (targetPaths p). \<exists>r. record_at (le_dates env) (page (pw_store w1)) t = Some r \<and> fm_status (frontmatter r) = Active)
     \<and> approveInner env' path w1 = (Inr \<lparr>tr_kind = Replay, tr_path = path, tr_targets = []\<rparr>, w1)"
proof -
  let ?m = "superseded_mark (pt_id p)"
  have m: "?m \<noteq> []" "last ?m \<noteq> nl" by (simp_all add: superseded_mark_def)
  let ?w = "w\<lparr>pw_log := logged env Undo path (targetPaths p) (pw_log w)\<rparr>"
  have "record_at (le_dates env) (page (pw_store ?w)) t = Some (rec t) \<and> fm_status (frontmatter (rec t)) = Superseded
      \<and> (\<exists>doc. page (pw_store ?w) t = Some doc \<and> has_part ?m doc) \<and> t \<noteq> JStr path" if "t \<in> set (targetPaths p)" for t
    using targets [OF that] marked_page [OF _ _ m(1)] dist that by auto
  from restore_all_quiet [OF Q(1) _ this, where ps = "targetPaths p" and n = "length (targetPaths p)" and done_ones = "[]"] dist
  obtain s1 where s1: "restore_all env (pt_id p) (length (targetPaths p)) [] (targetPaths p) ?w = (Inr (targetPaths p), ?w\<lparr>pw_store := s1\<rparr>)"
    "\<forall>t\<in>set (targetPaths p). record_at (le_dates env) (page s1) t = Some (moved Active (restore_line env (pt_id p)) (rec t))"
    "\<forall>q. q \<notin> set (targetPaths p) \<longrightarrow> page s1 q = page (pw_store w) q" by auto
  let ?w1 = "?w\<lparr>pw_store := s1\<rparr>"
  have raw1: "page s1 (JStr path) = Some raw" using s1(3) dist raw(1) by simp
  obtain r where r: "parseStoredRecord (le_dates env) raw = ReadOk r" using proposal_record [OF raw(2)] by blast
  have stop: "\<exists>e. then_do (new_doc (le_dates env) raw Superseded (undo_line env) ?w1)
      (\<lambda>doc w6. then_do (verifiedWrite (le_api env) (JStr path) doc (le_op env) (le_actor env) w6) f) = (Inl (StoreError e), ?w1)" for f
    by (rule failing_rewrite [OF Q(1) r refl])
  have "\<exists>e. undoInner env path w = (Inl (StoreError e), ?w1)"
    unfolding undoInner_def readProposalTargets_quiet [OF Q(1) raw(1,2)]
    using st Q(2) raw(1,3) s1(1) raw1 stop by (simp add: read_page_quiet [OF Q(1)])
  moreover have "check_superseded env' (pt_id p) (targetPaths p) ?w1 = (Inr (), ?w1)"
    by (rule check_all_marked [OF again(1)]) (use s1(2) targets again(2) mark_stays [OF _ m] in auto)
  then have "approveInner env' path ?w1 = (Inr \<lparr>tr_kind = Replay, tr_path = path, tr_targets = []\<rparr>, ?w1)"
    unfolding approveInner_def using readProposalTargets_quiet [OF again(1), of ?w1 path raw "le_dates env'" p] raw1 raw(2) again(2) st
    by simp
  ultimately show ?thesis using s1(2) by fastforce
qed

section \<open>No write without its log line\<close>

definition with_write :: "(json \<Rightarrow> string \<Rightarrow> string \<Rightarrow> string \<Rightarrow> 's \<Rightarrow> (string + unit) \<times> 's) \<Rightarrow> 's life_env \<Rightarrow> 's life_env" where
  "with_write f env = env\<lparr>le_api := (le_api env)\<lparr>st_write := f\<rparr>\<rparr>"

lemma with_write_simps [simp]:
  "le_dates (with_write f env) = le_dates env" "le_io (with_write f env) = le_io env"
  "entry_for (with_write f env) = entry_for env"
  by (simp_all add: with_write_def entry_for_def fun_eq_iff)

lemma with_write_reads [simp]:
  "read_page (le_api (with_write f env)) = read_page (le_api env)"
  "readProposalTargets (le_api (with_write f env)) = readProposalTargets (le_api env)"
  "readTarget (le_api (with_write f env)) = readTarget (le_api env)"
  by (simp_all add: with_write_def read_page_def readProposalTargets_def readTarget_def store_call_def fun_eq_iff)

lemma with_write_check [simp]: "check_superseded (with_write f env) i ps w = check_superseded env i ps w"
  by (induction ps arbitrary: w) (auto simp: then_do_def split: prod.split sum.split)

lemma failed_log: "io \<noteq> IoOk \<Longrightarrow> \<exists>lg. log_op io e w = (Inl OpLogError, w\<lparr>pw_log := lg\<rparr>)"
proof (cases io)
  case IoFailBefore
  then show ?thesis by (intro exI [of _ "pw_log w"]) (simp add: log_op_def record_op_def)
next
  case IoFailAfter
  then show ?thesis by (simp add: log_op_def record_op_def Let_def) (rule exI, rule refl)
qed simp

lemma failed_log_stops: "io \<noteq> IoOk \<Longrightarrow> then_do (log_op io e w) g = then_do (log_op io e w) h"
  using failed_log [of io e w] by auto

text \<open>
  C29. No write without its operation in the log: when the log line cannot be made durable, a
  transition never calls the store's write. It does what it would do on a store with any other
  write.
\<close>

theorem nothing_is_written_without_log:
  assumes "le_io env \<noteq> IoOk"
  shows "approveInner (with_write f env) path w = approveInner env path w
    \<and> rejectInner (with_write f env) path w = rejectInner env path w
    \<and> undoInner (with_write f env) path w = undoInner env path w"
proof (intro conjI)
  note stop = failed_log_stops [OF assms]
  show "approveInner (with_write f env) path w = approveInner env path w"
    unfolding approveInner_def with_write_simps with_write_reads with_write_check
    by (intro arg_cong [of _ _ "then_do _"] ext if_cong refl stop)
  show "rejectInner (with_write f env) path w = rejectInner env path w"
    unfolding rejectInner_def with_write_simps with_write_reads
    by (intro arg_cong [of _ _ "then_do _"] ext if_cong refl stop)
  show "undoInner (with_write f env) path w = undoInner env path w"
    unfolding undoInner_def with_write_simps with_write_reads
    by (intro arg_cong [of _ _ "then_do _"] ext if_cong refl stop)
qed

section \<open>Concrete runs\<close>

definition pages_api :: "(json \<Rightarrow> bool) \<Rightarrow> (json \<Rightarrow> string option) store_api" where
  "pages_api fails = \<lparr>openStore = (\<lambda>s. (True, s)),
     st_read = (\<lambda>p s. (Inr (case s p of Some c \<Rightarrow> (RdOk, Some c) | None \<Rightarrow> (RdMissing, None)), s)),
     st_write = (\<lambda>p c op a s. if fails p then (Inl ''lost'', s) else (Inr (), s(p := Some c)))\<rparr>"

lemma pages_quiet: "quiet_store fails (pages_api fails) (\<lambda>s. s)"
  by (simp add: quiet_store_def pages_api_def)

definition example_env :: "(json \<Rightarrow> bool) \<Rightarrow> string \<Rightarrow> (json \<Rightarrow> string option) life_env" where
  "example_env fails i = \<lparr>le_api = pages_api fails, le_dates = (\<lambda>_. Some 0), le_io = IoOk, le_op = i, le_at = ''T'', le_actor = ''ann'', le_reason = None\<rparr>"

lemma example_env_simps [simp]:
  "le_api (example_env fails i) = pages_api fails" "le_dates (example_env fails i) = (\<lambda>_. Some 0)" "le_io (example_env fails i) = IoOk"
  by (simp_all add: example_env_def)

definition example_rec :: "string \<Rightarrow> RecordType \<Rightarrow> LifecycleStatus \<Rightarrow> string \<Rightarrow> StoredRecord" where
  "example_rec i ty st bd = \<lparr>frontmatter = \<lparr>fm_schemaVersion = 1, fm_id = i, fm_type = ty,
     fm_scope = ''personal'', fm_created = ''D'', fm_sources = [], fm_model = None, fm_status = st, fm_to = None,
     fm_from = None, fm_channel = None, fm_ttl = None\<rparr>, body = bd\<rparr>"

definition page_text :: "StoredRecord \<Rightarrow> string" where
  "page_text r = record_head (frontmatter r) @ nl # body r"

lemma page_text_reads: "record_wf dates r \<Longrightarrow> parseStoredRecord dates (page_text r) = ReadOk r"
  unfolding page_text_def by (rule parse_record_text)

lemma example_rec_wf: "i \<in> {''p'', ''a'', ''b''} \<Longrightarrow> ty \<noteq> TBoardMessage \<Longrightarrow> record_wf (\<lambda>_. Some 0) (example_rec i ty st bd)"
  by (auto simp: record_wf_def Let_def example_rec_def SCHEMA_VERSION_def ID_GRAMMAR_def id_char_def is_lower_def
      check_scope_def is_owner_scope_def fm_value_def is_space_def opt_value_def)

definition example_block :: json where
  "example_block = JObj [(''action'', JStr ''merge''), (''targetRecordIds'', JArr [JStr ''a'', JStr ''b'']),
     (''targetPaths'', JArr [JStr ''a.md'', JStr ''b.md''])]"

definition example_targets :: ProposalTargets where
  "example_targets = \<lparr>pt_id = ''p'', pt_status = PendingApproval, pt_action = ''merge'',
     targetRecordIds = [JStr ''a'', JStr ''b''], targetPaths = [JStr ''a.md'', JStr ''b.md'']\<rparr>"

definition target_rec :: "json \<Rightarrow> StoredRecord" where
  "target_rec t = example_rec (if t = JStr ''a.md'' then ''a'' else ''b'') TObservation Active ''x''"

definition example_world :: "(json \<Rightarrow> string option) world" where
  "example_world = \<lparr>pw_log = \<lparr>ol_file = None, ol_known = []\<rparr>, pw_store =
     (\<lambda>q. if q = JStr ''p.md'' then Some (page_text (example_rec ''p'' TProposal PendingApproval (serializeDataBlock example_block)))
          else if q \<in> {JStr ''a.md'', JStr ''b.md''} then Some (page_text (target_rec q)) else None)\<rparr>"

lemma example_proposal:
  "proposal_of (\<lambda>_. Some 0) (page_text (example_rec ''p'' TProposal PendingApproval (serializeDataBlock example_block))) = Inr example_targets"
proof -
  have "json_wf example_block" by (simp add: example_block_def)
  from data_block_roundtrip_block [OF this, of "[]"]
  have "parseDataBlock (serializeDataBlock example_block) = Some example_block" by simp
  then show ?thesis
    using page_text_reads [OF example_rec_wf, of "''p''" TProposal PendingApproval "serializeDataBlock example_block"]
    by (simp add: proposal_of_def) (simp add: example_rec_def example_block_def targets_of_def example_targets_def)
qed

lemma example_approvable: "approvable (\<lambda>_. Some 0) (pw_store example_world) ''p.md'' example_targets target_rec"
proof -
  have "record_at (\<lambda>_. Some 0) (pw_store example_world) t = Some (target_rec t) \<and> fm_status (frontmatter (target_rec t)) = Active"
    if "t \<in> {JStr ''a.md'', JStr ''b.md''}" for t
    using that page_text_reads [OF example_rec_wf]
    by (auto simp: record_at_def example_world_def target_rec_def) (simp_all add: example_rec_def)
  then show ?thesis
    unfolding approvable_def using example_proposal by (simp add: example_world_def) (simp add: example_targets_def)
qed


lemma target_unmarked: "\<not> has_part (superseded_mark ''p'') (page_text (target_rec t))"
  by (cases "t = JStr ''a.md''"; simp add: target_rec_def; code_simp)


theorem interrupted_undo_reads_as_approved_witness:
  "\<exists>e w1. undoInner (example_env (\<lambda>q. q = JStr ''p.md'') ''o2'') ''p.md''
        (snd (approveInner (example_env (\<lambda>_. False) ''o1'') ''p.md'' example_world)) = (Inl (StoreError e), w1)
     \<and> approveInner (example_env (\<lambda>_. False) ''o3'') ''p.md'' w1 = (Inr \<lparr>tr_kind = Replay, tr_path = ''p.md'', tr_targets = []\<rparr>, w1)"
proof -
  let ?e = "example_env (\<lambda>_. False) ''o1''"
  obtain s1 where s1: "approveInner ?e ''p.md'' example_world
       = (Inr \<lparr>tr_kind = Applied, tr_path = ''p.md'', tr_targets = targetPaths example_targets\<rparr>,
          \<lparr>pw_log = logged ?e Approve ''p.md'' (targetPaths example_targets) (pw_log example_world), pw_store = s1\<rparr>)"
    "approved ?e (pw_store example_world) ''p.md'' example_targets target_rec s1"
    using approve_quiet [of "\<lambda>_. False" ?e "\<lambda>s. s" example_world "''p.md''" example_targets target_rec] example_approvable pages_quiet by auto
  obtain doc where doc: "s1 (JStr ''p.md'') = Some doc"
      "proposal_of (\<lambda>_. Some 0) doc = Inr (example_targets\<lparr>pt_status := Active\<rparr>)" "has_part ''approved by '' doc"
    using s1(2) by (auto simp: approved_def)
  have "has_part (superseded_mark ''p'') (body_with bd (supersede_line ?e ''p''))" for bd
    by (rule line_in_body [OF mark_in_line]) (simp add: superseded_mark_def)
  then have "record_at (\<lambda>_. Some 0) s1 t = Some (moved Superseded (supersede_line ?e ''p'') (target_rec t))
      \<and> has_part (superseded_mark ''p'') (body (moved Superseded (supersede_line ?e ''p'') (target_rec t)))"
    if "t \<in> set (targetPaths example_targets)" for t
    using s1(2) that by (auto simp: approved_def example_targets_def)
  then show ?thesis
    using interrupted_undo_reads_as_approved [of "''p.md''" "example_env (\<lambda>q. q = JStr ''p.md'') ''o2''" "\<lambda>s. s" "snd (approveInner ?e ''p.md'' example_world)"
        doc "example_targets\<lparr>pt_status := Active\<rparr>" "\<lambda>t. moved Superseded (supersede_line ?e ''p'') (target_rec t)" "example_env (\<lambda>_. False) ''o3''"]
      pages_quiet doc s1(1) by (fastforce simp: example_targets_def)
qed

theorem nothing_is_written_without_log_witness:
  "approveInner (with_write (\<lambda>p c op a s. (Inr (), Map.empty)) ((example_env (\<lambda>_. False) ''o1'')\<lparr>le_io := IoFailAfter\<rparr>)) ''p.md'' example_world
     = approveInner ((example_env (\<lambda>_. False) ''o1'')\<lparr>le_io := IoFailAfter\<rparr>) ''p.md'' example_world"
  using nothing_is_written_without_log [of "(example_env (\<lambda>_. False) ''o1'')\<lparr>le_io := IoFailAfter\<rparr>"] by simp

end
