(* ===== verification/ReflectionRecords.thy ===== *)
theory ReflectionRecords
  imports DataBlock Idempotency BoardMessages Proposals
begin

text \<open>
  What the reflection pipeline sends (observation/reflection.ts, first half): the validation of a
  model answer, the deterministic ids, the queued payloads and their readers, the stored
  reflection and proposal records, and the delivery of both jobs. SHA-256, \<open>Date.parse\<close> and the
  UTC year and month of an instant are arguments. The session of a record reference, which the
  code does not check, is read as a string.
\<close>

section \<open>Model answers\<close>

definition estimateTokens :: "string \<Rightarrow> nat" where
  "estimateTokens t = max 1 ((length t + 3) div 4)"

datatype model_reason =
    PrivateModeReason | Credentials | TimeoutReason | Provider | MalformedOutput | Schema
  | HallucinatedSource | OutputBudget | InputBudget | ModelMismatch

record ConflictFlag =
  fl_recordIds :: "string list"
  fl_label :: string

record ReflectionResult =
  rs_summary :: string
  rs_duplicates :: "string list list"
  rs_conflicts :: "ConflictFlag list"

definition string_list :: "json option \<Rightarrow> string list option" where
  "string_list v =
     (case v of
        Some (JArr xs) \<Rightarrow> if list_ex (\<lambda>x. json_str x = None) xs then None else Some (map (\<lambda>x. default_to [] (json_str x)) xs)
      | _ \<Rightarrow> None)"

text \<open>\<open>[...new Set(ids)].sort()\<close>, after the check that every id was supplied.\<close>

definition known_ids :: "string list \<Rightarrow> string list \<Rightarrow> model_reason + string list" where
  "known_ids known ids = (if list_all (\<lambda>i. i \<in> set known) ids then Inr (sort (remdups ids)) else Inl HallucinatedSource)"

definition read_group :: "string list \<Rightarrow> json \<Rightarrow> model_reason + string list" where
  "read_group known g =
     (case string_list (Some g) of
        None \<Rightarrow> Inl Schema
      | Some ids \<Rightarrow> if length ids < 2 then Inl Schema else known_ids known ids)"

definition read_conflict :: "string list \<Rightarrow> json \<Rightarrow> model_reason + ConflictFlag" where
  "read_conflict known item =
     (case item of
        JObj ms \<Rightarrow>
          (case string_list (map_of ms ''recordIds'') of
             None \<Rightarrow> Inl Schema
           | Some ids \<Rightarrow>
               if length ids < 2 then Inl Schema
               else (case map_of ms ''label'' of
                       Some (JStr label) \<Rightarrow>
                         if trim label = [] \<or> length label > 200 \<or> containsReservedMarker label then Inl Schema
                         else (case known_ids known ids of
                                 Inl e \<Rightarrow> Inl e
                               | Inr us \<Rightarrow> Inr \<lparr>fl_recordIds = us, fl_label = label\<rparr>)
                     | _ \<Rightarrow> Inl Schema))
      | JArr _ \<Rightarrow> Inl Schema
      | _ \<Rightarrow> Inl Schema)"

fun read_all :: "('a \<Rightarrow> 'e + 'b) \<Rightarrow> 'a list \<Rightarrow> 'e + 'b list" where
  "read_all f [] = Inr []"
| "read_all f (x # xs) =
     (case f x of Inl e \<Rightarrow> Inl e | Inr y \<Rightarrow> (case read_all f xs of Inl e \<Rightarrow> Inl e | Inr ys \<Rightarrow> Inr (y # ys)))"

text \<open>A field that may be absent and must be an array otherwise.\<close>

definition optional_array :: "json option \<Rightarrow> json list option" where
  "optional_array v = (case v of None \<Rightarrow> Some [] | Some (JArr xs) \<Rightarrow> Some xs | Some _ \<Rightarrow> None)"

definition validateReflectionResult :: "json \<Rightarrow> string list \<Rightarrow> nat \<Rightarrow> model_reason + ReflectionResult" where
  "validateReflectionResult result known budget =
     (case result of
        JObj ms \<Rightarrow>
          (case map_of ms ''summary'' of
             Some (JStr summary) \<Rightarrow>
               if trim summary = [] then Inl Schema
               else if estimateTokens summary > budget then Inl OutputBudget
               else if containsReservedMarker summary then Inl Schema
               else (case optional_array (map_of ms ''duplicates'') of
                       None \<Rightarrow> Inl Schema
                     | Some gs \<Rightarrow>
                   (case read_all (read_group known) gs of
                      Inl e \<Rightarrow> Inl e
                    | Inr dups \<Rightarrow>
                   (case optional_array (map_of ms ''conflicts'') of
                      None \<Rightarrow> Inl Schema
                    | Some cs \<Rightarrow>
                   (case read_all (read_conflict known) cs of
                      Inl e \<Rightarrow> Inl e
                    | Inr conf \<Rightarrow> Inr \<lparr>rs_summary = summary, rs_duplicates = dups, rs_conflicts = conf\<rparr>))))
           | _ \<Rightarrow> Inl Schema)
      | JArr _ \<Rightarrow> Inl Schema
      | _ \<Rightarrow> Inl Schema)"

definition conflict_json :: "ConflictFlag \<Rightarrow> json" where
  "conflict_json c = JObj [(''recordIds'', JArr (map JStr (fl_recordIds c))), (''label'', JStr (fl_label c))]"

definition result_json :: "ReflectionResult \<Rightarrow> json" where
  "result_json r = JObj [(''summary'', JStr (rs_summary r)), (''duplicates'', JArr (map (\<lambda>g. JArr (map JStr g)) (rs_duplicates r))),
     (''conflicts'', JArr (map conflict_json (rs_conflicts r)))]"

section \<open>Identities\<close>

definition observationSetHash :: "(string \<Rightarrow> string) \<Rightarrow> string list \<Rightarrow> string" where
  "observationSetHash sha256 ids = take 32 (sha256 (canonicalJson (JArr (map JStr (sort ids)))))"

definition reflectionRecordId :: "(string \<Rightarrow> string) \<Rightarrow> string \<Rightarrow> string \<Rightarrow> string" where
  "reflectionRecordId sha256 scp setHash = take 16 (sha256 (''reflection/'' @ scp @ ''/'' @ setHash))"

definition proposalRecordId :: "(string \<Rightarrow> string) \<Rightarrow> string \<Rightarrow> string list \<Rightarrow> string" where
  "proposalRecordId sha256 scp ids =
     take 16 (sha256 (canonicalJson (JObj [(''scope'', JStr scp), (''targets'', JArr (map JStr (sort ids)))])))"

section \<open>Payloads\<close>

record RecordRef =
  rr_recordId :: string
  rr_createdAt :: ms
  rr_sessionId :: "string option"

record ReflectionPayload =
  rp_setHash :: string
  rp_startedAt :: string
  rp_summary :: string
  rp_conflicts :: "json list"
  rp_records :: "RecordRef list"

record ProposalPayload =
  pp_setHash :: string
  pp_startedAt :: string
  pp_targets :: "RecordRef list"
  pp_rationale :: "string option"

abbreviation plain_error :: exn where "plain_error \<equiv> OtherError ''Error'' None"

definition read_ref :: "json \<Rightarrow> exn + RecordRef" where
  "read_ref v =
     (case v of
        JObj ms \<Rightarrow>
          (case (map_of ms ''recordId'', map_of ms ''createdAt'') of
             (Some (JStr i), Some (JNum t)) \<Rightarrow>
               Inr \<lparr>rr_recordId = i, rr_createdAt = t, rr_sessionId = str_field (map_of ms ''sessionId'')\<rparr>
           | _ \<Rightarrow> Inl plain_error)
      | _ \<Rightarrow> Inl plain_error)"

definition conflict_ok :: "json \<Rightarrow> bool" where
  "conflict_ok v =
     (case v of
        JObj ms \<Rightarrow>
          (case (map_of ms ''recordIds'', map_of ms ''label'') of
             (Some (JArr _), Some (JStr label)) \<Rightarrow> \<not> containsReservedMarker label
           | _ \<Rightarrow> False)
      | _ \<Rightarrow> False)"

definition parseReflectionPayload :: "(string \<Rightarrow> ms option) \<Rightarrow> json option \<Rightarrow> exn + ReflectionPayload" where
  "parseReflectionPayload date_parse pay =
     (case pay of
        Some (JObj ms) \<Rightarrow>
          (case (map_of ms ''setHash'', map_of ms ''startedAt'', map_of ms ''summary'', map_of ms ''conflicts'', map_of ms ''records'') of
             (Some (JStr h), Some (JStr at_), Some (JStr summary), Some (JArr conf), Some (JArr recs)) \<Rightarrow>
               if h = [] \<or> date_parse at_ = None \<or> trim summary = [] \<or> recs = [] \<or> containsReservedMarker summary
                  \<or> \<not> list_all conflict_ok conf then Inl plain_error
               else (case read_all read_ref recs of
                       Inl e \<Rightarrow> Inl e
                     | Inr rs \<Rightarrow> Inr \<lparr>rp_setHash = h, rp_startedAt = at_, rp_summary = summary, rp_conflicts = conf, rp_records = rs\<rparr>)
           | _ \<Rightarrow> Inl plain_error)
      | _ \<Rightarrow> Inl plain_error)"

definition read_target :: "json \<Rightarrow> exn + RecordRef" where
  "read_target v = (case read_ref v of Inl e \<Rightarrow> Inl e | Inr r \<Rightarrow> if rr_recordId r = [] then Inl plain_error else Inr r)"

definition parseProposalPayload :: "(string \<Rightarrow> ms option) \<Rightarrow> json option \<Rightarrow> exn + ProposalPayload" where
  "parseProposalPayload date_parse pay =
     (case pay of
        Some (JObj ms) \<Rightarrow>
          (case (map_of ms ''setHash'', map_of ms ''startedAt'', map_of ms ''action'', map_of ms ''targets'') of
             (Some (JStr h), Some (JStr at_), Some (JStr act), Some (JArr ts)) \<Rightarrow>
               if h = [] \<or> date_parse at_ = None \<or> act \<noteq> ''merge'' \<or> length ts < 2 then Inl plain_error
               else (case read_all read_target ts of
                       Inl e \<Rightarrow> Inl e
                     | Inr rs \<Rightarrow>
                         (case map_of ms ''rationale'' of
                            None \<Rightarrow> Inr \<lparr>pp_setHash = h, pp_startedAt = at_, pp_targets = rs, pp_rationale = None\<rparr>
                          | Some (JStr why) \<Rightarrow>
                              if containsReservedMarker why then Inl plain_error
                              else Inr \<lparr>pp_setHash = h, pp_startedAt = at_, pp_targets = rs, pp_rationale = Some why\<rparr>
                          | Some _ \<Rightarrow> Inl plain_error))
           | _ \<Rightarrow> Inl plain_error)
      | _ \<Rightarrow> Inl plain_error)"

section \<open>Records\<close>

text \<open>One source per session, in the order of first appearance, with the record ids as its entries.\<close>

definition add_source :: "(string \<times> SourceRef) list \<Rightarrow> RecordRef \<Rightarrow> (string \<times> SourceRef) list" where
  "add_source m r =
     (let sid = default_to ''unknown'' (rr_sessionId r)
      in case map_of m sid of
           Some s \<Rightarrow> if rr_recordId r \<in> set (entryIds s) then m
                     else AList.update sid (s\<lparr>entryIds := entryIds s @ [rr_recordId r]\<rparr>) m
         | None \<Rightarrow> AList.update sid \<lparr>sessionId = sid, branchId = None, entryIds = [rr_recordId r]\<rparr> m)"

definition groupSourceRefs :: "RecordRef list \<Rightarrow> SourceRef list" where
  "groupSourceRefs rs = map snd (foldl add_source [] rs)"

definition observationRecordPath :: "(ms \<Rightarrow> nat \<times> nat) \<Rightarrow> string \<Rightarrow> string \<Rightarrow> ms \<Rightarrow> path_error + string" where
  "observationRecordPath utc scp i created = memoryRecordPath scp Observation i (Some (utc created))"

definition stored :: "string \<Rightarrow> RecordType \<Rightarrow> string \<Rightarrow> string \<Rightarrow> SourceRef list \<Rightarrow> LifecycleStatus \<Rightarrow> json \<Rightarrow> StoredRecord" where
  "stored i ty scp created sources st data =
     \<lparr>frontmatter = \<lparr>fm_schemaVersion = 1, fm_id = i, fm_type = ty, fm_scope = scp, fm_created = created, fm_sources = sources,
        fm_model = None, fm_status = st, fm_to = None, fm_from = None, fm_channel = None, fm_ttl = None\<rparr>,
      body = serializeDataBlock data\<rparr>"

definition reflection_data :: "ReflectionPayload \<Rightarrow> json" where
  "reflection_data p = JObj [(''summary'', JStr (rp_summary p)), (''conflicts'', JArr (rp_conflicts p)),
     (''recordIds'', JArr (map (JStr \<circ> rr_recordId) (rp_records p)))]"

definition buildReflectionRecord ::
  "(string \<Rightarrow> string) \<Rightarrow> (string \<Rightarrow> ms option) \<Rightarrow> (ms \<Rightarrow> nat \<times> nat) \<Rightarrow> ReflectionPayload \<Rightarrow> string \<Rightarrow> path_error + StoredRecord \<times> string" where
  "buildReflectionRecord sha256 date_parse utc p scp =
     (let i = reflectionRecordId sha256 scp (rp_setHash p);
          rec = stored i TReflection scp (rp_startedAt p) (groupSourceRefs (rp_records p)) Active (reflection_data p)
      in case memoryRecordPath scp Reflection i (Some (utc (default_to 0 (date_parse (rp_startedAt p))))) of
           Inl e \<Rightarrow> Inl e
         | Inr path \<Rightarrow> Inr (rec, path))"

definition proposal_data :: "ProposalPayload \<Rightarrow> string list \<Rightarrow> json" where
  "proposal_data p paths = JObj
     ([(''action'', JStr ''merge''), (''targetRecordIds'', JArr (map JStr (sort (map rr_recordId (pp_targets p))))),
       (''targetPaths'', JArr (map JStr paths))]
      @ (case pp_rationale p of None \<Rightarrow> [] | Some why \<Rightarrow> [(''rationale'', JStr why)]))"

definition buildProposalRecord ::
  "(string \<Rightarrow> string) \<Rightarrow> (ms \<Rightarrow> nat \<times> nat) \<Rightarrow> ProposalPayload \<Rightarrow> string \<Rightarrow> path_error + StoredRecord \<times> string" where
  "buildProposalRecord sha256 utc p scp =
     (case read_all (\<lambda>t. observationRecordPath utc scp (rr_recordId t) (rr_createdAt t)) (pp_targets p) of
        Inl e \<Rightarrow> Inl e
      | Inr paths \<Rightarrow>
          (let i = proposalRecordId sha256 scp (map rr_recordId (pp_targets p))
           in case memoryRecordPath scp Proposal i None of
                Inl e \<Rightarrow> Inl e
              | Inr path \<Rightarrow> Inr (stored i TProposal scp (pp_startedAt p) [] PendingApproval (proposal_data p paths), path)))"

section \<open>Delivery\<close>

definition deliver_record :: "(write_call \<Rightarrow> exn + bool) \<Rightarrow> string \<Rightarrow> path_error + StoredRecord \<times> string \<Rightarrow> exn option \<times> write_call list" where
  "deliver_record wr op built =
     (case built of
        Inl _ \<Rightarrow> (Some (Backend PathEscapeError), [])
      | Inr (rec, path) \<Rightarrow>
          (case serializeStoredRecord rec of
             Inl _ \<Rightarrow> (Some plain_error, [])
           | Inr doc \<Rightarrow>
               (case wr (path, doc, op) of
                  Inl e \<Rightarrow> (Some e, [(path, doc, op)])
                | Inr _ \<Rightarrow> (None, [(path, doc, op)]))))"

definition sendReflectionJob ::
  "(string \<Rightarrow> string) \<Rightarrow> (string \<Rightarrow> ms option) \<Rightarrow> (ms \<Rightarrow> nat \<times> nat) \<Rightarrow> (write_call \<Rightarrow> exn + bool) \<Rightarrow> OutboxJob \<Rightarrow> string
   \<Rightarrow> exn option \<times> write_call list" where
  "sendReflectionJob sha256 date_parse utc wr job scp =
     (case parseReflectionPayload date_parse (payload job) of
        Inl e \<Rightarrow> (Some e, [])
      | Inr p \<Rightarrow>
          if observationSetHash sha256 (map rr_recordId (rp_records p)) \<noteq> rp_setHash p then (Some plain_error, [])
          else deliver_record wr (opId job) (buildReflectionRecord sha256 date_parse utc p scp))"

definition sendProposalJob ::
  "(string \<Rightarrow> string) \<Rightarrow> (string \<Rightarrow> ms option) \<Rightarrow> (ms \<Rightarrow> nat \<times> nat) \<Rightarrow> (write_call \<Rightarrow> exn + bool) \<Rightarrow> OutboxJob \<Rightarrow> string
   \<Rightarrow> exn option \<times> write_call list" where
  "sendProposalJob sha256 date_parse utc wr job scp =
     (case parseProposalPayload date_parse (payload job) of
        Inl e \<Rightarrow> (Some e, [])
      | Inr p \<Rightarrow> deliver_record wr (opId job) (buildProposalRecord sha256 utc p scp))"

section \<open>Validation\<close>

lemma read_all_ok: "read_all f xs = Inr ys \<Longrightarrow> list_all2 (\<lambda>x y. f x = Inr y) xs ys"
  by (induction xs arbitrary: ys) (auto split: sum.splits)

lemma read_all_set: "read_all f xs = Inr ys \<Longrightarrow> y \<in> set ys \<Longrightarrow> \<exists>x\<in>set xs. f x = Inr y"
  by (induction xs arbitrary: ys) (auto split: sum.splits)

lemma read_all_map: "(\<And>x. x \<in> set xs \<Longrightarrow> f (g x) = Inr (h x)) \<Longrightarrow> read_all f (map g xs) = Inr (map h xs)"
  by (induction xs) auto

lemma known_ids_Inr: "known_ids known ids = Inr us \<longleftrightarrow> set ids \<subseteq> set known \<and> us = sort (remdups ids)"
  by (auto simp: known_ids_def list_all_iff)

lemma read_group_ok:
  assumes "read_group known g = Inr us"
  shows "set us \<subseteq> set known \<and> sorted us \<and> distinct us \<and> us \<noteq> []"
proof -
  obtain ids where ids: "length ids \<ge> 2" "known_ids known ids = Inr us"
    using assms by (auto simp: read_group_def not_less split: option.splits if_splits)
  then have "us = sort (remdups ids)" "set ids \<subseteq> set known" "ids \<noteq> []" by (auto simp: known_ids_Inr)
  then show ?thesis by (metis distinct_remdups distinct_sort remdups_eq_nil_iff set_empty set_remdups set_sort sorted_sort)
qed

lemma read_conflict_ok:
  assumes "read_conflict known item = Inr c"
  shows "set (fl_recordIds c) \<subseteq> set known \<and> sorted (fl_recordIds c) \<and> distinct (fl_recordIds c)
    \<and> trim (fl_label c) \<noteq> [] \<and> length (fl_label c) \<le> 200 \<and> \<not> containsReservedMarker (fl_label c)"
  using assms by (auto simp: read_conflict_def known_ids_Inr split: json.splits option.splits if_splits sum.splits)

text \<open>
  What the validation accepts from a model is grounded and bounded: the summary is not blank,
  within the budget and free of reserved markers, every id of a duplicate group and of a conflict
  is one of the supplied records, sorted and without repetition, and every label is short, not
  blank and free of markers.
\<close>

theorem validated_result_is_grounded:
  assumes "validateReflectionResult v known budget = Inr r"
  shows "trim (rs_summary r) \<noteq> [] \<and> estimateTokens (rs_summary r) \<le> budget \<and> \<not> containsReservedMarker (rs_summary r)
    \<and> (\<forall>g\<in>set (rs_duplicates r). set g \<subseteq> set known \<and> sorted g \<and> distinct g \<and> g \<noteq> [])
    \<and> (\<forall>c\<in>set (rs_conflicts r). set (fl_recordIds c) \<subseteq> set known \<and> distinct (fl_recordIds c)
         \<and> length (fl_label c) \<le> 200 \<and> \<not> containsReservedMarker (fl_label c))"
proof -
  obtain ms gs cs where ms: "v = JObj ms" "map_of ms ''summary'' = Some (JStr (rs_summary r))" "trim (rs_summary r) \<noteq> []"
      "estimateTokens (rs_summary r) \<le> budget" "\<not> containsReservedMarker (rs_summary r)"
    and gs: "read_all (read_group known) gs = Inr (rs_duplicates r)" and cs: "read_all (read_conflict known) cs = Inr (rs_conflicts r)"
    using assms by (auto simp: validateReflectionResult_def split: json.splits option.splits if_splits sum.splits)
  show ?thesis
    using ms read_all_set [OF gs] read_group_ok read_all_set [OF cs] read_conflict_ok by fast
qed

text \<open>
  The validation is not idempotent: a group that repeats one id passes, becomes a group of one,
  and is refused when the engine validates the accepted result again.
\<close>

definition repeated_answer :: json where
  "repeated_answer = JObj [(''summary'', JStr ''s''), (''duplicates'', JArr [JArr [JStr ''a'', JStr ''a'']])]"

theorem validation_is_not_idempotent:
  "\<exists>r. validateReflectionResult repeated_answer [''a''] 10 = Inr r \<and> rs_duplicates r = [[''a'']]
     \<and> validateReflectionResult (result_json r) [''a''] 10 = Inl Schema"
proof -
  let ?r = "\<lparr>rs_summary = ''s'', rs_duplicates = [[''a'']], rs_conflicts = []\<rparr>"
  have "validateReflectionResult repeated_answer [''a''] 10 = Inr ?r" "validateReflectionResult (result_json ?r) [''a''] 10 = Inl Schema"
    by code_simp+
  then show ?thesis by (intro exI [of _ ?r]) simp
qed

section \<open>Payloads are read back\<close>

definition ref_json :: "RecordRef \<Rightarrow> json" where
  "ref_json r = JObj ([(''recordId'', JStr (rr_recordId r)), (''createdAt'', JNum (rr_createdAt r))]
     @ (case rr_sessionId r of None \<Rightarrow> [] | Some x \<Rightarrow> [(''sessionId'', JStr x)]))"

lemma read_ref_json [simp]: "read_ref (ref_json r) = Inr r"
  by (cases r) (auto simp: read_ref_def ref_json_def split: option.split)

section \<open>The stored records\<close>

lemma opt_none [simp]: "opt_value None"
  by (simp add: opt_value_def)

text \<open>What a built record needs: an id of the grammar, an owner scope and a readable date in one line.\<close>

definition storable :: "(string \<Rightarrow> ms option) \<Rightarrow> string \<Rightarrow> string \<Rightarrow> string \<Rightarrow> bool" where
  "storable date_parse i scp created =
     (ID_GRAMMAR i \<and> check_scope scp = Inr () \<and> fm_value scp \<and> fm_value created \<and> created \<noteq> [] \<and> date_parse created \<noteq> None)"

lemma stored_wf:
  assumes "storable date_parse i scp created" "\<forall>s\<in>set srcs. source_wf s" "ty \<noteq> TBoardMessage"
  shows "record_wf date_parse (stored i ty scp created srcs st data)"
  using assms by (simp add: record_wf_def Let_def stored_def storable_def SCHEMA_VERSION_def)

lemma stored_reads:
  assumes "storable date_parse i scp created" "\<forall>s\<in>set srcs. source_wf s" "ty \<noteq> TBoardMessage" "json_wf data"
  shows "\<exists>doc. serializeStoredRecord (stored i ty scp created srcs st data) = Inr doc
    \<and> parseStoredRecord date_parse doc = ReadOk (stored i ty scp created srcs st data)
    \<and> parseDataBlock (body (stored i ty scp created srcs st data)) = Some data"
  using print_read_record [OF stored_wf [OF assms(1-3)]] data_block_roundtrip_block [OF assms(4), of "[]"]
  by (simp add: stored_def)

lemma take_hex_id: "hex_digest sha256 \<Longrightarrow> ID_GRAMMAR (take 16 (sha256 t))"
proof -
  assume d: "hex_digest sha256"
  have len: "length (take 16 (sha256 t)) = 16" using d by (simp add: hex_digest_def)
  then obtain c r where cr: "take 16 (sha256 t) = c # r" by (cases "take 16 (sha256 t)") auto
  have hex: "is_hex x" if "x \<in> set (take 16 (sha256 t))" for x
    using d in_set_takeD [OF that] by (simp add: hex_digest_def list_all_iff)
  have id: "is_hex x \<Longrightarrow> id_char x \<and> (is_lower x \<or> is_digit x)" for x
    by (auto simp: id_char_def is_hex_def is_lower_def is_digit_def)
  have "list_all id_char r" "is_lower c \<or> is_digit c" using hex id unfolding cr by (auto simp: list_all_iff)
  moreover have "length r \<le> 63" using len unfolding cr by simp
  ultimately show ?thesis unfolding ID_GRAMMAR_def cr by simp
qed

lemma add_source_wf:
  assumes "\<forall>s\<in>set (map snd m). source_wf s" "rr_recordId r \<noteq> []" "rr_sessionId r \<noteq> Some []"
  shows "\<forall>s\<in>set (map snd (add_source m r)). source_wf s"
proof -
  have upd: "\<forall>s\<in>set (map snd (AList.update k v m)). source_wf s" if "source_wf v" for k v
    using assms(1) that by (induction m) auto
  show ?thesis
  proof (cases "map_of m (default_to ''unknown'' (rr_sessionId r))")
    case None
    have "source_wf \<lparr>sessionId = default_to ''unknown'' (rr_sessionId r), branchId = None, entryIds = [rr_recordId r]\<rparr>"
      using assms(2,3) by (cases "rr_sessionId r") (simp_all add: source_wf_def)
    then show ?thesis using upd None by (simp add: add_source_def Let_def del: set_map)
  next
    case (Some s)
    then have "source_wf s" using assms(1) by (fastforce dest: map_of_SomeD)
    then have "source_wf (s\<lparr>entryIds := entryIds s @ [rr_recordId r]\<rparr>)" using assms(2) by (simp add: source_wf_def)
    then show ?thesis using upd Some assms(1) by (simp add: add_source_def Let_def del: set_map)
  qed
qed

lemma groupSourceRefs_wf:
  assumes "\<forall>r\<in>set rs. rr_recordId r \<noteq> [] \<and> rr_sessionId r \<noteq> Some []"
  shows "\<forall>s\<in>set (groupSourceRefs rs). source_wf s"
proof -
  have "\<forall>s\<in>set (map snd (foldl add_source m rs)). source_wf s" if "\<forall>s\<in>set (map snd m). source_wf s" for m
    using that assms
  proof (induction rs arbitrary: m)
    case (Cons r rs)
    then show ?case using add_source_wf [of m r] by (simp del: set_map)
  qed simp
  from this [of "[]"] show ?thesis by (simp add: groupSourceRefs_def)
qed

section \<open>From the proposal job to the lifecycle\<close>

lemma read_all_paths:
  "read_all (\<lambda>t. observationRecordPath utc scp (rr_recordId t) (rr_createdAt t)) ts = Inr paths \<Longrightarrow> length paths = length ts"
  by (drule read_all_ok) (simp add: list_all2_lengthD)

lemma built_proposal:
  assumes "buildProposalRecord sha256 utc p scp = Inr (rec, path)" "length (pp_targets p) \<ge> 2"
    and "hex_digest sha256" "check_scope scp = Inr ()" "fm_value scp"
    and "fm_value (pp_startedAt p)" "pp_startedAt p \<noteq> []" "date_parse (pp_startedAt p) \<noteq> None"
  shows "\<exists>doc paths. serializeStoredRecord rec = Inr doc
    \<and> read_all (\<lambda>t. observationRecordPath utc scp (rr_recordId t) (rr_createdAt t)) (pp_targets p) = Inr paths
    \<and> proposal_of date_parse doc = Inr \<lparr>pt_id = proposalRecordId sha256 scp (map rr_recordId (pp_targets p)),
        pt_status = PendingApproval, pt_action = ''merge'',
        targetRecordIds = map JStr (sort (map rr_recordId (pp_targets p))), targetPaths = map JStr paths\<rparr>"
proof -
  let ?i = "proposalRecordId sha256 scp (map rr_recordId (pp_targets p))"
  obtain paths where paths: "read_all (\<lambda>t. observationRecordPath utc scp (rr_recordId t) (rr_createdAt t)) (pp_targets p) = Inr paths"
    and rec: "rec = stored ?i TProposal scp (pp_startedAt p) [] PendingApproval (proposal_data p paths)"
    using assms(1) by (auto simp: buildProposalRecord_def Let_def split: sum.splits)
  have i: "storable date_parse ?i scp (pp_startedAt p)"
    using assms take_hex_id [OF assms(3)] by (simp add: storable_def proposalRecordId_def)
  have data: "json_wf (proposal_data p paths)" by (auto simp: proposal_data_def split: option.split)
  obtain doc where doc: "serializeStoredRecord rec = Inr doc" "parseStoredRecord date_parse doc = ReadOk rec"
    "parseDataBlock (body rec) = Some (proposal_data p paths)"
    using stored_reads [OF i _ _ data, of "[]" TProposal PendingApproval] unfolding rec by auto
  have "targets_of (proposal_data p paths) = Some (''merge'', map JStr (sort (map rr_recordId (pp_targets p))), map JStr paths)"
    using assms(2) read_all_paths [OF paths] by (simp add: targets_of_def proposal_data_def)
  then have "proposal_of date_parse doc = Inr \<lparr>pt_id = ?i, pt_status = PendingApproval, pt_action = ''merge'',
        targetRecordIds = map JStr (sort (map rr_recordId (pp_targets p))), targetPaths = map JStr paths\<rparr>"
    using doc(2,3) by (simp add: proposal_of_def) (simp add: rec stored_def)
  with doc(1) paths show ?thesis by blast
qed

text \<open>
  C30. The record that a proposal job writes is one that the lifecycle can work on: it is the only
  write, it reads back as a pending merge proposal of the id derived from the targets, with the
  sorted ids of the targets and their paths in the order of the payload.
\<close>

theorem delivered_proposal_is_approvable:
  assumes "sendProposalJob sha256 date_parse utc wr job scp = (None, calls)"
    and "parseProposalPayload date_parse (payload job) = Inr p" "fm_value (pp_startedAt p)" "pp_startedAt p \<noteq> []"
    and "hex_digest sha256" "check_scope scp = Inr ()" "fm_value scp"
  shows "\<exists>path doc paths. calls = [(path, doc, opId job)]
    \<and> read_all (\<lambda>t. observationRecordPath utc scp (rr_recordId t) (rr_createdAt t)) (pp_targets p) = Inr paths
    \<and> proposal_of date_parse doc = Inr \<lparr>pt_id = proposalRecordId sha256 scp (map rr_recordId (pp_targets p)),
        pt_status = PendingApproval, pt_action = ''merge'',
        targetRecordIds = map JStr (sort (map rr_recordId (pp_targets p))), targetPaths = map JStr paths\<rparr>"
proof -
  have p: "length (pp_targets p) \<ge> 2" "date_parse (pp_startedAt p) \<noteq> None"
    using assms(2) by (auto simp: parseProposalPayload_def not_less split: option.splits json.splits if_splits sum.splits
        dest!: read_all_ok list_all2_lengthD)
  obtain rec path doc where b: "buildProposalRecord sha256 utc p scp = Inr (rec, path)" "serializeStoredRecord rec = Inr doc"
    "calls = [(path, doc, opId job)]"
    using assms(1,2) by (auto simp: sendProposalJob_def deliver_record_def split: sum.splits prod.splits)
  show ?thesis
    using built_proposal [where date_parse = date_parse, OF b(1) p(1) assms(5-7,3,4) p(2)] b(2,3) by auto
qed

text \<open>
  Two proposals for the same targets from different runs have the same path and different
  content, because the start of the run is stored in them. The later one is therefore no replay of
  the first but a conflict.
\<close>

theorem proposals_of_two_runs_conflict:
  assumes "buildProposalRecord sha256 utc p scp = Inr (rec, path)" "buildProposalRecord sha256 utc q scp = Inr (rec', path')"
    and "pp_targets p = pp_targets q" "pp_startedAt p \<noteq> pp_startedAt q"
    and "serializeStoredRecord rec = Inr doc" "serializeStoredRecord rec' = Inr doc'"
    and "\<forall>r\<in>{rec, rec'}. record_wf date_parse r"
  shows "path = path' \<and> doc \<noteq> doc'"
proof
  show "path = path'" using assms(1-3) by (auto simp: buildProposalRecord_def Let_def split: sum.splits)
  have "parseStoredRecord date_parse doc = ReadOk rec" "parseStoredRecord date_parse doc' = ReadOk rec'"
    using print_read_record [of date_parse rec] print_read_record [of date_parse rec'] assms(5-7) by auto
  moreover have "fm_created (frontmatter rec) \<noteq> fm_created (frontmatter rec')"
    using assms(1,2,4) by (auto simp: buildProposalRecord_def stored_def Let_def split: sum.splits)
  ultimately show "doc \<noteq> doc'" by auto
qed

lemma update_has: "(k, v) \<in> set (AList.update k v m)"
  by (induction m) auto

lemma update_keeps: "(k', s) \<in> set m \<Longrightarrow> k' \<noteq> k \<Longrightarrow> (k', s) \<in> set (AList.update k v m)"
  by (induction m) auto

lemma add_source_new: "\<exists>k s. (k, s) \<in> set (add_source m r) \<and> rr_recordId r \<in> set (entryIds s)"
proof (cases "map_of m (default_to ''unknown'' (rr_sessionId r))")
  case None
  let ?v = "\<lparr>sessionId = default_to ''unknown'' (rr_sessionId r), branchId = None, entryIds = [rr_recordId r]\<rparr>"
  have "(default_to ''unknown'' (rr_sessionId r), ?v) \<in> set (add_source m r)"
    using None by (simp add: add_source_def Let_def update_has)
  then show ?thesis by fastforce
next
  case (Some s)
  show ?thesis
  proof (cases "rr_recordId r \<in> set (entryIds s)")
    case True
    then show ?thesis using map_of_SomeD [OF Some] Some by (auto simp: add_source_def Let_def)
  next
    case False
    have "(default_to ''unknown'' (rr_sessionId r), s\<lparr>entryIds := entryIds s @ [rr_recordId r]\<rparr>) \<in> set (add_source m r)"
      using Some False by (simp add: add_source_def Let_def update_has)
    then show ?thesis by fastforce
  qed
qed

lemma add_source_old:
  assumes "(k, s) \<in> set m" "distinct (map fst m)" "i \<in> set (entryIds s)"
  shows "\<exists>k s. (k, s) \<in> set (add_source m r) \<and> i \<in> set (entryIds s)"
proof (cases "k = default_to ''unknown'' (rr_sessionId r)")
  case False
  then show ?thesis using assms update_keeps [OF assms(1) False]
    by (auto simp: add_source_def Let_def split: option.split)
next
  case True
  then have s: "map_of m (default_to ''unknown'' (rr_sessionId r)) = Some s" using assms(1,2) by simp
  show ?thesis
  proof (cases "rr_recordId r \<in> set (entryIds s)")
    case True
    then show ?thesis using s assms by (auto simp: add_source_def Let_def)
  next
    case False
    have "(default_to ''unknown'' (rr_sessionId r), s\<lparr>entryIds := entryIds s @ [rr_recordId r]\<rparr>) \<in> set (add_source m r)"
      using s False by (simp add: add_source_def Let_def update_has)
    then show ?thesis using assms(3) by fastforce
  qed
qed

lemma add_source_distinct: "distinct (map fst m) \<Longrightarrow> distinct (map fst (add_source m r))"
  by (auto simp: add_source_def Let_def distinct_update split: option.split)

lemma fold_sources_entries:
  assumes "distinct (map fst m)" "(\<exists>k s. (k, s) \<in> set m \<and> i \<in> set (entryIds s)) \<or> i \<in> rr_recordId ` set rs"
  shows "\<exists>k s. (k, s) \<in> set (foldl add_source m rs) \<and> i \<in> set (entryIds s)"
  using assms
proof (induction rs arbitrary: m)
  case (Cons r rs)
  have "(\<exists>k s. (k, s) \<in> set (add_source m r) \<and> i \<in> set (entryIds s)) \<or> i \<in> rr_recordId ` set rs"
  proof -
    from Cons.prems(2) consider (old) k s where "(k, s) \<in> set m" "i \<in> set (entryIds s)"
      | (here) "i = rr_recordId r" | (later) "i \<in> rr_recordId ` set rs" by auto
    then show ?thesis
    proof cases
      case old
      then show ?thesis using add_source_old [OF old(1) Cons.prems(1) old(2)] by blast
    next
      case here
      then show ?thesis using add_source_new by blast
    qed blast
  qed
  then show ?case unfolding foldl.simps by (rule Cons.IH [OF add_source_distinct [OF Cons.prems(1)]])
qed simp

lemma groupSourceRefs_entries:
  assumes "r \<in> set rs"
  shows "\<exists>s\<in>set (groupSourceRefs rs). rr_recordId r \<in> set (entryIds s)"
  using fold_sources_entries [of "[]" "rr_recordId r" rs] assms by (force simp: groupSourceRefs_def)


section \<open>Instances\<close>

theorem validated_result_is_grounded_witness:
  "\<exists>r. validateReflectionResult (JObj [(''summary'', JStr ''s''), (''duplicates'', JArr [JArr [JStr ''b'', JStr ''a'']])]) [''a'', ''b''] 10 = Inr r
     \<and> estimateTokens (rs_summary r) \<le> 10"
proof -
  let ?v = "JObj [(''summary'', JStr ''s''), (''duplicates'', JArr [JArr [JStr ''b'', JStr ''a'']])]"
  have "is_ok (validateReflectionResult ?v [''a'', ''b''] 10)" by code_simp
  then obtain r where r: "validateReflectionResult ?v [''a'', ''b''] 10 = Inr r" unfolding is_ok_iff by blast
  from validated_result_is_grounded [OF r] r show ?thesis by blast
qed

definition always :: "string \<Rightarrow> ms option" where "always s = Some 0"

definition example_utc :: "ms \<Rightarrow> nat \<times> nat" where "example_utc t = (2026, 0)"

definition example_proposal_json :: "string \<Rightarrow> json" where
  "example_proposal_json t = JObj [(''setHash'', JStr ''h''), (''startedAt'', JStr t), (''action'', JStr ''merge''),
     (''targets'', JArr (map ref_json [\<lparr>rr_recordId = ''a'', rr_createdAt = 0, rr_sessionId = None\<rparr>,
        \<lparr>rr_recordId = ''b'', rr_createdAt = 0, rr_sessionId = None\<rparr>]))]"

definition example_proposal_payload :: "string \<Rightarrow> ProposalPayload" where
  "example_proposal_payload t = \<lparr>pp_setHash = ''h'', pp_startedAt = t, pp_targets = [\<lparr>rr_recordId = ''a'', rr_createdAt = 0, rr_sessionId = None\<rparr>,
     \<lparr>rr_recordId = ''b'', rr_createdAt = 0, rr_sessionId = None\<rparr>], pp_rationale = None\<rparr>"

definition queued_job :: "json \<Rightarrow> OutboxJob" where
  "queued_job v = \<lparr>seq = 1, schemaVersion = 1, kind = KProposal, scope = ''personal'', opId = ''op'', idempotencyKey = ''k'',
     payload = Some v, target = None, attempts = 0, nextAttemptAt = 0, createdAt = 0, status = Pending, lastError = None, ackedAt = None\<rparr>"

lemma example_proposal_parses: "parseProposalPayload always (Some (example_proposal_json t)) = Inr (example_proposal_payload t)"
  by (simp add: parseProposalPayload_def example_proposal_json_def example_proposal_payload_def always_def read_target_def)

lemma personal_scope: "check_scope ''personal'' = Inr ()" "fm_value ''personal''"
  by (simp_all add: check_scope_def is_owner_scope_def fm_value_def is_space_def)

theorem delivered_proposal_is_approvable_witness:
  "\<exists>path doc p. sendProposalJob toy_sha always example_utc (\<lambda>_. Inr True) (queued_job (example_proposal_json ''T'')) ''personal'' = (None, [(path, doc, ''op'')])
     \<and> proposal_of always doc = Inr p \<and> targetRecordIds p = [JStr ''a'', JStr ''b'']"
proof -
  let ?job = "queued_job (example_proposal_json ''T'')"
  have "fst (sendProposalJob toy_sha always example_utc (\<lambda>_. Inr True) ?job ''personal'') = None" by code_simp
  then obtain calls where s: "sendProposalJob toy_sha always example_utc (\<lambda>_. Inr True) ?job ''personal'' = (None, calls)"
    by (metis prod.collapse)
  have p: "parseProposalPayload always (payload ?job) = Inr (example_proposal_payload ''T'')"
    by (simp add: queued_job_def example_proposal_parses)
  have t: "fm_value (pp_startedAt (example_proposal_payload ''T''))" "pp_startedAt (example_proposal_payload ''T'') \<noteq> []"
    by (simp_all add: example_proposal_payload_def fm_value_def is_space_def)
  from delivered_proposal_is_approvable [OF s p t toy_digest personal_scope] obtain path doc where
    d: "calls = [(path, doc, ''op'')]" "\<exists>p. proposal_of always doc = Inr p \<and> targetRecordIds p = map JStr (sort [''a'', ''b''])"
    by (auto simp: queued_job_def example_proposal_payload_def)
  have "sort [''a'', ''b''] = [''a'', ''b'']" by code_simp
  with s d show ?thesis by auto
qed

lemma example_built:
  "\<exists>rec path doc. buildProposalRecord toy_sha example_utc (example_proposal_payload t) ''personal'' = Inr (rec, path)
     \<and> (fm_value t \<longrightarrow> t \<noteq> [] \<longrightarrow> record_wf always rec \<and> serializeStoredRecord rec = Inr doc)"
proof -
  let ?p = "example_proposal_payload t"
  let ?i = "proposalRecordId toy_sha ''personal'' [''a'', ''b'']"
  have i: "ID_GRAMMAR ?i" unfolding proposalRecordId_def by (rule take_hex_id [OF toy_digest])
  have "is_ok (read_all (\<lambda>t. observationRecordPath example_utc ''personal'' (rr_recordId t) (rr_createdAt t)) (pp_targets ?p))"
    by code_simp
  then obtain paths where paths: "read_all (\<lambda>t. observationRecordPath example_utc ''personal'' (rr_recordId t) (rr_createdAt t)) (pp_targets ?p) = Inr paths"
    unfolding is_ok_iff by blast
  let ?rec = "stored ?i TProposal ''personal'' t [] PendingApproval (proposal_data ?p paths)"
  have "\<exists>path. buildProposalRecord toy_sha example_utc ?p ''personal'' = Inr (?rec, path)"
    unfolding buildProposalRecord_def paths using i personal_scope
    by (simp add: example_proposal_payload_def Let_def memoryRecordPath_def validateId_def)
  moreover have "record_wf always ?rec" if "fm_value t" "t \<noteq> []"
    by (rule stored_wf) (use i personal_scope that in \<open>simp_all add: storable_def always_def\<close>)
  ultimately show ?thesis using print_read_record by blast
qed

theorem proposals_of_two_runs_conflict_witness:
  "\<exists>rec path rec' doc doc'. buildProposalRecord toy_sha example_utc (example_proposal_payload ''T'') ''personal'' = Inr (rec, path)
     \<and> buildProposalRecord toy_sha example_utc (example_proposal_payload ''U'') ''personal'' = Inr (rec', path)
     \<and> serializeStoredRecord rec = Inr doc \<and> serializeStoredRecord rec' = Inr doc' \<and> doc \<noteq> doc'"
proof -
  have "fm_value ''T''" "fm_value ''U''" by (simp_all add: fm_value_def is_space_def)
  then obtain rec path doc rec' path' doc' where
    b: "buildProposalRecord toy_sha example_utc (example_proposal_payload ''T'') ''personal'' = Inr (rec, path)" "record_wf always rec" "serializeStoredRecord rec = Inr doc"
      "buildProposalRecord toy_sha example_utc (example_proposal_payload ''U'') ''personal'' = Inr (rec', path')" "record_wf always rec'" "serializeStoredRecord rec' = Inr doc'"
    using example_built [of "''T''"] example_built [of "''U''"] by auto
  have "path = path' \<and> doc \<noteq> doc'"
    by (rule proposals_of_two_runs_conflict [OF b(1,4) _ _ b(3,6), where date_parse = always])
      (use b(2,5) in \<open>simp_all add: example_proposal_payload_def\<close>)
  with b show ?thesis by auto
qed

definition example_ref :: "string \<Rightarrow> RecordRef" where
  "example_ref i = \<lparr>rr_recordId = i, rr_createdAt = 0, rr_sessionId = Some ''s1''\<rparr>"

definition example_reflection_json :: json where
  "example_reflection_json = JObj [(''setHash'', JStr (observationSetHash toy_sha [''a'', ''b''])), (''startedAt'', JStr ''T''), (''summary'', JStr ''sum''),
     (''conflicts'', JArr []), (''records'', JArr (map ref_json [example_ref ''a'', example_ref ''b'']))]"


end
