(* ===== verification/ReflectionEngine.thy ===== *)
theory ReflectionEngine
  imports ReflectionRecords
begin

text \<open>
  The reflection engine (observation/reflection.ts, second half): its state file, the intake of
  accepted records, one run with its retries, splits and parking, and the jobs of an accepted
  answer. The model call, the redactor, the clock, the outbox gates and every write are
  arguments; the k-th use of the outside world is the k-th tick. \<open>chain\<close> runs the runs one after
  another, so each is one function. Audit events and status texts are left out.
\<close>

section \<open>State\<close>

definition REFLECTION_SCHEMA_VERSION :: int where "REFLECTION_SCHEMA_VERSION = 1"
definition RETRY_BASE_MS :: ms where "RETRY_BASE_MS = 30000"
definition RETRY_CAP_MS :: ms where "RETRY_CAP_MS = 600000"

record AcceptedRecord =
  ar_recordId :: string
  ar_recordPath :: string
  ar_createdAt :: ms
  ar_statements :: "string list"
  ar_uncertainty :: string
  ar_sourceEntryIds :: "string list"
  ar_sessionId :: string
  ar_branchId :: "string option"

record RunningReflection =
  run_setHash :: string
  run_recordIds :: "string list"
  run_startedAt :: string
  run_attempts :: nat
  run_nextAttemptAt :: "ms option"

record SkippedSet =
  sk_setHash :: string
  sk_reason :: string
  sk_at :: string

record ReflectionState =
  rf_pending :: "AcceptedRecord list"
  rf_seen :: "string list"
  rf_processed :: "string list"
  rf_skipped :: "SkippedSet list"
  rf_running :: "RunningReflection option"

definition emptyReflection :: ReflectionState where
  "emptyReflection = \<lparr>rf_pending = [], rf_seen = [], rf_processed = [], rf_skipped = [], rf_running = None\<rparr>"

definition accepted_json :: "AcceptedRecord \<Rightarrow> json" where
  "accepted_json r = JObj ([(''recordId'', JStr (ar_recordId r)), (''recordPath'', JStr (ar_recordPath r)),
     (''createdAt'', JNum (ar_createdAt r)), (''statements'', JArr (map JStr (ar_statements r))),
     (''uncertainty'', JStr (ar_uncertainty r)), (''sourceEntryIds'', JArr (map JStr (ar_sourceEntryIds r))),
     (''sessionId'', JStr (ar_sessionId r))] @ opt_member ''branchId'' (map_option JStr (ar_branchId r)))"

definition running_json :: "RunningReflection \<Rightarrow> json" where
  "running_json r = JObj ([(''setHash'', JStr (run_setHash r)), (''recordIds'', JArr (map JStr (run_recordIds r))),
     (''startedAt'', JStr (run_startedAt r)), (''attempts'', JNum (int (run_attempts r)))]
     @ opt_member ''nextAttemptAt'' (map_option JNum (run_nextAttemptAt r)))"

definition skipped_json :: "SkippedSet \<Rightarrow> json" where
  "skipped_json s = JObj [(''setHash'', JStr (sk_setHash s)), (''reason'', JStr (sk_reason s)), (''at'', JStr (sk_at s))]"

definition reflection_state_json :: "ReflectionState \<Rightarrow> json" where
  "reflection_state_json s = JObj ([(''schemaVersion'', JNum REFLECTION_SCHEMA_VERSION),
     (''pendingRecords'', JArr (map accepted_json (rf_pending s))), (''seenRecordIds'', JArr (map JStr (rf_seen s))),
     (''processedSets'', JArr (map JStr (rf_processed s))), (''skippedSets'', JArr (map skipped_json (rf_skipped s)))]
     @ opt_member ''running'' (map_option running_json (rf_running s)))"

text \<open>
  Loading: what the code checks of an entry decides whether it is kept; a field that it does not
  check is read as it was written, and has a default in a foreign file.
\<close>

definition str_or :: "string \<Rightarrow> json option \<Rightarrow> string" where "str_or d v = default_to d (str_field v)"
definition strs_of :: "json option \<Rightarrow> string list" where
  "strs_of v = (case v of Some (JArr xs) \<Rightarrow> List.map_filter json_str xs | _ \<Rightarrow> [])"
definition objs_of :: "(json dict \<Rightarrow> 'a option) \<Rightarrow> json option \<Rightarrow> 'a list" where
  "objs_of f v = (case v of Some (JArr xs) \<Rightarrow> List.map_filter (\<lambda>x. case x of JObj ms \<Rightarrow> f ms | _ \<Rightarrow> None) xs | _ \<Rightarrow> [])"

definition read_accepted :: "json dict \<Rightarrow> AcceptedRecord option" where
  "read_accepted ms =
     (case (map_of ms ''recordId'', map_of ms ''recordPath'', map_of ms ''statements'') of
        (Some (JStr i), Some (JStr p), Some (JArr sts)) \<Rightarrow>
          Some \<lparr>ar_recordId = i, ar_recordPath = p, ar_createdAt = default_to 0 (as_num (map_of ms ''createdAt'')),
            ar_statements = List.map_filter json_str sts, ar_uncertainty = str_or [] (map_of ms ''uncertainty''),
            ar_sourceEntryIds = strs_of (map_of ms ''sourceEntryIds''), ar_sessionId = str_or [] (map_of ms ''sessionId''),
            ar_branchId = str_field (map_of ms ''branchId'')\<rparr>
      | _ \<Rightarrow> None)"

definition read_skipped :: "json dict \<Rightarrow> SkippedSet option" where
  "read_skipped ms =
     (case map_of ms ''setHash'' of
        Some (JStr h) \<Rightarrow> Some \<lparr>sk_setHash = h, sk_reason = str_or [] (map_of ms ''reason''), sk_at = str_or [] (map_of ms ''at'')\<rparr>
      | _ \<Rightarrow> None)"

definition read_running :: "json option \<Rightarrow> RunningReflection option" where
  "read_running v =
     (case v of
        Some (JObj ms) \<Rightarrow>
          (case (map_of ms ''setHash'', map_of ms ''recordIds'') of
             (Some (JStr h), Some (JArr _)) \<Rightarrow>
               Some \<lparr>run_setHash = h, run_recordIds = strs_of (map_of ms ''recordIds''), run_startedAt = str_or [] (map_of ms ''startedAt''),
                 run_attempts = nat (default_to 0 (as_num (map_of ms ''attempts''))), run_nextAttemptAt = as_num (map_of ms ''nextAttemptAt'')\<rparr>
           | _ \<Rightarrow> None)
      | _ \<Rightarrow> None)"

definition loadReflection :: "string option \<Rightarrow> ReflectionState" where
  "loadReflection file =
     (case file of None \<Rightarrow> emptyReflection
      | Some raw \<Rightarrow>
          (case json_parse raw of
             Some (JObj ms) \<Rightarrow>
               if default_to 0 (as_num (map_of ms ''schemaVersion'')) > REFLECTION_SCHEMA_VERSION then emptyReflection
               else \<lparr>rf_pending = objs_of read_accepted (map_of ms ''pendingRecords''), rf_seen = strs_of (map_of ms ''seenRecordIds''),
                      rf_processed = strs_of (map_of ms ''processedSets''), rf_skipped = objs_of read_skipped (map_of ms ''skippedSets''),
                      rf_running = read_running (map_of ms ''running'')\<rparr>
           | _ \<Rightarrow> emptyReflection))"

section \<open>The outside world\<close>

record reflect_input =
  ri_setHash :: string
  ri_records :: "(string \<times> string list \<times> string) list"
  ri_inputBudget :: nat
  ri_outputBudget :: nat

datatype reflect_failure = ModelFailure model_reason | OtherFailure string

fun failure_name :: "reflect_failure \<Rightarrow> string" where
  "failure_name (ModelFailure _) = ''ReflectionModelError''"
| "failure_name (OtherFailure n) = n"

record reflect_env =
  re_reflect :: "(nat \<Rightarrow> reflect_input \<Rightarrow> reflect_failure + ReflectionResult) option"
  re_redact :: "string \<Rightarrow> string + string"
  re_sha :: "string \<Rightarrow> string"
  re_iso :: "ms \<Rightarrow> string"
  re_now :: "nat \<Rightarrow> ms"
  re_io :: "nat \<Rightarrow> io"
  re_uuid :: "nat \<Rightarrow> string"
  re_secret :: "string \<Rightarrow> bool"
  re_target :: "string \<Rightarrow> string option"
  re_scope :: string
  re_minObservations :: nat
  re_inputBudget :: nat
  re_outputBudget :: nat
  re_maxProcessed :: nat
  re_maxSeen :: nat
  re_maxAttempts :: nat

record ReflectionEngine =
  en_state :: ReflectionState
  en_lastError :: "string option"
  en_file :: "string option"
  en_outbox :: DurableOutbox
  en_fs :: outbox_fs
  en_ticks :: nat

definition ticked :: "ReflectionEngine \<Rightarrow> ReflectionEngine" where
  "ticked e = e\<lparr>en_ticks := Suc (en_ticks e)\<rparr>"

definition upd_state :: "(ReflectionState \<Rightarrow> ReflectionState) \<Rightarrow> ReflectionEngine \<Rightarrow> ReflectionEngine" where
  "upd_state f e = e\<lparr>en_state := f (en_state e)\<rparr>"

definition open_engine :: "string option \<Rightarrow> DurableOutbox \<Rightarrow> outbox_fs \<Rightarrow> ReflectionEngine" where
  "open_engine file ob fs =
     \<lparr>en_state = loadReflection file, en_lastError = None, en_file = file, en_outbox = ob, en_fs = fs, en_ticks = 0\<rparr>"

definition save_reflection :: "reflect_env \<Rightarrow> ReflectionEngine \<Rightarrow> (exn + unit) \<times> ReflectionEngine" where
  "save_reflection env e =
     (case atomic_write (re_io env (en_ticks e)) (stringify (reflection_state_json (en_state e)) @ [nl]) (en_file e) of
        (ok, file) \<Rightarrow> (if ok then Inr () else Inl plain_error, (ticked e)\<lparr>en_file := file\<rparr>))"

text \<open>\<open>xs.splice(0, xs.length - n)\<close> when the list is longer than \<open>n\<close>: the last \<open>n\<close> stay.\<close>

definition keep_last :: "nat \<Rightarrow> 'a list \<Rightarrow> 'a list" where
  "keep_last n xs = drop (length xs - n) xs"

definition noteAccepted :: "reflect_env \<Rightarrow> AcceptedRecord \<Rightarrow> ReflectionEngine \<Rightarrow> (exn + unit) \<times> ReflectionEngine" where
  "noteAccepted env r e =
     (if ar_recordId r \<in> set (rf_seen (en_state e)) then (Inr (), e)
      else save_reflection env (upd_state (\<lambda>s. s\<lparr>rf_seen := keep_last (re_maxSeen env) (rf_seen s @ [ar_recordId r]),
                                               rf_pending := rf_pending s @ [r]\<rparr>) e))"

section \<open>The end of an attempt\<close>

definition drop_ids :: "string list \<Rightarrow> AcceptedRecord list \<Rightarrow> AcceptedRecord list" where
  "drop_ids ids rs = filter (\<lambda>r. ar_recordId r \<notin> set ids) rs"

definition armRetry :: "reflect_env \<Rightarrow> RunningReflection \<Rightarrow> ReflectionEngine \<Rightarrow> (exn + RunningReflection) \<times> ReflectionEngine" where
  "armRetry env item e =
     (let it1 = item\<lparr>run_attempts := run_attempts item + 1\<rparr>; now = re_now env (en_ticks e); e1 = ticked e
      in if run_attempts it1 \<ge> re_maxAttempts env then
           (let entry = \<lparr>sk_setHash = run_setHash it1, sk_reason = default_to ''unknown'' (en_lastError e), sk_at = re_iso env now\<rparr>
            in case save_reflection env (upd_state (\<lambda>s. s\<lparr>rf_skipped := keep_last (re_maxProcessed env) (rf_skipped s @ [entry]),
                   rf_pending := drop_ids (run_recordIds it1) (rf_pending s), rf_running := None\<rparr>) e1) of
                 (Inl x, e2) \<Rightarrow> (Inl x, e2) | (Inr _, e2) \<Rightarrow> (Inr it1, e2))
         else
           (let it2 = it1\<lparr>run_nextAttemptAt := Some (now + min RETRY_CAP_MS (RETRY_BASE_MS * 2 ^ min (run_attempts it1 - 1) 16))\<rparr>
            in case save_reflection env (upd_state (\<lambda>s. s\<lparr>rf_running := map_option (\<lambda>_. it2) (rf_running s)\<rparr>) e1) of
                 (Inl x, e2) \<Rightarrow> (Inl x, e2) | (Inr _, e2) \<Rightarrow> (Inr it2, e2)))"

definition accepted_ref_json :: "AcceptedRecord \<Rightarrow> json" where
  "accepted_ref_json r = JObj ([(''recordId'', JStr (ar_recordId r)), (''createdAt'', JNum (ar_createdAt r))]
     @ (if ar_sessionId r \<noteq> [] then [(''sessionId'', JStr (ar_sessionId r))] else [])
     @ (if ar_sourceEntryIds r \<noteq> [] then [(''sourceEntryIds'', JArr (map JStr (ar_sourceEntryIds r)))] else []))"

definition reflection_payload_json :: "RunningReflection \<Rightarrow> AcceptedRecord list \<Rightarrow> ReflectionResult \<Rightarrow> json" where
  "reflection_payload_json item rs result = JObj [(''setHash'', JStr (run_setHash item)), (''startedAt'', JStr (run_startedAt item)),
     (''summary'', JStr (rs_summary result)), (''conflicts'', JArr (map conflict_json (rs_conflicts result))),
     (''records'', JArr (map accepted_ref_json rs))]"

definition proposal_payload_json :: "RunningReflection \<Rightarrow> AcceptedRecord list \<Rightarrow> json" where
  "proposal_payload_json item ts = JObj [(''setHash'', JStr (run_setHash item)), (''startedAt'', JStr (run_startedAt item)),
     (''action'', JStr ''merge''),
     (''targets'', JArr (map (\<lambda>r. JObj [(''recordId'', JStr (ar_recordId r)), (''createdAt'', JNum (ar_createdAt r))]) ts))]"

fun enqueue_error_name :: "outbox_error \<Rightarrow> string" where
  "enqueue_error_name (OutboxReadOnly _) = ''OutboxReadOnlyError''"
| "enqueue_error_name OutboxOverflow = ''OutboxOverflowError''"
| "enqueue_error_name OutboxPersist = ''OutboxPersistError''"
| "enqueue_error_name IoError = ''OutboxPersistError''"
| "enqueue_error_name _ = ''OutboxError''"

definition queue_input :: "reflect_env \<Rightarrow> IdempotentKind \<Rightarrow> string list \<Rightarrow> json \<Rightarrow> EnqueueInput" where
  "queue_input env k tokens pay =
     \<lparr>in_kind = k, in_scope = re_scope env,
      in_key = idempotencyKey (re_sha env) \<lparr>id_kind = k, id_scope = re_scope env, id_sources = [], id_channel = None, id_tokens = Some tokens\<rparr>,
      in_payload = Some pay, in_opId = None, in_target = None\<rparr>"

definition queue_job :: "reflect_env \<Rightarrow> EnqueueInput \<Rightarrow> ReflectionEngine \<Rightarrow> string option \<times> ReflectionEngine" where
  "queue_job env inp e =
     (case enqueue (re_secret env) (re_target env) (re_now env (en_ticks e)) (re_uuid env (en_ticks e)) inp (re_io env (en_ticks e))
             (en_outbox e) (en_fs e) of
        (Inl err, ob, fs) \<Rightarrow> (Some (enqueue_error_name err), (ticked e)\<lparr>en_outbox := ob, en_fs := fs\<rparr>)
      | (Inr _, ob, fs) \<Rightarrow> (None, (ticked e)\<lparr>en_outbox := ob, en_fs := fs\<rparr>))"

definition by_id :: "AcceptedRecord list \<Rightarrow> string \<Rightarrow> AcceptedRecord option" where
  "by_id rs i = find (\<lambda>r. ar_recordId r = i) (rev rs)"

fun queue_groups :: "reflect_env \<Rightarrow> RunningReflection \<Rightarrow> AcceptedRecord list \<Rightarrow> string list list \<Rightarrow> ReflectionEngine
   \<Rightarrow> string option \<times> ReflectionEngine" where
  "queue_groups env item rs [] e = (None, e)"
| "queue_groups env item rs (g # gs) e =
     (let targets = sort g
      in if \<not> list_all (\<lambda>i. by_id rs i \<noteq> None) targets then (Some ''ReflectionModelError'', e)
         else (case queue_job env (queue_input env KProposal (run_setHash item # targets)
                       (proposal_payload_json item (List.map_filter (by_id rs) targets))) e of
                 (Some why, e1) \<Rightarrow> (Some why, e1)
               | (None, e1) \<Rightarrow> queue_groups env item rs gs e1))"

definition queue_result :: "reflect_env \<Rightarrow> RunningReflection \<Rightarrow> AcceptedRecord list \<Rightarrow> ReflectionResult \<Rightarrow> ReflectionEngine
   \<Rightarrow> string option \<times> ReflectionEngine" where
  "queue_result env item rs result e =
     (case queue_job env (queue_input env KReflection [run_setHash item] (reflection_payload_json item rs result)) e of
        (Some why, e1) \<Rightarrow> (Some why, e1)
      | (None, e1) \<Rightarrow> queue_groups env item rs (rs_duplicates result) e1)"

text \<open>\<open>Inl\<close> is the name of the error that is thrown.\<close>

definition acceptResult :: "reflect_env \<Rightarrow> RunningReflection \<Rightarrow> AcceptedRecord list \<Rightarrow> ReflectionResult \<Rightarrow> ReflectionEngine
   \<Rightarrow> (string + unit) \<times> ReflectionEngine" where
  "acceptResult env item rs result e =
     (case validateReflectionResult (result_json result) (map ar_recordId rs) (re_outputBudget env) of
        Inl _ \<Rightarrow> (Inl ''ReflectionModelError'', e)
      | Inr _ \<Rightarrow>
          (case queue_result env item rs result e of
             (Some why, e1) \<Rightarrow> (Inr (), e1\<lparr>en_lastError := Some why\<rparr>)
           | (None, e1) \<Rightarrow>
               (case save_reflection env (upd_state (\<lambda>s. s\<lparr>rf_processed := keep_last (re_maxProcessed env) (rf_processed s @ [run_setHash item]),
                      rf_pending := drop_ids (run_recordIds item) (rf_pending s), rf_running := None\<rparr>) e1) of
                  (Inl _, e2) \<Rightarrow> (Inl ''Error'', e2) | (Inr _, e2) \<Rightarrow> (Inr (), e2))))"

section \<open>One run\<close>

fun redact_all :: "(string \<Rightarrow> string + string) \<Rightarrow> string list \<Rightarrow> string + string list" where
  "redact_all f [] = Inr []"
| "redact_all f (x # xs) =
     (case f x of Inl why \<Rightarrow> Inl why | Inr y \<Rightarrow> (case redact_all f xs of Inl why \<Rightarrow> Inl why | Inr ys \<Rightarrow> Inr (y # ys)))"

fun redact_records :: "(string \<Rightarrow> string + string) \<Rightarrow> AcceptedRecord list \<Rightarrow> string + (string \<times> string list \<times> string) list" where
  "redact_records f [] = Inr []"
| "redact_records f (r # rs) =
     (case redact_all f (ar_statements r) of Inl why \<Rightarrow> Inl why
      | Inr sts \<Rightarrow> (case redact_records f rs of Inl why \<Rightarrow> Inl why | Inr ys \<Rightarrow> Inr ((ar_recordId r, sts, ar_uncertainty r) # ys)))"

definition present :: "ReflectionEngine \<Rightarrow> RunningReflection \<Rightarrow> AcceptedRecord list" where
  "present e item = List.map_filter (by_id (rf_pending (en_state e))) (run_recordIds item)"

definition set_running :: "RunningReflection \<Rightarrow> ReflectionEngine \<Rightarrow> ReflectionEngine" where
  "set_running item = upd_state (\<lambda>s. s\<lparr>rf_running := Some item\<rparr>)"

definition rederive :: "reflect_env \<Rightarrow> AcceptedRecord list \<Rightarrow> RunningReflection \<Rightarrow> RunningReflection" where
  "rederive env rs item =
     (if length rs \<noteq> length (run_recordIds item)
      then item\<lparr>run_recordIds := map ar_recordId rs, run_setHash := observationSetHash (re_sha env) (map ar_recordId rs)\<rparr> else item)"

definition halved :: "reflect_env \<Rightarrow> AcceptedRecord list \<Rightarrow> ms \<Rightarrow> RunningReflection \<Rightarrow> RunningReflection" where
  "halved env rs now item =
     (let ids = map ar_recordId (take ((length rs + 1) div 2) rs)
      in item\<lparr>run_recordIds := ids, run_setHash := observationSetHash (re_sha env) ids, run_startedAt := re_iso env now, run_attempts := 0\<rparr>)"

definition model_input :: "reflect_env \<Rightarrow> RunningReflection \<Rightarrow> (string \<times> string list \<times> string) list \<Rightarrow> reflect_input" where
  "model_input env item recs = \<lparr>ri_setHash = run_setHash item, ri_records = recs, ri_inputBudget = re_inputBudget env, ri_outputBudget = re_outputBudget env\<rparr>"

lemma present_length: "length (present e item) \<le> length (run_recordIds item)"
  by (simp add: present_def map_filter_def)

text \<open>Every attempt on a set halves it after an input-budget failure, so the attempts end.\<close>

function runSet :: "reflect_env \<Rightarrow> RunningReflection \<Rightarrow> ReflectionEngine \<Rightarrow> (exn + RunningReflection) \<times> ReflectionEngine" where
  "runSet env item0 e0 =
     (case re_reflect env of
        None \<Rightarrow> (Inr item0, e0\<lparr>en_lastError := Some ''no-reflector''\<rparr>)
      | Some model \<Rightarrow>
          (let rs = present e0 item0; item = rederive env rs item0; e = set_running item e0
           in if rs = [] then
                (case save_reflection env (upd_state (\<lambda>s. s\<lparr>rf_running := None\<rparr>) e) of
                   (Inl x, e1) \<Rightarrow> (Inl x, e1) | (Inr _, e1) \<Rightarrow> (Inr item, e1))
              else
                (case redact_records (re_redact env) rs of
                   Inl why \<Rightarrow> armRetry env item (e\<lparr>en_lastError := Some (''redaction-held ('' @ why @ '')'')\<rparr>)
                 | Inr recs \<Rightarrow>
                     (case model (en_ticks e) (model_input env item recs) of
                        Inl failed \<Rightarrow>
                          if failed = ModelFailure InputBudget \<and> length rs > 1 then
                            (let half = halved env rs (re_now env (Suc (en_ticks e))) item
                             in case save_reflection env (set_running half (ticked (ticked e))) of
                                  (Inl x, e1) \<Rightarrow> (Inl x, e1)
                                | (Inr _, e1) \<Rightarrow> runSet env half e1)
                          else armRetry env item ((ticked e)\<lparr>en_lastError := Some (failure_name failed)\<rparr>)
                      | Inr result \<Rightarrow>
                          (case acceptResult env item rs result (ticked e) of
                             (Inr _, e1) \<Rightarrow> (Inr item, e1)
                           | (Inl why, e1) \<Rightarrow> armRetry env item (e1\<lparr>en_lastError := Some why\<rparr>))))))"
  by pat_completeness auto
termination
proof (relation "measure (\<lambda>(env, item, e). length (run_recordIds item))")
  fix env item0 e0 model rs item e recs failed half x e1 u
  assume "rs = present e0 item0" "half = halved env rs (re_now env (Suc (en_ticks e))) item"
    "failed = ModelFailure InputBudget \<and> 1 < length rs"
  moreover from this have "(length rs + 1) div 2 < length rs" by auto
  ultimately show "((env, half, e1), env, item0, e0) \<in> measure (\<lambda>(env, item, e). length (run_recordIds item))"
    using present_length [of e0 item0] by (simp add: halved_def Let_def)
qed simp

declare runSet.simps [simp del]

datatype skip_reason = NoReflector | Empty | BelowThreshold | Cooldown | AlreadyProcessed

datatype ReflectionRunSummary = Ran string | Skipped skip_reason

definition runOnceInner :: "reflect_env \<Rightarrow> bool \<Rightarrow> ReflectionEngine \<Rightarrow> (exn + ReflectionRunSummary) \<times> ReflectionEngine" where
  "runOnceInner env manual e0 =
     (let now = re_now env (en_ticks e0); e = ticked e0; st = en_state e
      in case rf_running st of
           Some item \<Rightarrow>
             if (case run_nextAttemptAt item of None \<Rightarrow> False | Some t \<Rightarrow> t > now) \<and> \<not> manual then (Inr (Skipped Cooldown), e)
             else (case runSet env item e of (Inl x, e1) \<Rightarrow> (Inl x, e1) | (Inr it, e1) \<Rightarrow> (Inr (Ran (run_setHash it)), e1))
         | None \<Rightarrow>
             if Option.is_none (re_reflect env) then (Inr (Skipped NoReflector), e\<lparr>en_lastError := Some ''no-reflector''\<rparr>)
             else if rf_pending st = [] then (Inr (Skipped Empty), e)
             else if \<not> manual \<and> length (rf_pending st) < re_minObservations env then (Inr (Skipped BelowThreshold), e)
             else
               (let ids = map ar_recordId (rf_pending st); h = observationSetHash (re_sha env) ids
                in if h \<in> set (rf_processed st) then
                     (case save_reflection env (upd_state (\<lambda>s. s\<lparr>rf_pending := []\<rparr>) e) of
                        (Inl x, e1) \<Rightarrow> (Inl x, e1) | (Inr _, e1) \<Rightarrow> (Inr (Skipped AlreadyProcessed), e1))
                   else
                     (let item = \<lparr>run_setHash = h, run_recordIds = ids, run_startedAt = re_iso env (re_now env (en_ticks e)),
                            run_attempts = 0, run_nextAttemptAt = None\<rparr>
                      in case save_reflection env (set_running item (ticked e)) of
                           (Inl x, e1) \<Rightarrow> (Inl x, e1)
                         | (Inr _, e1) \<Rightarrow>
                             (case runSet env item e1 of
                                (Inl x, e2) \<Rightarrow> (Inl x, e2) | (Inr it, e2) \<Rightarrow> (Inr (Ran (run_setHash it)), e2)))))"

section \<open>The state file\<close>

lemma map_filter_map: "(\<And>x. x \<in> set xs \<Longrightarrow> f (g x) = Some (h x)) \<Longrightarrow> List.map_filter f (map g xs) = map h xs"
  by (induction xs) (auto simp: map_filter_simps)

lemma strs_of_map [simp]: "strs_of (Some (JArr (map JStr xs))) = xs"
  using map_filter_map [of xs json_str JStr id] by (simp add: strs_of_def)

lemma json_strs [simp]: "List.map_filter json_str (map JStr xs) = xs"
  using map_filter_map [of xs json_str JStr id] by simp

definition accepted_members :: "AcceptedRecord \<Rightarrow> json dict" where
  "accepted_members r = (case accepted_json r of JObj ms \<Rightarrow> ms | _ \<Rightarrow> [])"

lemma read_accepted_json: "(case accepted_json r of JObj ms \<Rightarrow> read_accepted ms | _ \<Rightarrow> None) = Some r"
  by (cases "ar_branchId r") (simp_all add: accepted_json_def read_accepted_def opt_member_def str_or_def)

lemma read_skipped_json: "(case skipped_json s of JObj ms \<Rightarrow> read_skipped ms | _ \<Rightarrow> None) = Some s"
  by (simp add: skipped_json_def read_skipped_def str_or_def)

lemma read_running_json: "read_running (Some (running_json r)) = Some r"
  by (cases "run_nextAttemptAt r") (simp_all add: running_json_def read_running_def opt_member_def str_or_def)

lemma objs_of_map: "(\<And>x. x \<in> set xs \<Longrightarrow> (case g x of JObj ms \<Rightarrow> f ms | _ \<Rightarrow> None) = Some x) \<Longrightarrow> objs_of f (Some (JArr (map g xs))) = xs"
  using map_filter_map [of xs "\<lambda>x. case x of JObj ms \<Rightarrow> f ms | _ \<Rightarrow> None" g id] by (simp add: objs_of_def)

lemma state_json_wf: "json_wf (reflection_state_json s)"
proof -
  have "json_wf (accepted_json r)" for r by (cases "ar_branchId r") (auto simp: accepted_json_def opt_member_def)
  moreover have "json_wf (running_json r)" for r by (cases "run_nextAttemptAt r") (auto simp: running_json_def opt_member_def)
  moreover have "json_wf (skipped_json r)" for r by (simp add: skipped_json_def)
  ultimately show ?thesis
    by (cases "rf_running s") (auto simp: reflection_state_json_def opt_member_def)
qed

lemma load_saved: "loadReflection (Some (stringify (reflection_state_json s) @ [nl])) = s"
proof -
  have w: "blank [nl]" by (simp add: blank_def is_ws_def)
  have o: "objs_of read_accepted (Some (JArr (map accepted_json (rf_pending s)))) = rf_pending s"
    "objs_of read_skipped (Some (JArr (map skipped_json (rf_skipped s)))) = rf_skipped s"
    by (rule objs_of_map, rule read_accepted_json, rule objs_of_map, rule read_skipped_json)
  have "json_parse (stringify (reflection_state_json s) @ [nl]) = Some (reflection_state_json s)"
    by (rule parse_stringify_ws [OF state_json_wf w])
  moreover have "read_running None = None" by (simp add: read_running_def)
  ultimately show ?thesis
    by (cases "rf_running s")
      (simp_all add: loadReflection_def reflection_state_json_def opt_member_def o read_running_json REFLECTION_SCHEMA_VERSION_def)
qed

text \<open>A state that was saved is the state of the next process.\<close>

lemma saved_state_reopens:
  assumes "save_reflection env e = (Inr (), e')"
  shows "en_state (open_engine (en_file e') ob fs) = en_state e"
proof -
  obtain ok c where w: "atomic_write (re_io env (en_ticks e)) (stringify (reflection_state_json (en_state e)) @ [nl]) (en_file e) = (ok, c)"
    by fastforce
  with assms have "ok" "en_file e' = c" by (auto simp: save_reflection_def ticked_def split: if_splits)
  moreover from this w have "c = Some (stringify (reflection_state_json (en_state e)) @ [nl])"
    by (auto simp: atomic_write_def split: io.splits if_splits)
  ultimately show ?thesis by (simp add: open_engine_def load_saved)
qed

section \<open>What a run does to the pool\<close>

definition item_ok :: "reflect_env \<Rightarrow> RunningReflection \<Rightarrow> bool" where
  "item_ok env it \<longleftrightarrow> run_setHash it = observationSetHash (re_sha env) (run_recordIds it)"

definition running_ok :: "reflect_env \<Rightarrow> ReflectionEngine \<Rightarrow> bool" where
  "running_ok env e \<longleftrightarrow> (case rf_running (en_state e) of None \<Rightarrow> True | Some it \<Rightarrow> item_ok env it)"

definition settled_hashes :: "ReflectionEngine \<Rightarrow> string set" where
  "settled_hashes e = set (rf_processed (en_state e)) \<union> sk_setHash ` set (rf_skipped (en_state e))"

definition settled_ids :: "reflect_env \<Rightarrow> ReflectionEngine \<Rightarrow> string set" where
  "settled_ids env e = \<Union> {set ids |ids. observationSetHash (re_sha env) ids \<in> settled_hashes e}"

definition pool_kept :: "reflect_env \<Rightarrow> AcceptedRecord list \<Rightarrow> ReflectionEngine \<Rightarrow> bool" where
  "pool_kept env rs e \<longleftrightarrow> (\<forall>r \<in> set rs. r \<in> set (rf_pending (en_state e)) \<or> ar_recordId r \<in> settled_ids env e)"

lemma engine_updates [simp]:
  "en_state (ticked e) = en_state e" "en_outbox (ticked e) = en_outbox e"
  "en_state (upd_state f e) = f (en_state e)" "en_outbox (upd_state f e) = en_outbox e"
  by (simp_all add: ticked_def upd_state_def)

lemma save_keeps:
  assumes "save_reflection env e = (r, e')"
  shows "en_state e' = en_state e \<and> en_outbox e' = en_outbox e"
  using assms by (auto simp: save_reflection_def split: prod.splits)

lemma keep_last_set: "set (keep_last n xs) \<subseteq> set xs"
  by (auto simp: keep_last_def dest: in_set_dropD)

lemma keep_last_new: "1 \<le> n \<Longrightarrow> x \<in> set (keep_last n (xs @ [x]))"
  by (simp add: keep_last_def)

lemma keep_last_snoc: "Suc 0 \<le> n \<Longrightarrow> keep_last n (xs @ [x]) = keep_last (n - 1) xs @ [x]"
  by (simp add: keep_last_def)

lemma pool_kept_drop:
  assumes "rf_pending (en_state e') = drop_ids ids (rf_pending (en_state e))"
    and "observationSetHash (re_sha env) ids \<in> settled_hashes e'"
    and "pool_kept env rs e" "settled_ids env e \<subseteq> settled_ids env e' \<or> rf_pending (en_state e) = rs"
  shows "pool_kept env rs e'"
proof -
  have "set ids \<subseteq> settled_ids env e'" using assms(2) by (auto simp: settled_ids_def)
  with assms(1,3,4) show ?thesis unfolding pool_kept_def drop_ids_def by auto
qed

lemma pool_kept_same: "rf_pending (en_state e) = rs \<Longrightarrow> pool_kept env rs e"
  by (simp add: pool_kept_def)

lemma armRetry_running:
  assumes "armRetry env it e = (r, e')" "item_ok env it" "running_ok env e"
  shows "running_ok env e'"
  using assms by (auto simp: armRetry_def Let_def running_ok_def item_ok_def split: if_splits prod.splits sum.splits option.splits dest!: save_keeps)

lemma armRetry_effect:
  assumes "armRetry env it e = (r, e')"
  shows "rf_processed (en_state e') = rf_processed (en_state e)"
    and "en_outbox e' = en_outbox e"
    and "1 \<le> re_maxProcessed env \<Longrightarrow> rf_pending (en_state e') = rf_pending (en_state e) \<and> rf_skipped (en_state e') = rf_skipped (en_state e)
      \<or> rf_pending (en_state e') = drop_ids (run_recordIds it) (rf_pending (en_state e)) \<and> run_setHash it \<in> settled_hashes e'"
  using assms by (auto simp: armRetry_def Let_def settled_hashes_def keep_last_snoc split: if_splits prod.splits sum.splits dest!: save_keeps)

lemma queue_job_state: "queue_job env inp e = (w, e') \<Longrightarrow> en_state e' = en_state e"
  by (auto simp: queue_job_def ticked_def split: prod.splits sum.splits)

lemma queue_groups_state: "queue_groups env item rs gs e = (w, e') \<Longrightarrow> en_state e' = en_state e"
  by (induction gs arbitrary: e) (auto simp: Let_def queue_job_state split: if_splits prod.splits option.splits dest: queue_job_state)

lemma queue_result_state: "queue_result env item rs result e = (w, e') \<Longrightarrow> en_state e' = en_state e"
  by (auto simp: queue_result_def split: prod.splits option.splits dest!: queue_job_state queue_groups_state)

lemma acceptResult_effect:
  assumes "acceptResult env it rs result e = (w, e')" "1 \<le> re_maxProcessed env"
  shows "en_state e' = en_state e \<or> rf_pending (en_state e') = drop_ids (run_recordIds it) (rf_pending (en_state e))
    \<and> run_setHash it \<in> set (rf_processed (en_state e')) \<and> rf_running (en_state e') = None"
  using assms by (auto simp: acceptResult_def keep_last_snoc split: prod.splits sum.splits option.splits dest!: save_keeps dest: queue_result_state)

lemma settled_ids_mono: "settled_hashes e \<subseteq> settled_hashes e' \<Longrightarrow> settled_ids env e \<subseteq> settled_ids env e'"
  by (auto simp: settled_ids_def)

text \<open>An attempt on a consistent item: the accepted answer, then perhaps the retry.\<close>

lemma pool_kept_step:
  fixes e e1 :: ReflectionEngine
  assumes "item_ok env it" and same: "en_state e1 = en_state e \<or> rf_pending (en_state e1) = drop_ids (run_recordIds it) (rf_pending (en_state e))
      \<and> run_setHash it \<in> set (rf_processed (en_state e1)) \<and> rf_running (en_state e1) = None"
    and "rf_pending (en_state e) = rs"
  shows "pool_kept env rs e1"
  using same
proof
  assume "en_state e1 = en_state e"
  with assms(3) show ?thesis by (intro pool_kept_same) simp
next
  assume d: "rf_pending (en_state e1) = drop_ids (run_recordIds it) (rf_pending (en_state e))
      \<and> run_setHash it \<in> set (rf_processed (en_state e1)) \<and> rf_running (en_state e1) = None"
  with assms(1) have "observationSetHash (re_sha env) (run_recordIds it) \<in> settled_hashes e1"
    by (auto simp: item_ok_def settled_hashes_def)
  then show ?thesis
    using d assms(3) pool_kept_drop [of e1 "run_recordIds it" e env rs] pool_kept_same [of e rs env] by blast
qed

lemma armRetry_pool:
  assumes "armRetry env it e = (r, e')" "item_ok env it" "1 \<le> re_maxProcessed env" "pool_kept env rs e"
    and start: "rf_pending (en_state e) = rs \<or> (rf_pending (en_state e) = drop_ids (run_recordIds it) rs \<and> run_setHash it \<in> set (rf_processed (en_state e)))"
  shows "pool_kept env rs e'"
proof -
  note eff = armRetry_effect [OF assms(1)]
  have proc: "rf_processed (en_state e') = rf_processed (en_state e)" by (rule eff(1))
  have h: "run_setHash it = observationSetHash (re_sha env) (run_recordIds it)" using assms(2) by (simp add: item_ok_def)
  show ?thesis
  proof (cases "rf_pending (en_state e') = rf_pending (en_state e) \<and> rf_skipped (en_state e') = rf_skipped (en_state e)")
    case True
    then have "settled_ids env e' = settled_ids env e" using proc by (simp add: settled_ids_def settled_hashes_def)
    with True assms(4) show ?thesis by (simp add: pool_kept_def)
  next
    case False
    with eff(3) [OF assms(3)] have d: "rf_pending (en_state e') = drop_ids (run_recordIds it) (rf_pending (en_state e))"
      and s: "run_setHash it \<in> settled_hashes e'" by auto
    have "set (run_recordIds it) \<subseteq> settled_ids env e'" using s h by (auto simp: settled_ids_def)
    then show ?thesis using start d unfolding pool_kept_def drop_ids_def by auto
  qed
qed

lemma item_ok_steps:
  "item_ok env item0 \<Longrightarrow> item_ok env (rederive env rs item0)" "item_ok env (halved env rs now item)"
  by (simp_all add: item_ok_def rederive_def halved_def Let_def)

lemma set_running_simps [simp]:
  "en_state (set_running it e) = (en_state e)\<lparr>rf_running := Some it\<rparr>" "en_outbox (set_running it e) = en_outbox e"
  "en_ticks (set_running it e) = en_ticks e"
  by (simp_all add: set_running_def upd_state_def)

text \<open>The five ways one call of \<open>runSet\<close> goes on.\<close>

abbreviation entered :: "reflect_env \<Rightarrow> RunningReflection \<Rightarrow> ReflectionEngine \<Rightarrow> ReflectionEngine" where
  "entered env item0 e0 \<equiv> set_running (rederive env (present e0 item0) item0) e0"

lemma runSet_cases:
  assumes run: "runSet env item0 e0 = (res, e')"
  obtains (NoModel) "en_state e' = en_state e0" "en_outbox e' = en_outbox e0"
  | (Gone) "en_state e' = (en_state (entered env item0 e0))\<lparr>rf_running := None\<rparr>" "en_outbox e' = en_outbox e0"
  | (Retry) e1 r where "armRetry env (rederive env (present e0 item0) item0) e1 = (r, e')"
      "en_state e1 = en_state (entered env item0 e0)" "en_outbox e1 = en_outbox e0"
  | (Accept) model recs result w e1 where "re_reflect env = Some model" "redact_records (re_redact env) (present e0 item0) = Inr recs"
      "model (en_ticks e0) (model_input env (rederive env (present e0 item0) item0) recs) = Inr result"
      "acceptResult env (rederive env (present e0 item0) item0) (present e0 item0) result (ticked (entered env item0 e0)) = (w, e1)"
      "e' = e1 \<or> (\<exists>why r. armRetry env (rederive env (present e0 item0) item0) (e1\<lparr>en_lastError := why\<rparr>) = (r, e'))"
  | (Half) half e1 now where "half = halved env (present e0 item0) now (rederive env (present e0 item0) item0)"
      "1 < length (present e0 item0)" "en_state e1 = en_state (set_running half (entered env item0 e0))" "en_outbox e1 = en_outbox e0"
      "e' = e1 \<or> runSet env half e1 = (res, e')"
proof (cases "re_reflect env")
  case None
  with run show ?thesis by (intro NoModel) (auto simp: runSet.simps [of env item0 e0])
next
  case (Some model)
  let ?rs = "present e0 item0"
  let ?item = "rederive env ?rs item0"
  have t: "en_ticks (entered env item0 e0) = en_ticks e0" "en_outbox (entered env item0 e0) = en_outbox e0"
    by simp_all
  note body = run [unfolded runSet.simps [of env item0 e0] Some option.case Let_def t(1)]
  consider (none) "?rs = []" | (held) why where "?rs \<noteq> []" "redact_records (re_redact env) ?rs = Inl why"
    | (asked) recs where "?rs \<noteq> []" "redact_records (re_redact env) ?rs = Inr recs"
    by (cases "redact_records (re_redact env) ?rs") auto
  then show ?thesis
  proof cases
    case none
    with body show ?thesis by (intro Gone) (auto simp: t split: prod.splits sum.splits dest!: save_keeps)
  next
    case (held why)
    have "armRetry env ?item ((entered env item0 e0)\<lparr>en_lastError := Some (''redaction-held ('' @ why @ '')'')\<rparr>) = (res, e')"
      using body held by simp
    then show ?thesis by (rule Retry) simp_all
  next
    case (asked recs)
    note body = body [unfolded asked sum.case if_not_P [OF asked(1)]]
    show ?thesis
    proof (cases "model (en_ticks e0) (model_input env ?item recs)")
      case (Inr result)
      obtain w e1 where acc: "acceptResult env ?item ?rs result (ticked (entered env item0 e0)) = (w, e1)" by fastforce
      show ?thesis
        by (rule Accept [OF Some asked(2) Inr acc]) (use body Inr acc in \<open>auto split: sum.splits\<close>)
    next
      case (Inl failed)
      show ?thesis
      proof (cases "failed = ModelFailure InputBudget \<and> 1 < length ?rs")
        case False
        then have "armRetry env ?item ((ticked (entered env item0 e0))\<lparr>en_lastError := Some (failure_name failed)\<rparr>) = (res, e')"
          using body Inl by (simp add: if_not_P)
        then show ?thesis by (rule Retry) simp_all
      next
        case True
        let ?half = "halved env ?rs (re_now env (Suc (en_ticks e0))) ?item"
        obtain v e1 where save: "save_reflection env (set_running ?half (ticked (ticked (entered env item0 e0)))) = (v, e1)" by fastforce
        have saved: "en_state e1 = en_state (set_running ?half (entered env item0 e0))" "en_outbox e1 = en_outbox e0"
          using save_keeps [OF save] by simp_all
        have "e' = e1 \<or> runSet env ?half e1 = (res, e')" using body True Inl save by (auto split: sum.splits)
        then show ?thesis using True by (intro Half [OF refl _ saved]) simp_all
      qed
    qed
  qed
qed

lemma halved_shorter:
  "1 < length (present e0 item0) \<Longrightarrow> length (run_recordIds (halved env (present e0 item0) now item)) < length (run_recordIds item0)"
  using present_length [of e0 item0] by (simp add: halved_def Let_def)

lemma acceptResult_running:
  assumes "acceptResult env it rs result e = (w, e')" "running_ok env e" "1 \<le> re_maxProcessed env"
  shows "running_ok env e'"
  using acceptResult_effect [OF assms(1,3)] assms(2) by (auto simp: running_ok_def)

lemma attempt_pool:
  fixes e :: ReflectionEngine
  assumes "armRetry env item e1 = (res, e')" "item_ok env item" "1 \<le> re_maxProcessed env" "running_ok env e1"
    and "en_state e1 = en_state e \<or> rf_pending (en_state e1) = drop_ids (run_recordIds item) (rf_pending (en_state e))
      \<and> run_setHash item \<in> set (rf_processed (en_state e1)) \<and> rf_running (en_state e1) = None"
  shows "pool_kept env (rf_pending (en_state e)) e' \<and> running_ok env e'"
proof
  show "running_ok env e'" by (rule armRetry_running [OF assms(1,2,4)])
  have "pool_kept env (rf_pending (en_state e)) e1" by (rule pool_kept_step [OF assms(2,5)]) simp
  then show "pool_kept env (rf_pending (en_state e)) e'"
    using armRetry_pool [OF assms(1-3)] assms(5) by auto
qed

lemma runSet_pool:
  "runSet env item0 e0 = (res, e') \<Longrightarrow> item_ok env item0 \<Longrightarrow> running_ok env e0 \<Longrightarrow> 1 \<le> re_maxProcessed env
    \<Longrightarrow> pool_kept env (rf_pending (en_state e0)) e' \<and> running_ok env e'"
proof (induction "length (run_recordIds item0)" arbitrary: item0 e0 rule: less_induct)
  case less
  let ?item = "rederive env (present e0 item0) item0"
  let ?e = "entered env item0 e0"
  have item: "item_ok env ?item" using less.prems(2) by (rule item_ok_steps)
  have entered_ok: "running_ok env ?e" using item by (simp add: running_ok_def)
  have keep: "rf_pending (en_state ?e) = rf_pending (en_state e0)" by simp
  note attempt = attempt_pool [OF _ item less.prems(4), where e = ?e, unfolded keep]
  from less.prems(1) show ?case
  proof (cases rule: runSet_cases)
    case NoModel
    with less.prems(3) show ?thesis by (simp add: pool_kept_def running_ok_def)
  next
    case Gone
    then show ?thesis by (simp add: pool_kept_def running_ok_def)
  next
    case (Retry e1 r)
    show ?thesis by (rule attempt [OF Retry(1)]) (use Retry(2) entered_ok in \<open>simp_all add: running_ok_def\<close>)
  next
    case (Accept model recs result w e1)
    have eff: "en_state e1 = en_state ?e \<or> rf_pending (en_state e1) = drop_ids (run_recordIds ?item) (rf_pending (en_state ?e))
        \<and> run_setHash ?item \<in> set (rf_processed (en_state e1)) \<and> rf_running (en_state e1) = None"
      using acceptResult_effect [OF Accept(4) less.prems(4)] by simp
    have e1: "running_ok env e1"
      by (rule acceptResult_running [OF Accept(4) _ less.prems(4)]) (use entered_ok in \<open>simp add: running_ok_def\<close>)
    from Accept(5) show ?thesis
    proof
      assume "e' = e1"
      with e1 pool_kept_step [OF item eff keep] show ?thesis by simp
    next
      assume "\<exists>why r. armRetry env ?item (e1\<lparr>en_lastError := why\<rparr>) = (r, e')"
      then show ?thesis using attempt [of "e1\<lparr>en_lastError := _\<rparr>"] eff e1 by (auto simp: running_ok_def)
    qed
  next
    case (Half half e1 now)
    have half: "item_ok env half" using Half(1) item_ok_steps(2) by simp
    have e1: "running_ok env e1" "rf_pending (en_state e1) = rf_pending (en_state e0)" using Half(3) half by (simp_all add: running_ok_def)
    from Half(5) show ?thesis
    proof
      assume "e' = e1"
      with e1 show ?thesis by (simp add: pool_kept_def)
    next
      assume "runSet env half e1 = (res, e')"
      with less.hyps [OF _ _ half e1(1) less.prems(4)] halved_shorter [OF Half(2)] Half(1) e1(2) show ?thesis by simp
    qed
  qed
qed

lemma runOnce_pool:
  assumes "runOnceInner env manual e = (res, e')" "running_ok env e" "1 \<le> re_maxProcessed env"
  shows "pool_kept env (rf_pending (en_state e)) e' \<and> running_ok env e'"
proof (cases "rf_running (en_state e)")
  case (Some it)
  have it: "item_ok env it" using assms(2) Some by (simp add: running_ok_def)
  have "e' = ticked e \<or> (\<exists>r. runSet env it (ticked e) = (r, e'))"
    using assms(1) Some by (auto simp: runOnceInner_def Option.is_none_def Let_def split: if_splits prod.splits sum.splits)
  then show ?thesis
    using runSet_pool [OF _ it _ assms(3), of "ticked e" _ e'] assms(2) by (auto simp: running_ok_def pool_kept_def)
next
  case None
  let ?ids = "map ar_recordId (rf_pending (en_state e))"
  let ?h = "observationSetHash (re_sha env) ?ids"
  let ?it = "\<lparr>run_setHash = ?h, run_recordIds = ?ids, run_startedAt = re_iso env (re_now env (en_ticks (ticked e))),
     run_attempts = 0, run_nextAttemptAt = None\<rparr>"
  obtain v e1 where save: "save_reflection env (set_running ?it (ticked (ticked e))) = (v, e1)" by fastforce
  have e1: "en_state e1 = (en_state e)\<lparr>rf_running := Some ?it\<rparr>" using save_keeps [OF save] by simp
  have it: "item_ok env ?it" by (simp add: item_ok_def)
  consider (same) "en_state e' = en_state e"
    | (again) "?h \<in> set (rf_processed (en_state e))" "en_state e' = (en_state e)\<lparr>rf_pending := []\<rparr>"
    | (go) r where "e' = e1 \<or> runSet env ?it e1 = (r, e')"
    using assms(1) None save
    by (auto simp: runOnceInner_def Option.is_none_def Let_def split: if_splits prod.splits sum.splits dest: save_keeps)
  then show ?thesis
  proof cases
    case same
    with assms(2) show ?thesis by (simp add: pool_kept_def running_ok_def)
  next
    case again
    then have "?h \<in> settled_hashes e'" by (simp add: settled_hashes_def)
    then have "set ?ids \<subseteq> settled_ids env e'" unfolding settled_ids_def by blast
    then show ?thesis using None again(2) by (auto simp: pool_kept_def running_ok_def)
  next
    case (go r)
    have "running_ok env e1" using e1 it by (simp add: running_ok_def)
    with go runSet_pool [OF _ it _ assms(3), of e1 r e'] e1 show ?thesis by (auto simp: pool_kept_def)
  qed
qed

section \<open>The engine over its lifetime\<close>

inductive engine_reach :: "reflect_env \<Rightarrow> ReflectionEngine \<Rightarrow> bool" for env where
  start: "engine_reach env (open_engine None ob fs)"
| accepted: "engine_reach env e \<Longrightarrow> noteAccepted env r e = (x, e') \<Longrightarrow> engine_reach env e'"
| run: "engine_reach env e \<Longrightarrow> runOnceInner env manual e = (y, e') \<Longrightarrow> engine_reach env e'"
| restart: "engine_reach env e \<Longrightarrow> save_reflection env e = (Inr (), e') \<Longrightarrow> engine_reach env (open_engine (en_file e') ob fs)"

lemma noteAccepted_state:
  "noteAccepted env r e = (x, e') \<Longrightarrow> rf_running (en_state e') = rf_running (en_state e)"
  by (auto simp: noteAccepted_def split: if_splits dest!: save_keeps)

lemma reachable_running_ok:
  assumes "1 \<le> re_maxProcessed env"
  shows "engine_reach env e \<Longrightarrow> running_ok env e"
proof (induction rule: engine_reach.induct)
  case (run e manual y e')
  then show ?case using runOnce_pool [OF _ _ assms] by blast
next
  case (restart e e' ob fs)
  then show ?case using saved_state_reopens [OF restart.hyps(2)] by (simp add: running_ok_def)
qed (auto simp: running_ok_def open_engine_def loadReflection_def emptyReflection_def noteAccepted_state)

text \<open>
  C32. No accepted observation is lost by a run: it is still pending, or it belongs to a set whose hash
  is on record as summarized or as visibly parked.
\<close>

theorem observation_leaves_pool_only_settled:
  assumes "1 \<le> re_maxProcessed env" "engine_reach env e" "runOnceInner env manual e = (res, e')"
    and "r \<in> set (rf_pending (en_state e))"
  shows "r \<in> set (rf_pending (en_state e')) \<or> ar_recordId r \<in> settled_ids env e'"
  using runOnce_pool [OF assms(3) reachable_running_ok [OF assms(1,2)] assms(1)] assms(4) by (auto simp: pool_kept_def)


text \<open>A small engine: one pending observation, and two models.\<close>

definition example_env :: "(reflect_failure + ReflectionResult) \<Rightarrow> reflect_env" where
  "example_env answer = \<lparr>re_reflect = Some (\<lambda>_ _. answer), re_redact = Inr, re_sha = (\<lambda>_. replicate 64 CHR ''a''), re_iso = (\<lambda>_. ''t''),
     re_now = int, re_io = (\<lambda>_. IoOk), re_uuid = (\<lambda>_. ''op''), re_secret = (\<lambda>_. False), re_target = (\<lambda>_. None), re_scope = ''personal'',
     re_minObservations = 1, re_inputBudget = 100, re_outputBudget = 100, re_maxProcessed = 8, re_maxSeen = 8, re_maxAttempts = 1\<rparr>"

definition example_record :: AcceptedRecord where
  "example_record = \<lparr>ar_recordId = ''o1'', ar_recordPath = ''p'', ar_createdAt = 5, ar_statements = [''s''], ar_uncertainty = ''low'',
     ar_sourceEntryIds = [], ar_sessionId = ''s'', ar_branchId = None\<rparr>"

definition example_engine :: ReflectionEngine where
  "example_engine = snd (noteAccepted (example_env (Inl (OtherFailure ''E''))) example_record (open_engine None (new_store \<lparr>maxJobs = 9, maxBytes = 99, retentionMs = 9\<rparr>) empty_fs))"

lemma example_env_sel: "re_maxProcessed (example_env a) = 8" by (simp add: example_env_def)

theorem observation_leaves_pool_only_settled_witness:
  "rf_pending (en_state (snd (runOnceInner (example_env (Inl (OtherFailure ''E''))) False example_engine))) = []
   \<and> ''o1'' \<in> settled_ids (example_env (Inl (OtherFailure ''E''))) (snd (runOnceInner (example_env (Inl (OtherFailure ''E''))) False example_engine))"
proof -
  let ?env = "example_env (Inl (OtherFailure ''E''))"
  have gone: "rf_pending (en_state (snd (runOnceInner ?env False example_engine))) = []" by code_simp
  have pend: "rf_pending (en_state example_engine) = [example_record]" by code_simp
  have r: "engine_reach ?env example_engine"
    unfolding example_engine_def by (rule engine_reach.accepted [OF engine_reach.start, of _ _ _ _ "fst (noteAccepted ?env example_record (open_engine None (new_store \<lparr>maxJobs = 9, maxBytes = 99, retentionMs = 9\<rparr>) empty_fs))"]) simp
  obtain res e' where run: "runOnceInner ?env False example_engine = (res, e')" by fastforce
  have "ar_recordId example_record \<in> settled_ids ?env e'"
    using observation_leaves_pool_only_settled [OF _ r run, of example_record] gone pend run by (simp add: example_env_sel)
  then show ?thesis using gone run by (simp add: example_record_def)
qed

section \<open>What the outbox receives\<close>

definition valid_answer :: "reflect_env \<Rightarrow> reflect_input \<Rightarrow> ReflectionResult \<Rightarrow> bool" where
  "valid_answer env inp result \<longleftrightarrow>
     (\<exists>model k. re_reflect env = Some model \<and> model k inp = Inr result)
     \<and> (\<exists>v. validateReflectionResult (result_json result) (map fst (ri_records inp)) (re_outputBudget env) = Inr v)
     \<and> (\<forall>(i, sts, u) \<in> set (ri_records inp). \<forall>s \<in> set sts. \<exists>t. re_redact env t = Inr s)"

lemma redact_all_sound: "redact_all f xs = Inr ys \<Longrightarrow> \<forall>y \<in> set ys. \<exists>x. f x = Inr y"
  by (induction xs arbitrary: ys) (auto split: sum.splits)

lemma redact_records_sound:
  "redact_records f rs = Inr recs \<Longrightarrow> map fst recs = map ar_recordId rs \<and> (\<forall>(i, sts, u) \<in> set recs. \<forall>s \<in> set sts. \<exists>t. f t = Inr s)"
proof (induction rs arbitrary: recs)
  case (Cons r rs)
  then show ?case by (auto split: sum.splits dest!: redact_all_sound) fastforce
qed simp

lemma acceptResult_outbox:
  "acceptResult env it rs result e = (w, e') \<Longrightarrow> en_outbox e' \<noteq> en_outbox e
    \<Longrightarrow> \<exists>v. validateReflectionResult (result_json result) (map ar_recordId rs) (re_outputBudget env) = Inr v"
  by (auto simp: acceptResult_def split: sum.splits)

lemma runSet_outbox:
  "runSet env item0 e0 = (res, e') \<Longrightarrow> en_outbox e' \<noteq> en_outbox e0 \<Longrightarrow> \<exists>inp result. valid_answer env inp result"
proof (induction "length (run_recordIds item0)" arbitrary: item0 e0 rule: less_induct)
  case less
  from less.prems(1) show ?case
  proof (cases rule: runSet_cases)
    case (Retry e1 r)
    with armRetry_effect(2) [OF Retry(1)] less.prems(2) show ?thesis by simp
  next
    case (Accept model recs result w e1)
    have "en_outbox e1 = en_outbox e'" using Accept(5) armRetry_effect(2) by fastforce
    with less.prems(2) acceptResult_outbox [OF Accept(4)] redact_records_sound [OF Accept(2)] Accept(1,3)
    have "valid_answer env (model_input env (rederive env (present e0 item0) item0) recs) result"
      by (auto simp: valid_answer_def model_input_def)
    then show ?thesis by blast
  next
    case (Half half e1 now)
    with less halved_shorter [OF Half(2)] show ?thesis by metis
  qed (use less.prems(2) in simp_all)
qed



end
