(* ===== verification/PackRegistry.thy ===== *)
theory PackRegistry
  imports Evidence
begin

text \<open>
  The registry of packs that wait for injection (retrieval/coordinator.ts) and the injector
  (inject/injector.ts): registration, matched consumption with its barrier of seen message
  counts, the settling of a run, and the two events on which a message is injected. A message
  of the host is its role and its content as a JSON value.
\<close>

section \<open>Messages\<close>

record AgentMessage =
  am_role :: string
  am_content :: "json option"

definition block_text :: "json \<Rightarrow> string" where
  "block_text b = (case b of JObj ms \<Rightarrow> (case map_of ms ''text'' of Some (JStr t) \<Rightarrow> t | _ \<Rightarrow> []) | _ \<Rightarrow> [])"

definition extractUserText :: "AgentMessage \<Rightarrow> string" where
  "extractUserText m =
     (case am_content m of Some (JStr s) \<Rightarrow> s | Some (JArr bs) \<Rightarrow> concat (map block_text bs) | _ \<Rightarrow> [])"

definition is_user :: "AgentMessage \<Rightarrow> bool" where
  "is_user m = (am_role m = ''user'')"

definition countUserMessages :: "AgentMessage list \<Rightarrow> nat" where
  "countUserMessages ms = length (filter is_user ms)"

definition lastUserMessage :: "AgentMessage list \<Rightarrow> AgentMessage option" where
  "lastUserMessage ms = find is_user (rev ms)"

section \<open>The registry\<close>

datatype pack_origin = Fresh | Queued

record PendingPack =
  pp_pack :: EvidencePack
  pp_origin :: pack_origin

record PendingPackRegistry =
  rg_pending :: "PendingPack list"
  rg_consumed :: "string list"
  rg_seen :: "(string \<times> nat list) list"

definition new_registry :: PendingPackRegistry where
  "new_registry = \<lparr>rg_pending = [], rg_consumed = [], rg_seen = []\<rparr>"

definition MAX_KEYS :: nat where "MAX_KEYS = 512"
definition MAX_COUNTS_PER_KEY :: nat where "MAX_COUNTS_PER_KEY = 64"

definition pending_id :: "PendingPack \<Rightarrow> string" where
  "pending_id p = pk_inputId (pp_pack p)"

definition recordCount :: "string \<Rightarrow> nat \<Rightarrow> (string \<times> nat list) list \<Rightarrow> (string \<times> nat list) list" where
  "recordCount k n seen =
     (let seen1 = (if length seen \<ge> MAX_KEYS \<and> map_of seen k = None then tl seen else seen);
          counts = default_to [] (map_of seen1 k);
          counts1 = (if length counts \<ge> MAX_COUNTS_PER_KEY then tl counts else counts)
      in AList.update k (if n \<in> set counts1 then counts1 else counts1 @ [n]) seen1)"

definition add_pack :: "EvidencePack \<Rightarrow> pack_origin \<Rightarrow> PendingPackRegistry \<Rightarrow> bool \<times> PendingPackRegistry" where
  "add_pack pk org r =
     (if pk_inputId pk \<in> set (rg_consumed r) \<or> pk_inputId pk \<in> set (map pending_id (rg_pending r)) then (False, r)
      else (True, r\<lparr>rg_pending := rg_pending r @ [\<lparr>pp_pack = pk, pp_origin = org\<rparr>]\<rparr>))"

text \<open>The first pending pack that a test accepts, and the list without it.\<close>

fun take_first :: "('a \<Rightarrow> bool) \<Rightarrow> 'a list \<Rightarrow> ('a \<times> 'a list) option" where
  "take_first P [] = None"
| "take_first P (x # xs) = (if P x then Some (x, xs) else map_option (\<lambda>(y, ys). (y, x # ys)) (take_first P xs))"

definition consume :: "(PendingPack \<Rightarrow> bool) \<Rightarrow> PendingPackRegistry \<Rightarrow> EvidencePack option \<times> PendingPackRegistry" where
  "consume P r =
     (case take_first P (rg_pending r) of
        None \<Rightarrow> (None, r)
      | Some (p, rest) \<Rightarrow> (Some (pp_pack p), r\<lparr>rg_pending := rest, rg_consumed := pending_id p # rg_consumed r\<rparr>))"

datatype ConsumeResult = Matched EvidencePack | NoUserMessage | NoPendingMatch | SameOccurrence

definition consumeMatching :: "(string \<Rightarrow> string) \<Rightarrow> AgentMessage list \<Rightarrow> PendingPackRegistry \<Rightarrow> ConsumeResult \<times> PendingPackRegistry" where
  "consumeMatching sha256 ms r =
     (case lastUserMessage ms of
        None \<Rightarrow> (NoUserMessage, r)
      | Some m \<Rightarrow>
          (let k = matchKeyOf sha256 (extractUserText m); n = countUserMessages ms
           in if n \<in> set (default_to [] (map_of (rg_seen r) k)) then (SameOccurrence, r)
              else (case consume (\<lambda>p. matchKeyOf sha256 (pk_rawText (pp_pack p)) = k) (r\<lparr>rg_seen := recordCount k n (rg_seen r)\<rparr>) of
                      (None, r1) \<Rightarrow> (NoPendingMatch, r1)
                    | (Some pk, r1) \<Rightarrow> (Matched pk, r1))))"

definition consumeFresh :: "(string \<Rightarrow> string) \<Rightarrow> string \<Rightarrow> PendingPackRegistry \<Rightarrow> EvidencePack option \<times> PendingPackRegistry" where
  "consumeFresh sha256 prompt r =
     consume (\<lambda>p. pp_origin p = Fresh \<and> matchKeyOf sha256 (pk_rawText (pp_pack p)) = matchKeyOf sha256 prompt) r"

definition dropUnmatched :: "PendingPackRegistry \<Rightarrow> (string \<times> pack_origin) list \<times> PendingPackRegistry" where
  "dropUnmatched r =
     (map (\<lambda>p. (pending_id p, pp_origin p)) (rg_pending r),
      r\<lparr>rg_pending := [], rg_consumed := rev (map pending_id (rg_pending r)) @ rg_consumed r\<rparr>)"

definition clear_pending :: "PendingPackRegistry \<Rightarrow> PendingPackRegistry" where
  "clear_pending r = r\<lparr>rg_pending := []\<rparr>"

section \<open>The injector\<close>

definition onBeforeAgentStart :: "(string \<Rightarrow> string) \<Rightarrow> string \<Rightarrow> PendingPackRegistry \<Rightarrow> EvidenceCustomMessage option \<times> PendingPackRegistry" where
  "onBeforeAgentStart sha256 prompt r =
     (case consumeFresh sha256 prompt r of
        (Some pk, r1) \<Rightarrow> (if injectable pk then Some (buildEvidenceMessage pk) else None, r1)
      | (None, r1) \<Rightarrow> (None, r1))"

text \<open>The message list with the evidence at its end; the model gives the message that is appended.\<close>

definition onContext :: "(string \<Rightarrow> string) \<Rightarrow> AgentMessage list \<Rightarrow> PendingPackRegistry \<Rightarrow> EvidenceCustomMessage option \<times> PendingPackRegistry" where
  "onContext sha256 ms r =
     (case consumeMatching sha256 ms r of
        (Matched pk, r1) \<Rightarrow> (if injectable pk then Some (buildEvidenceMessage pk) else None, r1)
      | (_, r1) \<Rightarrow> (None, r1))"

section \<open>The events of a session\<close>

datatype registry_event =
    Registers EvidencePack pack_origin | Starts string | Context "AgentMessage list" | Settles | Clears

text \<open>What one event gives out: the pack it consumes.\<close>

fun registry_step :: "(string \<Rightarrow> string) \<Rightarrow> registry_event \<Rightarrow> PendingPackRegistry \<Rightarrow> EvidencePack list \<times> PendingPackRegistry" where
  "registry_step h (Registers pk org) r = ([], snd (add_pack pk org r))"
| "registry_step h (Starts prompt) r = (case consumeFresh h prompt r of (pk, r1) \<Rightarrow> (case pk of None \<Rightarrow> [] | Some x \<Rightarrow> [x], r1))"
| "registry_step h (Context ms) r = (case consumeMatching h ms r of (res, r1) \<Rightarrow> (case res of Matched x \<Rightarrow> [x] | _ \<Rightarrow> [], r1))"
| "registry_step h Settles r = ([], snd (dropUnmatched r))"
| "registry_step h Clears r = ([], clear_pending r)"

fun registry_run :: "(string \<Rightarrow> string) \<Rightarrow> registry_event list \<Rightarrow> PendingPackRegistry \<Rightarrow> EvidencePack list \<times> PendingPackRegistry" where
  "registry_run h [] r = ([], r)"
| "registry_run h (e # es) r =
     (case registry_step h e r of (out, r1) \<Rightarrow> (case registry_run h es r1 of (out', r2) \<Rightarrow> (out @ out', r2)))"

section \<open>The invariant\<close>

definition registry_inv :: "PendingPackRegistry \<Rightarrow> bool" where
  "registry_inv r \<longleftrightarrow>
     distinct (map pending_id (rg_pending r)) \<and> set (map pending_id (rg_pending r)) \<inter> set (rg_consumed r) = {}
     \<and> distinct (map fst (rg_seen r)) \<and> length (rg_seen r) \<le> MAX_KEYS
     \<and> (\<forall>(k, ns) \<in> set (rg_seen r). distinct ns \<and> length ns \<le> MAX_COUNTS_PER_KEY)"

lemma take_first_split: "take_first P xs = Some (y, ys) \<Longrightarrow> \<exists>us vs. xs = us @ y # vs \<and> ys = us @ vs \<and> P y \<and> list_all (\<lambda>x. \<not> P x) us"
proof (induction xs arbitrary: ys)
  case (Cons x xs)
  show ?case
  proof (cases "P x")
    case True
    with Cons.prems show ?thesis by (intro exI [of _ "[]"] exI [of _ xs]) auto
  next
    case False
    with Cons.prems obtain zs where z: "take_first P xs = Some (y, zs)" "ys = x # zs" by auto
    from Cons.IH [OF z(1)] obtain us vs where "xs = us @ y # vs" "zs = us @ vs" "P y" "list_all (\<lambda>x. \<not> P x) us" by blast
    with z(2) False show ?thesis by (intro exI [of _ "x # us"] exI [of _ vs]) simp
  qed
qed simp

lemma take_out:
  "distinct (as @ x # bs) \<Longrightarrow> set (as @ x # bs) \<inter> C = {} \<Longrightarrow> distinct (as @ bs) \<and> set (as @ bs) \<inter> insert x C = {} \<and> x \<notin> C"
  by auto

lemma consume_inv:
  assumes "consume P r = (res, r')" "registry_inv r"
  shows "registry_inv r' \<and> (\<forall>pk. res = Some pk \<longrightarrow> pk_inputId pk \<notin> set (rg_consumed r) \<and> pk_inputId pk \<in> set (rg_consumed r'))
    \<and> set (rg_consumed r) \<subseteq> set (rg_consumed r')"
proof (cases "take_first P (rg_pending r)")
  case None
  with assms show ?thesis by (auto simp: consume_def)
next
  case (Some pr)
  obtain p rest where pr: "pr = (p, rest)" by fastforce
  from take_first_split [OF Some [unfolded pr]] obtain us vs where l: "rg_pending r = us @ p # vs" "rest = us @ vs" by blast
  have out: "res = Some (pp_pack p)" "r' = r\<lparr>rg_pending := us @ vs, rg_consumed := pending_id p # rg_consumed r\<rparr>"
    using assms(1) Some pr l(2) by (simp_all add: consume_def)
  have "distinct (map pending_id us @ map pending_id vs) \<and> set (map pending_id us @ map pending_id vs) \<inter> insert (pending_id p) (set (rg_consumed r)) = {}
      \<and> pending_id p \<notin> set (rg_consumed r)"
    by (rule take_out) (use assms(2) l(1) in \<open>simp_all add: registry_inv_def\<close>)
  then show ?thesis
    using assms(2) unfolding out registry_inv_def by (simp add: pending_id_def subset_insertI)
qed

lemma set_update_le: "set (AList.update k v al) \<subseteq> insert (k, v) (set al)"
  by (induction al) auto

lemma length_update: "length (AList.update k v al) = (if k \<in> fst ` set al then length al else Suc (length al))"
  by (induction al) auto

lemma recordCount_inv:
  assumes "distinct (map fst seen)" "length seen \<le> MAX_KEYS" "\<forall>(k, ns) \<in> set seen. distinct ns \<and> length ns \<le> MAX_COUNTS_PER_KEY"
  shows "distinct (map fst (recordCount k n seen)) \<and> length (recordCount k n seen) \<le> MAX_KEYS
    \<and> (\<forall>(k, ns) \<in> set (recordCount k n seen). distinct ns \<and> length ns \<le> MAX_COUNTS_PER_KEY)"
proof -
  define s1 where "s1 = (if length seen \<ge> MAX_KEYS \<and> map_of seen k = None then tl seen else seen)"
  define cs where "cs = default_to [] (map_of s1 k)"
  define cs1 where "cs1 = (if length cs \<ge> MAX_COUNTS_PER_KEY then tl cs else cs)"
  let ?ns = "if n \<in> set cs1 then cs1 else cs1 @ [n]"
  have sub: "set s1 \<subseteq> set seen" by (cases seen) (auto simp: s1_def)
  have d: "distinct (map fst s1)" using assms(1) by (cases seen) (auto simp: s1_def)
  have all: "\<forall>(k, ns) \<in> set s1. distinct ns \<and> length ns \<le> MAX_COUNTS_PER_KEY" using assms(3) sub by blast
  have room: "k \<notin> fst ` set s1 \<Longrightarrow> length s1 < MAX_KEYS" "length s1 \<le> MAX_KEYS"
    using assms(2) by (auto simp: s1_def MAX_KEYS_def map_of_eq_None_iff split: if_splits)
  have "distinct cs \<and> length cs \<le> MAX_COUNTS_PER_KEY"
    using all by (cases "map_of s1 k") (auto simp: cs_def dest: map_of_SomeD)
  then have "distinct ?ns \<and> length ?ns \<le> MAX_COUNTS_PER_KEY"
    by (auto simp: cs1_def MAX_COUNTS_PER_KEY_def distinct_tl)
  moreover have "recordCount k n seen = AList.update k ?ns s1"
    unfolding recordCount_def Let_def s1_def [symmetric] cs_def [symmetric] cs1_def [symmetric] ..
  ultimately show ?thesis
    using d all room set_update_le [of k ?ns s1] by (auto simp: distinct_update length_update)
qed

lemma recordCount_new: "n \<in> set (default_to [] (map_of (recordCount k n seen) k))"
  by (simp add: recordCount_def Let_def update_conv')

lemma seen_inv: "registry_inv r \<Longrightarrow> registry_inv (r\<lparr>rg_seen := recordCount k n (rg_seen r)\<rparr>)"
  using recordCount_inv [of "rg_seen r" k n] by (simp add: registry_inv_def)

lemma consumeMatching_cases:
  assumes "consumeMatching h ms r = (res, r')"
  obtains (quiet) "r' = r" "\<forall>pk. res \<noteq> Matched pk"
  | (attempt) P k n got where "consume P (r\<lparr>rg_seen := recordCount k n (rg_seen r)\<rparr>) = (got, r')"
      "res = (case got of None \<Rightarrow> NoPendingMatch | Some pk \<Rightarrow> Matched pk)"
  using assms by (auto simp: consumeMatching_def Let_def split: option.splits if_splits prod.splits)

lemma registry_step_inv:
  assumes "registry_step h e r = (out, r')" "registry_inv r"
  shows "registry_inv r' \<and> distinct (map pk_inputId out) \<and> (\<forall>pk \<in> set out. pk_inputId pk \<notin> set (rg_consumed r) \<and> pk_inputId pk \<in> set (rg_consumed r'))
    \<and> set (rg_consumed r) \<subseteq> set (rg_consumed r')"
proof (cases e)
  case (Registers pk org)
  with assms have "r' = snd (add_pack pk org r)" "out = []" by simp_all
  then show ?thesis
    using assms(2) by (cases "fst (add_pack pk org r)") (auto simp: add_pack_def registry_inv_def pending_id_def split: if_splits)
next
  case (Starts prompt)
  obtain got r1 where g: "consumeFresh h prompt r = (got, r1)" by fastforce
  with consume_inv [OF g [unfolded consumeFresh_def] assms(2)] assms(1) Starts show ?thesis by (auto split: option.splits)
next
  case (Context ms)
  obtain res r1 where g: "consumeMatching h ms r = (res, r1)" by fastforce
  then show ?thesis
  proof (cases rule: consumeMatching_cases)
    case quiet
    with assms Context g show ?thesis by (auto split: ConsumeResult.splits)
  next
    case (attempt P k n got)
    from consume_inv [OF attempt(1) seen_inv [OF assms(2)]] attempt(2) assms(1) Context g
    show ?thesis by (auto split: option.splits)
  qed
next
  case Settles
  with assms show ?thesis by (auto simp: dropUnmatched_def registry_inv_def)
next
  case Clears
  with assms show ?thesis by (auto simp: clear_pending_def registry_inv_def)
qed

lemma registry_run_inv:
  "registry_run h es r = (out, r') \<Longrightarrow> registry_inv r \<Longrightarrow>
   registry_inv r' \<and> distinct (map pk_inputId out) \<and> (\<forall>pk \<in> set out. pk_inputId pk \<notin> set (rg_consumed r) \<and> pk_inputId pk \<in> set (rg_consumed r'))
   \<and> set (rg_consumed r) \<subseteq> set (rg_consumed r')"
proof (induction es arbitrary: r out)
  case (Cons e es)
  obtain o1 r1 where s: "registry_step h e r = (o1, r1)" by fastforce
  obtain o2 where t: "registry_run h es r1 = (o2, r')" "out = o1 @ o2" using Cons.prems(1) s by (auto split: prod.splits)
  note a = registry_step_inv [OF s Cons.prems(2)]
  note b = Cons.IH [OF t(1)]
  have "set (map pk_inputId o1) \<inter> set (map pk_inputId o2) = {}" using a b by fastforce
  with a b t(2) show ?case by auto
qed simp

lemma new_registry_inv: "registry_inv new_registry"
  by (simp add: registry_inv_def new_registry_def)

section \<open>Once only\<close>

text \<open>
  C34. Whatever the order of inputs, run starts, provider calls, settlements and resets, no pack is
  given out twice, a pack that was given out is never pending again, and the bookkeeping stays
  within its bounds.
\<close>

theorem pack_is_injected_once:
  assumes "registry_run h es new_registry = (out, r)"
  shows "distinct (map pk_inputId out) \<and> set (map pk_inputId out) \<inter> set (map pending_id (rg_pending r)) = {} \<and> registry_inv r"
  using registry_run_inv [OF assms new_registry_inv] by (auto simp: registry_inv_def)

text \<open>A provider call that is repeated with the same messages injects nothing.\<close>

theorem replay_injects_nothing:
  assumes "consumeMatching h ms r = (res, r')"
  shows "\<not> (\<exists>pk. fst (consumeMatching h ms r') = Matched pk)"
proof (cases "lastUserMessage ms")
  case None
  then show ?thesis by (simp add: consumeMatching_def)
next
  case (Some m)
  let ?k = "matchKeyOf h (extractUserText m)"
  have "countUserMessages ms \<in> set (default_to [] (map_of (rg_seen r') ?k))"
    using assms Some recordCount_new [of "countUserMessages ms" ?k "rg_seen r"]
    by (auto simp: consumeMatching_def Let_def consume_def split: if_splits option.splits prod.splits)
  with Some show ?thesis by (simp add: consumeMatching_def Let_def)
qed

section \<open>Examples\<close>

definition example_pack :: "string \<Rightarrow> EvidencePack" where
  "example_pack i = \<lparr>pk_inputId = i, pk_rawText = ''hi'', pk_behavior = None, pk_generation = 1, pk_items = [], pk_degraded = [],
     pk_allowed = False, pk_tokenCount = None, pk_createdAt = ''t''\<rparr>"

definition user_says :: "string \<Rightarrow> AgentMessage" where
  "user_says s = \<lparr>am_role = ''user'', am_content = Some (JStr s)\<rparr>"

theorem pack_is_injected_once_witness:
  "map pk_inputId (fst (registry_run id [Registers (example_pack ''a'') Fresh, Starts ''hi'', Registers (example_pack ''a'') Fresh,
       Registers (example_pack ''b'') Queued, Context [user_says ''hi''], Context [user_says ''hi'']] new_registry)) = [''a'', ''b'']
   \<and> distinct [''a'', ''b'']"
proof -
  let ?es = "[Registers (example_pack ''a'') Fresh, Starts ''hi'', Registers (example_pack ''a'') Fresh,
       Registers (example_pack ''b'') Queued, Context [user_says ''hi''], Context [user_says ''hi'']]"
  obtain out r where run: "registry_run id ?es new_registry = (out, r)" by fastforce
  have "map pk_inputId (fst (registry_run id ?es new_registry)) = [''a'', ''b'']" by code_simp
  with pack_is_injected_once [OF run] run show ?thesis by simp
qed

theorem replay_injects_nothing_witness:
  "fst (consumeMatching id [user_says ''hi''] (snd (add_pack (example_pack ''a'') Queued new_registry))) = Matched (example_pack ''a'')
   \<and> \<not> (\<exists>pk. fst (consumeMatching id [user_says ''hi''] (snd (consumeMatching id [user_says ''hi''] (snd (add_pack (example_pack ''a'') Queued new_registry))))) = Matched pk)"
proof -
  let ?r = "snd (add_pack (example_pack ''a'') Queued new_registry)"
  obtain res r' where c: "consumeMatching id [user_says ''hi''] ?r = (res, r')" by fastforce
  have "fst (consumeMatching id [user_says ''hi''] ?r) = Matched (example_pack ''a'')" by code_simp
  with replay_injects_nothing [OF c] c show ?thesis by simp
qed

text \<open>
  A queued pack is taken by the provider call of the run that was already going: the input \<open>hi\<close>
  starts a run and its own pack is injected; the same text is queued, and the first provider
  call of the first run, whose only user message is the first input, consumes the queued pack.
\<close>

theorem queued_pack_taken_by_baseline_call:
  "map pk_inputId (fst (registry_run id [Registers (example_pack ''fresh'') Fresh, Starts ''hi'', Registers (example_pack ''queued'') Queued,
       Context [user_says ''hi'']] new_registry)) = [''fresh'', ''queued'']"
  by code_simp

section \<open>Only what was registered\<close>

fun registered :: "registry_event list \<Rightarrow> EvidencePack set" where
  "registered [] = {}"
| "registered (Registers pk org # es) = insert pk (registered es)"
| "registered (_ # es) = registered es"

lemma consume_pool:
  "consume P r = (res, r') \<Longrightarrow> set_option res \<union> pp_pack ` set (rg_pending r') \<subseteq> pp_pack ` set (rg_pending r)"
  by (auto simp: consume_def split: option.splits prod.splits dest!: take_first_split)

lemma registry_step_pool:
  "registry_step h e r = (out, r') \<Longrightarrow> set out \<union> pp_pack ` set (rg_pending r') \<subseteq> pp_pack ` set (rg_pending r) \<union> registered [e]"
proof (cases e)
  case (Context ms)
  moreover assume "registry_step h e r = (out, r')"
  moreover obtain res r1 where g: "consumeMatching h ms r = (res, r1)" by fastforce
  ultimately show ?thesis
    by (cases rule: consumeMatching_cases [OF g]) (auto split: ConsumeResult.splits option.splits dest!: consume_pool)
next
  case (Starts prompt)
  moreover assume "registry_step h e r = (out, r')"
  ultimately show ?thesis by (auto simp: consumeFresh_def split: option.splits prod.splits dest!: consume_pool)
qed (auto simp: add_pack_def dropUnmatched_def clear_pending_def split: if_splits)

lemma registered_Cons: "registered (e # es) = registered [e] \<union> registered es"
  by (cases e) auto

lemma registry_run_pool:
  "registry_run h es r = (out, r') \<Longrightarrow> set out \<union> pp_pack ` set (rg_pending r') \<subseteq> pp_pack ` set (rg_pending r) \<union> registered es"
proof (induction es arbitrary: r out)
  case (Cons e es)
  obtain o1 r1 where s: "registry_step h e r = (o1, r1)" by fastforce
  obtain o2 where t: "registry_run h es r1 = (o2, r')" "out = o1 @ o2" using Cons.prems s by (auto split: prod.splits)
  from registry_step_pool [OF s] Cons.IH [OF t(1)] show ?case unfolding registered_Cons [of e es] t(2) set_append by blast
qed simp

end
