(* ===== verification/Retrieval.thy ===== *)
theory Retrieval
  imports PackRegistry
begin

text \<open>
  One retrieval cycle (retrieval/coordinator.ts): eligibility, the holds, the redaction of the
  query, the search legs and the brief under one deadline, the guard on every hit, the packing
  and the registration. The outside world is a state; the four backend searches are functions
  of it (their texts are parsed by code that is not modelled here), every read-back of the guard
  goes through the modelled adapter over any transport, and the clock, the abort signal and the
  private-mode probe are read from it. Audit events and the status note are left out.
\<close>

section \<open>State\<close>

definition MAX_SCOPE_QUERIES :: nat where "MAX_SCOPE_QUERIES = 4"

record 's retrieval_env =
  rv_sha :: "string \<Rightarrow> string"
  rv_transport :: "'s transport"
  rv_scopes :: "string list"
  rv_deadline :: ms
  rv_cap :: int
  rv_redact :: "string \<Rightarrow> string + string"
  rv_private :: "'s \<Rightarrow> bool"
  rv_now :: "'s \<Rightarrow> ms"
  rv_aborted :: "'s \<Rightarrow> bool"
  rv_iso :: "ms \<Rightarrow> string"
  rv_fts :: "string \<Rightarrow> string \<Rightarrow> 's \<Rightarrow> (exn + (string \<times> rat) list) \<times> 's"
  rv_semantic :: "string \<Rightarrow> string \<Rightarrow> 's \<Rightarrow> (exn + (string \<times> rat) list) \<times> 's"
  rv_hybrid :: "string \<Rightarrow> 's \<Rightarrow> (exn + bool \<times> (string \<times> rat \<times> hybrid_attribution) list) \<times> 's"
  rv_brief :: "string \<Rightarrow> string \<Rightarrow> 's \<Rightarrow> (exn + string list) \<times> 's"

record RetrievalCoordinator =
  rc_registry :: PendingPackRegistry
  rc_occurrences :: "(string \<times> nat) list"
  rc_tokenizer :: "tokenizer option"
  rc_generation :: int

definition new_coordinator :: "tokenizer option \<Rightarrow> int \<Rightarrow> RetrievalCoordinator" where
  "new_coordinator tok gen = \<lparr>rc_registry = new_registry, rc_occurrences = [], rc_tokenizer = tok, rc_generation = gen\<rparr>"

definition setGeneration :: "int \<Rightarrow> RetrievalCoordinator \<Rightarrow> RetrievalCoordinator" where
  "setGeneration gen c = c\<lparr>rc_generation := gen\<rparr>"

definition setTokenizer :: "tokenizer \<Rightarrow> RetrievalCoordinator \<Rightarrow> RetrievalCoordinator" where
  "setTokenizer tok c = (if rc_tokenizer c = None then c\<lparr>rc_tokenizer := Some tok\<rparr> else c)"

datatype ineligible_reason = SlashCommand | ExtensionSource | EmptyText

datatype degraded_reason = PrivateHold | NoScopes | Unclassified | DeadlineExceeded

datatype RetrievalOutcome = Pack EvidencePack | Ineligible ineligible_reason | Degraded degraded_reason

definition eligible :: "string \<Rightarrow> string \<Rightarrow> bool" where
  "eligible raw source = (source \<noteq> ''extension'' \<and> take 1 raw \<noteq> [slash] \<and> trim raw \<noteq> [])"

definition ineligible_why :: "string \<Rightarrow> string \<Rightarrow> ineligible_reason" where
  "ineligible_why raw source =
     (if take 1 raw = [slash] then SlashCommand else if source = ''extension'' then ExtensionSource else EmptyText)"

section \<open>Gathering\<close>

record gathered =
  ga_items :: "EvidenceItem list"
  ga_notes :: "degradation list"

definition add_note :: "degradation \<Rightarrow> gathered \<Rightarrow> gathered" where
  "add_note d g = g\<lparr>ga_notes := ga_notes g @ [d]\<rparr>"

text \<open>The items by path in insertion order; the better score stays, where the first one was.\<close>

fun upsert :: "EvidenceItem \<Rightarrow> EvidenceItem list \<Rightarrow> EvidenceItem list" where
  "upsert x [] = [x]"
| "upsert x (y # ys) =
     (if ev_path y = ev_path x then (if ev_score x > ev_score y then x # ys else y # ys) else y # upsert x ys)"

definition add_item :: "EvidenceItem \<Rightarrow> gathered \<Rightarrow> gathered" where
  "add_item x g = g\<lparr>ga_items := upsert x (ga_items g)\<rparr>"

fun error_name :: "exn \<Rightarrow> string" where
  "error_name (Backend c) = class_name c"
| "error_name PrivateModeActive = ''PrivateModeActiveError''"
| "error_name (OtherError n _) = n"
| "error_name NotAnError = []"

definition safe_note :: "guarded_call \<Rightarrow> exn \<Rightarrow> degradation" where
  "safe_note w e = (if error_name e = ''AbortError'' then CallAborted else CallFailed w (error_name e))"

definition guard_deps :: "'s retrieval_env \<Rightarrow> GuardDeps" where
  "guard_deps env = \<lparr>authorizedScopes = rv_scopes env, redact = rv_redact env\<rparr>"

type_synonym hit = "string \<times> rat \<times> hybrid_attribution option"

fun collectHits :: "'s retrieval_env \<Rightarrow> evidence_leg \<Rightarrow> hit list \<Rightarrow> gathered \<Rightarrow> 's \<Rightarrow> gathered \<times> 's" where
  "collectHits env leg [] g s = (g, s)"
| "collectHits env leg ((path, score, attr) # hits) g s =
     (if rv_aborted env s then (add_note GuardSkipped g, s)
      else (case guardCandidate (rv_transport env) (rv_aborted env s) (guard_deps env) path s of
              (Inl e, _, s1) \<Rightarrow> collectHits env leg hits (add_note (safe_note GuardCall (fst e)) g) s1
            | (Inr (GuardFail step), _, s1) \<Rightarrow> collectHits env leg hits (add_note (Rejected step leg) g) s1
            | (Inr (GuardOk gd), _, s1) \<Rightarrow>
                collectHits env leg hits
                  (add_item \<lparr>ev_path = gd_path gd, ev_scope = gd_scope gd, ev_body = gd_body gd, ev_score = score, ev_leg = leg,
                     ev_attribution = attr\<rparr> g) s1))"

definition expired :: "'s retrieval_env \<Rightarrow> ms \<Rightarrow> 's \<Rightarrow> bool" where
  "expired env started s = (rv_aborted env s \<or> rv_now env s - started \<ge> rv_deadline env)"

definition plain_hits :: "(string \<times> rat) list \<Rightarrow> hit list" where
  "plain_hits hs = map (\<lambda>(p, sc). (p, sc, None)) hs"

text \<open>The two legs of one scope; \<open>True\<close> when the deadline ends the loop.\<close>

definition scope_legs :: "'s retrieval_env \<Rightarrow> ms \<Rightarrow> string \<Rightarrow> string \<Rightarrow> gathered \<Rightarrow> 's \<Rightarrow> bool \<times> gathered \<times> 's" where
  "scope_legs env started query scp g s =
     (if expired env started s then (True, add_note DeadlineSkip g, s)
      else
        (let (fts, s1) = rv_fts env query scp s;
             (g1, s2) = (case fts of Inl e \<Rightarrow> (add_note (safe_note (LegCall Fts) e) g, s1) | Inr hs \<Rightarrow> collectHits env Fts (plain_hits hs) g s1)
         in if expired env started s2 then (True, add_note DeadlineSkip g1, s2)
            else
              (let (sem, s3) = rv_semantic env query scp s2
               in case sem of
                    Inl e \<Rightarrow> (False, add_note (safe_note (LegCall Semantic) e) g1, s3)
                  | Inr hs \<Rightarrow>
                      (let (g2, s4) = collectHits env Semantic (plain_hits hs) g1 s3;
                           n = (case fts of Inl _ \<Rightarrow> 0 | Inr fh \<Rightarrow> length fh)
                       in (False, if length hs < n then add_note (UnderRecall (length hs) n) g2 else g2, s4)))))"

fun scope_loop :: "'s retrieval_env \<Rightarrow> ms \<Rightarrow> string \<Rightarrow> string list \<Rightarrow> gathered \<Rightarrow> 's \<Rightarrow> gathered \<times> 's" where
  "scope_loop env started query [] g s = (g, s)"
| "scope_loop env started query (scp # scps) g s =
     (case scope_legs env started query scp g s of
        (True, g1, s1) \<Rightarrow> (g1, s1)
      | (False, g1, s1) \<Rightarrow> scope_loop env started query scps g1 s1)"

definition hybrid_leg :: "'s retrieval_env \<Rightarrow> ms \<Rightarrow> string \<Rightarrow> gathered \<Rightarrow> 's \<Rightarrow> gathered \<times> 's" where
  "hybrid_leg env started query g s =
     (if expired env started s then (add_note DeadlineSkip g, s)
      else (case rv_hybrid env query s of
              (Inl e, s1) \<Rightarrow> (add_note (safe_note (LegCall Hybrid) e) g, s1)
            | (Inr (degraded, hs), s1) \<Rightarrow>
                collectHits env Hybrid (map (\<lambda>(p, rank, a). (p, (rank + 1) * -1, Some a)) hs)
                  (if degraded then add_note HybridDegraded g else g) s1))"

definition brief_item :: "string \<Rightarrow> string \<times> string \<Rightarrow> EvidenceItem" where
  "brief_item primary kept =
     \<lparr>ev_path = fst kept, ev_scope = primary, ev_body = snd kept, ev_score = 0, ev_leg = Brief, ev_attribution = None\<rparr>"

text \<open>The packing of the brief is not under \<open>safeCall\<close>: what it throws leaves the cycle.\<close>

definition brief_leg :: "'s retrieval_env \<Rightarrow> ms \<Rightarrow> string \<Rightarrow> string \<Rightarrow> gathered \<Rightarrow> 's \<Rightarrow> (exn + gathered) \<times> 's" where
  "brief_leg env started query primary g s =
     (if expired env started s then (Inr (add_note DeadlineSkip g), s)
      else (case rv_brief env query (primary @ ''/memory/'') s of
              (Inl e, s1) \<Rightarrow> (Inr (add_note (safe_note (LegCall Brief) e) g), s1)
            | (Inr sections, s1) \<Rightarrow>
                (case buildBriefEvidence (rv_transport env) (rv_aborted env s1) (guard_deps env) sections
                        (map ev_path (filter (\<lambda>i. ev_leg i = Fts) (ga_items g))) (rv_cap env * 4) s1 of
                   (Inl e, _, s2) \<Rightarrow> (Inl (fst e), s2)
                 | (Inr b, _, s2) \<Rightarrow>
                     (let g1 = foldl (\<lambda>g d. add_note (BriefDropped (snd d)) g) g (be_dropped b);
                          g2 = (if be_rebuilt b then add_note BriefRebuilt g1 else g1)
                      in (Inr (foldl (\<lambda>g k. add_item (brief_item primary k) g) g2 (be_kept b)), s2)))))"

section \<open>The pack\<close>

text \<open>The stable sort by descending score.\<close>

definition by_score :: "EvidenceItem list \<Rightarrow> EvidenceItem list" where
  "by_score xs = sort_key (\<lambda>i. - ev_score i) xs"

definition buildPack :: "'s retrieval_env \<Rightarrow> string \<Rightarrow> StreamBehavior option \<Rightarrow> gathered \<Rightarrow> 's \<Rightarrow> RetrievalCoordinator \<Rightarrow> EvidencePack \<times> RetrievalCoordinator" where
  "buildPack env raw b g s c =
     (let base = fingerprintInput (rv_sha env) raw b;
          n = Suc (default_to 0 (map_of (rc_occurrences c) base));
          pk = pack_base (occurrenceInputId (rv_sha env) base n) raw b (rc_generation c) (ga_notes g) (rv_iso env (rv_now env s)) (ga_items g)
      in (fill_pack (rc_tokenizer c) (of_int (rv_cap env)) pk, c\<lparr>rc_occurrences := AList.update base n (rc_occurrences c)\<rparr>))"

definition finish_cycle :: "'s retrieval_env \<Rightarrow> string \<Rightarrow> StreamBehavior option \<Rightarrow> gathered \<Rightarrow> 's \<Rightarrow> RetrievalCoordinator \<Rightarrow> EvidencePack \<times> RetrievalCoordinator" where
  "finish_cycle env raw b g s c =
     (let items = by_score (ga_items g);
          (pk, c1) = buildPack env raw b (if items = [] then add_note NoEvidence (g\<lparr>ga_items := items\<rparr>) else g\<lparr>ga_items := items\<rparr>) s c;
          (ok, reg) = add_pack pk (if b = None then Fresh else Queued) (rc_registry c1)
      in (if ok then pk else pk\<lparr>pk_degraded := pk_degraded pk @ [RegistrationRejected]\<rparr>, c1\<lparr>rc_registry := reg\<rparr>))"

definition retrieve ::
  "'s retrieval_env \<Rightarrow> string \<Rightarrow> StreamBehavior option \<Rightarrow> string \<Rightarrow> RetrievalCoordinator \<Rightarrow> 's \<Rightarrow> (exn + RetrievalOutcome) \<times> RetrievalCoordinator \<times> 's" where
  "retrieve env raw b source c s =
     (if \<not> eligible raw source then (Inr (Ineligible (ineligible_why raw source)), c, s)
      else if rv_private env s then (Inr (Degraded PrivateHold), c, s)
      else if rv_scopes env = [] then (Inr (Degraded NoScopes), c, s)
      else (case rv_redact env raw of
              Inl _ \<Rightarrow> (Inr (Degraded Unclassified), c, s)
            | Inr query \<Rightarrow>
                (let started = rv_now env s;
                     scps = take MAX_SCOPE_QUERIES (rv_scopes env);
                     notes = (if length (rv_scopes env) > MAX_SCOPE_QUERIES then [ScopesSkipped (length (rv_scopes env) - MAX_SCOPE_QUERIES)] else []);
                     (g1, s1) = scope_loop env started query scps \<lparr>ga_items = [], ga_notes = notes\<rparr> s;
                     (g2, s2) = hybrid_leg env started query g1 s1
                 in case brief_leg env started query (hd scps) g2 s2 of
                      (Inl e, s3) \<Rightarrow> (Inl e, c, s3)
                    | (Inr g3, s3) \<Rightarrow>
                        if rv_aborted env s3 then (Inr (Degraded DeadlineExceeded), c, s3)
                        else (let (pk, c1) = finish_cycle env raw b g3 s3 c in (Inr (Pack pk), c1, s3)))))"

section \<open>What is gathered\<close>

text \<open>An item is the redacted body of a record that was just read and that the guard let through.\<close>

definition item_vetted :: "'s retrieval_env \<Rightarrow> EvidenceItem \<Rightarrow> bool" where
  "item_vetted env i \<longleftrightarrow>
     (\<exists>ab s tr s' rd g. adapter_read (rv_transport env) ab (ev_path i) None s = (Inr rd, tr, s')
        \<and> guard_ok (guard_deps env) (ev_path i) rd g \<and> ev_body i = gd_body g \<and> (ev_leg i = Brief \<or> ev_scope i = gd_scope g))"

definition all_vetted :: "'s retrieval_env \<Rightarrow> gathered \<Rightarrow> bool" where
  "all_vetted env g \<longleftrightarrow> (\<forall>i \<in> set (ga_items g). item_vetted env i)"

lemma set_upsert: "set (upsert x ys) \<subseteq> insert x (set ys)"
  by (induction ys) auto

lemma all_vetted_simps [simp]:
  "all_vetted env (add_note d g) = all_vetted env g" "all_vetted env \<lparr>ga_items = [], ga_notes = ns\<rparr>"
  by (simp_all add: all_vetted_def add_note_def)

lemma all_vetted_add: "all_vetted env g \<Longrightarrow> item_vetted env x \<Longrightarrow> all_vetted env (add_item x g)"
  using set_upsert [of x "ga_items g"] by (auto simp: all_vetted_def add_item_def)

lemma item_vettedI:
  "adapter_read (rv_transport env) ab (ev_path i) None s = (Inr rd, tr, s') \<Longrightarrow> guard_ok (guard_deps env) (ev_path i) rd g
    \<Longrightarrow> ev_body i = gd_body g \<Longrightarrow> ev_leg i = Brief \<or> ev_scope i = gd_scope g \<Longrightarrow> item_vetted env i"
  unfolding item_vetted_def by blast

lemma guarded_item:
  assumes "guardCandidate (rv_transport env) ab (guard_deps env) path s = (Inr (GuardOk gd), tr, s')"
  shows "item_vetted env \<lparr>ev_path = gd_path gd, ev_scope = gd_scope gd, ev_body = gd_body gd, ev_score = score, ev_leg = leg, ev_attribution = attr\<rparr>"
proof -
  from guardCandidate_ok [OF assms] obtain rd
    where "adapter_read (rv_transport env) ab path None s = (Inr rd, tr, s')" "guard_ok (guard_deps env) path rd gd" by blast
  moreover from this(2) have "gd_path gd = path" by (simp add: guard_ok_def)
  ultimately show ?thesis by (intro item_vettedI [where g = gd]) simp_all
qed

lemma collectHits_vetted: "collectHits env leg hits g s = (g', s') \<Longrightarrow> all_vetted env g \<Longrightarrow> all_vetted env g'"
proof (induction hits arbitrary: g s)
  case (Cons h hits)
  obtain path score attr where h: "h = (path, score, attr)" by (metis prod_cases3)
  show ?case
  proof (cases "rv_aborted env s")
    case True
    with Cons.prems h show ?thesis by auto
  next
    case False
    obtain r tr s1 where gc: "guardCandidate (rv_transport env) (rv_aborted env s) (guard_deps env) path s = (r, tr, s1)"
      by (metis prod_cases3)
    consider (err) e where "r = Inl e" | (no) step where "r = Inr (GuardFail step)" | (ok) gd where "r = Inr (GuardOk gd)"
      by (metis GuardResult.exhaust sumE)
    then show ?thesis
    proof cases
      case ok
      note v = all_vetted_add [OF Cons.prems(2) guarded_item [OF gc [unfolded ok]]]
      show ?thesis using Cons.IH [OF _ v] Cons.prems(1) False gc ok by (simp add: h)
    qed (use Cons False gc in \<open>auto simp: h\<close>)
  qed
qed simp

lemma vetted_brief_item:
  assumes "vetted (rv_transport env) ab (guard_deps env) k"
  shows "item_vetted env (brief_item primary k)"
  using assms unfolding vetted_def by (elim exE conjE) (rule item_vettedI, simp_all add: brief_item_def)

lemma foldl_notes: "all_vetted env (foldl (\<lambda>g d. add_note (f d) g) g ds) = all_vetted env g"
  by (induction ds arbitrary: g) simp_all

lemma foldl_items: "all_vetted env g \<Longrightarrow> \<forall>k \<in> set ks. item_vetted env (f k) \<Longrightarrow> all_vetted env (foldl (\<lambda>g k. add_item (f k) g) g ks)"
  by (induction ks arbitrary: g) (simp_all add: all_vetted_add)

lemma scope_legs_vetted: "scope_legs env started q scp g s = (st, g', s') \<Longrightarrow> all_vetted env g \<Longrightarrow> all_vetted env g'"
  by (auto simp: scope_legs_def Let_def split: if_splits prod.splits sum.splits dest: collectHits_vetted)

lemma scope_loop_vetted: "scope_loop env started q scps g s = (g', s') \<Longrightarrow> all_vetted env g \<Longrightarrow> all_vetted env g'"
  by (induction scps arbitrary: g s) (auto split: prod.splits bool.splits dest: scope_legs_vetted)

lemma hybrid_leg_vetted: "hybrid_leg env started q g s = (g', s') \<Longrightarrow> all_vetted env g \<Longrightarrow> all_vetted env g'"
  by (auto simp: hybrid_leg_def split: if_splits prod.splits sum.splits dest: collectHits_vetted)

lemma brief_kept_vetted:
  assumes "buildBriefEvidence transport ab deps sections hits maxChars s = (Inr ev, tr, s')"
  shows "\<forall>k \<in> set (be_kept ev). vetted transport ab deps k"
proof -
  have e: "pack_inv transport ab deps maxChars \<lparr>bk_kept = [], bk_dropped = d, bk_chars = 0\<rparr>" for d by (simp add: pack_inv_def)
  show ?thesis
    using assms by (auto simp: buildBriefEvidence_def pack_inv_def split: prod.splits sum.splits if_splits
        dest!: pack_loop_facts [OF _ e])
qed

lemma brief_leg_vetted:
  assumes "brief_leg env started q primary g s = (Inr g', s')" "all_vetted env g"
  shows "all_vetted env g'"
proof (cases "expired env started s")
  case True
  with assms show ?thesis by (auto simp: brief_leg_def)
next
  case False
  obtain r s1 where b: "rv_brief env q (primary @ ''/memory/'') s = (r, s1)" by fastforce
  show ?thesis
  proof (cases r)
    case (Inl e)
    with assms False b show ?thesis by (auto simp: brief_leg_def)
  next
    case (Inr sections)
    let ?hits = "map ev_path (filter (\<lambda>i. ev_leg i = Fts) (ga_items g))"
    obtain x tr s2 where ev: "buildBriefEvidence (rv_transport env) (rv_aborted env s1) (guard_deps env) sections ?hits (rv_cap env * 4) s1 = (x, tr, s2)"
      by (metis prod_cases3)
    with assms(1) False b Inr obtain ev where x: "x = Inr ev" by (cases x) (auto simp: brief_leg_def)
    have "\<forall>k \<in> set (be_kept ev). item_vetted env (brief_item primary k)"
      using brief_kept_vetted [OF ev [unfolded x]] vetted_brief_item by blast
    with assms False b Inr ev x show ?thesis
      by (auto simp: brief_leg_def Let_def foldl_notes intro!: foldl_items)
  qed
qed

lemma retrieve_gathers:
  assumes "retrieve env raw b source c s = (Inr (Pack pk), c', s')"
  shows "\<exists>g. all_vetted env g \<and> finish_cycle env raw b g s' c = (pk, c')"
proof -
  have conds: "eligible raw source" "\<not> rv_private env s" "rv_scopes env \<noteq> []" using assms by (auto simp: retrieve_def split: if_splits)
  obtain query where q: "rv_redact env raw = Inr query" using assms conds by (auto simp: retrieve_def split: sum.splits)
  let ?g0 = "\<lparr>ga_items = [], ga_notes = (if length (rv_scopes env) > MAX_SCOPE_QUERIES then [ScopesSkipped (length (rv_scopes env) - MAX_SCOPE_QUERIES)] else [])\<rparr>"
  obtain g1 s1 where l: "scope_loop env (rv_now env s) query (take MAX_SCOPE_QUERIES (rv_scopes env)) ?g0 s = (g1, s1)" by fastforce
  obtain g2 s2 where h: "hybrid_leg env (rv_now env s) query g1 s1 = (g2, s2)" by fastforce
  obtain r s3 where br: "brief_leg env (rv_now env s) query (hd (take MAX_SCOPE_QUERIES (rv_scopes env))) g2 s2 = (r, s3)" by fastforce
  note run = assms [unfolded retrieve_def Let_def q sum.case l prod.case h br]
  obtain g3 where r: "r = Inr g3" using run conds by (cases r) auto
  have "all_vetted env g1" by (rule scope_loop_vetted [OF l]) simp
  then have "all_vetted env g3" using hybrid_leg_vetted [OF h] brief_leg_vetted [OF br [unfolded r]] by blast
  moreover have "finish_cycle env raw b g3 s' c = (pk, c')" using run conds r by (auto split: if_splits prod.splits)
  ultimately show ?thesis by blast
qed

section \<open>A session\<close>

text \<open>What happens to a coordinator: inputs, run starts, provider calls, settlements, and its setters.\<close>

datatype session_event =
    Input string "StreamBehavior option" string | RunStarts string | ProviderCall "AgentMessage list" | RunSettles
  | TokenizerLoaded tokenizer | NewGeneration int

definition with_registry :: "(PendingPackRegistry \<Rightarrow> 'm option \<times> PendingPackRegistry) \<Rightarrow> RetrievalCoordinator \<Rightarrow> 'm list \<times> RetrievalCoordinator" where
  "with_registry f c = (case f (rc_registry c) of (m, r) \<Rightarrow> (case m of None \<Rightarrow> [] | Some x \<Rightarrow> [x], c\<lparr>rc_registry := r\<rparr>))"

fun session_step :: "'s retrieval_env \<Rightarrow> session_event \<Rightarrow> RetrievalCoordinator \<times> 's \<Rightarrow> EvidenceCustomMessage list \<times> RetrievalCoordinator \<times> 's" where
  "session_step env (Input raw b source) (c, s) = ([], snd (retrieve env raw b source c s))"
| "session_step env (RunStarts prompt) (c, s) = (case with_registry (onBeforeAgentStart (rv_sha env) prompt) c of (ms, c1) \<Rightarrow> (ms, c1, s))"
| "session_step env (ProviderCall msgs) (c, s) = (case with_registry (onContext (rv_sha env) msgs) c of (ms, c1) \<Rightarrow> (ms, c1, s))"
| "session_step env RunSettles (c, s) = ([], c\<lparr>rc_registry := snd (dropUnmatched (rc_registry c))\<rparr>, s)"
| "session_step env (TokenizerLoaded tok) (c, s) = ([], setTokenizer tok c, s)"
| "session_step env (NewGeneration gen) (c, s) = ([], setGeneration gen c, s)"

fun session_run :: "'s retrieval_env \<Rightarrow> session_event list \<Rightarrow> RetrievalCoordinator \<times> 's \<Rightarrow> EvidenceCustomMessage list \<times> RetrievalCoordinator \<times> 's" where
  "session_run env [] cs = ([], cs)"
| "session_run env (e # es) cs =
     (case session_step env e cs of (ms, cs1) \<Rightarrow> (case session_run env es cs1 of (ms', cs2) \<Rightarrow> (ms @ ms', cs2)))"

definition loaded :: "session_event list \<Rightarrow> tokenizer set" where
  "loaded es = {tok. TokenizerLoaded tok \<in> set es}"

text \<open>A pack that may be injected: its items are vetted, and a tokenizer of the session counted its text within the cap.\<close>

definition good_pack :: "'s retrieval_env \<Rightarrow> tokenizer set \<Rightarrow> EvidencePack \<Rightarrow> bool" where
  "good_pack env T pk \<longleftrightarrow>
     (\<forall>i \<in> set (pk_items pk). item_vetted env i)
     \<and> (injectable pk \<longrightarrow> (\<exists>tok \<in> T. \<exists>n. tok (frameEvidence (pk_items pk)) = Some n \<and> n \<le> of_int (rv_cap env)))"

definition good_message :: "'s retrieval_env \<Rightarrow> tokenizer set \<Rightarrow> EvidenceCustomMessage \<Rightarrow> bool" where
  "good_message env T m \<longleftrightarrow>
     (\<exists>pk. m = buildEvidenceMessage pk \<and> pk_items pk \<noteq> [] \<and> (\<forall>i \<in> set (pk_items pk). item_vetted env i))
     \<and> (\<exists>tok \<in> T. \<exists>n. tok (cm_content m) = Some n \<and> n \<le> of_int (rv_cap env))"

definition session_inv :: "'s retrieval_env \<Rightarrow> tokenizer set \<Rightarrow> RetrievalCoordinator \<Rightarrow> bool" where
  "session_inv env T c \<longleftrightarrow> set_option (rc_tokenizer c) \<subseteq> T \<and> (\<forall>p \<in> set (rg_pending (rc_registry c)). good_pack env T (pp_pack p))"

lemma good_message_of: "good_pack env T pk \<Longrightarrow> injectable pk \<Longrightarrow> good_message env T (buildEvidenceMessage pk)"
  by (auto simp: good_pack_def good_message_def injectable_def buildEvidenceMessage_def)

lemma fill_pack_good:
  assumes "\<forall>i \<in> set (pk_items pk). item_vetted env i" "set_option tok \<subseteq> T" "\<not> pk_allowed pk"
  shows "good_pack env T (fill_pack tok (of_int (rv_cap env)) pk)"
proof (cases tok)
  case None
  with assms show ?thesis by (simp add: fill_pack_def good_pack_def injectable_def)
next
  case (Some t)
  have sub: "set (take n xs) \<subseteq> set xs" for n and xs :: "EvidenceItem list" by (rule set_take_subset)
  note spec = fit_cap_spec [where tok = t and cap = "of_int (rv_cap env)" and kept = "pk_items pk"]
  show ?thesis
  proof (cases "fit_cap t (of_int (rv_cap env)) (pk_items pk)")
    case (Inl xs)
    with spec obtain n where "xs = take n (pk_items pk)" by auto
    with assms Some Inl sub show ?thesis by (fastforce simp: fill_pack_def good_pack_def injectable_def)
  next
    case (Inr r)
    obtain xs k where r: "r = (xs, k)" by fastforce
    have "\<exists>n. xs = take n (pk_items pk)" "t (frameEvidence xs) = Some k" "k \<le> of_int (rv_cap env) \<or> xs = []"
      using spec unfolding Inr r sum.case prod.case by blast+
    then obtain n where "xs = take n (pk_items pk)" "t (frameEvidence xs) = Some k" "k \<le> of_int (rv_cap env) \<or> xs = []" by blast
    with assms Some sub show ?thesis by (auto simp: fill_pack_def good_pack_def injectable_def Inr r)
  qed
qed

lemma by_score_set [simp]: "set (by_score xs) = set xs"
  by (simp add: by_score_def)

lemma finish_cycle_inv:
  assumes "finish_cycle env raw b g s c = (pk, c')" "all_vetted env g" "session_inv env T c"
  shows "session_inv env T c'"
proof -
  define g1 where "g1 = (if by_score (ga_items g) = [] then add_note NoEvidence (g\<lparr>ga_items := by_score (ga_items g)\<rparr>) else g\<lparr>ga_items := by_score (ga_items g)\<rparr>)"
  obtain pk1 c1 where bp: "buildPack env raw b g1 s c = (pk1, c1)" by fastforce
  have g1: "\<forall>i \<in> set (ga_items g1). item_vetted env i" using assms(2) by (auto simp: g1_def all_vetted_def add_note_def)
  have t: "set_option (rc_tokenizer c) \<subseteq> T" using assms(3) by (simp add: session_inv_def)
  have good: "good_pack env T pk1"
    using bp fill_pack_good [OF _ t, of _ env] g1 by (auto simp: buildPack_def Let_def pack_base_def)
  have c1: "rc_registry c1 = rc_registry c" "rc_tokenizer c1 = rc_tokenizer c" using bp by (auto simp: buildPack_def Let_def)
  have "c' = c1\<lparr>rc_registry := snd (add_pack pk1 (if b = None then Fresh else Queued) (rc_registry c1))\<rparr>"
    using assms(1) bp by (auto simp: finish_cycle_def Let_def g1_def [symmetric] split: prod.splits)
  with good c1 assms(3) show ?thesis by (auto simp: session_inv_def add_pack_def)
qed

lemma retrieve_inv:
  assumes "session_inv env T c"
  shows "session_inv env T (fst (snd (retrieve env raw b source c s)))"
proof -
  obtain out c' s' where r: "retrieve env raw b source c s = (out, c', s')" by (metis prod_cases3)
  show ?thesis
  proof (cases "\<exists>pk. out = Inr (Pack pk)")
    case True
    then obtain pk where "out = Inr (Pack pk)" by blast
    with r retrieve_gathers finish_cycle_inv [OF _ _ assms] show ?thesis by fastforce
  next
    case False
    with r have "c' = c" by (auto simp: retrieve_def Let_def split: if_splits sum.splits prod.splits)
    with assms r show ?thesis by simp
  qed
qed

lemma consume_good:
  assumes "consume P r = (got, r')" "\<forall>p \<in> set (rg_pending r). good_pack env T (pp_pack p)"
  shows "(\<forall>pk. got = Some pk \<longrightarrow> good_pack env T pk) \<and> (\<forall>p \<in> set (rg_pending r'). good_pack env T (pp_pack p))"
  using consume_pool [OF assms(1)] assms(2) by (auto simp: image_subset_iff)

lemma starts_good:
  assumes "onBeforeAgentStart h prompt r = (m, r')" "\<forall>p \<in> set (rg_pending r). good_pack env T (pp_pack p)"
  shows "(\<forall>x. m = Some x \<longrightarrow> good_message env T x) \<and> (\<forall>p \<in> set (rg_pending r'). good_pack env T (pp_pack p))"
proof -
  obtain got r1 where c: "consumeFresh h prompt r = (got, r1)" by fastforce
  from consume_good [OF c [unfolded consumeFresh_def] assms(2)] assms(1) c
  show ?thesis by (auto simp: onBeforeAgentStart_def good_message_of split: option.splits if_splits)
qed

lemma context_good:
  assumes "onContext h ms r = (m, r')" "\<forall>p \<in> set (rg_pending r). good_pack env T (pp_pack p)"
  shows "(\<forall>x. m = Some x \<longrightarrow> good_message env T x) \<and> (\<forall>p \<in> set (rg_pending r'). good_pack env T (pp_pack p))"
proof -
  obtain res r1 where c: "consumeMatching h ms r = (res, r1)" by fastforce
  then show ?thesis
  proof (cases rule: consumeMatching_cases)
    case quiet
    with assms c show ?thesis by (auto simp: onContext_def split: ConsumeResult.splits)
  next
    case (attempt P k n got)
    have "\<forall>p \<in> set (rg_pending (r\<lparr>rg_seen := recordCount k n (rg_seen r)\<rparr>)). good_pack env T (pp_pack p)" using assms(2) by simp
    from consume_good [OF attempt(1) this] attempt(2) assms(1) c
    show ?thesis by (auto simp: onContext_def good_message_of split: option.splits if_splits)
  qed
qed

lemma session_step_inv:
  assumes "session_step env e (c, s) = (ms, c', s')" "session_inv env T c" "loaded [e] \<subseteq> T"
  shows "session_inv env T c' \<and> (\<forall>m \<in> set ms. good_message env T m)"
proof (cases e)
  case (Input raw b source)
  with assms(1) have "c' = fst (snd (retrieve env raw b source c s))" "ms = []" by (simp_all add: prod_eq_iff)
  with retrieve_inv [OF assms(2)] show ?thesis by simp
next
  case (RunStarts prompt)
  obtain m r where o: "onBeforeAgentStart (rv_sha env) prompt (rc_registry c) = (m, r)" by fastforce
  from starts_good [OF o, of env T] assms(1,2) RunStarts o show ?thesis
    by (auto simp: with_registry_def session_inv_def split: option.splits)
next
  case (ProviderCall msgs)
  obtain m r where o: "onContext (rv_sha env) msgs (rc_registry c) = (m, r)" by fastforce
  from context_good [OF o, of env T] assms(1,2) ProviderCall o show ?thesis
    by (auto simp: with_registry_def session_inv_def split: option.splits)
next
  case RunSettles
  with assms(1,2) show ?thesis by (auto simp: session_inv_def dropUnmatched_def)
next
  case (TokenizerLoaded tok)
  with assms show ?thesis by (auto simp: session_inv_def setTokenizer_def loaded_def split: if_splits)
next
  case (NewGeneration gen)
  with assms(1,2) show ?thesis by (auto simp: session_inv_def setGeneration_def)
qed

lemma session_run_inv:
  "session_run env es (c, s) = (ms, c', s') \<Longrightarrow> session_inv env T c \<Longrightarrow> loaded es \<subseteq> T
    \<Longrightarrow> session_inv env T c' \<and> (\<forall>m \<in> set ms. good_message env T m)"
proof (induction es arbitrary: c s ms)
  case (Cons e es)
  obtain m1 c1 s1 where st: "session_step env e (c, s) = (m1, c1, s1)" by (metis prod_cases3)
  obtain m2 where run: "session_run env es (c1, s1) = (m2, c', s')" "ms = m1 @ m2"
    using Cons.prems(1) st by (auto split: prod.splits)
  have "loaded [e] \<subseteq> T" "loaded es \<subseteq> T" using Cons.prems(3) by (auto simp: loaded_def)
  with session_step_inv [OF st Cons.prems(2)] Cons.IH [OF run(1)] run(2) show ?case by auto
qed simp


definition example_tokenizer :: tokenizer where "example_tokenizer s = Some 5"

definition example_env :: "unit retrieval_env" where
  "example_env = \<lparr>rv_sha = id, rv_transport = note_server, rv_scopes = [''personal''], rv_deadline = 2000, rv_cap = 9, rv_redact = Inr,
     rv_private = (\<lambda>_. False), rv_now = (\<lambda>_. 0), rv_aborted = (\<lambda>_. False), rv_iso = (\<lambda>_. ''t''),
     rv_fts = (\<lambda>_ _ s. (Inr [(note_path, 1)], s)), rv_semantic = (\<lambda>_ _ s. (Inr [], s)), rv_hybrid = (\<lambda>_ s. (Inr (False, []), s)),
     rv_brief = (\<lambda>_ _ s. (Inr [], s))\<rparr>"


section \<open>Identical inputs\<close>

definition id_for :: "(string \<Rightarrow> string) \<Rightarrow> (string \<times> nat) list \<Rightarrow> string \<Rightarrow> bool" where
  "id_for h occ i \<longleftrightarrow> (\<exists>raw b n. i = occurrenceInputId h (fingerprintInput h raw b) n \<and> 1 \<le> n
     \<and> n \<le> default_to 0 (map_of occ (fingerprintInput h raw b)))"

definition ids_inv :: "(string \<Rightarrow> string) \<Rightarrow> RetrievalCoordinator \<Rightarrow> bool" where
  "ids_inv h c \<longleftrightarrow> (\<forall>i \<in> set (rg_consumed (rc_registry c)) \<union> pending_id ` set (rg_pending (rc_registry c)). id_for h (rc_occurrences c) i)"

definition collision_free :: "(string \<Rightarrow> string) \<Rightarrow> bool" where
  "collision_free h \<longleftrightarrow> inj h \<and> (\<forall>s. list_all is_hex (h s))"

lemma hex_no_mark: "is_hex c \<Longrightarrow> c \<noteq> CHR ''#'' \<and> c \<noteq> CHR 0x00"
  by (auto simp: is_hex_def is_digit_def)

lemma occurrenceInputId_inj:
  assumes h: "collision_free h" and "1 \<le> m" "1 \<le> n"
    and eq: "occurrenceInputId h (fingerprintInput h r b) m = occurrenceInputId h (fingerprintInput h r' b') n"
  shows "fingerprintInput h r b = fingerprintInput h r' b' \<and> m = n"
proof -
  let ?f = "fingerprintInput h r b" and ?f' = "fingerprintInput h r' b'"
  have inj: "h x = h y \<longleftrightarrow> x = y" for x y using h by (auto simp: collision_free_def inj_def)
  have hex: "x \<in> set (fingerprintInput h u v) \<Longrightarrow> is_hex x" for x u v
    using h by (auto simp: collision_free_def fingerprintInput_def list_all_iff)
  have plain: "CHR 0x00 \<notin> set (fingerprintInput h u v @ ''#occ:'' @ show_nat k)" for u v k
    using hex [of "CHR 0x00" u v] hex_no_mark show_nat_digits [of "CHR 0x00" k] by (auto simp: is_digit_def)
  have nul: "x @ CHR 0x00 # y \<noteq> fingerprintInput h u v @ ''#occ:'' @ show_nat k" for x y u v k
    using plain [of u v k] by (metis in_set_conv_decomp)
  have cut: "takeWhile (\<lambda>c. c \<noteq> CHR ''#'') (fingerprintInput h u v @ ''#occ:'' @ t) = fingerprintInput h u v" for u v t
  proof -
    have "\<forall>x \<in> set (fingerprintInput h u v). x \<noteq> CHR ''#''" using hex hex_no_mark by blast
    then show ?thesis by (simp add: takeWhile_append2)
  qed
  consider "m = 1" "n = 1" | "m = 1" "n > 1" | "m > 1" "n = 1" | "m > 1" "n > 1" using assms(2,3) by linarith
  then show ?thesis
  proof cases
    case 1
    with eq show ?thesis by (simp add: occurrenceInputId_def)
  next
    case 2
    with eq have "h (r @ CHR 0x00 # behavior_text b) = h (?f' @ ''#occ:'' @ show_nat n)"
      by (simp add: occurrenceInputId_def fingerprintInput_def)
    with inj nul show ?thesis by blast
  next
    case 3
    with eq have "h (r' @ CHR 0x00 # behavior_text b') = h (?f @ ''#occ:'' @ show_nat m)"
      by (simp add: occurrenceInputId_def fingerprintInput_def)
    with inj nul show ?thesis by blast
  next
    case 4
    with eq inj have e: "?f @ ''#occ:'' @ show_nat m = ?f' @ ''#occ:'' @ show_nat n" by (simp add: occurrenceInputId_def)
    then have "?f = ?f'" using cut by metis
    with e show ?thesis by (simp add: show_nat_inj)
  qed
qed

definition all_ids :: "PendingPackRegistry \<Rightarrow> string set" where
  "all_ids r = set (rg_consumed r) \<union> pending_id ` set (rg_pending r)"

lemma consume_ids: "consume P r = (got, r') \<Longrightarrow> all_ids r' \<subseteq> all_ids r"
  by (auto simp: consume_def all_ids_def split: option.splits prod.splits dest!: take_first_split)

lemma event_ids:
  "all_ids (snd (onBeforeAgentStart h prompt r)) \<subseteq> all_ids r" "all_ids (snd (onContext h ms r)) \<subseteq> all_ids r"
  "all_ids (snd (dropUnmatched r)) \<subseteq> all_ids r"
proof -
  show "all_ids (snd (onBeforeAgentStart h prompt r)) \<subseteq> all_ids r"
    by (auto simp: onBeforeAgentStart_def consumeFresh_def split: prod.splits option.splits dest!: consume_ids)
  obtain res r1 where c: "consumeMatching h ms r = (res, r1)" by fastforce
  have "all_ids r1 \<subseteq> all_ids r"
    using c
  proof (cases rule: consumeMatching_cases)
    case (attempt P k n got)
    from consume_ids [OF attempt(1)] show ?thesis by (simp add: all_ids_def)
  qed simp
  then show "all_ids (snd (onContext h ms r)) \<subseteq> all_ids r" using c by (auto simp: onContext_def split: ConsumeResult.splits)
  show "all_ids (snd (dropUnmatched r)) \<subseteq> all_ids r" by (auto simp: dropUnmatched_def all_ids_def)
qed

lemma ids_inv_keep: "ids_inv h c \<Longrightarrow> all_ids (rc_registry c') \<subseteq> all_ids (rc_registry c) \<Longrightarrow> rc_occurrences c' = rc_occurrences c \<Longrightarrow> ids_inv h c'"
  unfolding ids_inv_def all_ids_def by auto

lemma finish_cycle_registers:
  assumes fc: "finish_cycle env raw b g s c = (pk, c')" and inv: "ids_inv (rv_sha env) c" and h: "collision_free (rv_sha env)"
  shows "pk \<in> pp_pack ` set (rg_pending (rc_registry c')) \<and> ids_inv (rv_sha env) c'"
proof -
  let ?h = "rv_sha env"
  let ?base = "fingerprintInput ?h raw b"
  let ?old = "default_to 0 (map_of (rc_occurrences c) ?base)"
  let ?id = "occurrenceInputId ?h ?base (Suc ?old)"
  define g1 where "g1 = (if by_score (ga_items g) = [] then add_note NoEvidence (g\<lparr>ga_items := by_score (ga_items g)\<rparr>) else g\<lparr>ga_items := by_score (ga_items g)\<rparr>)"
  obtain pk1 c1 where bp: "buildPack env raw b g1 s c = (pk1, c1)" by fastforce
  have pk1: "pk_inputId pk1 = ?id" "rc_registry c1 = rc_registry c" "rc_occurrences c1 = AList.update ?base (Suc ?old) (rc_occurrences c)"
    using bp by (auto simp: buildPack_def Let_def fill_pack_def pack_base_def split: option.splits sum.splits prod.splits)
  have occ: "map_of (rc_occurrences c1) = (map_of (rc_occurrences c))(?base \<mapsto> Suc ?old)" by (simp add: pk1(3) update_conv')
  have fresh: "?id \<notin> all_ids (rc_registry c)"
  proof
    assume "?id \<in> all_ids (rc_registry c)"
    then have "id_for ?h (rc_occurrences c) ?id" using inv by (simp add: ids_inv_def all_ids_def)
    then obtain r' b' n where i: "?id = occurrenceInputId ?h (fingerprintInput ?h r' b') n" "1 \<le> n"
      "n \<le> default_to 0 (map_of (rc_occurrences c) (fingerprintInput ?h r' b'))" unfolding id_for_def by blast
    have "?base = fingerprintInput ?h r' b' \<and> Suc ?old = n" by (rule occurrenceInputId_inj [OF h _ i(2) i(1)]) simp
    with i(3) show False by (metis not_less_eq_eq order_refl)
  qed
  have mono: "id_for ?h (rc_occurrences c1) i" if "id_for ?h (rc_occurrences c) i" for i
  proof -
    from that obtain r' b' n where i: "i = occurrenceInputId ?h (fingerprintInput ?h r' b') n" "1 \<le> n"
      "n \<le> default_to 0 (map_of (rc_occurrences c) (fingerprintInput ?h r' b'))" unfolding id_for_def by blast
    then have "n \<le> default_to 0 (map_of (rc_occurrences c1) (fingerprintInput ?h r' b'))" by (auto simp: occ)
    with i show ?thesis unfolding id_for_def by blast
  qed
  have new: "id_for ?h (rc_occurrences c1) ?id"
    unfolding id_for_def by (intro exI [of _ raw] exI [of _ b] exI [of _ "Suc ?old"]) (simp add: occ)
  have "pk_inputId pk1 \<notin> set (rg_consumed (rc_registry c))" "pk_inputId pk1 \<notin> set (map pending_id (rg_pending (rc_registry c)))"
    using fresh by (simp_all add: pk1(1) all_ids_def)
  then have "pk = pk1 \<and> c' = c1\<lparr>rc_registry := (rc_registry c)\<lparr>rg_pending := rg_pending (rc_registry c) @ [\<lparr>pp_pack = pk1, pp_origin = (if b = None then Fresh else Queued)\<rparr>]\<rparr>\<rparr>"
    using fc bp by (auto simp: finish_cycle_def Let_def g1_def [symmetric] add_pack_def pk1(2))
  then show ?thesis using inv mono new pk1(1) by (auto simp: ids_inv_def pending_id_def)
qed

lemma retrieve_ids:
  assumes "retrieve env raw b source c s = (out, c', s')" "ids_inv (rv_sha env) c" "collision_free (rv_sha env)"
  shows "ids_inv (rv_sha env) c' \<and> (\<forall>pk. out = Inr (Pack pk) \<longrightarrow> pk \<in> pp_pack ` set (rg_pending (rc_registry c')))"
proof (cases "\<exists>pk. out = Inr (Pack pk)")
  case True
  then obtain pk where out: "out = Inr (Pack pk)" by blast
  obtain g where "finish_cycle env raw b g s' c = (pk, c')" using retrieve_gathers [OF assms(1) [unfolded out]] by blast
  from finish_cycle_registers [OF this assms(2,3)] show ?thesis by (simp add: out)
next
  case False
  with assms(1) have "c' = c" by (auto simp: retrieve_def Let_def split: if_splits sum.splits prod.splits)
  with assms(2) False show ?thesis by simp
qed

lemma session_step_ids:
  assumes "session_step env e (c, s) = (ms, c', s')" "ids_inv (rv_sha env) c" "collision_free (rv_sha env)"
  shows "ids_inv (rv_sha env) c'"
proof (cases e)
  case (Input raw b source)
  obtain out c1 s1 where r: "retrieve env raw b source c s = (out, c1, s1)" by (metis prod_cases3)
  with retrieve_ids [OF r assms(2,3)] assms(1) Input show ?thesis by simp
next
  case (RunStarts prompt)
  have "all_ids (rc_registry c') \<subseteq> all_ids (rc_registry c) \<and> rc_occurrences c' = rc_occurrences c"
    using assms(1) RunStarts event_ids(1) [of "rv_sha env" prompt "rc_registry c"] by (auto simp: with_registry_def split: prod.splits)
  with ids_inv_keep [OF assms(2)] show ?thesis by blast
next
  case (ProviderCall msgs)
  have "all_ids (rc_registry c') \<subseteq> all_ids (rc_registry c) \<and> rc_occurrences c' = rc_occurrences c"
    using assms(1) ProviderCall event_ids(2) [of "rv_sha env" msgs "rc_registry c"] by (auto simp: with_registry_def split: prod.splits)
  with ids_inv_keep [OF assms(2)] show ?thesis by blast
next
  case RunSettles
  with assms(1) ids_inv_keep [OF assms(2), of c'] event_ids(3) show ?thesis by auto
qed (use assms ids_inv_keep [OF assms(2), of c'] in \<open>auto simp: setTokenizer_def setGeneration_def\<close>)

lemma session_run_ids:
  "session_run env es (c, s) = (ms, c', s') \<Longrightarrow> ids_inv (rv_sha env) c \<Longrightarrow> collision_free (rv_sha env) \<Longrightarrow> ids_inv (rv_sha env) c'"
proof (induction es arbitrary: c s ms)
  case (Cons e es)
  obtain m1 c1 s1 where st: "session_step env e (c, s) = (m1, c1, s1)" by (metis prod_cases3)
  obtain m2 where "session_run env es (c1, s1) = (m2, c', s')" using Cons.prems(1) st by (auto split: prod.splits)
  with Cons.IH session_step_ids [OF st Cons.prems(2,3)] Cons.prems(3) show ?case by blast
qed simp


text \<open>Two hex digits for a character, as a digest without collisions.\<close>

definition nibble :: "bool \<Rightarrow> bool \<Rightarrow> bool \<Rightarrow> bool \<Rightarrow> char" where
  "nibble a b c d = (if a then (if b then (if c then (if d then CHR ''f'' else CHR ''e'') else (if d then CHR ''d'' else CHR ''c'')) else (if c then (if d then CHR ''b'' else CHR ''a'') else (if d then CHR ''9'' else CHR ''8''))) else (if b then (if c then (if d then CHR ''7'' else CHR ''6'') else (if d then CHR ''5'' else CHR ''4'')) else (if c then (if d then CHR ''3'' else CHR ''2'') else (if d then CHR ''1'' else CHR ''0''))))"

fun byte_pair :: "char \<Rightarrow> string" where
  "byte_pair (Char b0 b1 b2 b3 b4 b5 b6 b7) = [nibble b0 b1 b2 b3, nibble b4 b5 b6 b7]"

definition pair_digest :: "string \<Rightarrow> string" where
  "pair_digest s = concat (map byte_pair s)"

lemma nibble_inj: "nibble a b c d = nibble a' b' c' d' \<Longrightarrow> a = a' \<and> b = b' \<and> c = c' \<and> d = d'"
  by (cases a; cases b; cases c; cases d; cases a'; cases b'; cases c'; cases d'; simp add: nibble_def)

lemma nibble_hex: "is_hex (nibble a b c d)"
  by (cases a; cases b; cases c; cases d; simp add: nibble_def is_hex_def is_digit_def)

lemma byte_pair_inj: "byte_pair x = byte_pair y \<Longrightarrow> x = y"
  by (cases x; cases y) (auto dest!: nibble_inj)

lemma pair_digest_collision_free: "collision_free pair_digest"
proof -
  have two: "\<exists>u v. byte_pair c = [u, v]" for c by (cases c) simp
  have "x = y" if "pair_digest x = pair_digest y" for x y
    using that
  proof (induction x arbitrary: y)
    case Nil
    moreover have "byte_pair c \<noteq> []" for c by (cases c) simp
    ultimately show ?case by (cases y) (auto simp: pair_digest_def)
  next
    case (Cons c x)
    obtain d z where y: "y = d # z" using Cons.prems two [of c] by (cases y) (auto simp: pair_digest_def)
    from two [of c] two [of d] Cons.prems y have "byte_pair c = byte_pair d" "pair_digest x = pair_digest z"
      by (auto simp: pair_digest_def)
    with Cons.IH byte_pair_inj y show ?case by blast
  qed
  moreover have "list_all is_hex (byte_pair c)" for c by (cases c) (simp add: nibble_hex)
  ultimately show ?thesis unfolding collision_free_def inj_def by (auto simp: pair_digest_def list_all_iff)
qed


section \<open>Where the cycle differs from its description\<close>

text \<open>
  A page of another authorized scope that comes back in the brief is labelled with the primary
  scope: here the only record read is personal, and the pack cites it as the project's.
\<close>

definition two_scopes :: "unit retrieval_env" where
  "two_scopes = example_env\<lparr>rv_scopes := [''project/p'', ''personal''], rv_fts := (\<lambda>_ _ s. (Inr [], s)), rv_brief := (\<lambda>_ _ s. (Inr [note_path], s)), rv_cap := 5\<rparr>"

theorem brief_relabels_scope:
  "map_sum id (\<lambda>out. case out of Pack pk \<Rightarrow> map (\<lambda>i. (ev_path i, ev_scope i)) (pk_items pk) | _ \<Rightarrow> [])
     (fst (retrieve two_scopes ''hi'' None ''user'' (new_coordinator None 1) ())) = Inr [(note_path, ''project/p'')]"
  by code_simp

text \<open>
  A read-back that fails while the brief is packed, as it does when the deadline aborts it, is
  thrown out of the cycle: the evidence of the other legs is lost and no degraded outcome is given.
\<close>

definition failing_brief :: "bool retrieval_env" where
  "failing_brief = \<lparr>rv_sha = id,
     rv_transport = (\<lambda>tool args up. if up then (fst (note_server tool args ()), up) else (Inl (Backend CancelledError, ''''), up)),
     rv_scopes = [''personal''], rv_deadline = 2000, rv_cap = 9, rv_redact = Inr, rv_private = (\<lambda>_. False), rv_now = (\<lambda>_. 0),
     rv_aborted = (\<lambda>_. False), rv_iso = (\<lambda>_. ''t''), rv_fts = (\<lambda>_ _ s. (Inr [(note_path, 1)], s)), rv_semantic = (\<lambda>_ _ s. (Inr [], s)),
     rv_hybrid = (\<lambda>_ s. (Inr (False, []), s)), rv_brief = (\<lambda>_ _ s. (Inr [note_path], False))\<rparr>"

theorem brief_failure_escapes_retrieval:
  "fst (retrieve failing_brief ''hi'' None ''user'' (new_coordinator None 1) True) = Inl (Backend CancelledError)"
  by code_simp

end
