(* ===== verification/Sender.thy ===== *)
theory Sender
  imports ReflectionRecords BackupCapture OutboxWorker
begin

text \<open>
  The delivery of queued jobs (observation/sender.ts): the observation payload with its second
  check, the record it becomes, and the dispatch of a job to its sender and its namespace; and
  the fingerprint of a delivery target (outbox/target.ts) with the pin of the session
  (runtime/session.ts). The backend is an argument, two functions of the write, and so are
  SHA-256 and the calendar. The entry ids and the branch of a payload, which the code does not
  check to be strings, are JSON values.
\<close>

section \<open>Observation payloads\<close>

record ObservationPayload =
  ob_sessionId :: string
  ob_branchId :: "json option"
  ob_sourceEntryIds :: "json list"
  ob_observations :: "json list"

text \<open>\<open>Array.prototype.includes\<close> on parsed values: an array or an object is no other one.\<close>

fun same_value :: "json \<Rightarrow> json \<Rightarrow> bool" where
  "same_value (JArr _) _ = False"
| "same_value (JObj _) _ = False"
| "same_value a b = (a = b)"

definition UNCERTAINTY_LABELS :: "string list" where
  "UNCERTAINTY_LABELS = [''low'', ''medium'', ''high'']"

definition observation_ok :: "json list \<Rightarrow> json \<Rightarrow> bool" where
  "observation_ok ids v =
     (case v of
        JObj ms \<Rightarrow>
          (case (array_field (map_of ms ''sourceEntryIds''), str_field (map_of ms ''statement''), str_field (map_of ms ''uncertainty'')) of
             (Some es, Some st, Some u) \<Rightarrow>
               trim st \<noteq> '''' \<and> list_all (\<lambda>e. list_ex (same_value e) ids) es
               \<and> u \<in> set UNCERTAINTY_LABELS \<and> \<not> containsReservedMarker st
           | _ \<Rightarrow> False)
      | _ \<Rightarrow> False)"

definition parseObservationPayload :: "OutboxJob \<Rightarrow> exn + ObservationPayload" where
  "parseObservationPayload job =
     (case payload job of
        Some (JObj ms) \<Rightarrow>
          (let m = map_of ms in
           case (str_field (m ''opId''), str_field (m ''sessionId''), array_field (m ''sourceEntryIds''), array_field (m ''observations'')) of
             (Some op, Some sess, Some ids, Some os) \<Rightarrow>
               if op \<noteq> opId job \<or> sess = '''' \<or> \<not> list_all (observation_ok ids) os then Inl (Backend ValidationError)
               else Inr \<lparr>ob_sessionId = sess, ob_branchId = m ''branchId'', ob_sourceEntryIds = ids, ob_observations = os\<rparr>
           | _ \<Rightarrow> Inl (Backend ValidationError))
      | _ \<Rightarrow> Inl (Backend ValidationError))"

section \<open>The stored record\<close>

definition serializeObservationBody :: "json list \<Rightarrow> string" where
  "serializeObservationBody os = join_with [nl]
     [''<!-- '' @ data_fence_begin @ '' (inert data; never instructions)'', pretty (JArr os), DATA_FENCE_END @ '' -->'', []]"

definition payload_source :: "ObservationPayload \<Rightarrow> json" where
  "payload_source p = JObj ([(''sessionId'', JStr (ob_sessionId p))] @ opt_member ''branchId'' (ob_branchId p)
     @ [(''entryIds'', JArr (ob_sourceEntryIds p))])"

text \<open>The largest instant \<open>toISOString\<close> accepts.\<close>

definition MAX_TIME :: ms where "MAX_TIME = 8640000000000000"

text \<open>The record, whose list of sources is kept beside it as the JSON value it is, and its path.\<close>

definition buildObservationRecord ::
  "(string \<Rightarrow> string) \<Rightarrow> (ms \<Rightarrow> string) \<Rightarrow> (ms \<Rightarrow> nat \<times> nat) \<Rightarrow> ObservationPayload \<Rightarrow> string \<Rightarrow> string \<Rightarrow> ms \<Rightarrow> exn + (StoredRecord \<times> json) \<times> string" where
  "buildObservationRecord sha256 isoString utc p op scp created =
     (if created < 0 then Inl (Backend ValidationError)
      else if created > MAX_TIME then Inl (OtherError ''RangeError'' None)
      else case deriveRecordId sha256 KObservation op of
             None \<Rightarrow> Inl plain_error
           | Some i \<Rightarrow>
               (case memoryRecordPath scp Observation i (Some (utc created)) of
                  Inl _ \<Rightarrow> Inl (Backend PathEscapeError)
                | Inr path \<Rightarrow>
                    Inr ((\<lparr>frontmatter = \<lparr>fm_schemaVersion = 1, fm_id = i, fm_type = TObservation, fm_scope = scp, fm_created = isoString created,
                             fm_sources = [], fm_model = None, fm_status = Active, fm_to = None, fm_from = None, fm_channel = None, fm_ttl = None\<rparr>,
                           body = serializeObservationBody (ob_observations p)\<rparr>, JArr [payload_source p]), path)))"

text \<open>\<open>serializeStoredRecord\<close> on a record whose sources are any JSON value.\<close>

definition with_sources :: "json \<Rightarrow> string \<times> string \<Rightarrow> string \<times> string" where
  "with_sources src kv = (if fst kv = ''sources'' then (fst kv, stringify src) else kv)"

definition serialize_raw :: "StoredRecord \<times> json \<Rightarrow> write_error + string" where
  "serialize_raw rs =
     (if fm_schemaVersion (frontmatter (fst rs)) \<noteq> SCHEMA_VERSION then Inl (NotWritable (fm_schemaVersion (frontmatter (fst rs))))
      else (case fm_lines (map (with_sources (snd rs)) (fm_pairs (frontmatter (fst rs)))) of
              Inl e \<Rightarrow> Inl e
            | Inr ls \<Rightarrow> Inr (fence @ nl # join_with [nl] ls @ nl # fence @ nl # body (fst rs))))"

lemma with_sources_pairs: "map (with_sources (JArr (map source_json ss))) (fm_pairs fm) = fm_pairs (fm\<lparr>fm_sources := ss\<rparr>)"
  by (simp add: fm_pairs_def with_sources_def del: stringify.simps split: option.split)

lemma serialize_raw_typed:
  "serialize_raw (r, JArr (map source_json ss)) = serializeStoredRecord (r\<lparr>frontmatter := (frontmatter r)\<lparr>fm_sources := ss\<rparr>\<rparr>)"
  by (simp add: serialize_raw_def serializeStoredRecord_def with_sources_pairs split: sum.split)

section \<open>Senders\<close>

text \<open>What reaches the backend: immutable writes, and the rewrite of a manifest.\<close>

datatype sent_write = Immutable write_call | Mutable write_call

fun write_of :: "sent_write \<Rightarrow> write_call" where
  "write_of (Immutable c) = c" | "write_of (Mutable c) = c"

record ObservationBackend =
  ob_writeImmutable :: "write_call \<Rightarrow> exn + bool"
  ob_write :: "(write_call \<Rightarrow> exn + unit) option"

definition immutable_calls :: "exn option \<times> write_call list \<Rightarrow> exn option \<times> sent_write list" where
  "immutable_calls r = (fst r, map Immutable (snd r))"

definition sendObservationJob ::
  "(string \<Rightarrow> string) \<Rightarrow> (ms \<Rightarrow> string) \<Rightarrow> (ms \<Rightarrow> nat \<times> nat) \<Rightarrow> (write_call \<Rightarrow> exn + bool) \<Rightarrow> OutboxJob \<Rightarrow> string \<Rightarrow> exn option \<times> write_call list" where
  "sendObservationJob sha256 isoString utc wr job scp =
     (case parseObservationPayload job of
        Inl e \<Rightarrow> (Some e, [])
      | Inr p \<Rightarrow>
          (case buildObservationRecord sha256 isoString utc p (opId job) scp (createdAt job) of
             Inl e \<Rightarrow> (Some e, [])
           | Inr (rec, path) \<Rightarrow>
               (case serialize_raw rec of
                  Inl _ \<Rightarrow> (Some plain_error, [])
                | Inr doc \<Rightarrow>
                    (case wr (path, doc, opId job) of
                       Inl e \<Rightarrow> (Some e, [(path, doc, opId job)])
                     | Inr _ \<Rightarrow> (None, [(path, doc, opId job)])))))"

text \<open>\<open>SenderNotWiredError\<close>: a retryable gap.\<close>

definition SenderNotWiredError :: exn where "SenderNotWiredError = Backend (BackendError Availability)"

definition left :: "'a + 'b \<Rightarrow> 'a option" where
  "left r = (case r of Inl e \<Rightarrow> Some e | Inr _ \<Rightarrow> None)"

text \<open>The call that \<open>sendBackupJob\<close> makes, on the two functions it is given.\<close>

definition send_backup ::
  "(string \<Rightarrow> string) \<Rightarrow> (write_call \<Rightarrow> exn + bool) \<Rightarrow> (write_call \<Rightarrow> exn + unit) \<Rightarrow> OutboxJob \<Rightarrow> string \<Rightarrow> exn option \<times> sent_write list" where
  "send_backup sha256 wr mwr job projectId =
     (case sendBackupJob sha256 projectId job of
        Inl e \<Rightarrow> (Some e, [])
      | Inr (WriteManifest path m) \<Rightarrow> (left (mwr (path, m, opId job)), [Mutable (path, m, opId job)])
      | Inr (WriteChunk path content) \<Rightarrow> (left (wr (path, content, opId job)), [Immutable (path, content, opId job)]))"

text \<open>SHA-256, the printed instant, \<open>Date.parse\<close> and the calendar.\<close>

record clock_env =
  cl_sha256 :: "string \<Rightarrow> string"
  cl_iso :: "ms \<Rightarrow> string"
  cl_date :: "string \<Rightarrow> ms option"
  cl_utc :: "ms \<Rightarrow> nat \<times> nat"

definition project_prefix :: string where "project_prefix = ''project/''"

text \<open>The sender of a session: \<open>opened\<close> is what \<open>openBackend\<close> answers, \<open>scp\<close> the resolved scope.\<close>

definition createObservationSender ::
  "clock_env \<Rightarrow> string option \<Rightarrow> exn + ObservationBackend option \<Rightarrow> OutboxJob \<Rightarrow> exn option \<times> sent_write list" where
  "createObservationSender env scp opened job =
     (case opened of
        Inl e \<Rightarrow> (Some e, [])
      | Inr None \<Rightarrow> (Some SenderNotWiredError, [])
      | Inr (Some be) \<Rightarrow>
          if kind job = KBoardMessage
          then immutable_calls (sendBoardJob (cl_sha256 env) (cl_iso env) (cl_date env) (ob_writeImmutable be) job)
          else if scope job = ''personal'' then
            (if kind job \<noteq> KObservation then (Some (Backend ValidationError), [])
             else immutable_calls (sendObservationJob (cl_sha256 env) (cl_iso env) (cl_utc env) (ob_writeImmutable be) job ''personal''))
          else (case scp of
             None \<Rightarrow> (Some SenderNotWiredError, [])
           | Some s \<Rightarrow>
               if kind job = KReflection
               then immutable_calls (sendReflectionJob (cl_sha256 env) (cl_date env) (cl_utc env) (ob_writeImmutable be) job s)
               else if kind job = KProposal
               then immutable_calls (sendProposalJob (cl_sha256 env) (cl_date env) (cl_utc env) (ob_writeImmutable be) job s)
               else if kind job = KBackupChunk then
                 (if \<not> prefix project_prefix s then (Some SenderNotWiredError, [])
                  else (case ob_write be of
                     None \<Rightarrow> (Some SenderNotWiredError, [])
                   | Some mwr \<Rightarrow> send_backup (cl_sha256 env) (ob_writeImmutable be) mwr job (drop (length project_prefix) s)))
               else immutable_calls (sendObservationJob (cl_sha256 env) (cl_iso env) (cl_utc env) (ob_writeImmutable be) job s)))"

section \<open>Delivery targets\<close>

text \<open>\<open>auth\<close> is the printed reference of the credential, when there is one.\<close>

definition target_text :: "string \<Rightarrow> json option \<Rightarrow> string \<Rightarrow> string" where
  "target_text url auth scp = url @ nl # (case auth of None \<Rightarrow> ''-'' | Some a \<Rightarrow> stringify a) @ nl # scp"

definition targetFingerprint :: "(string \<Rightarrow> string) \<Rightarrow> string \<Rightarrow> json option \<Rightarrow> string \<Rightarrow> string" where
  "targetFingerprint sha256 url auth scp = sha256 (target_text url auth scp)"

text \<open>What a session pins on the jobs it takes, and what it expects of the jobs it delivers.\<close>

definition session_targetFor :: "(string \<Rightarrow> string) \<Rightarrow> (string \<times> json option) option \<Rightarrow> string \<Rightarrow> string option" where
  "session_targetFor sha256 cfg scp = map_option (\<lambda>(url, auth). targetFingerprint sha256 url auth scp) cfg"

definition session_expectedTarget :: "(string \<Rightarrow> string) \<Rightarrow> (string \<times> json option) option \<Rightarrow> string option \<Rightarrow> OutboxJob \<Rightarrow> string option" where
  "session_expectedTarget sha256 cfg scp job =
     map_option (\<lambda>(url, auth). targetFingerprint sha256 url auth
        (if scope job = ''personal'' then ''personal'' else default_to (scope job) scp)) cfg"

section \<open>What is delivered\<close>

lemma payload_source_typed:
  assumes "ob_sourceEntryIds p = map JStr es" "ob_branchId p = map_option JStr b"
  shows "payload_source p = source_json \<lparr>sessionId = ob_sessionId p, branchId = b, entryIds = es\<rparr>"
  using assms by (cases b) (simp_all add: payload_source_def source_json_def opt_member_def)

text \<open>An observation of a checked payload with string ids is written once and reads back as an active record.\<close>

lemma observation_reads_back:
  assumes "parseObservationPayload job = Inr p" "ob_sourceEntryIds p = map JStr es" "ob_branchId p = map_option JStr b"
    and "\<forall>e \<in> set es. e \<noteq> ''''" "b \<noteq> Some ''''" "ob_sessionId p \<noteq> ''''" "json_wf (JArr (ob_observations p))"
    and "opid_ok (opId job)" "0 \<le> createdAt job" "createdAt job \<le> MAX_TIME" "check_scope scp = Inr ()" "fm_value scp"
    and "hex_digest h" "iso_dates isoString date"
  obtains path doc rec where
    "sendObservationJob h isoString utc wr job scp = (left (wr (path, doc, opId job)), [(path, doc, opId job)])"
    "parseStoredRecord date doc = ReadOk rec" "fm_scope (frontmatter rec) = scp" "fm_status (frontmatter rec) = Active"
    "fm_type (frontmatter rec) = TObservation" "parseDataBlock (body rec) = Some (JArr (ob_observations p))"
    "pathWithinMemoryNamespace path scp"
proof -
  let ?i = "take 16 (h (kind_text KObservation @ ''/'' @ opId job))" and ?t = "createdAt job"
  let ?src = "\<lparr>sessionId = ob_sessionId p, branchId = b, entryIds = es\<rparr>"
  let ?rec = "stored ?i TObservation scp (isoString ?t) [?src] Active (JArr (ob_observations p))"
  have id: "ID_GRAMMAR ?i" by (rule take_hex_id [OF assms(13)])
  then obtain path where path: "memoryRecordPath scp Observation ?i (Some (utc ?t)) = Inr path"
    using assms(11) that by (cases "utc ?t") (simp add: memoryRecordPath_def validateId_def Let_def)
  have "storable date ?i scp (isoString ?t)"
    using id assms(11,12,14) by (simp add: storable_def iso_dates_def)
  moreover have "\<forall>s \<in> set [?src]. source_wf s" using assms(4-6) by (simp add: source_wf_def)
  ultimately obtain doc where doc: "serializeStoredRecord ?rec = Inr doc" "parseStoredRecord date doc = ReadOk ?rec"
    "parseDataBlock (body ?rec) = Some (JArr (ob_observations p))"
    using stored_reads [of date ?i scp "isoString ?t" "[?src]" TObservation "JArr (ob_observations p)" Active] assms(7) by auto
  let ?raw = "\<lparr>frontmatter = \<lparr>fm_schemaVersion = 1, fm_id = ?i, fm_type = TObservation, fm_scope = scp, fm_created = isoString ?t,
      fm_sources = [], fm_model = None, fm_status = Active, fm_to = None, fm_from = None, fm_channel = None, fm_ttl = None\<rparr>,
      body = serializeObservationBody (ob_observations p)\<rparr>"
  have "serialize_raw (?raw, JArr [payload_source p]) = Inr doc"
    using doc(1) serialize_raw_typed [of ?raw "[?src]"]
    by (simp add: payload_source_typed [OF assms(2,3)] stored_def serializeObservationBody_def serializeDataBlock_def)
  then have "sendObservationJob h isoString utc wr job scp = (left (wr (path, doc, opId job)), [(path, doc, opId job)])"
    using assms(1,8-10) path
    by (simp add: sendObservationJob_def buildObservationRecord_def deriveRecordId_def left_def split: sum.split)
  from that [OF this doc(2) _ _ _ doc(3)] memoryRecordPath_contained [OF path] show ?thesis by (simp add: stored_def)
qed

section \<open>Where a delivery writes\<close>

text \<open>The namespace a job may write to: its channel, the personal memory, the backup tree or the memory of the scope.\<close>

definition own_namespace :: "clock_env \<Rightarrow> string option \<Rightarrow> OutboxJob \<Rightarrow> string \<Rightarrow> bool" where
  "own_namespace env scp job path =
     (if kind job = KBoardMessage
      then (case parseBoardPayload (cl_date env) job of Inl _ \<Rightarrow> False | Inr p \<Rightarrow> pathWithinBoardChannel path (bp_channel p) = Inr True)
      else if scope job = ''personal'' then kind job = KObservation \<and> pathWithinMemoryNamespace path ''personal''
      else (case scp of
              None \<Rightarrow> False
            | Some s \<Rightarrow>
                if kind job = KBackupChunk
                then prefix project_prefix s \<and> pathWithinBackupTree path (drop (length project_prefix) s) = Inr True
                else pathWithinMemoryNamespace path s))"

lemma observation_path:
  assumes "sendObservationJob sha256 isoString utc wr job scp = (res, calls)" "c \<in> set calls"
  shows "calls = [c] \<and> snd (snd c) = opId job \<and> pathWithinMemoryNamespace (fst c) scp"
  using assms memoryRecordPath_contained
  by (auto simp: sendObservationJob_def buildObservationRecord_def split: sum.splits option.splits prod.splits if_splits)

lemma deliver_record_path:
  assumes "deliver_record wr op built = (res, calls)" "c \<in> set calls"
  shows "calls = [c] \<and> snd (snd c) = op \<and> (\<exists>rec. built = Inr (rec, fst c))"
  using assms by (auto simp: deliver_record_def split: sum.splits prod.splits)

lemma reflection_record_path: "buildReflectionRecord sha256 date utc p scp = Inr (rec, path) \<Longrightarrow> pathWithinMemoryNamespace path scp"
  using memoryRecordPath_contained by (auto simp: buildReflectionRecord_def Let_def split: sum.splits)

lemma proposal_record_path: "buildProposalRecord sha256 utc p scp = Inr (rec, path) \<Longrightarrow> pathWithinMemoryNamespace path scp"
  using memoryRecordPath_contained by (auto simp: buildProposalRecord_def Let_def split: sum.splits)

lemma reflection_path:
  assumes "sendReflectionJob sha256 date utc wr job scp = (res, calls)" "c \<in> set calls"
  shows "calls = [c] \<and> snd (snd c) = opId job \<and> pathWithinMemoryNamespace (fst c) scp"
proof -
  obtain p where "deliver_record wr (opId job) (buildReflectionRecord sha256 date utc p scp) = (res, calls)"
    using assms by (auto simp: sendReflectionJob_def split: sum.splits if_splits)
  from deliver_record_path [OF this assms(2)] reflection_record_path show ?thesis by blast
qed

lemma proposal_path:
  assumes "sendProposalJob sha256 date utc wr job scp = (res, calls)" "c \<in> set calls"
  shows "calls = [c] \<and> snd (snd c) = opId job \<and> pathWithinMemoryNamespace (fst c) scp"
proof -
  obtain p where "deliver_record wr (opId job) (buildProposalRecord sha256 utc p scp) = (res, calls)"
    using assms by (auto simp: sendProposalJob_def split: sum.splits)
  from deliver_record_path [OF this assms(2)] proposal_record_path show ?thesis by blast
qed

lemma board_path:
  assumes "sendBoardJob sha256 isoString date wr job = (res, calls)" "c \<in> set calls" "hex_digest sha256"
  shows "calls = [c] \<and> snd (snd c) = opId job
    \<and> (\<exists>p. parseBoardPayload date job = Inr p \<and> pathWithinBoardChannel (fst c) (bp_channel p) = Inr True)"
proof -
  have "calls \<noteq> []" using assms(2) by auto
  then obtain p path doc where p: "parseBoardPayload date job = Inr p" "calls = [(path, doc, opId job)]"
    "path = deriveMsgPath sha256 (bp_channel p) (bp_from p) (opId job)"
    using board_delivery_writes_own_slot [OF assms(1)] by blast
  have "ID_GRAMMAR (bp_channel p)"
    using p(1) by (auto simp: parseBoardPayload_def Let_def is_ok_def validateId_def split: option.splits json.splits if_splits sum.splits)
  then have "boardMessagePath (bp_channel p) (deriveMsgId sha256 (bp_channel p) (bp_from p) (opId job)) = Inr path"
    using p(3) deriveMsgId_grammar [OF assms(3)] by (simp add: boardMessagePath_def validateId_def deriveMsgPath_def)
  from boardMessagePath_contained [OF this] p assms(2) show ?thesis by auto
qed

lemma backupChunkPath_inside: "backupChunkPath pid sess q = Inr p \<Longrightarrow> pathWithinBackupTree p pid = Inr True"
proof -
  assume a: "backupChunkPath pid sess q = Inr p"
  have ok: "validateProjectId pid = Inr pid" "ID_GRAMMAR sess" by (rule backupChunkPath_Inr [OF a])+
  define d where "d = pad_start 6 (CHR ''0'') (show_nat (nat q))"
  have p: "p = (''backup/'' @ pid) @ slash # (sess @ slash # d @ ''.md'')"
    using a ok by (auto simp: backupChunkPath_def d_def validateId_def split: if_splits sum.splits)
  have n: "slash \<notin> set sess" "slash \<notin> set (d @ ''.md'')"
    using ID_GRAMMAR_safe [OF ok(2)] digits_no_slash by (auto simp: d_def)
  have "plain (d @ ''.md'')" unfolding d_def by (rule plain_md) (use plain_digits in \<open>auto simp: plain_def\<close>)
  then have "''..'' \<notin> set (split_on slash (sess @ slash # d @ ''.md''))"
    using ID_GRAMMAR_plain [OF ok(2)] n by (auto simp: split_on_slash_append split_on_no_sep plain_def)
  then show ?thesis unfolding p by (rule backup_ns.inside_built [OF ok(1)])
qed

lemma backupManifestPath_inside: "backupManifestPath pid sess = Inr p \<Longrightarrow> pathWithinBackupTree p pid = Inr True"
proof -
  assume a: "backupManifestPath pid sess = Inr p"
  have ok: "validateProjectId pid = Inr pid" "ID_GRAMMAR sess"
    and p: "p = (''backup/'' @ pid) @ slash # (sess @ slash # ''manifest.md'')"
    using a validateProjectId_Inr by (auto simp: backupManifestPath_def validateId_def split: if_splits sum.splits)
  have "split_on slash sess = [sess]" "split_on slash ''manifest.md'' = [''manifest.md'']"
    by (rule split_on_no_sep, use ID_GRAMMAR_safe(2) [OF ok(2)] in simp)+
  then have "''..'' \<notin> set (split_on slash (sess @ slash # ''manifest.md''))"
    using ID_GRAMMAR_plain [OF ok(2)] by (simp only: split_on_slash_append) (auto simp: plain_def)
  then show ?thesis unfolding p by (rule backup_ns.inside_built [OF ok(1)])
qed

lemma backup_path:
  assumes "send_backup sha256 wr mwr job pid = (res, calls)" "c \<in> set calls"
  shows "calls = [c] \<and> snd (snd (write_of c)) = opId job \<and> pathWithinBackupTree (fst (write_of c)) pid = Inr True"
  using assms backupChunkPath_inside backupManifestPath_inside
  by (auto simp: send_backup_def sendBackupJob_def split: sum.splits backup_write.splits BackupPayload.splits option.splits if_splits)

text \<open>The three senders of a project scope, backups apart.\<close>

lemma project_calls:
  assumes "createObservationSender env (Some s) (Inr (Some be)) job = (res, calls)"
    and "kind job \<noteq> KBoardMessage" "scope job \<noteq> ''personal''" "kind job \<noteq> KBackupChunk"
  shows "\<exists>r cs. immutable_calls (r, cs) = (res, calls)
    \<and> (\<forall>w \<in> set cs. cs = [w] \<and> snd (snd w) = opId job \<and> pathWithinMemoryNamespace (fst w) s)"
proof -
  let ?wr = "ob_writeImmutable be"
  consider (r) "kind job = KReflection" | (p) "kind job = KProposal" | (o) "kind job \<noteq> KReflection" "kind job \<noteq> KProposal" by blast
  then show ?thesis
  proof cases
    case r
    obtain x cs where x: "sendReflectionJob (cl_sha256 env) (cl_date env) (cl_utc env) ?wr job s = (x, cs)" by fastforce
    then have "immutable_calls (x, cs) = (res, calls)" using assms r by (simp add: createObservationSender_def)
    with reflection_path [OF x] show ?thesis by blast
  next
    case p
    obtain x cs where x: "sendProposalJob (cl_sha256 env) (cl_date env) (cl_utc env) ?wr job s = (x, cs)" by fastforce
    then have "immutable_calls (x, cs) = (res, calls)" using assms p by (simp add: createObservationSender_def)
    with proposal_path [OF x] show ?thesis by blast
  next
    case o
    obtain x cs where x: "sendObservationJob (cl_sha256 env) (cl_iso env) (cl_utc env) ?wr job s = (x, cs)" by fastforce
    then have "immutable_calls (x, cs) = (res, calls)" using assms o by (simp add: createObservationSender_def)
    with observation_path [OF x] show ?thesis by blast
  qed
qed

lemma sender_in_own:
  assumes "createObservationSender env scp opened job = (res, calls)" "hex_digest (cl_sha256 env)" "c \<in> set calls"
  shows "calls = [c] \<and> snd (snd (write_of c)) = opId job \<and> own_namespace env scp job (fst (write_of c))
    \<and> (\<forall>w. c = Mutable w \<longrightarrow> kind job = KBackupChunk)"
proof -
  obtain be where be: "opened = Inr (Some be)"
    using assms(1,3) by (auto simp: createObservationSender_def split: sum.splits option.splits)
  have imm: "\<exists>w. c = Immutable w \<and> w \<in> set cs \<and> (cs = [w] \<longrightarrow> calls = [c])"
    if "immutable_calls (r, cs) = (res, calls)" for r cs
    using that assms(3) by (auto simp: immutable_calls_def)
  consider (board) "kind job = KBoardMessage" | (personal) "kind job \<noteq> KBoardMessage" "scope job = ''personal''"
    | (project) "kind job \<noteq> KBoardMessage" "scope job \<noteq> ''personal''" by blast
  then show ?thesis
  proof cases
    case board
    obtain r cs where r: "sendBoardJob (cl_sha256 env) (cl_iso env) (cl_date env) (ob_writeImmutable be) job = (r, cs)" by fastforce
    then have "immutable_calls (r, cs) = (res, calls)" using assms(1) be board by (simp add: createObservationSender_def)
    from imm [OF this] board_path [OF r _ assms(2)] board show ?thesis by (fastforce simp: own_namespace_def)
  next
    case personal
    then have k: "kind job = KObservation" using assms(1,3) be by (auto simp: createObservationSender_def split: if_splits)
    obtain r cs where r: "sendObservationJob (cl_sha256 env) (cl_iso env) (cl_utc env) (ob_writeImmutable be) job ''personal'' = (r, cs)" by fastforce
    then have "immutable_calls (r, cs) = (res, calls)" using assms(1) be personal k by (simp add: createObservationSender_def)
    from imm [OF this] observation_path [OF r] personal k show ?thesis by (fastforce simp: own_namespace_def)
  next
    case project
    then obtain s where s: "scp = Some s" using assms(1,3) be by (auto simp: createObservationSender_def split: option.splits)
    show ?thesis
    proof (cases "kind job = KBackupChunk")
      case True
      then obtain mwr where b: "prefix project_prefix s"
        "send_backup (cl_sha256 env) (ob_writeImmutable be) mwr job (drop (length project_prefix) s) = (res, calls)"
        using assms(1,3) be s project by (auto simp: createObservationSender_def split: if_splits option.splits)
      from backup_path [OF b(2) assms(3)] b(1) True project s show ?thesis by (simp add: own_namespace_def)
    next
      case False
      obtain r cs where i: "immutable_calls (r, cs) = (res, calls)"
        and "\<And>w. w \<in> set cs \<Longrightarrow> cs = [w] \<and> snd (snd w) = opId job \<and> pathWithinMemoryNamespace (fst w) s"
        using project_calls [OF assms(1) [unfolded be s] project False] by blast
      with imm [OF i] False project s show ?thesis by (fastforce simp: own_namespace_def)
    qed
  qed
qed

text \<open>
  C37. Whatever job is delivered, whatever the session scope and the backend answer: there is at most one
  write, it carries the operation id of the job, and it lies in the namespace the job may write
  to: the channel of its checked payload, the personal memory (observations only), the backup
  tree of the project or the memory of the session scope. Only a backup job rewrites a page.
\<close>

theorem sender_writes_in_own_namespace:
  assumes "createObservationSender env scp opened job = (res, calls)" "hex_digest (cl_sha256 env)" "c \<in> set calls"
  shows "calls = [c] \<and> snd (snd (write_of c)) = opId job \<and> own_namespace env scp job (fst (write_of c))
    \<and> (\<forall>w. c = Mutable w \<longrightarrow> kind job = KBackupChunk)"
  by (rule sender_in_own [OF assms])

section \<open>The pin of a session\<close>

lemma target_text_inj:
  assumes "target_text url auth scp = target_text url' auth' scp'" "nl \<notin> set url" "nl \<notin> set url'"
  shows "url' = url \<and> scp' = scp"
proof -
  define f where "f a = (case a of None \<Rightarrow> ''-'' | Some v \<Rightarrow> stringify v)" for a
  have n: "nl \<notin> set (f a)" for a by (simp add: f_def stringify_no_nl split: option.split)
  have t: "target_text u a c = u @ nl # f a @ nl # c" for u a c by (simp add: target_text_def f_def)
  have cut: "takeWhile (\<lambda>c. c \<noteq> nl) (u @ nl # r) = u \<and> dropWhile (\<lambda>c. c \<noteq> nl) (u @ nl # r) = nl # r" if "nl \<notin> set u" for u r
    using that by (induction u) auto
  have "url' = url \<and> f auth @ nl # scp = f auth' @ nl # scp'"
    using assms(1) cut [OF assms(2)] cut [OF assms(3)] unfolding t by (metis list.inject)
  then show ?thesis using cut [OF n, of auth scp] cut [OF n, of auth' scp'] by (metis list.inject)
qed

text \<open>A session without a configuration has no backend.\<close>

definition session_open :: "(string \<times> json option) option \<Rightarrow> exn + ObservationBackend option \<Rightarrow> exn + ObservationBackend option" where
  "session_open cfg opened = (case cfg of None \<Rightarrow> Inr None | Some _ \<Rightarrow> opened)"

lemma jobs_ignore_target:
  "sendBoardJob sha256 isoString date wr (job\<lparr>target := t\<rparr>) = sendBoardJob sha256 isoString date wr job"
  "sendObservationJob sha256 isoString utc wr (job\<lparr>target := t\<rparr>) s = sendObservationJob sha256 isoString utc wr job s"
  "sendReflectionJob sha256 date utc wr (job\<lparr>target := t\<rparr>) s = sendReflectionJob sha256 date utc wr job s"
  "sendProposalJob sha256 date utc wr (job\<lparr>target := t\<rparr>) s = sendProposalJob sha256 date utc wr job s"
  "send_backup sha256 wr mwr (job\<lparr>target := t\<rparr>) pid = send_backup sha256 wr mwr job pid"
  by (simp_all add: sendBoardJob_def parseBoardPayload_def sendObservationJob_def parseObservationPayload_def
      sendReflectionJob_def sendProposalJob_def send_backup_def sendBackupJob_def parseBackupPayload_def
      cong: option.case_cong json.case_cong sum.case_cong prod.case_cong if_cong backup_write.case_cong BackupPayload.case_cong)

lemma sender_ignores_target: "createObservationSender env scp opened (job\<lparr>target := t\<rparr>) = createObservationSender env scp opened job"
  by (simp add: createObservationSender_def jobs_ignore_target split: sum.split option.split)

lemma own_namespace_scope:
  assumes "own_namespace env scp job path" "scope job = ''personal'' \<or> default_to (scope job) scp = scope job"
  shows "own_namespace env (Some (scope job)) job path"
proof -
  have "scp = Some (scope job) \<or> kind job = KBoardMessage \<or> scope job = ''personal''"
    using assms by (cases scp) (simp_all add: own_namespace_def split: if_splits)
  then show ?thesis using assms(1) by (elim disjE) (simp_all add: own_namespace_def)
qed

text \<open>
  C38. A retained job is never rerouted: a job that was pinned when it was taken, and that a later
  session, with any configuration and scope, lets pass the check of its worker, is written, if
  it is written at all, through the same endpoint and into the namespace of its own scope.
  No two target texts are assumed to share their digest.
\<close>

theorem retained_job_is_not_rerouted:
  assumes "target job = session_targetFor (cl_sha256 env) (Some (url, auth)) (scope job)"
    and "expectedTarget w = Some (session_expectedTarget (cl_sha256 env) cfg scp)" "\<not> target_mismatch w job"
    and "createObservationSender env scp (session_open cfg opened) job = (res, calls)" "c \<in> set calls"
    and "hex_digest (cl_sha256 env)" "nl \<notin> set url" "\<forall>u a. cfg = Some (u, a) \<longrightarrow> nl \<notin> set u"
    and "\<forall>u a s. cl_sha256 env (target_text u a s) = cl_sha256 env (target_text url auth (scope job))
      \<longrightarrow> target_text u a s = target_text url auth (scope job)"
  shows "map_option fst cfg = Some url \<and> own_namespace env (Some (scope job)) job (fst (write_of c))"
proof -
  obtain u a where cfg: "cfg = Some (u, a)"
    using assms(4,5) by (cases cfg) (auto simp: session_open_def createObservationSender_def)
  let ?s = "if scope job = ''personal'' then ''personal'' else default_to (scope job) scp"
  have "cl_sha256 env (target_text u a ?s) = cl_sha256 env (target_text url auth (scope job))"
    using assms(1-3) by (simp add: target_mismatch_def cfg session_targetFor_def session_expectedTarget_def targetFingerprint_def)
  with assms(9) have "target_text u a ?s = target_text url auth (scope job)" by blast
  then have eq: "u = url" "?s = scope job"
    using target_text_inj [of url auth "scope job" u a ?s] assms(7,8) cfg by auto
  have own: "own_namespace env scp job (fst (write_of c))"
    using sender_in_own [OF assms(4,6,5)] by blast
  have "scope job = ''personal'' \<or> default_to (scope job) scp = scope job"
    using eq(2) by (cases "scope job = ''personal''") simp_all
  from own_namespace_scope [OF own this] eq(1) cfg show ?thesis by simp
qed

section \<open>Instances\<close>

definition note_job :: "string \<Rightarrow> IdempotentKind \<Rightarrow> OutboxJob" where
  "note_job scp k = \<lparr>seq = 1, schemaVersion = 1, kind = k, scope = scp, opId = replicate 36 (CHR ''a''), idempotencyKey = ''k'',
     payload = Some (JObj [(''opId'', JStr (replicate 36 (CHR ''a''))), (''sessionId'', JStr ''s1''), (''sourceEntryIds'', JArr [JStr ''e1'']),
       (''observations'', JArr [JObj [(''sourceEntryIds'', JArr [JStr ''e1'']), (''statement'', JStr ''tea''), (''uncertainty'', JStr ''low'')]])]),
     target = None, attempts = 0, nextAttemptAt = 0, createdAt = 0, status = Pending, lastError = None, ackedAt = None\<rparr>"

definition example_clock :: "(string \<Rightarrow> string) \<Rightarrow> clock_env" where
  "example_clock h = \<lparr>cl_sha256 = h, cl_iso = (\<lambda>_. ''T''), cl_date = always, cl_utc = example_utc\<rparr>"

definition good_backend :: ObservationBackend where
  "good_backend = \<lparr>ob_writeImmutable = (\<lambda>_. Inr False), ob_write = None\<rparr>"

fun one_write :: "exn option \<times> sent_write list \<Rightarrow> write_call option" where
  "one_write (None, [Immutable c]) = Some c"
| "one_write _ = None"

lemma one_write_Some: "one_write r = Some c \<longleftrightarrow> r = (None, [Immutable c])"
  by (cases r rule: one_write.cases) auto

theorem sender_writes_in_own_namespace_witness:
  "\<exists>path doc. createObservationSender (example_clock toy_sha) None (Inr (Some good_backend)) (note_job ''personal'' KObservation)
      = (None, [Immutable (path, doc, replicate 36 (CHR ''a''))]) \<and> pathWithinMemoryNamespace path ''personal''"
proof -
  let ?job = "note_job ''personal'' KObservation"
  have "one_write (createObservationSender (example_clock toy_sha) None (Inr (Some good_backend)) ?job) \<noteq> None" by code_simp
  then obtain c where c: "createObservationSender (example_clock toy_sha) None (Inr (Some good_backend)) ?job = (None, [Immutable c])"
    by (auto simp: one_write_Some)
  have "hex_digest (cl_sha256 (example_clock toy_sha))" by (simp add: example_clock_def toy_digest)
  from sender_writes_in_own_namespace [OF c this, of "Immutable c"]
  have "snd (snd c) = opId ?job" "own_namespace (example_clock toy_sha) None ?job (fst c)" by simp_all
  with c show ?thesis by (cases c) (auto simp: note_job_def own_namespace_def)
qed

definition one_digest :: "string \<Rightarrow> string \<Rightarrow> string" where
  "one_digest s t = replicate 64 (if t = s then CHR ''1'' else CHR ''0'')"

theorem retained_job_is_not_rerouted_witness:
  "\<exists>path doc. snd (createObservationSender (example_clock (one_digest (target_text ''u'' None ''project/h/r''))) (Some ''project/h/r'')
        (session_open (Some (''u'', None)) (Inr (Some good_backend))) (note_job ''project/h/r'' KObservation))
      = [Immutable (path, doc, replicate 36 (CHR ''a''))] \<and> pathWithinMemoryNamespace path ''project/h/r''"
proof -
  let ?h = "one_digest (target_text ''u'' None ''project/h/r'')"
  let ?env = "example_clock ?h" and ?cfg = "Some (''u'', None) :: (string \<times> json option) option"
  let ?job = "(note_job ''project/h/r'' KObservation)\<lparr>target := session_targetFor ?h ?cfg ''project/h/r''\<rparr>"
  let ?w = "\<lparr>maxAttempts = 1, baseDelayMs = 1, capDelayMs = 1, jitterRatio = 0, w_gate = None,
    expectedTarget = Some (session_expectedTarget ?h ?cfg (Some ''project/h/r''))\<rparr> :: unit OutboxWorker"
  let ?send = "\<lambda>j. createObservationSender ?env (Some ''project/h/r'') (session_open ?cfg (Inr (Some good_backend))) j"
  have same: "?send ?job = ?send (note_job ''project/h/r'' KObservation)"
    by (rule sender_ignores_target)
  have "one_write (?send (note_job ''project/h/r'' KObservation)) \<noteq> None" by code_simp
  then obtain c where c: "?send ?job = (None, [Immutable c])" unfolding same by (auto simp: one_write_Some)
  have d: "hex_digest (cl_sha256 ?env)"
    by (simp add: example_clock_def one_digest_def hex_digest_def is_hex_def is_digit_def list_all_iff)
  have "target ?job = session_targetFor (cl_sha256 ?env) (Some (''u'', None)) (scope ?job)"
    by (simp add: example_clock_def note_job_def)
  moreover have "\<not> target_mismatch ?w ?job"
    by (simp add: target_mismatch_def session_targetFor_def session_expectedTarget_def note_job_def)
  moreover have "\<forall>u a s. cl_sha256 ?env (target_text u a s) = cl_sha256 ?env (target_text ''u'' None (scope ?job))
      \<longrightarrow> target_text u a s = target_text ''u'' None (scope ?job)"
    by (auto simp: example_clock_def one_digest_def note_job_def split: if_splits)
  ultimately have "own_namespace ?env (Some (scope ?job)) ?job (fst c)"
    using retained_job_is_not_rerouted [of ?job ?env "''u''" None ?w ?cfg "Some ''project/h/r''" "Inr (Some good_backend)" None "[Immutable c]" "Immutable c"]
      c(1) d by (simp add: example_clock_def)
  moreover have "snd (snd c) = opId ?job"
    using sender_in_own [of ?env "Some ''project/h/r''" "session_open ?cfg (Inr (Some good_backend))" ?job None "[Immutable c]" "Immutable c"]
      c d by simp
  ultimately show ?thesis using c unfolding same by (cases c) (auto simp: note_job_def own_namespace_def)
qed

end
