(* ===== verification/ExplicitWrites.thy ===== *)
theory ExplicitWrites
  imports Sender Idempotency
begin

text \<open>
  The writes a user or an agent asks for: the personal note (commands/personal-note.ts and its
  command in commands/registration.ts) and the send tool of the board (board/tools.ts). Both
  redact first and then enqueue a job; what is shown to the user and the audit record are left
  out. The answer of a confirmation is an argument.
\<close>

section \<open>The job of a personal note\<close>

definition PERSONAL_SCOPE :: string where "PERSONAL_SCOPE = ''personal''"
definition PERSONAL_STATEMENT_MAX_CHARS :: int where "PERSONAL_STATEMENT_MAX_CHARS = 8000"

record ExplicitPersonalInput =
  xi_sessionId :: string
  xi_branchId :: "string option"
  xi_entryIds :: "string list option"
  xi_statement :: string
  xi_opId :: "string option"

datatype note_error = EmptyStatement | TooLong | ReservedMarker | BadEntryIds | NoSession

definition note_branch :: "ExplicitPersonalInput \<Rightarrow> string option" where
  "note_branch i = (case xi_branchId i of None \<Rightarrow> None | Some b \<Rightarrow> if b = '''' then None else Some b)"

definition note_observation :: "string list \<Rightarrow> string \<Rightarrow> json" where
  "note_observation es st = JObj [(''sourceEntryIds'', JArr (map JStr es)), (''statement'', JStr st), (''uncertainty'', JStr ''low'')]"

definition note_payload :: "string \<Rightarrow> ExplicitPersonalInput \<Rightarrow> string list \<Rightarrow> string \<Rightarrow> json" where
  "note_payload op i es st = JObj ([(''opId'', JStr op), (''trigger'', JStr ''manual''), (''sessionId'', JStr (xi_sessionId i))]
     @ opt_member ''branchId'' (map_option JStr (note_branch i))
     @ [(''inputBudgetTokens'', JNum 0), (''outputBudgetTokens'', JNum 0), (''sourceEntryIds'', JArr (map JStr es)),
        (''observations'', JArr [note_observation es st])])"

definition note_key :: "(string \<Rightarrow> string) \<Rightarrow> ExplicitPersonalInput \<Rightarrow> string list \<Rightarrow> string" where
  "note_key sha256 i es = idempotencyKey sha256
     \<lparr>id_kind = KObservation, id_scope = PERSONAL_SCOPE,
      id_sources = [\<lparr>sessionId = xi_sessionId i, branchId = note_branch i, entryIds = es\<rparr>],
      id_channel = None, id_tokens = Some [''explicit-personal'']\<rparr>"

definition buildExplicitPersonalEnqueue :: "(string \<Rightarrow> string) \<Rightarrow> string \<Rightarrow> ExplicitPersonalInput \<Rightarrow> note_error + EnqueueInput" where
  "buildExplicitPersonalEnqueue sha256 uuid i =
     (let st = trim (xi_statement i); es = default_to [] (xi_entryIds i); op = default_to uuid (xi_opId i) in
      if st = '''' then Inl EmptyStatement
      else if int (length st) > PERSONAL_STATEMENT_MAX_CHARS then Inl TooLong
      else if containsReservedMarker st then Inl ReservedMarker
      else if \<not> list_all ID_GRAMMAR es then Inl BadEntryIds
      else if xi_sessionId i = '''' then Inl NoSession
      else Inr \<lparr>in_kind = KObservation, in_scope = PERSONAL_SCOPE, in_key = note_key sha256 i es,
        in_payload = Some (note_payload op i es st), in_opId = Some op, in_target = None\<rparr>)"

section \<open>The command\<close>

text \<open>\<open>split(/\s+/).filter(Boolean)\<close>\<close>

fun split_ws :: "string \<Rightarrow> string \<Rightarrow> string list" where
  "split_ws acc [] = [acc]"
| "split_ws acc (c # cs) = (if is_space c then acc # split_ws [] cs else split_ws (acc @ [c]) cs)"

definition ws_words :: "string \<Rightarrow> string list" where
  "ws_words s = filter (\<lambda>w. w \<noteq> []) (split_ws [] s)"

definition comma_ids :: "string \<Rightarrow> string list" where
  "comma_ids s = filter (\<lambda>w. w \<noteq> []) (map trim (split_on (CHR '','') s))"

text \<open>The entry ids and the words of the statement.\<close>

fun note_words :: "string list \<Rightarrow> string list \<times> string list" where
  "note_words [] = ([], [])"
| "note_words (w # ws) =
     (if w = ''--entry'' then
        (case ws of [] \<Rightarrow> ([], []) | v # vs \<Rightarrow> (case note_words vs of (es, st) \<Rightarrow> (comma_ids v @ es, st)))
      else (case strip_prefix ''--entry='' w of
              Some v \<Rightarrow> (case note_words ws of (es, st) \<Rightarrow> (comma_ids v @ es, st))
            | None \<Rightarrow> (case note_words ws of (es, st) \<Rightarrow> (es, w # st))))"

text \<open>
  What the command reads: the configuration gate, the user interface and its answer to the
  preview of a statement, the session id, the redactor, and what the outbox needs.
\<close>

record note_env =
  nv_configured :: bool
  nv_allowPersonal :: bool
  nv_hasUI :: bool
  nv_confirm :: "string \<Rightarrow> bool"
  nv_session :: "string option"
  nv_redact :: "string \<Rightarrow> string + string"
  nv_secret :: "string \<Rightarrow> bool"
  nv_targetFor :: "string \<Rightarrow> string option"
  nv_sha256 :: "string \<Rightarrow> string"
  nv_uuid :: string
  nv_now :: ms
  nv_io :: io

datatype note_result =
    NotConfigured | Disabled | Usage | HeldUnclassified | Cancelled | RefusedHeadless
  | NoteRefused note_error | NotSaved outbox_error | Saved OutboxJob

text \<open>The enqueue on the store of the session or, without one, on a store opened for it and closed again.\<close>

definition enqueue_note :: "note_env \<Rightarrow> EnqueueInput \<Rightarrow> DurableOutbox option \<Rightarrow> outbox_fs \<Rightarrow> note_result \<times> DurableOutbox option \<times> outbox_fs" where
  "enqueue_note nv e store fs =
     (let result = (\<lambda>r. case r of Inl x \<Rightarrow> NotSaved x | Inr j \<Rightarrow> Saved j) in
      case store of
        Some st \<Rightarrow>
          (case enqueue (nv_secret nv) (nv_targetFor nv) (nv_now nv) (nv_uuid nv) e (nv_io nv) st fs of
             (r, st1, fs1) \<Rightarrow> (result r, Some st1, fs1))
      | None \<Rightarrow>
          (case open_outbox (nv_now nv) DEFAULT_LIMITS fs of
             (Inl x, fs1) \<Rightarrow> (NotSaved x, None, fs1)
           | (Inr st, fs1) \<Rightarrow>
               (case enqueue (nv_secret nv) (\<lambda>_. None) (nv_now nv) (nv_uuid nv) e (nv_io nv) st fs1 of
                  (r, st1, fs2) \<Rightarrow> (result r, None, snd (close_outbox st1 fs2)))))"

definition personal_note :: "note_env \<Rightarrow> string \<Rightarrow> DurableOutbox option \<Rightarrow> outbox_fs \<Rightarrow> note_result \<times> DurableOutbox option \<times> outbox_fs" where
  "personal_note nv args store fs =
     (if \<not> nv_configured nv then (NotConfigured, store, fs)
      else if \<not> nv_allowPersonal nv then (Disabled, store, fs)
      else
        (let parts = ws_words (trim args);
             (es, ws) = note_words (filter (\<lambda>p. p \<noteq> ''--yes'') parts);
             st = trim (join_with '' '' ws)
         in if st = '''' then (Usage, store, fs)
            else (case nv_redact nv st of
                    Inl _ \<Rightarrow> (HeldUnclassified, store, fs)
                  | Inr red \<Rightarrow>
                      if nv_hasUI nv \<and> \<not> nv_confirm nv red then (Cancelled, store, fs)
                      else if \<not> nv_hasUI nv \<and> ''--yes'' \<notin> set parts then (RefusedHeadless, store, fs)
                      else (case buildExplicitPersonalEnqueue (nv_sha256 nv) (nv_uuid nv)
                              \<lparr>xi_sessionId = default_to ''pending'' (nv_session nv), xi_branchId = None, xi_entryIds = Some es,
                               xi_statement = red, xi_opId = None\<rparr> of
                              Inl x \<Rightarrow> (NoteRefused x, store, fs)
                            | Inr e \<Rightarrow> enqueue_note nv e store fs))))"

section \<open>The send tool of the board\<close>

record board_tool =
  bt_ready :: bool
  bt_private :: bool
  bt_redact :: "string \<Rightarrow> string + string"
  bt_secret :: "string \<Rightarrow> bool"
  bt_targetFor :: "string \<Rightarrow> string option"
  bt_sha256 :: "string \<Rightarrow> string"
  bt_iso :: "ms \<Rightarrow> string"
  bt_created :: ms

record send_params =
  sp_channel :: string
  sp_from :: string
  sp_to :: string
  sp_body :: string
  sp_ttl :: "int option"

text \<open>The bounds of the parameters' schema, which the host checks before the call.\<close>

definition params_ok :: "send_params \<Rightarrow> bool" where
  "params_ok p =
     (list_all (\<lambda>s. s \<noteq> '''' \<and> length s \<le> 64) [sp_channel p, sp_from p, sp_to p] \<and> sp_body p \<noteq> '''' \<and> int (length (sp_body p)) \<le> 20000
      \<and> (case sp_ttl p of None \<Rightarrow> True | Some t \<Rightarrow> 0 \<le> t \<and> t \<le> 31536000))"

datatype send_result = Unavailable | BodyRefused | NoOutbox | SendRefused outbox_error | SendQueued string string

definition board_payload :: "string \<Rightarrow> send_params \<Rightarrow> string \<Rightarrow> string \<Rightarrow> json" where
  "board_payload op p bd created = JObj ([(''opId'', JStr op), (''channel'', JStr (sp_channel p)), (''from'', JStr (sp_from p)),
      (''to'', JStr (sp_to p)), (''body'', JStr bd)]
     @ opt_member ''ttlSeconds'' (map_option JNum (sp_ttl p)) @ [(''created'', JStr created)])"

definition board_input :: "board_tool \<Rightarrow> string \<Rightarrow> send_params \<Rightarrow> string \<Rightarrow> EnqueueInput" where
  "board_input bt op p bd = \<lparr>in_kind = KBoardMessage, in_scope = PERSONAL_SCOPE,
     in_key = idempotencyKey (bt_sha256 bt) \<lparr>id_kind = KBoardMessage, id_scope = PERSONAL_SCOPE, id_sources = [],
        id_channel = Some (sp_channel p), id_tokens = None\<rparr>,
     in_payload = Some (board_payload op p bd (bt_iso bt (bt_created bt))), in_opId = Some op, in_target = None\<rparr>"

definition board_send :: "board_tool \<Rightarrow> string \<Rightarrow> send_params \<Rightarrow> ms \<Rightarrow> io \<Rightarrow> DurableOutbox option \<Rightarrow> outbox_fs \<Rightarrow> send_result \<times> DurableOutbox option \<times> outbox_fs" where
  "board_send bt op p now io store fs =
     (if bt_private bt \<or> \<not> bt_ready bt then (Unavailable, store, fs)
      else (case bt_redact bt (sp_body p) of
              Inl _ \<Rightarrow> (BodyRefused, store, fs)
            | Inr bd \<Rightarrow>
                (case store of
                   None \<Rightarrow> (NoOutbox, None, fs)
                 | Some st \<Rightarrow>
                     (case enqueue (bt_secret bt) (bt_targetFor bt) now op (board_input bt op p bd) io st fs of
                        (Inl x, st1, fs1) \<Rightarrow> (SendRefused x, Some st1, fs1)
                      | (Inr job, st1, fs1) \<Rightarrow>
                          (SendQueued (deriveMsgId (bt_sha256 bt) (sp_channel p) (sp_from p) (opId job))
                             (deriveMsgPath (bt_sha256 bt) (sp_channel p) (sp_from p) (opId job)), Some st1, fs1)))))"

section \<open>What becomes of a note\<close>

lemma build_cases:
  assumes "buildExplicitPersonalEnqueue sha256 uuid i = Inr e"
  defines "st \<equiv> trim (xi_statement i)" and "es \<equiv> default_to [] (xi_entryIds i)" and "op \<equiv> default_to uuid (xi_opId i)"
  shows "st \<noteq> ''''" "\<not> containsReservedMarker st" "\<forall>x \<in> set es. ID_GRAMMAR x" "xi_sessionId i \<noteq> ''''"
    "in_kind e = KObservation" "in_scope e = ''personal''" "in_payload e = Some (note_payload op i es st)" "in_opId e = Some op"
  using assms(1) unfolding st_def es_def op_def
  by (auto simp: buildExplicitPersonalEnqueue_def Let_def PERSONAL_SCOPE_def list_all_iff split: if_splits)

lemma trim_trim: "trim (trim s) = trim s"
proof -
  have d: "dropWhile is_space (dropWhile is_space t) = dropWhile is_space t" for t by (induction t) auto
  have "dropWhile is_space (rev (dropWhile is_space (rev t))) = rev (dropWhile is_space (rev t))"
    if "t = dropWhile is_space u" for t u
  proof (cases "rev (dropWhile is_space (rev t))")
    case (Cons c r)
    obtain v where v: "rev t = v @ dropWhile is_space (rev t)" by (metis takeWhile_dropWhile_id)
    then have "t = rev (dropWhile is_space (rev t)) @ rev v" by (metis rev_append rev_rev_ident)
    then have "hd t = c" "t \<noteq> []" using Cons by auto
    then have "\<not> is_space c" using that hd_dropWhile [of is_space u] by metis
    then show ?thesis using Cons by simp
  next
    case Nil
    show ?thesis unfolding Nil by simp
  qed
  then show ?thesis unfolding trim_def using d by (metis rev_rev_ident)
qed

lemma note_payload_parses:
  assumes "payload job = Some (note_payload (opId job) i es st)" "xi_sessionId i \<noteq> ''''" "trim st \<noteq> ''''" "\<not> containsReservedMarker st"
  shows "parseObservationPayload job = Inr \<lparr>ob_sessionId = xi_sessionId i, ob_branchId = map_option JStr (note_branch i),
    ob_sourceEntryIds = map JStr es, ob_observations = [note_observation es st]\<rparr>"
proof -
  have "list_all (\<lambda>e. list_ex (same_value e) (map JStr es)) (map JStr es)" by (auto simp: list_all_iff list_ex_iff)
  then have "observation_ok (map JStr es) (note_observation es st)"
    using assms(3,4) by (simp add: observation_ok_def note_observation_def UNCERTAINTY_LABELS_def)
  then show ?thesis
    using assms(1,2) by (cases "note_branch i") (simp_all add: parseObservationPayload_def note_payload_def opt_member_def)
qed

lemma enqueue_note_saved:
  assumes "enqueue_note nv e store fs = (Saved job, store', fs')"
  shows "kind job = in_kind e \<and> scope job = in_scope e \<and> payload job = in_payload e \<and> opId job = default_to (nv_uuid nv) (in_opId e) \<and> createdAt job = nv_now nv"
proof -
  obtain tf st fs1 st1 fs2 where "enqueue (nv_secret nv) tf (nv_now nv) (nv_uuid nv) e (nv_io nv) st fs1 = (Inr job, st1, fs2)"
    using assms by (auto simp: enqueue_note_def Let_def split: option.splits prod.splits sum.splits)
  from enqueue_cases(2) [OF this refl] show ?thesis by (auto simp: new_job_def)
qed


section \<open>Instances\<close>

definition toy_clock :: clock_env where
  "toy_clock = \<lparr>cl_sha256 = toy_sha, cl_iso = toy_iso, cl_date = toy_date, cl_utc = example_utc\<rparr>"

definition small_store :: DurableOutbox where
  "small_store = new_store \<lparr>maxJobs = 2, maxBytes = 9, retentionMs = 9\<rparr>"

definition example_note :: note_env where
  "example_note = \<lparr>nv_configured = True, nv_allowPersonal = True, nv_hasUI = False, nv_confirm = (\<lambda>_. False), nv_session = None,
     nv_redact = Inr, nv_secret = (\<lambda>_. False), nv_targetFor = (\<lambda>_. None), nv_sha256 = toy_sha, nv_uuid = replicate 36 (CHR ''a''),
     nv_now = 5, nv_io = IoOk\<rparr>"

fun is_saved :: "note_result \<Rightarrow> bool" where
  "is_saved (Saved _) = True" | "is_saved _ = False"

lemma is_saved_iff: "is_saved r \<longleftrightarrow> (\<exists>j. r = Saved j)"
  by (cases r) auto


section \<open>A message that cannot be sent\<close>

definition example_tool :: board_tool where
  "example_tool = \<lparr>bt_ready = True, bt_private = False, bt_redact = Inr, bt_secret = (\<lambda>_. False), bt_targetFor = (\<lambda>_. None),
     bt_sha256 = toy_sha, bt_iso = toy_iso, bt_created = 5\<rparr>"

definition capital_channel :: send_params where
  "capital_channel = \<lparr>sp_channel = ''Dev'', sp_from = ''ann'', sp_to = ''bob'', sp_body = ''hi'', sp_ttl = None\<rparr>"

lemma small_enqueue:
  assumes "key_ok (in_key e)"
  shows "\<exists>st fs. enqueue (\<lambda>_. False) tf now op e IoOk small_store empty_fs = (Inr (new_job tf now op e 1), st, fs)
    \<and> jobs st = [new_job tf now op e 1]"
  using assms
  by (simp add: enqueue_def small_store_def new_store_def capturePaused_def retainedBytes_def persist_def empty_fs_def new_job_def Let_def)

lemma toy_key_ok: "key_ok (idempotencyKey toy_sha inp)"
  by (simp add: key_ok_def idempotencyKey_def toy_sha_def is_hex_def is_digit_def list_all_iff)

text \<open>
  The tool checks no identity: a message to the channel \<open>Dev\<close> is within the schema and is reported
  as queued, and the job it leaves is refused by every delivery, for good and without a write.
\<close>

theorem board_send_queues_undeliverable:
  "\<exists>m path st fs job. params_ok capital_channel
     \<and> board_send example_tool ''op'' capital_channel 5 IoOk (Some small_store) empty_fs = (SendQueued m path, Some st, fs)
     \<and> jobs st = [job] \<and> (\<forall>scp be. createObservationSender toy_clock scp (Inr (Some be)) job = (Some (Backend ValidationError), []))
     \<and> \<not> isRetryable (Backend ValidationError)"
proof -
  let ?e = "board_input example_tool ''op'' capital_channel ''hi''"
  let ?job = "new_job (\<lambda>_. None) 5 ''op'' ?e 1"
  have "key_ok (in_key ?e)" by (simp add: board_input_def example_tool_def toy_key_ok)
  from small_enqueue [OF this] obtain st fs where
    e: "enqueue (\<lambda>_. False) (\<lambda>_. None) 5 ''op'' ?e IoOk small_store empty_fs = (Inr ?job, st, fs)" "jobs st = [?job]"
    by blast
  have "\<not> is_ok (validateBoardIdentities ''Dev'' ''ann'' ''bob'')" by code_simp
  then have "parseBoardPayload toy_date ?job = Inl (Backend ValidationError)"
    by (simp add: parseBoardPayload_def new_job_def board_input_def board_payload_def capital_channel_def opt_member_def Let_def)
  then have "createObservationSender toy_clock scp (Inr (Some be)) ?job = (Some (Backend ValidationError), [])" for scp be
    by (simp add: createObservationSender_def new_job_def board_input_def toy_clock_def sendBoardJob_def immutable_calls_def)
  moreover have "params_ok capital_channel" by code_simp
  moreover have "board_send example_tool ''op'' capital_channel 5 IoOk (Some small_store) empty_fs =
      (SendQueued (deriveMsgId toy_sha ''Dev'' ''ann'' (opId ?job)) (deriveMsgPath toy_sha ''Dev'' ''ann'' (opId ?job)), Some st, fs)"
    using e(1) by (simp add: board_send_def example_tool_def capital_channel_def)
  ultimately show ?thesis using e(2) by auto
qed

end
