(* ===== verification/Coordinator.thy ===== *)
theory Coordinator
  imports JsonPretty Frontmatter Cursor
begin

text \<open>
  The session coordinator (pi/coordinator.ts): the durable generation counter, the registry of
  consumed entries, the lifecycle handlers, the work of a generation and its cancellation, and the
  tick timer. The state file is its text; every write may fail before or after the rename, and a
  handler whose write fails throws (\<open>False\<close>) with the state it had reached. The sets of abort
  controllers are objects that a settled token still refers to, so they live in a store of their
  own. The transitions reported to the status sink are left out.
\<close>

section \<open>Durable state\<close>

definition STATE_SCHEMA_VERSION :: int where "STATE_SCHEMA_VERSION = 1"

record CoordinatorState =
  cs_generation :: int
  cs_sessionId :: "string option"
  cs_branchId :: "string option"
  cs_consumedEntries :: "string list"

definition emptyCoordinator :: CoordinatorState where
  "emptyCoordinator = \<lparr>cs_generation = 0, cs_sessionId = None, cs_branchId = None, cs_consumedEntries = []\<rparr>"

definition null_or :: "string option \<Rightarrow> json" where
  "null_or v = (case v of None \<Rightarrow> JNull | Some s \<Rightarrow> JStr s)"

definition coordinator_json :: "CoordinatorState \<Rightarrow> json" where
  "coordinator_json s = JObj [(''schemaVersion'', JNum STATE_SCHEMA_VERSION), (''generation'', JNum (cs_generation s)),
     (''sessionId'', null_or (cs_sessionId s)), (''branchId'', null_or (cs_branchId s)),
     (''consumedEntries'', JArr (map JStr (cs_consumedEntries s)))]"

definition coordinator_text :: "CoordinatorState \<Rightarrow> string" where
  "coordinator_text s = stringify (coordinator_json s) @ [nl]"

datatype coordinator_error = StateSchemaError | NullState

text \<open>\<open>(s.schemaVersion ?? 0) > 1\<close>: text is compared as a number, an array or an object is not greater.\<close>

definition newer_version :: "json option \<Rightarrow> bool" where
  "newer_version v =
     (case v of
        Some (JNum n) \<Rightarrow> n > STATE_SCHEMA_VERSION
      | Some (JStr t) \<Rightarrow> (case js_number t of Fin q \<Rightarrow> q > of_int STATE_SCHEMA_VERSION | Infinite pos \<Rightarrow> pos | NaN \<Rightarrow> False)
      | _ \<Rightarrow> False)"

definition safe_generation :: "json option \<Rightarrow> int" where
  "safe_generation v = (case v of Some (JNum n) \<Rightarrow> if is_safe_integer n then n else 0 | _ \<Rightarrow> 0)"

fun string_elements :: "json list \<Rightarrow> string list" where
  "string_elements [] = []"
| "string_elements (JStr s # vs) = s # string_elements vs"
| "string_elements (_ # vs) = string_elements vs"

definition load_members :: "(string \<rightharpoonup> json) \<Rightarrow> CoordinatorState" where
  "load_members m = \<lparr>cs_generation = safe_generation (m ''generation''), cs_sessionId = str_member (m ''sessionId''),
     cs_branchId = str_member (m ''branchId''),
     cs_consumedEntries = (case m ''consumedEntries'' of Some (JArr vs) \<Rightarrow> string_elements vs | _ \<Rightarrow> [])\<rparr>"

definition loadCoordinator :: "string option \<Rightarrow> coordinator_error + CoordinatorState" where
  "loadCoordinator file =
     (case file of
        None \<Rightarrow> Inr emptyCoordinator
      | Some t \<Rightarrow>
          (case json_parse t of
             None \<Rightarrow> Inr emptyCoordinator
           | Some JNull \<Rightarrow> Inl NullState
           | Some (JObj ms) \<Rightarrow> if newer_version (map_of ms ''schemaVersion'') then Inl StateSchemaError else Inr (load_members (map_of ms))
           | Some (JArr _) \<Rightarrow> Inr emptyCoordinator
           | Some _ \<Rightarrow> Inl StateSchemaError))"

section \<open>The coordinator\<close>

record coordinator_opts =
  co_hasTick :: bool
  co_hasRetention :: bool
  co_tickIntervalMs :: int
  co_retentionEvery :: int

text \<open>\<open>co_work\<close> maps a generation to a set of controllers, \<open>co_sets\<close> holds the sets by reference.\<close>

record SessionCoordinator =
  co_state :: CoordinatorState
  co_current :: int
  co_active :: bool
  co_lastTree :: "(string option \<times> string option) option"
  co_pendingConsumed :: "string list"
  co_work :: "(int \<times> nat) list"
  co_sets :: "nat list list"
  co_aborted :: "nat list"
  co_controllers :: nat
  co_timer :: bool
  co_tickCount :: int

definition new_session_coordinator :: "CoordinatorState \<Rightarrow> SessionCoordinator" where
  "new_session_coordinator s = \<lparr>co_state = s, co_current = cs_generation s, co_active = False, co_lastTree = None,
     co_pendingConsumed = [], co_work = [], co_sets = [], co_aborted = [], co_controllers = 0, co_timer = False, co_tickCount = 0\<rparr>"

type_synonym handled = "bool \<times> SessionCoordinator \<times> string option"

definition persist_state :: "io \<Rightarrow> SessionCoordinator \<Rightarrow> string option \<Rightarrow> bool \<times> string option" where
  "persist_state io c file = atomic_write io (coordinator_text (co_state c)) file"

definition isCurrent :: "int \<Rightarrow> SessionCoordinator \<Rightarrow> bool" where
  "isCurrent g c = (g = co_current c)"

definition applyIfCurrent :: "int \<Rightarrow> ('v \<Rightarrow> 'w \<Rightarrow> 'w) \<Rightarrow> 'v \<Rightarrow> SessionCoordinator \<Rightarrow> 'w \<Rightarrow> bool \<times> 'w" where
  "applyIfCurrent g apply v c w = (if \<not> isCurrent g c then (False, w) else (True, apply v w))"

subsection \<open>Work of a generation\<close>

text \<open>A token is the generation, the set it was added to and the controller.\<close>

type_synonym work_token = "int \<times> nat \<times> nat"

definition registerWork :: "int \<Rightarrow> SessionCoordinator \<Rightarrow> work_token \<times> SessionCoordinator" where
  "registerWork g c =
     (let k = co_controllers c; c1 = c\<lparr>co_controllers := Suc k\<rparr> in
      case map_of (co_work c) g of
        Some r \<Rightarrow> ((g, r, k), c1\<lparr>co_sets := (co_sets c)[r := co_sets c ! r @ [k]]\<rparr>)
      | None \<Rightarrow> ((g, length (co_sets c), k), c1\<lparr>co_sets := co_sets c @ [[k]], co_work := AList.update g (length (co_sets c)) (co_work c)\<rparr>))"

definition token_done :: "work_token \<Rightarrow> SessionCoordinator \<Rightarrow> SessionCoordinator" where
  "token_done tk c =
     (case tk of (g, r, k) \<Rightarrow>
        let s = removeAll k (co_sets c ! r); c1 = c\<lparr>co_sets := (co_sets c)[r := s]\<rparr>
        in if s = [] then c1\<lparr>co_work := AList.delete g (co_work c)\<rparr> else c1)"

text \<open>The start of \<open>runExclusive\<close>: nothing for a stale generation, else the token its work runs under.\<close>

definition runExclusive :: "int \<Rightarrow> SessionCoordinator \<Rightarrow> (work_token \<times> SessionCoordinator) option" where
  "runExclusive g c = (if \<not> isCurrent g c then None else Some (registerWork g c))"

definition invalidateWork :: "int \<Rightarrow> SessionCoordinator \<Rightarrow> SessionCoordinator" where
  "invalidateWork g c =
     (case map_of (co_work c) g of
        None \<Rightarrow> c
      | Some r \<Rightarrow> c\<lparr>co_aborted := co_aborted c @ co_sets c ! r, co_work := AList.delete g (co_work c)\<rparr>)"

subsection \<open>Consumed entries\<close>

definition add_new :: "string list \<Rightarrow> string list \<Rightarrow> string list" where
  "add_new = foldl (\<lambda>cs i. if i \<in> set cs then cs else cs @ [i])"

definition markConsumed :: "string list \<Rightarrow> io \<Rightarrow> SessionCoordinator \<Rightarrow> string option \<Rightarrow> handled" where
  "markConsumed ids io c file =
     (let cs = add_new (cs_consumedEntries (co_state c)) ids;
          c1 = c\<lparr>co_state := (co_state c)\<lparr>cs_consumedEntries := cs\<rparr>\<rparr>
      in if cs = cs_consumedEntries (co_state c) then (True, c, file)
         else (case persist_state io c1 file of (ok, f) \<Rightarrow> (ok, c1, f)))"

definition isConsumed :: "string \<Rightarrow> SessionCoordinator \<Rightarrow> bool" where
  "isConsumed i c = (i \<in> set (cs_consumedEntries (co_state c)))"

subsection \<open>Lifecycle\<close>

definition mint :: "io \<Rightarrow> string option \<Rightarrow> string option \<Rightarrow> SessionCoordinator \<Rightarrow> string option \<Rightarrow> handled" where
  "mint io sess branch c file =
     (let s = (co_state c)\<lparr>cs_generation := cs_generation (co_state c) + 1, cs_sessionId := sess, cs_branchId := branch\<rparr>;
          c1 = c\<lparr>co_state := s\<rparr>
      in case persist_state io c1 file of
           (ok, f) \<Rightarrow> (ok, if ok then c1\<lparr>co_current := cs_generation s\<rparr> else c1, f))"

definition startTimer :: "coordinator_opts \<Rightarrow> SessionCoordinator \<Rightarrow> SessionCoordinator" where
  "startTimer opts c = (if \<not> co_hasTick opts \<or> co_timer c \<or> co_tickIntervalMs opts \<le> 0 then c else c\<lparr>co_timer := True\<rparr>)"

text \<open>One firing of the timer: whether the retention callback runs after the tick callback.\<close>

definition timer_fires :: "coordinator_opts \<Rightarrow> SessionCoordinator \<Rightarrow> bool \<times> SessionCoordinator" where
  "timer_fires opts c =
     (let n = co_tickCount c + 1
      in (co_hasRetention opts \<and> co_retentionEvery opts > 0 \<and> n mod co_retentionEvery opts = 0, c\<lparr>co_tickCount := n\<rparr>))"

definition onSessionStart :: "coordinator_opts \<Rightarrow> io \<Rightarrow> string \<Rightarrow> string option \<Rightarrow> SessionCoordinator \<Rightarrow> string option \<Rightarrow> handled" where
  "onSessionStart opts io sess leaf c file =
     (case (if \<not> co_active c \<or> Some sess \<noteq> cs_sessionId (co_state c) then mint io (Some sess) leaf c file
            else (let c1 = c\<lparr>co_state := (co_state c)\<lparr>cs_sessionId := Some sess, cs_branchId := leaf\<rparr>\<rparr>
                  in case persist_state io c1 file of (ok, f) \<Rightarrow> (ok, c1, f))) of
        (False, c2, f) \<Rightarrow> (False, c2, f)
      | (True, c2, f) \<Rightarrow> (True, startTimer opts (c2\<lparr>co_active := True\<rparr>), f))"

definition onBeforeSwitch :: "SessionCoordinator \<Rightarrow> SessionCoordinator" where
  "onBeforeSwitch c = invalidateWork (co_current c) c"

definition onBeforeTree :: "string list option \<Rightarrow> bool \<Rightarrow> SessionCoordinator \<Rightarrow> SessionCoordinator" where
  "onBeforeTree prep aborted c = (if aborted then c else c\<lparr>co_pendingConsumed := default_to [] prep\<rparr>)"

text \<open>The two writes of a navigation: the registry, then the new generation.\<close>

definition onTree ::
  "coordinator_opts \<Rightarrow> io \<Rightarrow> io \<Rightarrow> string \<Rightarrow> string option \<Rightarrow> string option \<Rightarrow> string option \<Rightarrow> SessionCoordinator \<Rightarrow> string option \<Rightarrow> handled" where
  "onTree opts io1 io2 sess leaf old new c file =
     (if \<not> co_active c then onSessionStart opts io1 sess leaf c file
      else
        (let duplicate = (co_lastTree c = Some (old, new)); c1 = c\<lparr>co_lastTree := Some (old, new)\<rparr> in
         case (if co_pendingConsumed c1 = [] then (True, c1, file) else markConsumed (co_pendingConsumed c1) io1 c1 file) of
           (False, c2, f) \<Rightarrow> (False, c2, f)
         | (True, c2, f) \<Rightarrow>
             (let c3 = invalidateWork (co_current c2) (c2\<lparr>co_pendingConsumed := []\<rparr>)
              in if \<not> duplicate \<and> old \<noteq> new then mint io2 (Some sess) new c3 f else (True, c3, f))))"

definition onShutdown :: "io \<Rightarrow> SessionCoordinator \<Rightarrow> string option \<Rightarrow> handled" where
  "onShutdown io c file =
     (let c1 = (invalidateWork (co_current c) (c\<lparr>co_timer := False, co_pendingConsumed := []\<rparr>))\<lparr>co_active := False\<rparr>
      in case persist_state io c1 file of (ok, f) \<Rightarrow> (ok, c1, f))"

section \<open>Histories\<close>

text \<open>
  What a coordinator lives through; \<open>Restart\<close> is a crash or an exit at any point, followed by a new
  coordinator on the file. A coordinator that refuses its file is not constructed.
\<close>

datatype coordinator_event =
    SessionStarts io string "string option" | BeforeSwitch | BeforeTree "string list option" bool
  | TreeMoves io io string "string option" "string option" "string option" | Consumes io "string list" | ShutsDown io | Restart

fun coordinator_step :: "coordinator_opts \<Rightarrow> coordinator_event \<Rightarrow> SessionCoordinator \<times> string option \<Rightarrow> SessionCoordinator \<times> string option" where
  "coordinator_step opts (SessionStarts io sess leaf) (c, f) = snd (onSessionStart opts io sess leaf c f)"
| "coordinator_step opts BeforeSwitch (c, f) = (onBeforeSwitch c, f)"
| "coordinator_step opts (BeforeTree prep ab) (c, f) = (onBeforeTree prep ab c, f)"
| "coordinator_step opts (TreeMoves io1 io2 sess leaf old new) (c, f) = snd (onTree opts io1 io2 sess leaf old new c f)"
| "coordinator_step opts (Consumes io ids) (c, f) = snd (markConsumed ids io c f)"
| "coordinator_step opts (ShutsDown io) (c, f) = snd (onShutdown io c f)"
| "coordinator_step opts Restart (c, f) = (case loadCoordinator f of Inl _ \<Rightarrow> c | Inr s \<Rightarrow> new_session_coordinator s, f)"

text \<open>The generations published: the changes of the current one within a process.\<close>

definition published :: "coordinator_event \<Rightarrow> SessionCoordinator \<Rightarrow> SessionCoordinator \<Rightarrow> int list" where
  "published e c c' = (if e = Restart \<or> co_current c' = co_current c then [] else [co_current c'])"

fun coordinator_run :: "coordinator_opts \<Rightarrow> coordinator_event list \<Rightarrow> SessionCoordinator \<times> string option \<Rightarrow> int list \<times> SessionCoordinator \<times> string option" where
  "coordinator_run opts [] w = ([], w)"
| "coordinator_run opts (e # es) w =
     (let w1 = coordinator_step opts e w
      in case coordinator_run opts es w1 of (gs, w2) \<Rightarrow> (published e (fst w) (fst w1) @ gs, w2))"

section \<open>The file\<close>

lemma string_elements_map [simp]: "string_elements (map JStr xs) = xs"
  by (induction xs) auto

lemma load_text:
  assumes "is_safe_integer (cs_generation s)"
  shows "loadCoordinator (Some (coordinator_text s)) = Inr s"
proof -
  have "json_wf (coordinator_json s)" by (simp add: coordinator_json_def null_or_def split: option.split)
  then have "json_parse (coordinator_text s) = Some (coordinator_json s)"
    unfolding coordinator_text_def by (rule parse_stringify_ws) (simp add: blank_def is_ws_def)
  then show ?thesis using assms
    by (cases "cs_sessionId s"; cases "cs_branchId s")
      (simp_all add: loadCoordinator_def coordinator_json_def newer_version_def load_members_def safe_generation_def null_or_def STATE_SCHEMA_VERSION_def)
qed

section \<open>What a step may change\<close>

abbreviation gen :: "SessionCoordinator \<Rightarrow> int" where "gen c \<equiv> cs_generation (co_state c)"
abbreviation eaten :: "SessionCoordinator \<Rightarrow> string set" where "eaten c \<equiv> set (cs_consumedEntries (co_state c))"

text \<open>
  The counter goes up by at most one, the registry only grows, what is written lies between the
  old and the new state, and a new generation is current only when it is on disk.
\<close>

definition step_ok :: "SessionCoordinator \<Rightarrow> string option \<Rightarrow> SessionCoordinator \<Rightarrow> string option \<Rightarrow> bool" where
  "step_ok c f c' f' \<longleftrightarrow>
     gen c \<le> gen c' \<and> gen c' \<le> gen c + 1 \<and> eaten c \<subseteq> eaten c'
     \<and> (f' = f \<or> (\<exists>s. f' = Some (coordinator_text s) \<and> gen c \<le> cs_generation s \<and> cs_generation s \<le> gen c'
          \<and> eaten c \<subseteq> set (cs_consumedEntries s) \<and> set (cs_consumedEntries s) \<subseteq> eaten c'))
     \<and> (co_current c' = co_current c \<or> co_current c' = gen c' \<and> gen c' = gen c + 1 \<and> f' = Some (coordinator_text (co_state c')))"

lemma step_ok_same: "co_state c' = co_state c \<Longrightarrow> co_current c' = co_current c \<Longrightarrow> step_ok c f c' f"
  by (simp add: step_ok_def)

lemma step_ok_frame:
  assumes "step_ok c f c' f'" "co_state c0 = co_state c" "co_current c0 = co_current c"
    and "co_state c1 = co_state c'" "co_current c1 = co_current c'"
  shows "step_ok c0 f c1 f'"
  using assms by (simp add: step_ok_def)

lemma persist_state_cases:
  assumes "persist_state io c f = (ok, f')"
  shows "(f' = f \<and> \<not> ok) \<or> f' = Some (coordinator_text (co_state c))"
  using assms by (cases io) (auto simp: persist_state_def atomic_write_def)

lemma add_new_set [simp]: "set (add_new cs ids) = set cs \<union> set ids"
  unfolding add_new_def by (induction ids arbitrary: cs) auto

lemma markConsumed_step:
  assumes "markConsumed ids io c f = (ok, c', f')"
  shows "step_ok c f c' f' \<and> gen c' = gen c \<and> co_current c' = co_current c \<and> co_active c' = co_active c"
proof (cases "add_new (cs_consumedEntries (co_state c)) ids = cs_consumedEntries (co_state c)")
  case True
  then show ?thesis using assms by (simp add: markConsumed_def Let_def step_ok_same)
next
  case False
  let ?s = "(co_state c)\<lparr>cs_consumedEntries := add_new (cs_consumedEntries (co_state c)) ids\<rparr>"
  have c: "c' = c\<lparr>co_state := ?s\<rparr>" "persist_state io (c\<lparr>co_state := ?s\<rparr>) f = (ok, f')"
    using assms False by (auto simp: markConsumed_def Let_def split: prod.splits)
  have "f' = f \<or> f' = Some (coordinator_text ?s)" using persist_state_cases [OF c(2)] by auto
  then show ?thesis unfolding c(1) by (elim disjE) (auto simp: step_ok_def intro!: exI [of _ ?s])
qed

lemma mint_step:
  assumes "mint io sess branch c f = (ok, c', f')"
  shows "step_ok c f c' f'"
proof -
  let ?s = "(co_state c)\<lparr>cs_generation := gen c + 1, cs_sessionId := sess, cs_branchId := branch\<rparr>"
  let ?c1 = "c\<lparr>co_state := ?s\<rparr>"
  have "(f' = f \<and> \<not> ok) \<or> f' = Some (coordinator_text ?s)"
    using persist_state_cases [of io ?c1 f ok f'] assms by (auto simp: mint_def Let_def split: prod.splits)
  moreover have "c' = (if ok then ?c1\<lparr>co_current := gen c + 1\<rparr> else ?c1)"
    using assms by (auto simp: mint_def Let_def split: prod.splits)
  ultimately show ?thesis by (auto simp: step_ok_def)
qed

lemma invalidateWork_frame [simp]:
  "co_state (invalidateWork g c) = co_state c" "co_current (invalidateWork g c) = co_current c" "co_active (invalidateWork g c) = co_active c"
  by (simp_all add: invalidateWork_def split: option.split)

lemma startTimer_frame [simp]: "co_state (startTimer opts c) = co_state c" "co_current (startTimer opts c) = co_current c"
  by (simp_all add: startTimer_def)

lemma onSessionStart_step:
  assumes "onSessionStart opts io sess leaf c f = (ok, c', f')"
  shows "step_ok c f c' f'"
proof (cases "\<not> co_active c \<or> Some sess \<noteq> cs_sessionId (co_state c)")
  case True
  obtain ok1 c1 f1 where m: "mint io (Some sess) leaf c f = (ok1, c1, f1)" by (metis prod.collapse)
  have "f' = f1" "co_state c' = co_state c1" "co_current c' = co_current c1"
    using assms True m by (auto simp: onSessionStart_def split: bool.splits)
  with step_ok_frame [OF mint_step [OF m]] show ?thesis by simp
next
  case False
  let ?c1 = "c\<lparr>co_state := (co_state c)\<lparr>cs_sessionId := Some sess, cs_branchId := leaf\<rparr>\<rparr>"
  obtain ok1 f1 where p: "persist_state io ?c1 f = (ok1, f1)" by fastforce
  then have "f' = f1" "co_state c' = co_state ?c1" "co_current c' = co_current c"
    using assms False by (auto simp: onSessionStart_def Let_def split: bool.splits)
  with persist_state_cases [OF p] show ?thesis by (auto simp: step_ok_def)
qed

lemma step_ok_mint:
  assumes "step_ok c f c1 f1" "gen c1 = gen c" "co_current c1 = co_current c" "mint io sess branch c1 f1 = (ok, c', f')"
  shows "step_ok c f c' f'"
proof -
  have m: "step_ok c1 f1 c' f'" by (rule mint_step [OF assms(4)])
  have e: "eaten c \<subseteq> eaten c1" "eaten c1 \<subseteq> eaten c'" using assms(1) m by (simp_all add: step_ok_def)
  have g: "gen c \<le> gen c'" "gen c' \<le> gen c + 1" using m assms(2) by (simp_all add: step_ok_def)
  have F: "f' = f \<or> (\<exists>s. f' = Some (coordinator_text s) \<and> gen c \<le> cs_generation s \<and> cs_generation s \<le> gen c'
      \<and> eaten c \<subseteq> set (cs_consumedEntries s) \<and> set (cs_consumedEntries s) \<subseteq> eaten c')"
  proof (cases "f' = f1")
    case True
    from assms(1) consider "f1 = f" | s where "f1 = Some (coordinator_text s)" "gen c \<le> cs_generation s" "cs_generation s \<le> gen c1"
      "eaten c \<subseteq> set (cs_consumedEntries s)" "set (cs_consumedEntries s) \<subseteq> eaten c1"
      unfolding step_ok_def by blast
    then show ?thesis
    proof cases
      case (2 s)
      then show ?thesis using True e g assms(2) by (intro disjI2 exI [of _ s]) auto
    qed (use True in simp)
  next
    case False
    then obtain s where "f' = Some (coordinator_text s)" "gen c1 \<le> cs_generation s" "cs_generation s \<le> gen c'"
      "eaten c1 \<subseteq> set (cs_consumedEntries s)" "set (cs_consumedEntries s) \<subseteq> eaten c'"
      using m unfolding step_ok_def by blast
    then show ?thesis using e assms(2) by (intro disjI2 exI [of _ s]) auto
  qed
  have C: "co_current c' = co_current c \<or> co_current c' = gen c' \<and> gen c' = gen c + 1 \<and> f' = Some (coordinator_text (co_state c'))"
    using m assms(2,3) by (simp add: step_ok_def)
  show ?thesis unfolding step_ok_def by (intro conjI g F C subset_trans [OF e])
qed

lemma onTree_step:
  assumes "onTree opts io1 io2 sess leaf old new c f = (ok, c', f')"
  shows "step_ok c f c' f'"
proof (cases "co_active c")
  case False
  then show ?thesis using assms onSessionStart_step by (simp add: onTree_def)
next
  case True
  let ?c1 = "c\<lparr>co_lastTree := Some (old, new)\<rparr>"
  obtain ok2 c2 f2 where m: "(if co_pendingConsumed ?c1 = [] then (True, ?c1, f) else markConsumed (co_pendingConsumed ?c1) io1 ?c1 f) = (ok2, c2, f2)"
    by (metis prod.collapse)
  have s: "step_ok ?c1 f c2 f2 \<and> gen c2 = gen ?c1 \<and> co_current c2 = co_current ?c1"
    using m markConsumed_step [of _ io1 ?c1 f ok2 c2 f2] by (auto simp: step_ok_same split: if_splits)
  show ?thesis
  proof (cases ok2)
    case False
    then have "c' = c2" "f' = f2" using assms True m by (auto simp: onTree_def Let_def)
    with s show ?thesis by (auto intro: step_ok_frame)
  next
    case ok: True
    let ?c3 = "invalidateWork (co_current c2) (c2\<lparr>co_pendingConsumed := []\<rparr>)"
    have s3: "step_ok c f ?c3 f2" "gen ?c3 = gen c" "co_current ?c3 = co_current c" using s by (auto intro: step_ok_frame)
    show ?thesis
    proof (cases "co_lastTree c \<noteq> Some (old, new) \<and> old \<noteq> new")
      case True
      then have "mint io2 (Some sess) new ?c3 f2 = (ok, c', f')" using assms \<open>co_active c\<close> m ok by (simp add: onTree_def Let_def)
      with step_ok_mint [OF s3] show ?thesis by blast
    next
      case False
      then have "c' = ?c3" "f' = f2" using assms \<open>co_active c\<close> m ok by (auto simp: onTree_def Let_def split: if_splits)
      with s3 show ?thesis by simp
    qed
  qed
qed

lemma onShutdown_step:
  assumes "onShutdown io c f = (ok, c', f')"
  shows "step_ok c f c' f'"
proof -
  let ?c1 = "(invalidateWork (co_current c) (c\<lparr>co_timer := False, co_pendingConsumed := []\<rparr>))\<lparr>co_active := False\<rparr>"
  have c: "c' = ?c1" "persist_state io ?c1 f = (ok, f')"
    using assms by (auto simp: onShutdown_def Let_def split: prod.splits)
  from persist_state_cases [OF c(2)] show ?thesis unfolding c(1) by (auto simp: step_ok_def)
qed

lemma coordinator_step_ok:
  assumes "coordinator_step opts e (c, f) = (c', f')" "e \<noteq> Restart"
  shows "step_ok c f c' f'"
proof (cases e)
  case (SessionStarts io sess leaf)
  then show ?thesis using assms onSessionStart_step by (cases "onSessionStart opts io sess leaf c f") auto
next
  case (TreeMoves io1 io2 sess leaf old new)
  then show ?thesis using assms onTree_step by (cases "onTree opts io1 io2 sess leaf old new c f") auto
next
  case (Consumes io ids)
  then show ?thesis using assms markConsumed_step by (cases "markConsumed ids io c f") auto
next
  case (ShutsDown io)
  then show ?thesis using assms onShutdown_step by (cases "onShutdown io c f") auto
qed (use assms in \<open>auto intro!: step_ok_same simp: onBeforeSwitch_def onBeforeTree_def\<close>)

section \<open>A whole history\<close>

text \<open>
  What holds between two steps: the file is readable, the generations published so far are not
  above the one it holds, and the memory is never behind the file.
\<close>

definition coordinator_inv :: "int \<Rightarrow> int list \<Rightarrow> string set \<Rightarrow> SessionCoordinator \<Rightarrow> string option \<Rightarrow> bool" where
  "coordinator_inv n gs D c f \<longleftrightarrow>
     (\<exists>d. loadCoordinator f = Inr d \<and> (\<forall>g \<in> set gs. g \<le> cs_generation d) \<and> D \<subseteq> set (cs_consumedEntries d)
        \<and> 0 \<le> cs_generation d \<and> cs_generation d \<le> gen c \<and> set (cs_consumedEntries d) \<subseteq> eaten c)
     \<and> co_current c \<le> gen c \<and> gen c \<le> n"

lemma coordinator_step_inv:
  assumes "coordinator_step opts e (c, f) = (c', f')" "coordinator_inv n gs D c f" "n < 2 ^ 53 - 1"
  shows "coordinator_inv (n + 1) (gs @ published e c c') D c' f' \<and> (\<forall>p \<in> set (published e c c'). \<forall>g \<in> set gs. g < p)"
proof (cases "e = Restart")
  case True
  then show ?thesis using assms(1,2)
    by (auto simp: coordinator_inv_def published_def new_session_coordinator_def)
next
  case False
  have st: "step_ok c f c' f'" by (rule coordinator_step_ok [OF assms(1) False])
  obtain d where d: "loadCoordinator f = Inr d" "\<forall>g \<in> set gs. g \<le> cs_generation d" "D \<subseteq> set (cs_consumedEntries d)"
    "0 \<le> cs_generation d" "cs_generation d \<le> gen c" "set (cs_consumedEntries d) \<subseteq> eaten c" and n: "gen c \<le> n" "co_current c \<le> gen c"
    using assms(2) by (auto simp: coordinator_inv_def)
  have g: "gen c \<le> gen c'" "gen c' \<le> gen c + 1" "eaten c \<subseteq> eaten c'" using st by (simp_all add: step_ok_def)
  have load: "loadCoordinator (Some (coordinator_text s)) = Inr s" if "0 \<le> cs_generation s" "cs_generation s \<le> gen c'" for s
    by (rule load_text) (use that g n assms(3) in \<open>simp add: is_safe_integer_def\<close>)
  obtain d' where d': "loadCoordinator f' = Inr d'" "cs_generation d \<le> cs_generation d'" "cs_generation d' \<le> gen c'"
    "set (cs_consumedEntries d) \<subseteq> set (cs_consumedEntries d')" "set (cs_consumedEntries d') \<subseteq> eaten c'"
  proof -
    consider "f' = f" | s where "f' = Some (coordinator_text s)" "gen c \<le> cs_generation s" "cs_generation s \<le> gen c'"
      "eaten c \<subseteq> set (cs_consumedEntries s)" "set (cs_consumedEntries s) \<subseteq> eaten c'"
      using st unfolding step_ok_def by blast
    then show ?thesis
    proof cases
      case 1
      then show ?thesis using that [of d] d g by auto
    next
      case (2 s)
      then show ?thesis using that [of s] load [of s] d by auto
    qed
  qed
  have new: "co_current c' = gen c' \<and> gen c' = gen c + 1 \<and> cs_generation d' = gen c'" if "co_current c' \<noteq> co_current c"
  proof -
    have c: "co_current c' = gen c'" "gen c' = gen c + 1" "f' = Some (coordinator_text (co_state c'))"
      using st that by (auto simp: step_ok_def)
    then show ?thesis using d'(1) load [of "co_state c'"] d by auto
  qed
  have "coordinator_inv (n + 1) (gs @ published e c c') D c' f'"
    unfolding coordinator_inv_def
  proof (intro conjI exI [of _ d'])
    show "\<forall>g \<in> set (gs @ published e c c'). g \<le> cs_generation d'"
      using d(2) d'(2) new by (auto simp: published_def split: if_splits)
    show "co_current c' \<le> gen c'" using new n g by (cases "co_current c' = co_current c") auto
  qed (use d d' g n in auto)
  moreover have "\<forall>p \<in> set (published e c c'). \<forall>g \<in> set gs. g < p"
  proof (intro ballI)
    fix p g
    assume "p \<in> set (published e c c')" and "g \<in> set gs"
    then have "p = gen c + 1" "g \<le> gen c" using new d(2,5) by (auto simp: published_def split: if_splits)
    then show "g < p" by simp
  qed
  ultimately show ?thesis by blast
qed

lemma coordinator_run_inv:
  assumes "coordinator_run opts es (c, f) = (ps, c', f')" "coordinator_inv n gs D c f" "n + int (length es) < 2 ^ 53"
  shows "coordinator_inv (n + int (length es)) (gs @ ps) D c' f' \<and> sorted_wrt (<) ps \<and> (\<forall>p \<in> set ps. \<forall>g \<in> set gs. g < p)"
  using assms
proof (induction es arbitrary: c f ps n gs)
  case (Cons e es)
  obtain c1 f1 where s: "coordinator_step opts e (c, f) = (c1, f1)" by fastforce
  obtain qs where q: "coordinator_run opts es (c1, f1) = (qs, c', f')" "ps = published e c c1 @ qs"
    using Cons.prems(1) s by (auto simp: Let_def split: prod.splits)
  have i: "coordinator_inv (n + 1) (gs @ published e c c1) D c1 f1" "\<forall>p \<in> set (published e c c1). \<forall>g \<in> set gs. g < p"
    using coordinator_step_inv [OF s Cons.prems(2)] Cons.prems(3) by auto
  have "coordinator_inv (n + 1 + int (length es)) ((gs @ published e c c1) @ qs) D c' f' \<and> sorted_wrt (<) qs
      \<and> (\<forall>p \<in> set qs. \<forall>g \<in> set (gs @ published e c c1). g < p)"
    by (rule Cons.IH [OF q(1) i(1)]) (use Cons.prems(3) in simp)
  moreover have "sorted_wrt (<) (published e c c1)" by (simp add: published_def)
  ultimately show ?case unfolding q(2) using i(2) by (auto simp: sorted_wrt_append algebra_simps)
qed simp

definition on_disk :: "string option \<Rightarrow> string list" where
  "on_disk f = (case loadCoordinator f of Inl _ \<Rightarrow> [] | Inr s \<Rightarrow> cs_consumedEntries s)"

text \<open>
  C40. Over any history of lifecycle events, writes that fail before or after the rename, crashes and
  restarts: the generations published strictly increase, so that a stale result is never current
  again, and an entry that is consumed on disk stays consumed, on disk and in memory.
\<close>

theorem coordinator_never_goes_back:
  assumes "coordinator_run opts es (new_session_coordinator emptyCoordinator, None) = (ps, c, f)"
    and "coordinator_run opts es' (c, f) = (ps', c', f')" "int (length es) + int (length es') < 2 ^ 53"
  shows "sorted_wrt (<) (ps @ ps') \<and> set (on_disk f) \<subseteq> set (on_disk f') \<and> set (on_disk f') \<subseteq> eaten c'"
proof -
  have "coordinator_inv 0 [] {} (new_session_coordinator emptyCoordinator) None"
    by (simp add: coordinator_inv_def loadCoordinator_def new_session_coordinator_def emptyCoordinator_def)
  from coordinator_run_inv [OF assms(1) this] assms(3)
  have i: "coordinator_inv (int (length es)) ps {} c f" "sorted_wrt (<) ps" by simp_all
  have "coordinator_inv (int (length es)) ps (set (on_disk f)) c f"
    using i(1) by (auto simp: coordinator_inv_def on_disk_def)
  from coordinator_run_inv [OF assms(2) this] assms(3)
  have "coordinator_inv (int (length es) + int (length es')) (ps @ ps') (set (on_disk f)) c' f'" "sorted_wrt (<) ps'"
    "\<forall>p \<in> set ps'. \<forall>g \<in> set ps. g < p" by simp_all
  with i(2) show ?thesis by (auto simp: coordinator_inv_def on_disk_def sorted_wrt_append)
qed

section \<open>Instances\<close>

definition example_opts :: coordinator_opts where
  "example_opts = \<lparr>co_hasTick = True, co_hasRetention = False, co_tickIntervalMs = 1, co_retentionEvery = 0\<rparr>"

definition first_session :: SessionCoordinator where
  "first_session = fst (snd (coordinator_run example_opts [SessionStarts IoOk ''s'' None] (new_session_coordinator emptyCoordinator, None)))"

theorem coordinator_never_goes_back_witness:
  "\<exists>c f. coordinator_run example_opts [SessionStarts IoOk ''s'' None, TreeMoves IoOk IoOk ''s'' None None (Some ''b'')]
      (new_session_coordinator emptyCoordinator, None) = ([1, 2], c, f)
    \<and> (\<exists>ps c' f'. coordinator_run example_opts [Restart, SessionStarts IoOk ''s'' None] (c, f) = (ps, c', f') \<and> sorted_wrt (<) ([1, 2] @ ps))"
proof -
  obtain ps c f where r: "coordinator_run example_opts [SessionStarts IoOk ''s'' None, TreeMoves IoOk IoOk ''s'' None None (Some ''b'')]
      (new_session_coordinator emptyCoordinator, None) = (ps, c, f)" by (metis prod.collapse)
  have "fst (coordinator_run example_opts [SessionStarts IoOk ''s'' None, TreeMoves IoOk IoOk ''s'' None None (Some ''b'')]
      (new_session_coordinator emptyCoordinator, None)) = [1, 2]"
    by (simp add: onSessionStart_def mint_def persist_state_def atomic_write_def onTree_def invalidateWork_def published_def example_opts_def
        startTimer_def new_session_coordinator_def emptyCoordinator_def Let_def)
  with r have ps: "ps = [1, 2]" by simp
  obtain ps' c' f' where r': "coordinator_run example_opts [Restart, SessionStarts IoOk ''s'' None] (c, f) = (ps', c', f')"
    by (metis prod.collapse)
  from coordinator_never_goes_back [OF r r'] r r' ps show ?thesis by auto
qed

text \<open>
  A registry write that failed is not made up for: the second call finds nothing new and returns as
  if the entries were durable, and a crash forgets them.
\<close>

theorem failed_consume_is_not_retried:
  "\<exists>c. markConsumed [''e''] IoFailBefore first_session None = (False, c, None)
     \<and> markConsumed [''e''] IoOk c None = (True, c, None) \<and> on_disk None = []"
  by (simp add: markConsumed_def add_new_def persist_state_def atomic_write_def on_disk_def loadCoordinator_def first_session_def
      onSessionStart_def mint_def example_opts_def startTimer_def new_session_coordinator_def emptyCoordinator_def Let_def)

text \<open>
  A token of cancelled work that settles late removes the set of newer work of the same generation:
  the switch that aborted the first work was given up, and the shutdown aborts only the first.
\<close>

theorem late_token_hides_newer_work:
  "\<exists>a c1 b c2. runExclusive 1 first_session = Some (a, c1) \<and> runExclusive 1 (onBeforeSwitch c1) = Some (b, c2)
     \<and> co_aborted (fst (snd (onShutdown IoOk (token_done a c2) None))) = [snd (snd a)] \<and> snd (snd b) \<noteq> snd (snd a)"
  by (simp add: runExclusive_def isCurrent_def registerWork_def onBeforeSwitch_def invalidateWork_def token_done_def onShutdown_def
      persist_state_def atomic_write_def first_session_def onSessionStart_def mint_def example_opts_def startTimer_def
      new_session_coordinator_def emptyCoordinator_def Let_def)

end
