(* ===== verification/Spec2Isabelle.thy ===== *)
theory Spec2Isabelle
  imports Prelude Json Paths Errors OutboxStore PrivateMode OutboxWorker Cursor Frontmatter
    Records Idempotency BoardMessages Adapter BoardRepository BoardDelivery DeliveryCycle
    BoardCleanup Guard JsonPretty Exclusions BackupExport BackupChunks BackupCapture BackupCoverage BackupVerify BackupRoundtrip BackupRecovery BackupRestore
    ConsumerLock Regex Redaction DataBlock
    Proposals ReflectionRecords ReflectionEngine
    Evidence PackRegistry Retrieval Sender ExplicitWrites Coordinator
begin

text \<open>
  Verification library of pi-kiwifs-memory, a memory, message-board and backup extension that
  keeps durable local state and talks to a KiwiFS backend through tool calls.

  Parts of the program and their theories. The order is the order of the calls: local state
  first, then the backend, then the features that use both.

  Prelude holds what the components share: result values, atomic file writes with their
  failures (an \<open>io\<close> value per write: done, failed before the rename, failed after it), character
  classes, splitting and joining, decimal numbers, association lists. Json models JSON values
  with \<open>JSON.stringify\<close> and \<open>JSON.parse\<close>; JsonPretty the indented form. Both are proved to read
  back what they print.

  Domain. Paths (domain/paths.ts): identifier and project grammars, the record, message,
  manifest and chunk paths, the containment checks. Frontmatter (backend/parse.ts) and Records
  (domain/records.ts): the stored record and the local artifact, reader and writer, with the
  round trip. Idempotency (domain/idempotency.ts, backend/ids.ts, backend/opid.ts): canonical
  JSON, keys, derived ids and the operation-id ledger; SHA-256 is an argument.

  Outbox. OutboxStore (outbox/store.ts): the journal, its lock, every command, retention, high
  water and restart; the file system is explicit, so that a failing write is a branch of every
  command. OutboxWorker (outbox/worker.ts): single-flight scheduling, scope heads, private-mode
  and target holds, delivery, retry and quarantine. Cursor (outbox/cursor.ts): the change
  cursor and the bounded reconciliation pass.

  Privacy. PrivateMode (privacy/private-mode.ts, privacy/live-gate.ts): both gates, their events
  and listeners. Exclusions (privacy/exclusions.ts): rules and their matching; the regular
  expression engine is an argument.

  Backend. Errors (backend/errors.ts): the error classes and the retry classification. Adapter
  (backend/adapter.ts): tool calls over any transport (a function of the call and of a state of
  any type), limits, retry, read, write, immutable write, append, delete. Guard
  (backend/guard.ts): the five fail-closed steps every retrieved record passes, and the packing
  of a brief.

  Board. BoardMessages (board/messages.ts, board/job.ts), BoardRepository (board/repository.ts),
  BoardDelivery and DeliveryCycle (board/delivery.ts): messages, send and discovery, and the
  polling cycle with its state file, dedupe set and cursor. BoardCleanup (board/cleanup-rules.ts,
  board/cleanup.ts, board/cleanup-execute.ts): eligibility, planning and the guarded deletes.

  Backup. BackupExport (backup/exporter.ts): session entries to views. BackupChunks
  (backup/chunker.ts, backup/manifest.ts): chunking and serialization. BackupCapture and
  BackupCoverage (backup/capture.ts): one capture with every point where it may fail, the
  coverage invariant, and the jobs it leaves, which are those the sender of the same file
  accepts.
  BackupVerify (backup/verify.ts), BackupRecovery (backup/recovery.ts), BackupRestore (the export
  in backup/verify.ts) and BackupRoundtrip: verification of a delivered backup against an
  independent reading of it, its recovery from the backend, and the local export with its
  clean-up. ConsumerLock (board/lock.ts): the lock of the board consumer as a function and as a
  step relation of several processes.

  Redaction and Regex (privacy/redaction.ts): the default patterns with an engine for their regular
  expressions, the entropy heuristic over the reals, the merge of spans. DataBlock: the fenced data
  block of a record body. Proposals (observation/proposals.ts): approval, rejection and undo over
  any store, with the operation log. ReflectionRecords and ReflectionEngine
  (observation/reflection.ts): validation of a model answer, payloads and records, and the engine
  with its pool, retries and splits. Sender (observation/sender.ts, outbox/target.ts, the target pin
  of runtime/session.ts): the dispatch of a job to its namespace and the pin that keeps retained
  jobs from being rerouted. ExplicitWrites (commands/personal-note.ts and its command in
  commands/registration.ts, the send tool of board/tools.ts): the writes a user or an agent asks
  for, down to the page that reads back.

  Retrieval. Evidence (inject/packer.ts, inject/injector.ts, retrieval/tokenizer.ts, the packs of
  retrieval/coordinator.ts): items, packs, framing and the token cap. PackRegistry: the registry
  of pending packs and the two injection handlers. Retrieval: the cycle with its legs and
  degradations, and a session of inputs and provider calls. Coordinator (pi/coordinator.ts): the
  durable generation, the registry of consumed entries, the lifecycle handlers and the work of a
  generation.

  How state and operations correspond: a class of the source is a record of its fields, an
  operation is a function from that record (and the file system, the backend state or the clock
  where it uses them) to a result and the next record; a thrown error is \<open>Inl\<close>; asynchronous
  calls are made in their order, each with its own answer, so an interleaving is a sequence of
  steps (\<open>flight_step\<close>, \<open>store_step\<close>). Record and function names are the source's, with a
  suffix or prefix where HOL has the name.

  What the lemma groups show: invariants of each state and their preservation (no pending job
  is dropped, the dedupe set and the backlog are never evicted, the cursor never goes back, every
  captured entry is covered once); safety of each effect (an immutable page is never
  overwritten, a delete follows a fresh confirmation, nothing leaves in private mode, only
  vetted text is packed); round trips of every format; bounds and termination of the loops
  (paging, retries, chunk size); the error behaviour of commands (rollback, quarantine).

  Interfaces are locales, each interpreted on the model: a durable operation of the outbox, a
  private gate (interpreted on both gates), a namespace of paths (the memory, a board channel, a
  backup tree).

  Bounds and fuel. Loops over input are structural recursion on the input. Loops with a
  documented bound (reconciliation pages, discovery pages, retries of a call, at most two
  attempts) recurse on that bound, so they end by construction and nothing is cut off that the
  code would do. The JSON reader has fuel, the length of its text plus one, and \<open>parse_stringify\<close>
  and \<open>parse_pretty\<close> show that it is enough. The regular-expression engine has the length of the text as
  fuel for a repetition, each turn of which consumes a character, and for the search of the next
  match. The split of a reflection set halves it, and the trimming of a pack drops an item a turn.
  A generation is bounded by the number of events, which has to stay below the safe integers. Numbers of the source that are integers are \<open>int\<close>,
  with the safe-integer checks written out where the code makes them; time is an integer of
  milliseconds; a time-to-live, which may be fractional, infinite or not a number, is \<open>js_num\<close>.

  What is not modelled, and why. Audit records, status and detail texts: they change no state
  that another operation reads. Timers and event wiring (board/runtime.ts, runtime/session.ts apart
  from the target pin, index.ts) and the other commands: they call the modelled operations. HTTP
  and MCP sessions (backend/transport.ts, backend/factory.ts): a third-party server, here the
  transport argument. The prompts and calls of an external model (observation/model.ts): its answer
  is an argument of the engine. The scheduling of observation batches (observation/scheduler.ts),
  the configuration schema, the discovery of a project identity and the recall tools are open.
\<close>

end
